(* ===== verification/Prelude.thy ===== *)
theory Prelude
  imports
    "HOL-Library.Word"
    "HOL-Library.List_Lexorder"
    "HOL-Library.AList"
    "HOL-Library.Sublist"
    "HOL-Library.Multiset"
begin

text \<open>
  Shared vocabulary of the development: JavaScript strings as sequences of 16-bit code
  units with the order of the comparison operators, byte strings, \<open>Map\<close> and plain objects
  as association lists in insertion order, errors as values, and the small state-and-error
  combinators in which the asynchronous methods are written. It also holds the generic
  lemmas and the rewrite collections every component uses.
\<close>

section \<open>Rewrite collections\<close>

named_theorems act_simps \<open>unfolding rules of the state-and-error combinators\<close>
named_theorems str_simps \<open>evaluation of string helpers on literals\<close>

section \<open>Strings and bytes\<close>

type_synonym code_unit = "16 word"
type_synonym jsstring = "16 word list"
type_synonym byte = "8 word"
type_synonym bytes = "8 word list"

lemma unat_byte: "unat (b :: byte) < 256"
  using unsigned_less[of b, where ?'a = nat] by simp

text \<open>A string literal of the source: ASCII characters as code units.\<close>

definition js :: "string \<Rightarrow> jsstring" where
  "js s = map of_char s"

lemma js_Nil [simp, str_simps]: "js [] = []"
  by (simp add: js_def)

lemma js_Cons [str_simps]: "js (c # cs) = of_char c # js cs"
  by (simp add: js_def)

lemma length_js [simp]: "length (js s) = length s"
  by (simp add: js_def)

lemma of_char_code_unit_inject: "(of_char c :: code_unit) = of_char d \<longleftrightarrow> c = d"
proof
  assume "(of_char c :: code_unit) = of_char d"
  then have "unat (of_nat (of_char c) :: code_unit) = unat (of_nat (of_char d) :: code_unit)"
    by (simp only: of_nat_of_char)
  then have "(of_char c :: nat) mod 65536 = of_char d mod 65536"
    by (simp add: unat_of_nat take_bit_eq_mod)
  moreover have "(of_char e :: nat) mod 65536 = of_char e" for e :: char
  proof -
    have "(of_char e :: nat) = of_char (char_of (of_char e :: nat))" by (simp only: char_of_char)
    also have "\<dots> = of_char e mod 256" by (rule of_char_of)
    finally have "(of_char e :: nat) = of_char e mod 256" .
    moreover have "(of_char e :: nat) mod 256 < 256" by (rule mod_less_divisor) simp
    ultimately have "(of_char e :: nat) < 65536" by linarith
    then show ?thesis by (rule mod_less)
  qed
  ultimately have "(of_char c :: nat) = of_char d" by simp
  then show "c = d" by simp
qed simp

lemma js_inject [simp]: "js x = js y \<longleftrightarrow> x = y"
  unfolding js_def
  by (rule inj_map_eq_map) (simp add: inj_def of_char_code_unit_inject)

text \<open>\<^verbatim>\<open>"\u0000"\<close>, the separator of composite keys.\<close>

abbreviation SEP :: code_unit where
  "SEP \<equiv> 0"

text \<open>\<^verbatim>\<open>xs.join(sep)\<close>.\<close>

fun js_join :: "jsstring \<Rightarrow> jsstring list \<Rightarrow> jsstring" where
  "js_join sep [] = []"
| "js_join sep [x] = x"
| "js_join sep (x # y # xs) = x @ sep @ js_join sep (y # xs)"

text \<open>\<^verbatim>\<open>s.split(c)\<close> for a one-code-unit separator; never empty.\<close>

fun js_split :: "code_unit \<Rightarrow> jsstring \<Rightarrow> jsstring list" where
  "js_split c [] = [[]]"
| "js_split c (x # xs) =
     (if x = c then [] # js_split c xs
      else (case js_split c xs of
              [] \<Rightarrow> [[x]]
            | w # ws \<Rightarrow> (x # w) # ws))"

lemma js_split_not_Nil [simp]: "js_split c s \<noteq> []"
  by (induction s) (auto split: list.splits)

lemma js_split_no_sep: "c \<notin> set s \<Longrightarrow> js_split c s = [s]"
  by (induction s) auto

lemma js_split_append_sep:
  "c \<notin> set s \<Longrightarrow> js_split c (s @ c # t) = s # js_split c t"
  by (induction s) auto

text \<open>\<^verbatim>\<open>s.startsWith(p)\<close>.\<close>

definition starts_with :: "jsstring \<Rightarrow> jsstring \<Rightarrow> bool" where
  "starts_with s p \<longleftrightarrow> prefix p s"

text \<open>\<^verbatim>\<open>s.padStart(n, c)\<close> for a one-code-unit filler.\<close>

definition pad_start :: "nat \<Rightarrow> code_unit \<Rightarrow> jsstring \<Rightarrow> jsstring" where
  "pad_start n c s = replicate (n - length s) c @ s"

lemma length_pad_start [simp]: "length (pad_start n c s) = max n (length s)"
  by (simp add: pad_start_def)

section \<open>Order of strings\<close>

text \<open>
  \<^verbatim>\<open><\<close> on strings is the lexicographic order of code units, which is the library's
  order of lists over the unsigned order of words.
\<close>

lemma list_less_same_prefix [simp]:
  "(p @ xs < p @ ys) = (xs < (ys :: 'a::linorder list))"
  by (induction p) auto

lemma list_less_append_eq_length:
  fixes xs ys :: "'a::linorder list"
  assumes "length xs = length ys" "xs \<noteq> ys"
  shows "(xs @ us < ys @ vs) = (xs < ys)"
  using assms
proof (induction xs ys rule: list_induct2)
  case Nil
  then show ?case by simp
next
  case (Cons x xs y ys)
  then show ?case by (cases "x = y") auto
qed

lemma list_less_append_cases:
  fixes xs ys :: "'a::linorder list"
  assumes "length xs = length ys"
  shows "(xs @ us < ys @ vs) = (xs < ys \<or> (xs = ys \<and> us < vs))"
  using assms list_less_append_eq_length[of xs ys us vs] by (cases "xs = ys") auto

lemma map_strict_mono_less:
  fixes f :: "'a::linorder \<Rightarrow> 'b::linorder"
  assumes "\<And>x y. x \<in> set xs \<union> set ys \<Longrightarrow> y \<in> set xs \<union> set ys \<Longrightarrow> (f x < f y) = (x < y)"
  shows "(map f xs < map f ys) = (xs < ys)"
  using assms
proof (induction xs arbitrary: ys)
  case Nil
  then show ?case by (cases ys) auto
next
  case (Cons x xs)
  show ?case
  proof (cases ys)
    case Nil
    then show ?thesis by simp
  next
    case ys: (Cons y zs)
    have IH: "(map f xs < map f zs) = (xs < zs)"
      by (rule Cons.IH) (simp add: Cons.prems ys)
    have xy: "(f x < f y) = (x < y)" "(f y < f x) = (y < x)"
      by (simp_all add: Cons.prems ys)
    then have "(f x = f y) = (x = y)"
      by (metis linorder_neq_iff)
    with IH xy ys show ?thesis by auto
  qed
qed

section \<open>Errors and results\<close>

text \<open>
  The exceptions of the core package. A class with a \<^verbatim>\<open>code\<close> is a constructor of its own;
  a plain \<^verbatim>\<open>Error\<close> (also the rejection of a storage driver) carries its message.
  \<open>ClockDriftError\<close> carries the two constructor arguments its message is built from.
\<close>

datatype js_error =
    Error jsstring
  | ClockDriftError nat nat
  | BadOpError jsstring
  | DecryptError jsstring

type_synonym 'a result = "js_error + 'a"

definition bind_res :: "'e + 'a \<Rightarrow> ('a \<Rightarrow> 'e + 'b) \<Rightarrow> 'e + 'b" where
  "bind_res r f = (case r of Inl e \<Rightarrow> Inl e | Inr x \<Rightarrow> f x)"

lemma bind_res_simps [simp]:
  "bind_res (Inl e) f = Inl e"
  "bind_res (Inr x) f = f x"
  by (simp_all add: bind_res_def)

lemma bind_res_eq_Inr:
  "bind_res r f = Inr y \<longleftrightarrow> (\<exists>x. r = Inr x \<and> f x = Inr y)"
  by (cases r) auto

text \<open>\<^verbatim>\<open>if (!b) throw e\<close>.\<close>

definition check :: "bool \<Rightarrow> 'e \<Rightarrow> 'e + unit" where
  "check b e = (if b then Inr () else Inl e)"

lemma check_simps [simp]:
  "check True e = Inr ()"
  "check False e = Inl e"
  by (simp_all add: check_def)

lemma check_eq_Inr: "check b e = Inr u \<longleftrightarrow> b"
  by (simp add: check_def)

text \<open>A loop that validates each element and stops at the first error.\<close>

fun check_all :: "('a \<Rightarrow> 'e + unit) \<Rightarrow> 'a list \<Rightarrow> 'e + unit" where
  "check_all f [] = Inr ()"
| "check_all f (x # xs) = bind_res (f x) (\<lambda>_. check_all f xs)"

lemma check_all_eq_Inr:
  "check_all f xs = Inr u \<longleftrightarrow> (\<forall>x \<in> set xs. f x = Inr ())"
  by (induction xs) (auto simp: bind_res_eq_Inr)

lemma check_all_cong [fundef_cong]:
  "xs = ys \<Longrightarrow> (\<And>x. x \<in> set ys \<Longrightarrow> f x = g x) \<Longrightarrow> check_all f xs = check_all g ys"
  by (induction xs arbitrary: ys) auto

fun map_res :: "('a \<Rightarrow> 'e + 'b) \<Rightarrow> 'a list \<Rightarrow> 'e + 'b list" where
  "map_res f [] = Inr []"
| "map_res f (x # xs) = bind_res (f x) (\<lambda>y. bind_res (map_res f xs) (\<lambda>ys. Inr (y # ys)))"

lemma map_res_eq_Inr:
  "map_res f xs = Inr ys \<longleftrightarrow> list_all2 (\<lambda>x y. f x = Inr y) xs ys"
  by (induction xs arbitrary: ys) (auto simp: bind_res_eq_Inr list_all2_Cons1)

lemma map_res_mem: "map_res f xs = Inr ys \<Longrightarrow> y \<in> set ys \<Longrightarrow> \<exists>x \<in> set xs. f x = Inr y"
  by (induction xs arbitrary: ys) (auto simp: bind_res_eq_Inr)

text \<open>A search that returns the first problem found.\<close>

fun first_some :: "('a \<Rightarrow> 'b option) \<Rightarrow> 'a list \<Rightarrow> 'b option" where
  "first_some f [] = None"
| "first_some f (x # xs) = (case f x of Some y \<Rightarrow> Some y | None \<Rightarrow> first_some f xs)"

lemma first_some_None: "first_some f xs = None \<longleftrightarrow> (\<forall>x \<in> set xs. f x = None)"
  by (induction xs) (auto split: option.splits)

lemma first_some_Some: "first_some f xs = Some y \<Longrightarrow> \<exists>x \<in> set xs. f x = Some y"
  by (induction xs) (auto split: option.splits)

lemma first_some_then:
  "(case first_some f xs of Some b \<Rightarrow> Some b | None \<Rightarrow> r) = None \<longleftrightarrow> (\<forall>x \<in> set xs. f x = None) \<and> r = None"
  using first_some_None[of f xs] by (cases "first_some f xs") auto

lemma first_some_cong [fundef_cong]:
  "xs = ys \<Longrightarrow> (\<And>x. x \<in> set ys \<Longrightarrow> f x = g x) \<Longrightarrow> first_some f xs = first_some g ys"
  by (induction xs arbitrary: ys) (auto split: option.splits)

section \<open>Actions: state and errors\<close>

text \<open>
  A method that may throw after changing its object: the state is kept on both outcomes,
  because a JavaScript exception does not undo earlier assignments.
\<close>

type_synonym ('s, 'a) act = "'s \<Rightarrow> 'a result \<times> 's"

definition ret :: "'a \<Rightarrow> ('s, 'a) act" where
  "ret x = (\<lambda>s. (Inr x, s))"

definition throw :: "js_error \<Rightarrow> ('s, 'a) act" where
  "throw e = (\<lambda>s. (Inl e, s))"

definition bind_act :: "('s, 'a) act \<Rightarrow> ('a \<Rightarrow> ('s, 'b) act) \<Rightarrow> ('s, 'b) act" where
  "bind_act m f = (\<lambda>s. case m s of (Inl e, s') \<Rightarrow> (Inl e, s') | (Inr x, s') \<Rightarrow> f x s')"

definition lift_res :: "'a result \<Rightarrow> ('s, 'a) act" where
  "lift_res r = (\<lambda>s. (r, s))"

definition gets :: "('s \<Rightarrow> 'a) \<Rightarrow> ('s, 'a) act" where
  "gets f = (\<lambda>s. (Inr (f s), s))"

definition modify :: "('s \<Rightarrow> 's) \<Rightarrow> ('s, unit) act" where
  "modify f = (\<lambda>s. (Inr (), f s))"

fun map_act :: "('a \<Rightarrow> ('s, 'b) act) \<Rightarrow> 'a list \<Rightarrow> ('s, 'b list) act" where
  "map_act f [] = ret []"
| "map_act f (x # xs) =
     bind_act (f x) (\<lambda>y. bind_act (map_act f xs) (\<lambda>ys. ret (y # ys)))"

lemma act_unfold [act_simps]:
  "ret x s = (Inr x, s)"
  "throw e s = (Inl e, s)"
  "lift_res r s = (r, s)"
  "gets f s = (Inr (f s), s)"
  "modify h s = (Inr (), h s)"
  by (simp_all add: ret_def throw_def lift_res_def gets_def modify_def)

lemma bind_act_eq:
  "bind_act m f s = (case m s of (Inl e, s') \<Rightarrow> (Inl e, s') | (Inr x, s') \<Rightarrow> f x s')"
  by (simp add: bind_act_def)

lemma bind_act_Inr_iff:
  "bind_act m f s = (Inr y, s'') \<longleftrightarrow> (\<exists>x s'. m s = (Inr x, s') \<and> f x s' = (Inr y, s''))"
  by (auto simp: bind_act_def split: prod.splits sum.splits)

lemma bind_act_Inl_iff:
  "bind_act m f s = (Inl e, s'') \<longleftrightarrow>
     m s = (Inl e, s'') \<or> (\<exists>x s'. m s = (Inr x, s') \<and> f x s' = (Inl e, s''))"
  by (auto simp: bind_act_def split: prod.splits sum.splits)

section \<open>Maps and objects as association lists\<close>

text \<open>
  A \<^verbatim>\<open>Map\<close> or a plain object used as a dictionary keeps its keys in insertion order and
  updates in place: that is \<open>AList.update\<close> on a list with distinct keys.
\<close>

type_synonym ('k, 'v) jsmap = "('k \<times> 'v) list"

abbreviation dkeys :: "('k, 'v) jsmap \<Rightarrow> bool" where
  "dkeys m \<equiv> distinct (map fst m)"

abbreviation map_set :: "'k \<Rightarrow> 'v \<Rightarrow> ('k, 'v) jsmap \<Rightarrow> ('k, 'v) jsmap" where
  "map_set \<equiv> AList.update"

abbreviation map_del :: "'k \<Rightarrow> ('k, 'v) jsmap \<Rightarrow> ('k, 'v) jsmap" where
  "map_del \<equiv> AList.delete"

lemma dkeys_map_set [intro, simp]: "dkeys m \<Longrightarrow> dkeys (map_set k v m)"
  by (rule distinct_update)

lemma dkeys_map_del [intro, simp]: "dkeys m \<Longrightarrow> dkeys (map_del k m)"
  by (rule distinct_delete)

lemma map_of_map_set [simp]: "map_of (map_set k v m) = (map_of m)(k \<mapsto> v)"
  by (simp add: fun_eq_iff update_conv)

lemma map_of_map_del [simp]: "map_of (map_del k m) = (map_of m)(k := None)"
  by (simp add: fun_eq_iff delete_conv)

lemma fst_set_eq_dom: "fst ` set m = dom (map_of m)"
  by (simp add: dom_map_of_conv_image_fst)

lemma fold_concat_map: "fold g (concat (map f xs)) = fold (\<lambda>x. fold g (f x)) xs"
  by (induction xs) (simp_all add: fun_eq_iff)

lemma set_map_set_subset: "set (map_set k v m) \<subseteq> insert (k, v) (set m)"
  by (induction m) auto

lemma card_dom_map_of: "dkeys m \<Longrightarrow> card (dom (map_of m)) = length m"
  using distinct_card[of "map fst m"] by (simp add: fst_set_eq_dom)

lemma map_set_fresh: "k \<notin> fst ` set m \<Longrightarrow> map_set k v m = m @ [(k, v)]"
  by (induction m) auto

lemma map_set_not_Nil [simp]: "map_set k v m \<noteq> []"
  by (induction m) auto

lemma map_del_eq_Nil: "map_del k m = [] \<longleftrightarrow> (\<forall>k'. k' \<noteq> k \<longrightarrow> map_of m k' = None)"
proof -
  have "map_del k m = [] \<longleftrightarrow> dom (map_of (map_del k m)) = {}"
    by (metis dom_map_of_conv_image_fst image_is_empty set_empty)
  then show ?thesis by (auto simp: dom_def split: if_splits)
qed

lemma map_of_ran_set: "dkeys m \<Longrightarrow> ran (map_of m) = snd ` set m"
  by (auto simp: ran_def image_iff intro: map_of_is_SomeI) (metis map_of_SomeD snd_conv)

lemma ball_map_of: "dkeys m \<Longrightarrow> (\<forall>(k, v) \<in> set m. P k v) \<longleftrightarrow> (\<forall>k v. map_of m k = Some v \<longrightarrow> P k v)"
  by (auto dest: map_of_SomeD)

text \<open>Sets kept as lists without repetition (\<^verbatim>\<open>new Set\<close>, in insertion order).\<close>

definition set_add :: "'a \<Rightarrow> 'a list \<Rightarrow> 'a list" where
  "set_add x xs = (if x \<in> set xs then xs else xs @ [x])"

definition set_of :: "'a list \<Rightarrow> 'a list" where
  "set_of xs = fold set_add xs []"

lemma set_set_add [simp]: "set (set_add x xs) = insert x (set xs)"
  by (auto simp: set_add_def)

lemma distinct_set_add [simp]: "distinct (set_add x xs) = distinct xs"
  by (auto simp: set_add_def)

lemma set_fold_set_add [simp]: "set (fold set_add xs acc) = set xs \<union> set acc"
  by (induction xs arbitrary: acc) auto

lemma distinct_fold_set_add [simp]: "distinct (fold set_add xs acc) = distinct acc"
  by (induction xs arbitrary: acc) auto

lemma set_set_of [simp]: "set (set_of xs) = set xs"
  by (simp add: set_of_def)

lemma distinct_set_of [simp]: "distinct (set_of xs)"
  by (simp add: set_of_def)

end
