(* ===== verification/Digits.thy ===== *)
theory Digits
  imports Prelude
begin

text \<open>
  Positional notation: \<^verbatim>\<open>Number.prototype.toString(radix)\<close> on natural numbers, its inverse
  on digit strings, and the fixed-width digit lists behind \<^verbatim>\<open>padStart\<close>. The two facts the
  clock and the identifiers rest on are here: fixed-width encodings can be read back, and
  they are ordered as the numbers are.
\<close>

section \<open>Digit characters\<close>

definition digit_char :: "nat \<Rightarrow> code_unit" where
  "digit_char d = (if d < 10 then 48 + of_nat d else 87 + of_nat d)"

definition is_hex :: "code_unit \<Rightarrow> bool" where
  "is_hex c \<longleftrightarrow> (48 \<le> c \<and> c \<le> 57) \<or> (97 \<le> c \<and> c \<le> 102)"

definition digit_val :: "code_unit \<Rightarrow> nat" where
  "digit_val c = (if c \<le> 57 then unat c - 48 else unat c - 87)"

lemma unat_digit_char:
  assumes "d < 36"
  shows "unat (digit_char d) = (if d < 10 then 48 + d else 87 + d)"
proof -
  have "unat (of_nat d :: code_unit) = d"
    using assms by (simp add: unat_of_nat take_bit_eq_mod)
  then show ?thesis
    using assms by (simp add: digit_char_def unat_word_ariths)
qed

lemma digit_char_less_iff:
  "d < 36 \<Longrightarrow> e < 36 \<Longrightarrow> digit_char d < digit_char e \<longleftrightarrow> d < e"
  by (auto simp: word_less_nat_alt unat_digit_char)

lemma digit_char_inject: "d < 36 \<Longrightarrow> e < 36 \<Longrightarrow> digit_char d = digit_char e \<longleftrightarrow> d = e"
  by (metis digit_char_less_iff linorder_neq_iff)

lemma digit_val_digit_char [simp]: "d < 36 \<Longrightarrow> digit_val (digit_char d) = d"
  by (auto simp: digit_val_def word_le_nat_alt unat_digit_char split: if_splits)

lemma is_hex_digit_char [simp]: "d < 16 \<Longrightarrow> is_hex (digit_char d)"
  by (auto simp: is_hex_def word_le_nat_alt unat_digit_char)

lemma digit_val_less: "is_hex c \<Longrightarrow> digit_val c < 16"
  by (auto simp: is_hex_def digit_val_def word_le_nat_alt)

lemma digit_char_digit_val [simp]: "is_hex c \<Longrightarrow> digit_char (digit_val c) = c"
  by (rule word_unat_eq_iff [THEN iffD2], subst unat_digit_char)
     (auto simp: is_hex_def digit_val_def word_le_nat_alt)

lemma map_digit_char_less:
  assumes "\<forall>d \<in> set xs \<union> set ys. d < 36"
  shows "(map digit_char xs < map digit_char ys) = (xs < ys)"
  using assms by (intro map_strict_mono_less) (simp add: digit_char_less_iff)

section \<open>Numbers to strings and back\<close>

text \<open>\<^verbatim>\<open>n.toString(b)\<close> for a natural number.\<close>

fun to_base :: "nat \<Rightarrow> nat \<Rightarrow> jsstring" where
  "to_base b n =
     (if n < b \<or> b < 2 then [digit_char n]
      else to_base b (n div b) @ [digit_char (n mod b)])"

declare to_base.simps [simp del]

text \<open>\<^verbatim>\<open>parseInt(s, b)\<close> on a string of digits of base \<open>b\<close>.\<close>

definition parse_base :: "nat \<Rightarrow> jsstring \<Rightarrow> nat" where
  "parse_base b s = foldl (\<lambda>a c. a * b + digit_val c) 0 s"

section \<open>Fixed-width digit lists\<close>

fun digits :: "nat \<Rightarrow> nat \<Rightarrow> nat \<Rightarrow> nat list" where
  "digits b 0 m = []"
| "digits b (Suc n) m = digits b n (m div b) @ [m mod b]"

definition undigits :: "nat \<Rightarrow> nat list \<Rightarrow> nat" where
  "undigits b ds = foldl (\<lambda>a d. a * b + d) 0 ds"

lemma length_digits [simp]: "length (digits b n m) = n"
  by (induction n arbitrary: m) auto

lemma digits_bound: "0 < b \<Longrightarrow> d \<in> set (digits b n m) \<Longrightarrow> d < b"
  by (induction n arbitrary: m) auto

lemma undigits_digits: "undigits b (digits b n m) = m mod b ^ n"
proof (induction n arbitrary: m)
  case 0
  then show ?case by (simp add: undigits_def)
next
  case (Suc n)
  have "m mod (b * b ^ n) = b * (m div b mod b ^ n) + m mod b"
    by (rule mod_mult2_eq)
  with Suc.IH[of "m div b"] show ?case
    by (simp add: undigits_def mult.commute)
qed

lemma digits_inject:
  "a < b ^ n \<Longrightarrow> c < b ^ n \<Longrightarrow> digits b n a = digits b n c \<longleftrightarrow> a = c"
  by (metis mod_less undigits_digits)

lemma digits_mono_less:
  assumes "a < b ^ n" "c < b ^ n"
  shows "digits b n a < digits b n c \<longleftrightarrow> a < c"
  using assms
proof (induction n arbitrary: a c)
  case 0
  then show ?case by simp
next
  case (Suc n)
  have div: "a div b < b ^ n" "c div b < b ^ n"
    using Suc.prems by (simp_all add: less_mult_imp_div_less mult.commute)
  have "digits b (Suc n) a < digits b (Suc n) c \<longleftrightarrow>
      a div b < c div b \<or> (a div b = c div b \<and> a mod b < c mod b)"
    using Suc.IH[OF div] digits_inject[OF div]
    by (simp add: list_less_append_cases)
  also have "\<dots> \<longleftrightarrow> a < c"
  proof (cases "a div b = c div b")
    case True
    then have "a < c \<longleftrightarrow> a mod b < c mod b"
      by (metis add_less_cancel_left mult_div_mod_eq)
    with True show ?thesis by simp
  next
    case False
    then have "a div b < c div b \<longleftrightarrow> a < c"
      by (metis div_le_mono le_antisym linorder_not_less nat_less_le)
    with False show ?thesis by simp
  qed
  finally show ?case .
qed

lemma digits_undigits:
  "\<forall>d \<in> set ds. d < b \<Longrightarrow> digits b (length ds) (undigits b ds) = ds"
proof (induction ds rule: rev_induct)
  case Nil
  then show ?case by simp
next
  case (snoc d ds)
  then have "d < b" by simp
  with snoc show ?case by (simp add: undigits_def)
qed

lemma undigits_bound: "\<forall>d \<in> set ds. d < b \<Longrightarrow> 0 < b \<Longrightarrow> undigits b ds < b ^ length ds"
  by (metis digits_undigits length_digits mod_less_divisor undigits_digits zero_less_power)

lemma parse_base_map_digit_char:
  "\<forall>d \<in> set ds. d < 36 \<Longrightarrow> parse_base b (map digit_char ds) = undigits b ds"
  by (induction ds rule: rev_induct) (auto simp: parse_base_def undigits_def)

lemma digits_mod: "digits b n (m mod b ^ n) = digits b n m"
proof (induction n arbitrary: m)
  case 0
  then show ?case by simp
next
  case (Suc n)
  have "m mod (b * b ^ n) div b = m div b mod b ^ n"
    by (cases "b = 0") (simp_all add: mod_mult2_eq)
  moreover have "m mod (b * b ^ n) mod b = m mod b"
    by (simp add: mod_mult2_eq)
  ultimately show ?case using Suc.IH[of "m div b"] by simp
qed

lemma digits_cong: "x mod b ^ n = y mod b ^ n \<Longrightarrow> digits b n x = digits b n y"
  by (metis digits_mod)

lemma digits_add: "digits b (n + k) m = digits b n (m div b ^ k) @ digits b k m"
  by (induction k arbitrary: m) (simp_all add: div_mult2_eq mult.commute)

lemma digits_top: "digits b (Suc n) m = (m div b ^ n mod b) # digits b n m"
proof -
  have "digits b (Suc n) m = digits b (1 + n) m" by simp
  also have "\<dots> = digits b 1 (m div b ^ n) @ digits b n m" by (rule digits_add)
  also have "digits b 1 (m div b ^ n) = [m div b ^ n mod b]" by simp
  finally show ?thesis by simp
qed

section \<open>Padding\<close>

lemma to_base_digits:
  assumes "2 \<le> b" "n \<noteq> 0"
  shows "\<exists>k. to_base b n = map digit_char (digits b k n) \<and> n < b ^ k \<and> b ^ (k - 1) \<le> n \<and> 0 < k"
  using assms
proof (induction b n rule: to_base.induct)
  case (1 b n)
  show ?case
  proof (cases "n < b")
    case True
    then show ?thesis using 1(2,3)
      by (intro exI[of _ 1]) (simp add: to_base.simps[of b n])
  next
    case False
    with 1(2) have "n div b \<noteq> 0" by (simp add: div_greater_zero_iff)
    with 1 False obtain k where k: "to_base b (n div b) = map digit_char (digits b k (n div b))"
      "n div b < b ^ k" "b ^ (k - 1) \<le> n div b" "0 < k" by auto
    have "n < b ^ Suc k"
      using k(2) 1(2) by (simp add: div_less_iff_less_mult mult.commute)
    moreover have "b ^ k \<le> n"
    proof -
      have "b ^ k = b ^ (k - 1) * b" using k(4) by (cases k) simp_all
      also have "\<dots> \<le> (n div b) * b" using k(3) by simp
      also have "\<dots> \<le> n" by simp
      finally show ?thesis .
    qed
    ultimately show ?thesis
      using k False 1(2) by (intro exI[of _ "Suc k"]) (simp add: to_base.simps[of b n])
  qed
qed

lemma digits_pad:
  "m < b ^ k \<Longrightarrow> digits b (j + k) m = replicate j 0 @ digits b k m"
proof (induction k arbitrary: m)
  case 0
  then have "m = 0" by simp
  have "digits b j 0 = replicate j 0"
    by (induction j) (auto simp: replicate_append_same)
  with \<open>m = 0\<close> show ?case by simp
next
  case (Suc k)
  then have "m div b < b ^ k" by (simp add: less_mult_imp_div_less mult.commute)
  with Suc.IH show ?case by simp
qed

lemma pad_start_to_base:
  assumes "2 \<le> b" "m < b ^ n" "0 < n"
  shows "pad_start n 48 (to_base b m) = map digit_char (digits b n m)"
proof (cases "m = 0")
  case True
  have "digits b n 0 = replicate n 0"
    using digits_pad[of 0 b 0 n] by simp
  moreover have "replicate (n - 1) (48::code_unit) @ [48] = replicate n 48"
    using assms(3) by (metis Suc_diff_1 replicate_Suc replicate_append_same)
  ultimately show ?thesis
    using True assms(1) by (simp add: pad_start_def to_base.simps[of b 0] digit_char_def)
next
  case False
  from to_base_digits[OF assms(1) False] obtain k
    where k: "to_base b m = map digit_char (digits b k m)" "m < b ^ k" "b ^ (k - 1) \<le> m" "0 < k"
    by auto
  have "k \<le> n"
  proof (rule ccontr)
    assume "\<not> k \<le> n"
    then have "b ^ n \<le> b ^ (k - 1)" using assms(1) by (intro power_increasing) auto
    with k(3) assms(2) show False by simp
  qed
  then have "digits b n m = replicate (n - k) 0 @ digits b k m"
    using digits_pad[OF k(2), of "n - k"] by simp
  with k(1) show ?thesis
    by (simp add: pad_start_def digit_char_def map_replicate_const)
qed

end
