(* ===== verification/Doubles.thy ===== *)
theory Doubles
  imports Digits
begin

text \<open>
  The numbers of the language. A double is represented by what \<^verbatim>\<open>Number::toString\<close> computes
  from it: sign, shortest decimal digits and position of the point. The reading of a decimal
  literal rounds it to the nearest double and takes that double's shortest digits.
\<close>

section \<open>Representation\<close>

text \<open>
  The value of \<open>Dec neg ds n\<close> is \<open>0.ds \<times> 10^n\<close>. The non-finite values are separate; the two
  zeros are one value, since nothing in the code tells them apart (both print as \<^verbatim>\<open>0\<close> and
  compare equal).
\<close>

datatype jsnum =
    NaN
  | Infinity bool
  | Zero
  | Dec bool "nat list" int

text \<open>\<^verbatim>\<open>Number.isFinite\<close>.\<close>

fun is_finite :: "jsnum \<Rightarrow> bool" where
  "is_finite NaN \<longleftrightarrow> False"
| "is_finite (Infinity neg) \<longleftrightarrow> False"
| "is_finite _ \<longleftrightarrow> True"

section \<open>Rounding to a double\<close>

text \<open>The quotient \<open>a / b\<close> rounded to an integer, ties to even.\<close>

definition round_even :: "nat \<Rightarrow> nat \<Rightarrow> nat" where
  "round_even a b = (let d = a div b; r = a mod b in
     if 2 * r < b then d else if b < 2 * r then d + 1 else if even d then d else d + 1)"

fun bit_length :: "nat \<Rightarrow> nat" where
  "bit_length n = (if n = 0 then 0 else Suc (bit_length (n div 2)))"

declare bit_length.simps [simp del]

text \<open>The integer part of the binary logarithm of \<open>p / q\<close>.\<close>

definition log2_quot :: "nat \<Rightarrow> nat \<Rightarrow> int" where
  "log2_quot p q = (if q \<le> p then int (bit_length (p div q)) - 1 else - int (bit_length ((q - 1) div p)))"

text \<open>\<open>b^e\<close> as a fraction.\<close>

definition pow_frac :: "nat \<Rightarrow> int \<Rightarrow> nat \<times> nat" where
  "pow_frac b e = (if 0 \<le> e then (b ^ nat e, 1) else (1, b ^ nat (- e)))"

text \<open>
  The double nearest to \<open>p / q\<close> as mantissa and exponent: 53 bits of precision, the smallest
  exponent is that of the subnormals. A mantissa rounded up to \<open>2^53\<close> moves to the next binade.
\<close>

definition nearest :: "nat \<Rightarrow> nat \<Rightarrow> nat \<times> int" where
  "nearest p q =
     (let e = max (- 1074) (log2_quot p q - 52); (u, v) = pow_frac 2 e; m = round_even (p * v) (q * u)
      in if m = 2 ^ 53 then (2 ^ 52, e + 1) else (m, e))"

definition overflows :: "nat \<times> int \<Rightarrow> bool" where
  "overflows d \<longleftrightarrow> 2 ^ 52 \<le> fst d \<and> 971 < snd d"

section \<open>Shortest digits\<close>

text \<open>The fraction \<open>s \<times> 10^x\<close>.\<close>

definition dec_frac :: "nat \<Rightarrow> int \<Rightarrow> nat \<times> nat" where
  "dec_frac s x = (let (u, v) = pow_frac 10 x in (s * u, v))"

definition reads_as :: "nat \<times> int \<Rightarrow> nat \<Rightarrow> int \<Rightarrow> bool" where
  "reads_as d s x \<longleftrightarrow> (let (p, q) = dec_frac s x in 0 < p \<and> nearest p q = d)"

text \<open>
  The candidate with \<open>k\<close> digits: of the two neighbours of the value with that precision, the one
  that reads as the double, and the closer one if both do, the even one if they are equally close.
\<close>

definition candidate_digits :: "nat \<times> int \<Rightarrow> int \<Rightarrow> nat \<Rightarrow> nat option" where
  "candidate_digits d n k =
     (let x = n - int k; (u, v) = pow_frac 2 (snd d); (a, b) = pow_frac 10 x;
          num = fst d * u * b; den = v * a; s = num div den; near = round_even num den
      in if reads_as d s x \<and> reads_as d (s + 1) x then Some near
         else if reads_as d s x then Some s
         else if reads_as d (s + 1) x then Some (s + 1) else None)"

fun dec_digits :: "nat \<Rightarrow> nat list" where
  "dec_digits n = (if n < 10 then [n] else dec_digits (n div 10) @ [n mod 10])"

declare dec_digits.simps [simp del]

text \<open>The least number \<open>n\<close> with the value below \<open>10^n\<close>, found from an estimate upwards.\<close>

fun point_from :: "nat \<times> nat \<Rightarrow> nat \<Rightarrow> int \<Rightarrow> int" where
  "point_from pq 0 n = n"
| "point_from pq (Suc f) n =
     (let (a, b) = pow_frac 10 n in if fst pq * b < a * snd pq then n else point_from pq f (n + 1))"

definition frac_of :: "nat \<times> int \<Rightarrow> nat \<times> nat" where
  "frac_of d = (let (u, v) = pow_frac 2 (snd d) in (fst d * u, v))"

definition decimal_point :: "nat \<times> int \<Rightarrow> int" where
  "decimal_point d = (let (p, q) = frac_of d in point_from (p, q) 4 ((log2_quot p q * 30103) div 100000 - 1))"

definition strip_zeros :: "nat list \<Rightarrow> nat list" where
  "strip_zeros ds = rev (dropWhile (\<lambda>c. c = 0) (rev ds))"

definition shortest :: "bool \<Rightarrow> nat \<times> int \<Rightarrow> jsnum" where
  "shortest neg d =
     (if fst d = 0 then Zero
      else if overflows d then Infinity neg
      else let n = decimal_point d in
        case find (\<lambda>k. candidate_digits d n k \<noteq> None) [1..<18] of
          None \<Rightarrow> NaN
        | Some k \<Rightarrow> let ds = dec_digits (the (candidate_digits d n k))
                    in Dec neg (strip_zeros ds) (n + int (length ds) - int k))"

section \<open>Decimal literals\<close>

text \<open>The number a literal with the digits \<open>ds\<close> and the point at \<open>n\<close> denotes.\<close>

definition undec :: "nat list \<Rightarrow> nat" where
  "undec ds = foldl (\<lambda>a d. 10 * a + d) 0 ds"

definition to_double :: "bool \<Rightarrow> nat list \<Rightarrow> int \<Rightarrow> jsnum" where
  "to_double neg ds n =
     (let (p, q) = dec_frac (undec ds) (n - int (length ds))
      in if p = 0 then Zero else shortest neg (nearest p q))"

text \<open>
  A finite number is a double when its digits are the shortest of what they read as. The digits
  have no leading and no trailing zero.
\<close>

fun wf_num :: "jsnum \<Rightarrow> bool" where
  "wf_num (Dec neg ds n) \<longleftrightarrow>
     ds \<noteq> [] \<and> list_all (\<lambda>d. d < 10) ds \<and> hd ds \<noteq> 0 \<and> last ds \<noteq> 0 \<and> to_double neg ds n = Dec neg ds n"
| "wf_num _ \<longleftrightarrow> True"

section \<open>Number::toString\<close>

definition dec_str :: "nat list \<Rightarrow> int \<Rightarrow> jsstring" where
  "dec_str ds n =
     (let k = int (length ds); dg = map digit_char ds in
      if k \<le> n \<and> n \<le> 21 then dg @ replicate (nat (n - k)) 48
      else if 0 < n \<and> n \<le> 21 then take (nat n) dg @ [46] @ drop (nat n) dg
      else if - 6 < n \<and> n \<le> 0 then [48, 46] @ replicate (nat (- n)) 48 @ dg
      else take 1 dg @ (if k = 1 then [] else 46 # drop 1 dg) @ [101] @
           (if n - 1 < 0 then [45] else [43]) @ to_base 10 (nat \<bar>n - 1\<bar>))"

text \<open>\<^verbatim>\<open>Number::toString\<close> in radix 10.\<close>

fun num_str :: "jsnum \<Rightarrow> jsstring" where
  "num_str NaN = js ''NaN''"
| "num_str (Infinity neg) = (if neg then [45] else []) @ js ''Infinity''"
| "num_str Zero = [48]"
| "num_str (Dec neg ds n) = (if neg then [45] else []) @ dec_str ds n"

end
