(* ===== verification/Json.thy ===== *)
theory Json
  imports Doubles
begin

text \<open>
  Values and their serialization: the values a program can hold (\<open>jsval\<close>, of which the
  type \<^verbatim>\<open>Json\<close> of core/src/op.ts is the part without \<^verbatim>\<open>undefined\<close> and functions),
  \<^verbatim>\<open>JSON.stringify\<close> of the language, and \<open>canonicalJson\<close> of core/src/signing.ts
  (RFC 8785, PROTOCOL.md section 8.1). The lemmas show that the canonical form does not
  depend on the order in which an object's keys were inserted.
\<close>

section \<open>Values\<close>

text \<open>
  \<open>JFun\<close> stands for the values that are neither JSON nor \<^verbatim>\<open>undefined\<close> (functions and
  symbols). An object is the list of its own enumerable entries in the order
  \<^verbatim>\<open>Object.entries\<close> yields them.
\<close>

datatype jsval =
    JUndef
  | JNull
  | JBool bool
  | JNum jsnum
  | JStr jsstring
  | JArr "jsval list"
  | JObj "(jsstring \<times> jsval) list"
  | JFun

text \<open>\<^verbatim>\<open>typeof v\<close>.\<close>

fun typeof :: "jsval \<Rightarrow> jsstring" where
  "typeof JUndef = js ''undefined''"
| "typeof (JBool b) = js ''boolean''"
| "typeof (JNum n) = js ''number''"
| "typeof (JStr s) = js ''string''"
| "typeof JFun = js ''function''"
| "typeof _ = js ''object''"

text \<open>
  The own keys of an object are listed with the array indices first, ascending, then the other
  names in the order of their insertion.
\<close>

definition is_dec :: "code_unit \<Rightarrow> bool" where
  "is_dec c \<longleftrightarrow> 48 \<le> c \<and> c \<le> 57"

definition array_index :: "jsstring \<Rightarrow> nat option" where
  "array_index s =
     (if s \<noteq> [] \<and> list_all is_dec s \<and> (hd s \<noteq> 48 \<or> length s = 1) \<and> parse_base 10 s < 2 ^ 32 - 1
      then Some (parse_base 10 s) else None)"

definition entry_order :: "(jsstring \<times> 'a) list \<Rightarrow> (jsstring \<times> 'a) list" where
  "entry_order kvs =
     sort_key (\<lambda>e. the (array_index (fst e))) (filter (\<lambda>e. array_index (fst e) \<noteq> None) kvs) @
     filter (\<lambda>e. array_index (fst e) = None) kvs"

lemma entry_order_names:
  assumes "\<forall>e \<in> set kvs. array_index (fst e) = None"
  shows "entry_order kvs = kvs"
proof -
  have "filter (\<lambda>e. array_index (fst e) \<noteq> None) kvs = []" using assms by (simp add: filter_empty_conv)
  moreover have "filter (\<lambda>e. array_index (fst e) = None) kvs = kvs" using assms by (simp add: filter_id_conv)
  ultimately show ?thesis by (simp add: entry_order_def)
qed

lemma parse_base_scale: "a * b ^ length s \<le> foldl (\<lambda>a c. a * b + digit_val c) a s"
proof (induction s arbitrary: a)
  case (Cons c s)
  have "a * b ^ length (c # s) \<le> (a * b + digit_val c) * b ^ length s" by (simp add: algebra_simps)
  also have "\<dots> \<le> foldl (\<lambda>a c. a * b + digit_val c) (a * b + digit_val c) s" by (rule Cons.IH)
  finally show ?case by simp
qed simp

text \<open>A name of more than ten units is no array index.\<close>

lemma array_index_long:
  assumes "10 < length s"
  shows "array_index s = None"
proof (rule ccontr)
  assume "array_index s \<noteq> None"
  then have s: "list_all is_dec s" "hd s \<noteq> 48" "parse_base 10 s < 2 ^ 32 - 1"
    using assms by (auto simp: array_index_def split: if_splits)
  obtain c t where ct: "s = c # t" using assms by (cases s) auto
  have "unat c \<noteq> unat (48 :: code_unit)" using s(2) unfolding ct by (metis list.sel(1) unsigned_word_eqI)
  then have "1 \<le> digit_val c"
    using s(1) by (auto simp: ct is_dec_def digit_val_def word_le_nat_alt)
  then have "1 * 10 ^ length t \<le> digit_val c * 10 ^ length t" by (intro mult_right_mono) auto
  also have "\<dots> \<le> parse_base 10 s" using parse_base_scale[of "digit_val c" 10 t] by (simp add: ct parse_base_def)
  finally have "10 ^ length t \<le> parse_base 10 s" by simp
  moreover have "(10 :: nat) ^ 10 \<le> 10 ^ length t" using assms by (intro power_increasing) (auto simp: ct)
  ultimately show False using s(3) by simp
qed

text \<open>The values of the type \<^verbatim>\<open>Json\<close>, with numbers finite and keys of an object distinct and in order.\<close>

fun is_json :: "jsval \<Rightarrow> bool" where
  "is_json (JNum n) \<longleftrightarrow> is_finite n \<and> wf_num n"
| "is_json (JArr xs) \<longleftrightarrow> (\<forall>x \<in> set xs. is_json x)"
| "is_json (JObj kvs) \<longleftrightarrow> distinct (map fst kvs) \<and> entry_order kvs = kvs \<and> (\<forall>(k, v) \<in> set kvs. is_json v)"
| "is_json JUndef \<longleftrightarrow> False"
| "is_json JFun \<longleftrightarrow> False"
| "is_json _ \<longleftrightarrow> True"

text \<open>What every value of a running program satisfies: the representation invariant of \<open>jsval\<close>.\<close>

fun wf_val :: "jsval \<Rightarrow> bool" where
  "wf_val (JNum n) \<longleftrightarrow> wf_num n"
| "wf_val (JArr xs) \<longleftrightarrow> (\<forall>x \<in> set xs. wf_val x)"
| "wf_val (JObj kvs) \<longleftrightarrow> distinct (map fst kvs) \<and> entry_order kvs = kvs \<and> (\<forall>(k, v) \<in> set kvs. wf_val v)"
| "wf_val _ \<longleftrightarrow> True"

lemma is_json_wf_val: "is_json v \<Longrightarrow> wf_val v"
  by (induction v) auto

section \<open>Property names every object inherits\<close>

definition PROTO :: jsstring where "PROTO = js ''__proto__''"

text \<open>The property names of \<^verbatim>\<open>Object.prototype\<close>: every plain object answers to them.\<close>

definition inherited_names :: "jsstring list" where
  "inherited_names = map js [''constructor'', ''__defineGetter__'', ''__defineSetter__'',
     ''hasOwnProperty'', ''__lookupGetter__'', ''__lookupSetter__'', ''isPrototypeOf'',
     ''propertyIsEnumerable'', ''toString'', ''valueOf'', ''__proto__'', ''toLocaleString'']"

section \<open>JSON.stringify\<close>

definition is_high :: "code_unit \<Rightarrow> bool" where
  "is_high c \<longleftrightarrow> 0xD800 \<le> c \<and> c \<le> 0xDBFF"

definition is_low :: "code_unit \<Rightarrow> bool" where
  "is_low c \<longleftrightarrow> 0xDC00 \<le> c \<and> c \<le> 0xDFFF"

definition esc_unit :: "code_unit \<Rightarrow> jsstring" where
  "esc_unit c =
     (if c = 8 then [92, 98]
      else if c = 9 then [92, 116]
      else if c = 10 then [92, 110]
      else if c = 12 then [92, 102]
      else if c = 13 then [92, 114]
      else if c = 34 then [92, 34]
      else if c = 92 then [92, 92]
      else if c < 32 \<or> is_high c \<or> is_low c
        then [92, 117] @ pad_start 4 48 (to_base 16 (unat c))
      else [c])"

fun quote_body :: "jsstring \<Rightarrow> jsstring" where
  "quote_body [] = []"
| "quote_body [c] = esc_unit c"
| "quote_body (c # d # cs) =
     (if is_high c \<and> is_low d then c # d # quote_body cs
      else esc_unit c @ quote_body (d # cs))"

text \<open>\<^verbatim>\<open>JSON.stringify(s)\<close> of a string.\<close>

definition json_quote :: "jsstring \<Rightarrow> jsstring" where
  "json_quote s = [34] @ quote_body s @ [34]"

text \<open>\<^verbatim>\<open>JSON.stringify(v)\<close>; \<open>None\<close> is the result \<^verbatim>\<open>undefined\<close>.\<close>

fun json_stringify :: "jsval \<Rightarrow> jsstring option" where
  "json_stringify JUndef = None"
| "json_stringify JFun = None"
| "json_stringify JNull = Some (js ''null'')"
| "json_stringify (JBool b) = Some (if b then js ''true'' else js ''false'')"
| "json_stringify (JNum n) = Some (if is_finite n then num_str n else js ''null'')"
| "json_stringify (JStr s) = Some (json_quote s)"
| "json_stringify (JArr xs) =
     Some ([91] @ js_join [44]
       (map (\<lambda>x. case json_stringify x of None \<Rightarrow> js ''null'' | Some t \<Rightarrow> t) xs) @ [93])"
| "json_stringify (JObj kvs) =
     Some ([123] @ js_join [44]
       (concat (map (\<lambda>(k, x). case json_stringify x of
                       None \<Rightarrow> []
                     | Some t \<Rightarrow> [json_quote k @ [58] @ t]) kvs)) @ [125])"

section \<open>Canonical JSON\<close>

text \<open>
  \<open>canonicalJson\<close> returns what \<^verbatim>\<open>JSON.stringify\<close> returns on a leaf, so it too can be
  \<^verbatim>\<open>undefined\<close> (\<open>None\<close>); \<^verbatim>\<open>join\<close> prints such an element as the empty string and string
  concatenation prints it as \<^verbatim>\<open>undefined\<close>. The keys are sorted by code unit.
\<close>

fun canonicalJson :: "jsval \<Rightarrow> jsstring option" where
  "canonicalJson (JArr xs) =
     Some ([91] @ js_join [44]
       (map (\<lambda>x. case canonicalJson x of None \<Rightarrow> [] | Some t \<Rightarrow> t) xs) @ [93])"
| "canonicalJson (JObj kvs) =
     Some ([123] @ js_join [44]
       (map (\<lambda>(k, t). json_quote k @ [58] @ (case t of None \<Rightarrow> js ''undefined'' | Some u \<Rightarrow> u))
          (sort_key fst (map (\<lambda>(k, x). (k, canonicalJson x)) kvs))) @ [125])"
| "canonicalJson v = json_stringify v"

lemma canonicalJson_Some: "is_json v \<Longrightarrow> \<exists>t. canonicalJson v = Some t"
  by (cases v) auto

lemma sort_key_fst_unique:
  assumes "distinct (map fst xs)" "mset xs = mset ys"
  shows "sort_key fst xs = sort_key fst ys"
proof (rule properties_for_sort_key)
  show "mset (sort_key fst ys) = mset xs" using assms(2) by simp
  show "sorted (map fst (sort_key fst ys))" by simp
  fix k
  assume k: "k \<in> set (sort_key fst ys)"
  have *: "\<exists>z. filter (\<lambda>x. fst k = fst x) zs = [z] \<and> z = k"
    if "distinct (map fst zs)" "k \<in> set zs" for zs :: "('a \<times> 'b) list"
    using that by (induction zs) (auto simp: filter_empty_conv image_iff)
  have "distinct (map fst (sort_key fst ys))"
    using assms by (metis distinct_map mset_eq_imp_distinct_iff mset_map mset_sort)
  then show "filter (\<lambda>x. fst k = fst x) (sort_key fst ys) = filter (\<lambda>x. fst k = fst x) xs"
    using * k assms by (metis mset_eq_setD mset_sort)
qed

text \<open>The canonical form of an object does not depend on the insertion order of its keys.\<close>

lemma canonicalJson_obj_perm:
  assumes "distinct (map fst kvs)" "mset kvs = mset kws"
  shows "canonicalJson (JObj kvs) = canonicalJson (JObj kws)"
proof -
  have "sort_key fst (map (\<lambda>(k, x). (k, canonicalJson x)) kvs) =
      sort_key fst (map (\<lambda>(k, x). (k, canonicalJson x)) kws)"
  proof (rule sort_key_fst_unique)
    have "map fst (map (\<lambda>(k, x). (k, canonicalJson x)) kvs) = map fst kvs"
      by (simp add: case_prod_beta)
    with assms(1) show "distinct (map fst (map (\<lambda>(k, x). (k, canonicalJson x)) kvs))"
      by (simp only:)
    from assms(2) show "mset (map (\<lambda>(k, x). (k, canonicalJson x)) kvs) =
        mset (map (\<lambda>(k, x). (k, canonicalJson x)) kws)"
      by simp
  qed
  then show ?thesis by simp
qed

end
