(* ===== verification/Hlc.thy ===== *)
theory Hlc
  imports Json
begin

text \<open>
  The hybrid logical clock of core/src/hlc.ts (PROTOCOL.md section 4): timestamps, their
  50-character encoding, the comparison, and the mutable clock with its two events. The
  injected physical clock is an argument \<open>pt\<close> of each event. Millisecond counts are natural
  numbers; the wire limits the code checks are written out.
\<close>

section \<open>Timestamps\<close>

definition MAX_COUNTER :: nat where "MAX_COUNTER = 0xffff"
definition MAX_MILLIS :: nat where "MAX_MILLIS = 2 ^ 48 - 1"
definition MAX_DRIFT_MS :: nat where "MAX_DRIFT_MS = 300000"
definition HLC_LENGTH :: nat where "HLC_LENGTH = 50"

record hlc =
  millis :: nat
  counter :: nat
  deviceId :: jsstring

text \<open>\<^verbatim>\<open>/^[0-9a-f]{32}$/\<close>.\<close>

definition isValidDeviceId :: "jsstring \<Rightarrow> bool" where
  "isValidDeviceId s \<longleftrightarrow> length s = 32 \<and> list_all is_hex s"

definition encodeHlc :: "hlc \<Rightarrow> jsstring" where
  "encodeHlc h =
     pad_start 12 48 (to_base 16 (millis h)) @ [45] @
     pad_start 4 48 (to_base 16 (counter h)) @ [45] @ deviceId h"

text \<open>\<^verbatim>\<open>/^[0-9a-f]{12}-[0-9a-f]{4}-[0-9a-f]{32}$/\<close>.\<close>

definition hlc_string_re :: "jsstring \<Rightarrow> bool" where
  "hlc_string_re s \<longleftrightarrow>
     length s = HLC_LENGTH \<and> list_all is_hex (take 12 s) \<and> s ! 12 = 45 \<and>
     list_all is_hex (take 4 (drop 13 s)) \<and> s ! 17 = 45 \<and> list_all is_hex (drop 18 s)"

definition decodeHlc :: "jsstring \<Rightarrow> hlc result" where
  "decodeHlc s =
     (if \<not> hlc_string_re s then Inl (Error (js ''malformed HLC string: '' @ json_quote s))
      else Inr \<lparr>millis = parse_base 16 (take 12 s),
                counter = parse_base 16 (take 4 (drop 13 s)),
                deviceId = drop 18 s\<rparr>)"

definition compareHlc :: "hlc \<Rightarrow> hlc \<Rightarrow> int" where
  "compareHlc a b =
     (if millis a \<noteq> millis b then (if millis a < millis b then -1 else 1)
      else if counter a \<noteq> counter b then (if counter a < counter b then -1 else 1)
      else if deviceId a \<noteq> deviceId b then (if deviceId a < deviceId b then -1 else 1)
      else 0)"

text \<open>The timestamps the wire format can carry.\<close>

definition valid_hlc :: "hlc \<Rightarrow> bool" where
  "valid_hlc h \<longleftrightarrow>
     millis h \<le> MAX_MILLIS \<and> counter h \<le> MAX_COUNTER \<and> isValidDeviceId (deviceId h)"

section \<open>The clock\<close>

record hlc_clock =
  c_millis :: nat
  c_counter :: nat
  c_device :: jsstring

definition checkBounds :: "hlc_clock \<Rightarrow> unit result" where
  "checkBounds c = check (\<not> MAX_MILLIS < c_millis c) (Error (js ''HLC millis exceeded 48-bit range''))"

definition new_clock :: "jsstring \<Rightarrow> nat option \<Rightarrow> nat option \<Rightarrow> hlc_clock result" where
  "new_clock dev m c =
     (if \<not> isValidDeviceId dev then Inl (Error (js ''invalid deviceId: '' @ json_quote dev))
      else let k = \<lparr>c_millis = (case m of None \<Rightarrow> 0 | Some x \<Rightarrow> x),
                    c_counter = (case c of None \<Rightarrow> 0 | Some x \<Rightarrow> x), c_device = dev\<rparr>
           in bind_res (checkBounds k) (\<lambda>_. Inr k))"

definition clock_state :: "hlc_clock \<Rightarrow> hlc" where
  "clock_state c = \<lparr>millis = c_millis c, counter = c_counter c, deviceId = c_device c\<rparr>"

text \<open>
  \<^verbatim>\<open>n + 1\<close> on numbers: exact below \<open>2^53\<close>, where the sum rounds back to \<open>n\<close>. No clock goes further.
\<close>

definition double_succ :: "nat \<Rightarrow> nat" where
  "double_succ n = (if n < 2 ^ 53 then n + 1 else n)"

definition rollover :: "hlc_clock \<Rightarrow> hlc_clock" where
  "rollover c =
     (if MAX_COUNTER < c_counter c then c\<lparr>c_millis := double_succ (c_millis c), c_counter := 0\<rparr> else c)"

definition now :: "nat \<Rightarrow> (hlc_clock, hlc) act" where
  "now pt = (\<lambda>c.
     let c' = (if c_millis c < pt then c\<lparr>c_millis := pt, c_counter := 0\<rparr>
               else rollover (c\<lparr>c_counter := c_counter c + 1\<rparr>))
     in (bind_res (checkBounds c') (\<lambda>_. Inr (clock_state c')), c'))"

definition receive :: "nat \<Rightarrow> hlc \<Rightarrow> (hlc_clock, hlc) act" where
  "receive pt r = (\<lambda>c.
     if pt + MAX_DRIFT_MS < millis r then (Inl (ClockDriftError (millis r) pt), c)
     else
       let m = max (max (c_millis c) (millis r)) pt;
           k = (if m = c_millis c \<and> m = millis r then max (c_counter c) (counter r) + 1
                else if m = c_millis c then c_counter c + 1
                else if m = millis r then counter r + 1
                else 0);
           c' = rollover (c\<lparr>c_millis := m, c_counter := k\<rparr>)
       in (bind_res (checkBounds c') (\<lambda>_. Inr (clock_state c')), c'))"

section \<open>The encoding\<close>

lemma pad_hex:
  "m < 16 ^ n \<Longrightarrow> 0 < n \<Longrightarrow> pad_start n 48 (to_base 16 m) = map digit_char (digits 16 n m)"
  by (rule pad_start_to_base) auto

lemma digits16_small: "\<forall>d \<in> set (digits 16 n m). d < 36"
  by (auto dest: digits_bound[rotated])

lemma MAX_MILLIS_less: "m \<le> MAX_MILLIS \<longleftrightarrow> m < 16 ^ 12"
  by (simp add: MAX_MILLIS_def) arith

lemma MAX_COUNTER_less: "m \<le> MAX_COUNTER \<longleftrightarrow> m < 16 ^ 4"
  by (simp add: MAX_COUNTER_def) arith

lemma valid_hlcD:
  assumes "valid_hlc h"
  shows "millis h < 16 ^ 12" "counter h < 16 ^ 4" "length (deviceId h) = 32"
    "list_all is_hex (deviceId h)"
  using assms by (simp_all add: valid_hlc_def MAX_MILLIS_less MAX_COUNTER_less isValidDeviceId_def)

lemma encodeHlc_valid:
  assumes "valid_hlc h"
  shows "encodeHlc h = map digit_char (digits 16 12 (millis h)) @ [45] @
     map digit_char (digits 16 4 (counter h)) @ [45] @ deviceId h"
  using valid_hlcD[OF assms] by (simp add: encodeHlc_def pad_hex)

lemma length_encodeHlc: "valid_hlc h \<Longrightarrow> length (encodeHlc h) = HLC_LENGTH"
  using valid_hlcD by (simp add: encodeHlc_valid HLC_LENGTH_def)

lemma list_all_hex_digits: "list_all is_hex (map digit_char (digits 16 n m))"
  by (auto simp: list_all_iff dest: digits_bound[rotated])

lemma encodeHlc_parts:
  assumes "valid_hlc h"
  shows "take 12 (encodeHlc h) = map digit_char (digits 16 12 (millis h))"
    and "encodeHlc h ! 12 = 45"
    and "take 4 (drop 13 (encodeHlc h)) = map digit_char (digits 16 4 (counter h))"
    and "encodeHlc h ! 17 = 45"
    and "drop 18 (encodeHlc h) = deviceId h"
  by (simp_all add: encodeHlc_valid[OF assms] nth_append)

lemma hlc_string_re_encode: "valid_hlc h \<Longrightarrow> hlc_string_re (encodeHlc h)"
  by (simp add: hlc_string_re_def encodeHlc_parts length_encodeHlc list_all_hex_digits valid_hlcD)

lemma parse_base_digits:
  "m < 16 ^ n \<Longrightarrow> parse_base 16 (map digit_char (digits 16 n m)) = m"
  by (simp add: parse_base_map_digit_char digits16_small undigits_digits)

lemma decode_encode:
  assumes "valid_hlc h"
  shows "decodeHlc (encodeHlc h) = Inr h"
  using hlc_string_re_encode[OF assms] parse_base_digits[OF valid_hlcD(1)[OF assms]]
    parse_base_digits[OF valid_hlcD(2)[OF assms]]
  by (simp add: decodeHlc_def encodeHlc_parts[OF assms])

lemma hex_string_digits:
  assumes "list_all is_hex s"
  shows "map digit_char (digits 16 (length s) (parse_base 16 s)) = s"
    and "parse_base 16 s < 16 ^ length s"
proof -
  let ?ds = "map digit_val s"
  have s: "map digit_char ?ds = s"
    using assms by (induction s) auto
  have small: "\<forall>d \<in> set ?ds. d < 16"
    using assms by (auto simp: list_all_iff digit_val_less)
  then have small': "\<forall>d \<in> set ?ds. d < 36" by auto
  have "parse_base 16 s = undigits 16 ?ds"
    using parse_base_map_digit_char[OF small', of 16] s by simp
  then show "map digit_char (digits 16 (length s) (parse_base 16 s)) = s"
    "parse_base 16 s < 16 ^ length s"
    using digits_undigits[OF small] undigits_bound[OF small] s by simp_all
qed

lemma decode_valid:
  assumes "decodeHlc s = Inr h"
  shows "valid_hlc h" and "encodeHlc h = s"
proof -
  from assms have re: "hlc_string_re s"
    and h: "h = \<lparr>millis = parse_base 16 (take 12 s),
      counter = parse_base 16 (take 4 (drop 13 s)), deviceId = drop 18 s\<rparr>"
    by (auto simp: decodeHlc_def split: if_splits)
  from re have len: "length s = 50" and h1: "list_all is_hex (take 12 s)" and d1: "s ! 12 = 45"
    and h2: "list_all is_hex (take 4 (drop 13 s))" and d2: "s ! 17 = 45"
    and h3: "list_all is_hex (drop 18 s)"
    by (simp_all add: hlc_string_re_def HLC_LENGTH_def)
  have m: "map digit_char (digits 16 12 (millis h)) = take 12 s" "millis h < 16 ^ 12"
    using hex_string_digits[OF h1] len h by simp_all
  have c: "map digit_char (digits 16 4 (counter h)) = take 4 (drop 13 s)" "counter h < 16 ^ 4"
    using hex_string_digits[OF h2] len h by simp_all
  show v: "valid_hlc h"
    using m c h3 len h by (simp add: valid_hlc_def MAX_MILLIS_less MAX_COUNTER_less isValidDeviceId_def)
  have "s = take 12 s @ drop 12 s" by simp
  also have "drop 12 s = s ! 12 # drop 13 s"
    using Cons_nth_drop_Suc[of 12 s] len by simp
  also have "drop 13 s = take 4 (drop 13 s) @ drop 17 s"
    using append_take_drop_id[of 4 "drop 13 s"] by simp
  also have "drop 17 s = s ! 17 # drop 18 s"
    using Cons_nth_drop_Suc[of 17 s] len by simp
  finally show "encodeHlc h = s"
    using v m c d1 d2 h by (simp add: encodeHlc_valid)
qed

lemma encodeHlc_inject:
  "valid_hlc a \<Longrightarrow> valid_hlc b \<Longrightarrow> encodeHlc a = encodeHlc b \<longleftrightarrow> a = b"
  by (metis decode_encode sum.inject(2))

section \<open>Order of encodings\<close>

lemma encodeHlc_less_iff:
  assumes "valid_hlc a" "valid_hlc b"
  shows "encodeHlc a < encodeHlc b \<longleftrightarrow>
    millis a < millis b \<or> (millis a = millis b \<and>
      (counter a < counter b \<or> (counter a = counter b \<and> deviceId a < deviceId b)))"
proof -
  note A = valid_hlcD[OF assms(1)] and B = valid_hlcD[OF assms(2)]
  have less: "map digit_char (digits 16 n x) < map digit_char (digits 16 n y) \<longleftrightarrow> x < y"
    and eq: "map digit_char (digits 16 n x) = map digit_char (digits 16 n y) \<longleftrightarrow> x = y"
    if "x < 16 ^ n" "y < 16 ^ n" for n x y :: nat
  proof -
    show less: "map digit_char (digits 16 n x) < map digit_char (digits 16 n y) \<longleftrightarrow> x < y"
      by (subst map_digit_char_less) (auto simp: digits16_small digits_mono_less that)
    show "map digit_char (digits 16 n x) = map digit_char (digits 16 n y) \<longleftrightarrow> x = y"
      using parse_base_digits[OF that(1)] parse_base_digits[OF that(2)] by metis
  qed
  show ?thesis
    unfolding encodeHlc_valid[OF assms(1)] encodeHlc_valid[OF assms(2)]
    by (simp add: list_less_append_cases less[OF A(1) B(1)] eq[OF A(1) B(1)]
        less[OF A(2) B(2)] eq[OF A(2) B(2)])
qed

lemma compareHlc_cases:
  "compareHlc a b = -1 \<longleftrightarrow>
    millis a < millis b \<or> (millis a = millis b \<and>
      (counter a < counter b \<or> (counter a = counter b \<and> deviceId a < deviceId b)))"
  "compareHlc a b = 0 \<longleftrightarrow> a = b"
  "compareHlc a b = 1 \<longleftrightarrow>
    millis b < millis a \<or> (millis b = millis a \<and>
      (counter b < counter a \<or> (counter b = counter a \<and> deviceId b < deviceId a)))"
  by (auto simp: compareHlc_def)

section \<open>The events of the clock\<close>

text \<open>Readings of a clock, compared without the device.\<close>

text \<open>
  Readings are compared by time, then by counter. At the limit of exact integers all readings
  count as later than any other: no timestamp is issued there.
\<close>

definition tick_less :: "nat \<times> nat \<Rightarrow> nat \<times> nat \<Rightarrow> bool" where
  "tick_less p q \<longleftrightarrow> fst p < fst q \<or> (fst p = fst q \<and> snd p < snd q) \<or> 2 ^ 53 \<le> fst q"

definition clock_tick :: "hlc_clock \<Rightarrow> nat \<times> nat" where
  "clock_tick c = (c_millis c, c_counter c)"

definition hlc_tick :: "hlc \<Rightarrow> nat \<times> nat" where
  "hlc_tick h = (millis h, counter h)"

definition clock_ok :: "hlc_clock \<Rightarrow> bool" where
  "clock_ok c \<longleftrightarrow> valid_hlc (clock_state c)"

lemma tick_less_trans: "tick_less p q \<Longrightarrow> tick_less q r \<Longrightarrow> tick_less p r"
  by (auto simp: tick_less_def)

lemma hlc_tick_clock_state [simp]: "hlc_tick (clock_state c) = clock_tick c"
  by (simp add: hlc_tick_def clock_tick_def clock_state_def)

lemma deviceId_clock_state [simp]: "deviceId (clock_state c) = c_device c"
  by (simp add: clock_state_def)

lemma tick_less_encode:
  "valid_hlc a \<Longrightarrow> valid_hlc b \<Longrightarrow> tick_less (hlc_tick a) (hlc_tick b) \<Longrightarrow> encodeHlc a < encodeHlc b"
  by (auto simp: encodeHlc_less_iff tick_less_def hlc_tick_def valid_hlc_def MAX_MILLIS_def)

lemma encode_le_tick:
  "valid_hlc a \<Longrightarrow> valid_hlc b \<Longrightarrow> encodeHlc a \<le> encodeHlc b \<Longrightarrow>
     tick_less (hlc_tick a) (hlc_tick b) \<or> hlc_tick a = hlc_tick b"
  by (auto simp: le_less encodeHlc_less_iff tick_less_def hlc_tick_def encodeHlc_inject)

lemma rollover_device [simp]: "c_device (rollover c) = c_device c"
  by (simp add: rollover_def)

lemma rollover_counter: "c_counter (rollover c) \<le> MAX_COUNTER"
  by (simp add: rollover_def)

lemma rollover_tick:
  "fst p < c_millis c \<or> (fst p = c_millis c \<and> snd p < c_counter c) \<Longrightarrow> tick_less p (clock_tick (rollover c))"
  by (auto simp: rollover_def double_succ_def tick_less_def clock_tick_def)

lemma now_spec:
  assumes "now pt c = (Inr h, c')" "isValidDeviceId (c_device c)"
  shows "clock_ok c'" "h = clock_state c'" "c_device c' = c_device c"
    "tick_less (clock_tick c) (clock_tick c')" "pt \<le> c_millis c'"
proof -
  let ?c = "if c_millis c < pt then c\<lparr>c_millis := pt, c_counter := 0\<rparr>
    else rollover (c\<lparr>c_counter := c_counter c + 1\<rparr>)"
  from assms(1) have c': "c' = ?c" and h: "h = clock_state c'" and m: "c_millis c' \<le> MAX_MILLIS"
    by (auto simp: now_def Let_def bind_res_eq_Inr checkBounds_def check_eq_Inr)
  show "h = clock_state c'" by (rule h)
  show dev: "c_device c' = c_device c" by (simp add: c')
  have "c_counter c' \<le> MAX_COUNTER" by (simp add: c' rollover_counter)
  with m dev assms(2) show "clock_ok c'"
    by (simp add: clock_ok_def valid_hlc_def clock_state_def)
  show "tick_less (clock_tick c) (clock_tick c')"
  proof (cases "c_millis c < pt")
    case True
    then show ?thesis by (simp add: c' tick_less_def clock_tick_def)
  next
    case False
    then show ?thesis by (auto simp: c' clock_tick_def intro: rollover_tick[unfolded clock_tick_def])
  qed
  show "pt \<le> c_millis c'" by (simp add: c' rollover_def double_succ_def)
qed

lemma receive_spec:
  assumes "receive pt r c = (Inr h, c')" "isValidDeviceId (c_device c)"
  shows "clock_ok c'" "h = clock_state c'" "c_device c' = c_device c"
    "tick_less (clock_tick c) (clock_tick c')" "tick_less (hlc_tick r) (clock_tick c')"
    "millis r \<le> pt + MAX_DRIFT_MS"
proof -
  define m where "m = max (max (c_millis c) (millis r)) pt"
  define k where "k = (if m = c_millis c \<and> m = millis r then max (c_counter c) (counter r) + 1
    else if m = c_millis c then c_counter c + 1 else if m = millis r then counter r + 1 else 0)"
  from assms(1) show "millis r \<le> pt + MAX_DRIFT_MS"
    by (auto simp: receive_def split: if_splits)
  define c1 where "c1 = rollover (c\<lparr>c_millis := m, c_counter := k\<rparr>)"
  have "receive pt r c = (bind_res (checkBounds c1) (\<lambda>_. Inr (clock_state c1)), c1)"
    using \<open>millis r \<le> pt + MAX_DRIFT_MS\<close>
    by (simp only: receive_def Let_def c1_def k_def m_def linorder_not_less[symmetric] if_False)
  with assms(1) have c': "c' = rollover (c\<lparr>c_millis := m, c_counter := k\<rparr>)"
    and h: "h = clock_state c'" and b: "c_millis c' \<le> MAX_MILLIS"
    by (auto simp: bind_res_eq_Inr checkBounds_def check_eq_Inr c1_def)
  show "h = clock_state c'" by (rule h)
  show dev: "c_device c' = c_device c" by (simp add: c')
  have "c_counter c' \<le> MAX_COUNTER" by (simp add: c' rollover_counter)
  with b dev assms(2) show "clock_ok c'"
    by (simp add: clock_ok_def valid_hlc_def clock_state_def)
  have "c_millis c < m \<or> (c_millis c = m \<and> c_counter c < k)"
    unfolding k_def by (cases "c_millis c = m") (auto simp: m_def)
  then show "tick_less (clock_tick c) (clock_tick c')"
    unfolding c' by (intro rollover_tick) (simp add: clock_tick_def)
  have "millis r < m \<or> (millis r = m \<and> counter r < k)"
    unfolding k_def by (cases "millis r = m") (auto simp: m_def)
  then show "tick_less (hlc_tick r) (clock_tick c')"
    unfolding c' by (intro rollover_tick) (simp add: hlc_tick_def)
qed

lemma now_total:
  assumes "c_millis c < MAX_MILLIS" "pt \<le> MAX_MILLIS"
  shows "\<exists>h c'. now pt c = (Inr h, c')"
  using assms by (auto simp: now_def Let_def checkBounds_def rollover_def double_succ_def)

lemma receive_total:
  assumes "c_millis c < MAX_MILLIS" "pt < MAX_MILLIS" "millis r < MAX_MILLIS"
    "millis r \<le> pt + MAX_DRIFT_MS"
  shows "\<exists>h c'. receive pt r c = (Inr h, c')"
proof -
  define m where "m = max (max (c_millis c) (millis r)) pt"
  have "m < MAX_MILLIS" using assms by (simp add: m_def)
  then have "checkBounds (rollover (c\<lparr>c_millis := m, c_counter := k\<rparr>)) = Inr ()" for k
    by (simp add: checkBounds_def check_def rollover_def double_succ_def)
  with assms(4) show ?thesis by (simp add: receive_def Let_def flip: m_def)
qed

lemma receive_drift:
  "pt + MAX_DRIFT_MS < millis r \<Longrightarrow> receive pt r c = (Inl (ClockDriftError (millis r) pt), c)"
  by (simp add: receive_def)

lemma now_device [simp]: "c_device (snd (now pt c)) = c_device c"
  by (simp add: now_def Let_def)

lemma receive_device [simp]: "c_device (snd (receive pt r c)) = c_device c"
  by (simp add: receive_def Let_def)

text \<open>A timestamp string that a clock reading has reached.\<close>

definition tick_le :: "nat \<times> nat \<Rightarrow> nat \<times> nat \<Rightarrow> bool" where
  "tick_le p q \<longleftrightarrow> tick_less p q \<or> p = q"

lemma tick_le_refl [simp]: "tick_le p p"
  by (simp add: tick_le_def)

lemma tick_le_trans: "tick_le p q \<Longrightarrow> tick_le q r \<Longrightarrow> tick_le p r"
  by (auto simp: tick_le_def intro: tick_less_trans)

lemma tick_le_less_trans: "tick_le p q \<Longrightarrow> tick_less q r \<Longrightarrow> tick_less p r"
  by (auto simp: tick_le_def intro: tick_less_trans)

lemma tick_less_imp_le: "tick_less p q \<Longrightarrow> tick_le p q"
  by (simp add: tick_le_def)

definition stamp_le :: "jsstring \<Rightarrow> nat \<times> nat \<Rightarrow> bool" where
  "stamp_le s t \<longleftrightarrow> (\<exists>h. decodeHlc s = Inr h \<and> tick_le (hlc_tick h) t)"

lemma stamp_le_mono: "stamp_le s t \<Longrightarrow> tick_le t t' \<Longrightarrow> stamp_le s t'"
  by (auto simp: stamp_le_def intro: tick_le_trans)

lemma stamp_le_less:
  assumes "stamp_le s t" "tick_less t (hlc_tick h)" "valid_hlc h"
  shows "s < encodeHlc h"
proof -
  from assms(1) obtain g where g: "decodeHlc s = Inr g" "tick_le (hlc_tick g) t"
    by (auto simp: stamp_le_def)
  then have "tick_less (hlc_tick g) (hlc_tick h)" using assms(2) tick_le_less_trans by blast
  then show ?thesis
    using tick_less_encode[OF decode_valid(1)[OF g(1)] assms(3)] decode_valid(2)[OF g(1)] by simp
qed

lemma stamp_le_below:
  assumes "stamp_le s t" "decodeHlc r = Inr h" "r \<le> s"
  shows "stamp_le r t"
proof -
  from assms(1) obtain g where g: "decodeHlc s = Inr g" "tick_le (hlc_tick g) t"
    by (auto simp: stamp_le_def)
  have "tick_le (hlc_tick h) (hlc_tick g)"
    using encode_le_tick[OF decode_valid(1)[OF assms(2)] decode_valid(1)[OF g(1)]]
      decode_valid(2)[OF assms(2)] decode_valid(2)[OF g(1)] assms(3)
    by (simp add: tick_le_def)
  with g(2) assms(2) show ?thesis by (auto simp: stamp_le_def intro: tick_le_trans)
qed

text \<open>Neither event ever moves a clock back, also when it throws.\<close>

lemma now_tick_mono: "tick_less (clock_tick c) (clock_tick (snd (now pt c)))"
  by (auto simp: now_def Let_def tick_less_def clock_tick_def rollover_def double_succ_def)

lemma receive_state:
  "snd (receive pt r c) = c \<or> (\<exists>m k. m = max (max (c_millis c) (millis r)) pt \<and> millis r \<le> pt + MAX_DRIFT_MS \<and>
     (c_millis c < m \<or> c_counter c < k) \<and> snd (receive pt r c) = rollover (c\<lparr>c_millis := m, c_counter := k\<rparr>))"
proof (cases "pt + MAX_DRIFT_MS < millis r")
  case True
  then show ?thesis by (simp add: receive_def)
next
  case False
  define m where "m = max (max (c_millis c) (millis r)) pt"
  define k where "k = (if m = c_millis c \<and> m = millis r then max (c_counter c) (counter r) + 1
    else if m = c_millis c then c_counter c + 1 else if m = millis r then counter r + 1 else 0)"
  have "c_millis c < m \<or> c_counter c < k" unfolding k_def by (cases "c_millis c = m") (auto simp: m_def)
  moreover have "snd (receive pt r c) = rollover (c\<lparr>c_millis := m, c_counter := k\<rparr>)"
    using False by (simp only: receive_def Let_def k_def m_def if_False snd_conv)
  ultimately show ?thesis using False by (auto simp: m_def)
qed

lemma receive_tick_mono:
  "snd (receive pt r c) = c \<or> tick_less (clock_tick c) (clock_tick (snd (receive pt r c)))"
proof (cases "snd (receive pt r c) = c")
  case False
  then obtain m k where m: "m = max (max (c_millis c) (millis r)) pt" "c_millis c < m \<or> c_counter c < k"
    "snd (receive pt r c) = rollover (c\<lparr>c_millis := m, c_counter := k\<rparr>)" using receive_state[of pt r c] by blast
  have "c_millis c < m \<or> c_millis c = m \<and> c_counter c < k" using m(1,2) by auto
  then have "tick_less (clock_tick c) (clock_tick (rollover (c\<lparr>c_millis := m, c_counter := k\<rparr>)))"
    by (intro rollover_tick) (auto simp: clock_tick_def)
  then show ?thesis by (simp add: m(3))
qed simp

text \<open>
  A clock whose readings are exact integers, and stay so as long as the physical clock is one
  that \<^verbatim>\<open>Date.now\<close> can show.
\<close>

definition safe_hlc :: "hlc_clock \<Rightarrow> bool" where
  "safe_hlc c \<longleftrightarrow> c_millis c \<le> 2 ^ 53 \<and> c_counter c \<le> 2 ^ 53"

definition time_value :: "nat \<Rightarrow> nat" where
  "time_value n = min n 8640000000000000"

lemma time_value_small: "n \<le> MAX_MILLIS \<Longrightarrow> time_value n = n"
  by (simp add: time_value_def MAX_MILLIS_def)

lemma now_safe: "safe_hlc c \<Longrightarrow> safe_hlc (snd (now (time_value pt) c))"
  by (auto simp: now_def Let_def safe_hlc_def rollover_def double_succ_def time_value_def MAX_COUNTER_def)

lemma receive_safe: "safe_hlc c \<Longrightarrow> safe_hlc (snd (receive (time_value pt) r c))"
proof (cases "snd (receive (time_value pt) r c) = c")
  case False
  assume c: "safe_hlc c"
  obtain m k where m: "m = max (max (c_millis c) (millis r)) (time_value pt)" "millis r \<le> time_value pt + MAX_DRIFT_MS"
    "snd (receive (time_value pt) r c) = rollover (c\<lparr>c_millis := m, c_counter := k\<rparr>)"
    using receive_state[of "time_value pt" r c] False by blast
  have "time_value pt + MAX_DRIFT_MS \<le> 2 ^ 53" by (simp add: time_value_def MAX_DRIFT_MS_def)
  then have "m \<le> 2 ^ 53" using m(1,2) c by (simp add: safe_hlc_def)
  then show ?thesis unfolding m(3) by (simp add: safe_hlc_def rollover_def double_succ_def MAX_COUNTER_def)
qed simp

section \<open>Properties\<close>

lemmas valid_hlc_simps = valid_hlc_def MAX_MILLIS_def MAX_COUNTER_def isValidDeviceId_def list_all_iff
  is_hex_def

text \<open>C5. The wire encoding is a bijection: a timestamp in range decodes from its encoding, and a
string that decodes is the encoding of the timestamp it decodes to, which is in range.\<close>

theorem hlc_codec:
  "(valid_hlc h \<longrightarrow> decodeHlc (encodeHlc h) = Inr h) \<and>
   (decodeHlc s = Inr g \<longrightarrow> valid_hlc g \<and> encodeHlc g = s)"
  using decode_encode decode_valid by blast

theorem hlc_codec_witness:
  "decodeHlc (encodeHlc \<lparr>millis = 1700000000000, counter = 7, deviceId = replicate 32 97\<rparr>) =
     Inr \<lparr>millis = 1700000000000, counter = 7, deviceId = replicate 32 97\<rparr> \<and>
   length (encodeHlc \<lparr>millis = 1700000000000, counter = 7, deviceId = replicate 32 97\<rparr>) = 50"
proof -
  let ?h = "\<lparr>millis = 1700000000000, counter = 7, deviceId = replicate 32 97\<rparr>"
  have "valid_hlc ?h" by (simp add: valid_hlc_simps)
  with hlc_codec[of ?h "encodeHlc ?h" ?h] length_encodeHlc[of ?h] show ?thesis
    by (simp add: HLC_LENGTH_def)
qed

text \<open>C4. Comparing encodings as strings is comparing timestamps: the order of the wire format is
the order of \<open>compareHlc\<close>, in all three outcomes.\<close>

theorem hlc_order:
  assumes "valid_hlc a" "valid_hlc b"
  shows "(compareHlc a b = -1 \<longleftrightarrow> encodeHlc a < encodeHlc b) \<and>
    (compareHlc a b = 0 \<longleftrightarrow> encodeHlc a = encodeHlc b) \<and>
    (compareHlc a b = 1 \<longleftrightarrow> encodeHlc b < encodeHlc a)"
  unfolding compareHlc_cases encodeHlc_less_iff[OF assms] encodeHlc_less_iff[OF assms(2,1)]
    encodeHlc_inject[OF assms] by blast

theorem hlc_order_witness:
  "encodeHlc \<lparr>millis = 9, counter = 65535, deviceId = replicate 32 97\<rparr> <
     encodeHlc \<lparr>millis = 10, counter = 0, deviceId = replicate 32 48\<rparr>"
proof -
  have "valid_hlc \<lparr>millis = 9, counter = 65535, deviceId = replicate 32 97\<rparr>"
    "valid_hlc \<lparr>millis = 10, counter = 0, deviceId = replicate 32 48\<rparr>" by (simp_all add: valid_hlc_simps)
  from hlc_order[OF this] show ?thesis by (simp add: compareHlc_def)
qed

text \<open>C6. A local event issues a timestamp greater than everything the clock has reached, not
before the physical clock and within the wire format; it fails only past the 48-bit range.\<close>

theorem now_issues_next:
  assumes "isValidDeviceId (c_device c)" "now pt c = (res, c')"
  shows "case res of
      Inr h \<Rightarrow> valid_hlc h \<and> h = clock_state c' \<and> deviceId h = c_device c \<and> pt \<le> millis h \<and>
        (\<forall>s. stamp_le s (clock_tick c) \<longrightarrow> s < encodeHlc h)
    | Inl e \<Rightarrow> c_millis c = MAX_MILLIS \<or> MAX_MILLIS < c_millis c \<or> MAX_MILLIS < pt"
proof (cases res)
  case (Inl e)
  then have "\<not> (c_millis c < MAX_MILLIS \<and> pt \<le> MAX_MILLIS)"
    using assms(2) now_total[of c pt] by auto
  with Inl show ?thesis by auto
next
  case (Inr h)
  note N = now_spec[OF assms(2)[unfolded Inr] assms(1)]
  have v: "valid_hlc h" using N(1,2) by (simp add: clock_ok_def)
  have "tick_less (clock_tick c) (hlc_tick h)" using N(2,4) by simp
  then have "\<forall>s. stamp_le s (clock_tick c) \<longrightarrow> s < encodeHlc h"
    using stamp_le_less[OF _ _ v] by blast
  moreover have "millis h = c_millis c'" by (simp add: N(2) clock_state_def)
  ultimately show ?thesis using Inr N v by simp
qed

theorem now_issues_next_witness:
  "isValidDeviceId (replicate 32 97) \<and>
   (\<exists>h c'. now 5 \<lparr>c_millis = 9, c_counter = 65535, c_device = replicate 32 97\<rparr> = (Inr h, c') \<and>
      millis h = 10 \<and> counter h = 0 \<and> 5 \<le> millis h)"
proof -
  let ?c = "\<lparr>c_millis = 9, c_counter = 65535, c_device = replicate 32 97\<rparr>"
  have v: "isValidDeviceId (c_device ?c)" by (simp add: valid_hlc_simps)
  have "\<exists>h c'. now 5 ?c = (Inr h, c') \<and> millis h = 10 \<and> counter h = 0"
    by (simp add: now_def rollover_def double_succ_def MAX_COUNTER_def checkBounds_def MAX_MILLIS_def clock_state_def)
  then obtain h c' where h: "now 5 ?c = (Inr h, c')" "millis h = 10" "counter h = 0" by blast
  from now_issues_next[OF v h(1)] h v show ?thesis by auto
qed

text \<open>C7. Merging a remote timestamp leaves the clock above both its former reading and the remote
one. A timestamp more than the allowed drift ahead of physical time is rejected with the clock
unchanged, and nothing else is rejected below the 48-bit range.\<close>

theorem receive_dominates:
  assumes "isValidDeviceId (c_device c)" "receive pt r c = (res, c')"
  shows "(pt + MAX_DRIFT_MS < millis r \<longleftrightarrow> res = Inl (ClockDriftError (millis r) pt)) \<and>
    (case res of
      Inr h \<Rightarrow> valid_hlc h \<and> h = clock_state c' \<and> deviceId h = c_device c \<and>
        tick_less (clock_tick c) (clock_tick c') \<and> tick_less (hlc_tick r) (clock_tick c')
    | Inl e \<Rightarrow> (pt + MAX_DRIFT_MS < millis r \<and> c' = c) \<or>
        MAX_MILLIS \<le> c_millis c \<or> MAX_MILLIS \<le> pt \<or> MAX_MILLIS \<le> millis r)"
proof (cases "pt + MAX_DRIFT_MS < millis r")
  case True
  then show ?thesis using receive_drift[OF True, of c] assms(2) by simp
next
  case False
  show ?thesis
  proof (cases res)
    case (Inl e)
    have "\<not> (c_millis c < MAX_MILLIS \<and> pt < MAX_MILLIS \<and> millis r < MAX_MILLIS)"
      using receive_total[of c pt r] False assms(2) Inl by auto
    moreover have "e \<noteq> ClockDriftError (millis r) pt"
      using assms(2) Inl False
      by (auto simp: receive_def Let_def checkBounds_def check_def split: if_splits)
    ultimately show ?thesis using Inl False by auto
  next
    case (Inr h)
    note R = receive_spec[OF assms(2)[unfolded Inr] assms(1)]
    show ?thesis using Inr False R by (simp add: clock_ok_def)
  qed
qed

theorem receive_dominates_witness:
  "fst (receive 1000 \<lparr>millis = 301001, counter = 0, deviceId = replicate 32 98\<rparr>
     \<lparr>c_millis = 9, c_counter = 3, c_device = replicate 32 97\<rparr>) = Inl (ClockDriftError 301001 1000)"
proof -
  let ?c = "\<lparr>c_millis = 9, c_counter = 3, c_device = replicate 32 97\<rparr>"
  let ?r = "\<lparr>millis = 301001, counter = 0, deviceId = replicate 32 98\<rparr>"
  have v: "isValidDeviceId (c_device ?c)" by (simp add: valid_hlc_simps)
  from receive_dominates[OF v, of 1000 ?r "fst (receive 1000 ?r ?c)" "snd (receive 1000 ?r ?c)"]
  show ?thesis by (simp add: MAX_DRIFT_MS_def)
qed

end
