(* ===== verification/Ulid.thy ===== *)
theory Ulid
  imports Digits
begin

unbundle bit_operations_syntax

text \<open>
  Row identifiers: \<open>ulid\<close> of core/src/ulid.ts (PROTOCOL.md section 4.4). The time is an
  argument, as in the source; the random bytes are the ones the injected generator returns.
  The accumulator \<open>acc\<close> is a 32-bit integer, as JavaScript's shifts make it.
\<close>

section \<open>The generator\<close>

text \<open>\<^verbatim>\<open>B32\<close>, the alphabet of Crockford's base 32.\<close>

definition B32 :: jsstring where
  "B32 = js ''0123456789ABCDEFGHJKMNPQRSTVWXYZ''"

text \<open>The loop over \<open>i = 9, \<dots>, 0\<close> that fills \<open>timeChars\<close> from the back.\<close>

fun time_chars :: "nat \<Rightarrow> nat \<Rightarrow> jsstring \<Rightarrow> jsstring" where
  "time_chars 0 t acc = acc"
| "time_chars (Suc i) t acc = time_chars i (t div 32) (B32 ! (t mod 32) # acc)"

text \<open>\<^verbatim>\<open>while (bits >= 5)\<close>: emit the five bits above position \<open>bits - 5\<close>.\<close>

fun emit_bits :: "32 word \<Rightarrow> nat \<Rightarrow> jsstring \<times> nat" where
  "emit_bits acc bits =
     (if bits < 5 then ([], bits)
      else let (out, rest) = emit_bits acc (bits - 5)
           in (B32 ! unat (drop_bit (bits - 5) acc AND 31) # out, rest))"

declare emit_bits.simps [simp del]

fun rand_chars :: "bytes \<Rightarrow> 32 word \<Rightarrow> nat \<Rightarrow> jsstring" where
  "rand_chars [] acc bits = []"
| "rand_chars (b # bs) acc bits =
     (let acc' = push_bit 8 acc OR ucast b;
          (out, rest) = emit_bits acc' (bits + 8)
      in out @ rand_chars bs acc' rest)"

definition ulid :: "nat \<Rightarrow> bytes \<Rightarrow> jsstring result" where
  "ulid time rand =
     (if 2 ^ 48 - 1 < time then Inl (Error (js ''ulid: time out of range: '' @ to_base 10 time))
      else Inr (time_chars 10 time [] @ rand_chars rand 0 0))"

text \<open>\<^verbatim>\<open>/^[0-9A-HJKMNP-TV-Z]{26}$/i\<close>, the test of core/src/op.ts.\<close>

definition ulid_char :: "code_unit \<Rightarrow> bool" where
  "ulid_char c \<longleftrightarrow>
     (let u = (if 97 \<le> c \<and> c \<le> 122 then c - 32 else c) in
      (48 \<le> u \<and> u \<le> 57) \<or> (65 \<le> u \<and> u \<le> 72) \<or> u = 74 \<or> u = 75 \<or> u = 77 \<or> u = 78
      \<or> (80 \<le> u \<and> u \<le> 84) \<or> (86 \<le> u \<and> u \<le> 90))"

definition ulid_re :: "jsstring \<Rightarrow> bool" where
  "ulid_re s \<longleftrightarrow> length s = 26 \<and> list_all ulid_char s"

section \<open>The time part\<close>

lemma length_B32 [simp]: "length B32 = 32"
  by (simp add: B32_def)

lemma B32_sorted: "sorted_wrt (<) B32"
  by code_simp

lemma B32_chars: "list_all ulid_char B32"
  by code_simp

lemma time_chars_digits: "time_chars n t acc = map (\<lambda>d. B32 ! d) (digits 32 n t) @ acc"
  by (induction n arbitrary: t acc) auto

section \<open>The random part\<close>

definition bytes_val :: "bytes \<Rightarrow> nat" where
  "bytes_val bs = foldl (\<lambda>a b. a * 256 + unat b) 0 bs"

lemma foldl_bytes: "foldl (\<lambda>a b. a * 256 + unat b) x bs = x * 256 ^ length bs + bytes_val bs"
proof (induction bs rule: rev_induct)
  case Nil
  then show ?case by (simp add: bytes_val_def)
next
  case (snoc b bs)
  then show ?case by (simp add: bytes_val_def algebra_simps)
qed

lemma bytes_val_Cons: "bytes_val (b # bs) = unat b * 256 ^ length bs + bytes_val bs"
  using foldl_bytes[of "unat b" bs] by (simp add: bytes_val_def)

lemma bytes_val_bound: "bytes_val bs < 256 ^ length bs"
proof (induction bs)
  case Nil
  then show ?case by (simp add: bytes_val_def)
next
  case (Cons b bs)
  have "Suc (unat b) * 256 ^ length bs \<le> 256 * 256 ^ length bs"
    using unat_byte[of b] by (intro mult_le_mono1) simp
  then have "unat b * 256 ^ length bs + 256 ^ length bs \<le> 256 * 256 ^ length bs"
    by (simp only: mult_Suc add.commute)
  with Cons.IH show ?case
    unfolding bytes_val_Cons list.size power_add power_one_right One_nat_def power_Suc add_Suc_right add_0_right
    by linarith
qed

lemma unat_mask31: "unat (drop_bit k acc AND (31 :: 32 word)) = unat acc div 2 ^ k mod 32"
proof -
  have "unat (drop_bit k acc AND (31 :: 32 word)) = unat (drop_bit k acc) AND mask 5"
    by (simp add: unsigned_and_eq mask_eq_exp_minus_1)
  also have "\<dots> = take_bit 5 (unat (drop_bit k acc))" by (simp add: take_bit_eq_mask)
  also have "unat (drop_bit k acc) = unat acc div 2 ^ k"
    by (subst unat_drop_bit_eq) (simp add: drop_bit_eq_div)
  also have "take_bit 5 (unat acc div 2 ^ k) = unat acc div 2 ^ k mod 32"
    by (simp add: take_bit_eq_mod)
  finally show ?thesis .
qed

lemma emit_bits_digits:
  "emit_bits acc bits =
     (map ((!) B32) (digits 32 (bits div 5) (unat acc div 2 ^ (bits mod 5))), bits mod 5)"
proof (induction acc bits rule: emit_bits.induct)
  case (1 acc bits)
  show ?case
  proof (cases "bits < 5")
    case True
    then show ?thesis by (simp add: emit_bits.simps[of acc bits])
  next
    case False
    then obtain k where k: "bits = k + 5" by (metis add.commute le_Suc_ex not_less)
    have pow: "(2::nat) ^ k = 2 ^ (k mod 5) * 32 ^ (k div 5)"
    proof -
      have "(2::nat) ^ k = 2 ^ (k mod 5 + 5 * (k div 5))" by simp
      also have "\<dots> = 2 ^ (k mod 5) * (2 ^ 5) ^ (k div 5)" by (simp only: power_add power_mult)
      finally show ?thesis by simp
    qed
    have "digits 32 (Suc (k div 5)) (unat acc div 2 ^ (k mod 5)) =
        (unat acc div 2 ^ k mod 32) # digits 32 (k div 5) (unat acc div 2 ^ (k mod 5))"
      by (simp only: digits_top pow div_mult2_eq)
    moreover have "(k + 5) div 5 = Suc (k div 5)" by simp
    ultimately show ?thesis
      using 1[OF False] k by (simp add: emit_bits.simps[of acc "k + 5"] unat_mask31 del: digits.simps)
  qed
qed

lemma unat_shift_in: "unat (push_bit 8 acc OR ucast b :: 32 word) = (unat acc * 256 + unat (b :: byte)) mod 2 ^ 32"
proof -
  have "push_bit 8 acc OR ucast b = push_bit 8 acc + (ucast b :: 32 word)"
  proof (rule disjunctive_add [symmetric])
    fix n
    show "\<not> bit (push_bit 8 acc) n \<or> \<not> bit (ucast b :: 32 word) n"
      by (auto simp: bit_push_bit_iff bit_ucast_iff dest: bit_imp_le_length)
  qed
  moreover have "unat (push_bit 8 acc) = unat acc * 256 mod 2 ^ 32"
    by (simp add: unat_word_ariths push_bit_eq_mult)
  moreover have "unat (ucast b :: 32 word) = unat b"
    using unat_byte[of b] by (simp add: unsigned_ucast_eq take_bit_nat_eq_self)
  ultimately show ?thesis
    by (simp add: unat_word_ariths(1) mod_simps)
qed

lemma rand_chars_digits:
  assumes "bits \<le> 4"
  shows "rand_chars bs acc bits =
    map ((!) B32) (digits 32 ((bits + 8 * length bs) div 5)
      ((unat acc * 256 ^ length bs + bytes_val bs) div 2 ^ ((bits + 8 * length bs) mod 5)))"
    (is "_ = map _ (digits 32 (?n bits bs) (?V acc bs div 2 ^ ?r bits bs))")
  using assms
proof (induction bs arbitrary: acc bits)
  case Nil
  then show ?case by simp
next
  case (Cons b bs)
  let ?acc = "push_bit 8 acc OR ucast b :: 32 word"
  let ?rest = "(bits + 8) mod 5"
  let ?n1 = "(bits + 8) div 5"
  let ?n2 = "(?rest + 8 * length bs) div 5"
  have n: "(bits + 8 * length (b # bs)) div 5 = ?n1 + ?n2"
    and r: "(bits + 8 * length (b # bs)) mod 5 = (?rest + 8 * length bs) mod 5"
  proof -
    have "bits + 8 * length (b # bs) = (?rest + 8 * length bs) + ?n1 * 5" by simp
    then show "(bits + 8 * length (b # bs)) div 5 = ?n1 + ?n2"
      "(bits + 8 * length (b # bs)) mod 5 = (?rest + 8 * length bs) mod 5"
      by (simp_all only: div_mult_self3 mod_mult_self1 numeral_neq_zero not_False_eq_True)
  qed
  define r2 where "r2 = (?rest + 8 * length bs) mod 5"
  define V where "V = unat acc * 256 ^ length (b # bs) + bytes_val (b # bs)"
  have V: "V = (unat acc * 256 + unat b) * 256 ^ length bs + bytes_val bs"
    by (simp add: V_def bytes_val_Cons algebra_simps)
  have pow: "(2::nat) ^ r2 * 32 ^ ?n2 = 256 ^ length bs * 2 ^ ?rest"
  proof -
    have "r2 + 5 * ?n2 = ?rest + 8 * length bs" by (simp add: r2_def)
    then have "(2::nat) ^ r2 * (2 ^ 5) ^ ?n2 = 2 ^ ?rest * (2 ^ 8) ^ length bs"
      by (metis power_add power_mult)
    then show ?thesis by (simp add: mult.commute)
  qed
  have hi: "V div 2 ^ r2 div 32 ^ ?n2 = (unat acc * 256 + unat b) div 2 ^ ?rest"
  proof -
    have "V div 2 ^ r2 div 32 ^ ?n2 = V div 256 ^ length bs div 2 ^ ?rest"
      by (simp only: div_mult2_eq [symmetric] pow)
    also have "V div 256 ^ length bs = unat acc * 256 + unat b"
      using bytes_val_bound[of bs] by (simp add: V)
    finally show ?thesis .
  qed
  have low: "digits 32 ?n1 (unat ?acc div 2 ^ ?rest) = digits 32 ?n1 ((unat acc * 256 + unat b) div 2 ^ ?rest)"
  proof (rule digits_cong)
    have *: "x div 2 ^ ?rest mod 32 ^ ?n1 = x mod 2 ^ (bits + 8) div 2 ^ ?rest" for x :: nat
    proof -
      have "(2::nat) ^ (bits + 8) = 2 ^ (?rest + 5 * ?n1)" by simp
      also have "\<dots> = 2 ^ ?rest * 32 ^ ?n1" by (simp only: power_add power_mult) simp
      finally show ?thesis by (simp add: mod_mult2_eq)
    qed
    have "(2::nat) ^ (bits + 8) dvd 2 ^ 32" using Cons.prems by (intro le_imp_power_dvd) simp
    then have "unat ?acc mod 2 ^ (bits + 8) = (unat acc * 256 + unat b) mod 2 ^ (bits + 8)"
      unfolding unat_shift_in by (rule mod_mod_cancel)
    then show "unat ?acc div 2 ^ ?rest mod 32 ^ ?n1 = (unat acc * 256 + unat b) div 2 ^ ?rest mod 32 ^ ?n1"
      by (simp only: *)
  qed
  have tl: "digits 32 ?n2 ((unat ?acc * 256 ^ length bs + bytes_val bs) div 2 ^ r2) = digits 32 ?n2 (V div 2 ^ r2)"
  proof (rule digits_cong)
    have *: "x div 2 ^ r2 mod 32 ^ ?n2 = x mod (256 ^ length bs * 2 ^ ?rest) div 2 ^ r2" for x :: nat
      by (simp flip: pow add: mod_mult2_eq)
    have "(2::nat) ^ ?rest dvd 2 ^ 32" by (intro le_imp_power_dvd) (simp add: mod_less_divisor less_imp_le order.trans[of _ 5])
    then have "unat ?acc mod 2 ^ ?rest = (unat acc * 256 + unat b) mod 2 ^ ?rest"
      unfolding unat_shift_in by (rule mod_mod_cancel)
    then have "(unat ?acc * 256 ^ length bs + bytes_val bs) mod (256 ^ length bs * 2 ^ ?rest) = V mod (256 ^ length bs * 2 ^ ?rest)"
      using bytes_val_bound[of bs] by (simp add: V mod_mult2_eq)
    then show "(unat ?acc * 256 ^ length bs + bytes_val bs) div 2 ^ r2 mod 32 ^ ?n2 = V div 2 ^ r2 mod 32 ^ ?n2"
      by (simp only: *)
  qed
  have "rand_chars (b # bs) acc bits =
      map ((!) B32) (digits 32 ?n1 (unat ?acc div 2 ^ ?rest)) @ rand_chars bs ?acc ?rest"
    by (simp add: emit_bits_digits Let_def)
  also have "\<dots> = map ((!) B32) (digits 32 (?n1 + ?n2) (V div 2 ^ r2))"
    using Cons.IH[of ?rest ?acc] by (simp add: low tl hi digits_add r2_def[symmetric])
  finally show ?case
    unfolding n r r2_def[symmetric] V_def[symmetric] .
qed

section \<open>Identifiers\<close>

lemma ulid_digits:
  assumes "time < 2 ^ 48" "length rand = 10"
  shows "ulid time rand = Inr (map ((!) B32) (digits 32 10 time @ digits 32 16 (bytes_val rand)))"
  using assms by (simp add: ulid_def time_chars_digits rand_chars_digits)

lemma B32_less_iff: "i < 32 \<Longrightarrow> j < 32 \<Longrightarrow> B32 ! i < B32 ! j \<longleftrightarrow> i < j"
  using sorted_wrt_nth_less[OF B32_sorted, of i j] sorted_wrt_nth_less[OF B32_sorted, of j i]
  by (metis length_B32 less_asym linorder_less_linear order.irrefl)

lemma bytes_val_inject: "length xs = length ys \<Longrightarrow> bytes_val xs = bytes_val ys \<longleftrightarrow> xs = ys"
proof (induction xs ys rule: list_induct2)
  case Nil
  then show ?case by simp
next
  case (Cons x xs y ys)
  show ?case
  proof
    assume "bytes_val (x # xs) = bytes_val (y # ys)"
    then have eq: "unat x * 256 ^ length ys + bytes_val xs = unat y * 256 ^ length ys + bytes_val ys"
      using Cons.hyps by (simp add: bytes_val_Cons)
    have b: "bytes_val xs < 256 ^ length ys" "bytes_val ys < 256 ^ length ys"
      using bytes_val_bound[of xs] bytes_val_bound[of ys] Cons.hyps by simp_all
    have div: "(unat z * 256 ^ length ys + v) div 256 ^ length ys = unat z"
      if "v < 256 ^ length ys" for z :: byte and v :: nat
      using that by simp
    have "unat x = unat y" using arg_cong[OF eq, of "\<lambda>v. v div 256 ^ length ys"] b by (simp only: div)
    moreover from this eq have "bytes_val xs = bytes_val ys" by simp
    ultimately show "x # xs = y # ys" using Cons.IH by (simp add: word_unat_eq_iff)
  qed simp
qed

lemma map_B32_less:
  assumes "\<forall>d \<in> set xs \<union> set ys. d < 32"
  shows "(map ((!) B32) xs < map ((!) B32) ys) = (xs < ys)"
  using assms by (intro map_strict_mono_less) (simp add: B32_less_iff)

lemma digits32_bound: "\<forall>d \<in> set (digits 32 n m). d < 32"
  by (auto dest: digits_bound[rotated])

lemma ulid_chars: "list_all ulid_char (map ((!) B32) (digits 32 n m))"
  using B32_chars digits32_bound[of n m] by (auto simp: list_all_iff)

text \<open>The number a ULID spells: the time above the eighty random bits.\<close>

lemma ulid_compare:
  assumes "t < 2 ^ 48" "t' < 2 ^ 48" "length r = 10" "length r' = 10"
    "ulid t r = Inr a" "ulid t' r' = Inr b"
  shows "a < b \<longleftrightarrow> t < t' \<or> (t = t' \<and> bytes_val r < bytes_val r')"
    and "a = b \<longleftrightarrow> t = t' \<and> r = r'"
proof -
  have a: "a = map ((!) B32) (digits 32 10 t @ digits 32 16 (bytes_val r))"
    and b: "b = map ((!) B32) (digits 32 10 t' @ digits 32 16 (bytes_val r'))"
    using assms ulid_digits by auto
  have t: "t < 32 ^ 10" "t' < 32 ^ 10" using assms(1,2) by simp_all
  have v: "bytes_val r < 32 ^ 16" "bytes_val r' < 32 ^ 16"
    using bytes_val_bound[of r] bytes_val_bound[of r'] assms(3,4) by simp_all
  show less: "a < b \<longleftrightarrow> t < t' \<or> (t = t' \<and> bytes_val r < bytes_val r')"
  proof -
    have "a < b \<longleftrightarrow> digits 32 10 t @ digits 32 16 (bytes_val r) < digits 32 10 t' @ digits 32 16 (bytes_val r')"
      unfolding a b using digits32_bound by (intro map_B32_less) auto
    also have "\<dots> \<longleftrightarrow> digits 32 10 t < digits 32 10 t' \<or>
        (digits 32 10 t = digits 32 10 t' \<and> digits 32 16 (bytes_val r) < digits 32 16 (bytes_val r'))"
      by (rule list_less_append_cases) (simp only: length_digits)
    finally show ?thesis
      by (simp only: digits_mono_less[OF t] digits_inject[OF t] digits_mono_less[OF v])
  qed
  have "b < a \<longleftrightarrow> t' < t \<or> (t' = t \<and> bytes_val r' < bytes_val r)"
  proof -
    have "b < a \<longleftrightarrow> digits 32 10 t' @ digits 32 16 (bytes_val r') < digits 32 10 t @ digits 32 16 (bytes_val r)"
      unfolding a b using digits32_bound by (intro map_B32_less) auto
    also have "\<dots> \<longleftrightarrow> digits 32 10 t' < digits 32 10 t \<or>
        (digits 32 10 t' = digits 32 10 t \<and> digits 32 16 (bytes_val r') < digits 32 16 (bytes_val r))"
      by (rule list_less_append_cases) (simp only: length_digits)
    finally show ?thesis
      by (simp only: digits_mono_less[OF t(2,1)] digits_inject[OF t(2,1)] digits_mono_less[OF v(2,1)])
  qed
  with less have "a = b \<longleftrightarrow> t = t' \<and> bytes_val r = bytes_val r'"
    by (metis linorder_neq_iff)
  then show "a = b \<longleftrightarrow> t = t' \<and> r = r'"
    using bytes_val_inject[of r r'] assms(3,4) by simp
qed

section \<open>Properties\<close>

text \<open>C10. A ULID is made exactly for a 48-bit time, and it has the shape a row id must have;
ULIDs sort by time first and by their random bits second, and two of them are equal only if
both time and random bytes are.\<close>

theorem ulid_sortable:
  assumes "length r = 10" "length r' = 10"
  shows "(ulid t r = Inl e \<longrightarrow> 2 ^ 48 \<le> t) \<and> (2 ^ 48 \<le> t \<longrightarrow> (\<exists>e. ulid t r = Inl e)) \<and>
    (ulid t r = Inr a \<longrightarrow> ulid_re a \<and> (ulid t' r' = Inr b \<longrightarrow>
       (a < b \<longleftrightarrow> t < t' \<or> (t = t' \<and> bytes_val r < bytes_val r')) \<and> (a = b \<longleftrightarrow> t = t' \<and> r = r')))"
proof -
  have range: "ulid t x = Inr a \<Longrightarrow> t < 2 ^ 48" for t x a
    by (simp add: ulid_def split: if_splits)
  have re: "ulid_re a" if "ulid t r = Inr a"
    using ulid_digits[OF range[OF that] assms(1)] that ulid_chars by (simp add: ulid_re_def)
  have err: "(\<exists>e. ulid t r = Inl e) \<longleftrightarrow> 2 ^ 48 \<le> t" by (auto simp: ulid_def)
  show ?thesis
    using re err ulid_compare[OF range range assms] by blast
qed

theorem ulid_sortable_witness:
  "\<exists>a b. ulid 1 (replicate 10 255) = Inr a \<and> ulid 2 (replicate 10 0) = Inr b \<and> a < b \<and> ulid_re a"
proof -
  obtain a b where ab: "ulid 1 (replicate 10 255) = Inr a" "ulid 2 (replicate 10 0) = Inr b"
    by (simp add: ulid_def)
  have "length (replicate 10 (255 :: byte)) = 10" "length (replicate 10 (0 :: byte)) = 10" by simp_all
  from ulid_sortable[OF this, of 1 _ a 2 b] ab show ?thesis by auto
qed

end
