(* ===== verification/Bytes.thy ===== *)
theory Bytes
  imports Digits
begin

text \<open>
  Conversions between strings and byte arrays: \<^verbatim>\<open>TextEncoder\<close> (UTF-8), the lowercase hex
  pair \<open>hex\<close>/\<open>unhex\<close> of core/src/replicator.ts, and \<open>base64Encode\<close>/\<open>base64Decode\<close> of
  core/src/signing.ts over \<^verbatim>\<open>btoa\<close> and \<^verbatim>\<open>atob\<close>. The lemmas are the round trips.
\<close>

section \<open>UTF-8\<close>

definition is_surrogate :: "code_unit \<Rightarrow> bool" where
  "is_surrogate c \<longleftrightarrow> 0xD800 \<le> c \<and> c \<le> 0xDFFF"

definition pair_code_point :: "code_unit \<Rightarrow> code_unit \<Rightarrow> nat" where
  "pair_code_point c d = 0x10000 + (unat c - 0xD800) * 0x400 + (unat d - 0xDC00)"

text \<open>The code points of a string; a lone surrogate is replaced by U+FFFD.\<close>

fun code_points :: "jsstring \<Rightarrow> nat list" where
  "code_points [] = []"
| "code_points [c] = [if is_surrogate c then 0xFFFD else unat c]"
| "code_points (c # d # cs) =
     (if 0xD800 \<le> c \<and> c \<le> 0xDBFF \<and> 0xDC00 \<le> d \<and> d \<le> 0xDFFF
      then pair_code_point c d # code_points cs
      else (if is_surrogate c then 0xFFFD else unat c) # code_points (d # cs))"

definition utf8_cp :: "nat \<Rightarrow> bytes" where
  "utf8_cp n =
     (if n < 0x80 then [of_nat n]
      else if n < 0x800 then [of_nat (0xC0 + n div 64), of_nat (0x80 + n mod 64)]
      else if n < 0x10000
        then [of_nat (0xE0 + n div 4096), of_nat (0x80 + n div 64 mod 64), of_nat (0x80 + n mod 64)]
      else [of_nat (0xF0 + n div 262144), of_nat (0x80 + n div 4096 mod 64),
            of_nat (0x80 + n div 64 mod 64), of_nat (0x80 + n mod 64)])"

text \<open>\<^verbatim>\<open>new TextEncoder().encode(s)\<close>.\<close>

definition utf8_encode :: "jsstring \<Rightarrow> bytes" where
  "utf8_encode s = concat (map utf8_cp (code_points s))"

section \<open>Hex\<close>

definition hex_byte :: "byte \<Rightarrow> jsstring" where
  "hex_byte b = pad_start 2 48 (to_base 16 (unat b))"

definition hex :: "bytes \<Rightarrow> jsstring" where
  "hex bs = concat (map hex_byte bs)"

definition line_terminator :: "code_unit \<Rightarrow> bool" where
  "line_terminator c \<longleftrightarrow> c \<in> {10, 13, 0x2028, 0x2029}"

text \<open>\<^verbatim>\<open>s.match(/../g)\<close>: the matches, which skip line terminators.\<close>

fun match_pairs :: "jsstring \<Rightarrow> (code_unit \<times> code_unit) list" where
  "match_pairs (c # d # cs) =
     (if line_terminator c \<or> line_terminator d then match_pairs (d # cs)
      else (c, d) # match_pairs cs)"
| "match_pairs _ = []"

definition hex_any :: "code_unit \<Rightarrow> nat option" where
  "hex_any c =
     (if 48 \<le> c \<and> c \<le> 57 then Some (unat c - 48)
      else if 97 \<le> c \<and> c \<le> 102 then Some (unat c - 87)
      else if 65 \<le> c \<and> c \<le> 70 then Some (unat c - 55)
      else None)"

definition white_space :: "code_unit \<Rightarrow> bool" where
  "white_space c \<longleftrightarrow>
     c \<in> {9, 10, 11, 12, 13, 32, 0xA0, 0x1680, 0x2028, 0x2029, 0x202F, 0x205F, 0x3000, 0xFEFF}
     \<or> (0x2000 \<le> c \<and> c \<le> 0x200A)"

text \<open>
  \<^verbatim>\<open>parseInt(h, 16)\<close> of a two-character string, stored in a \<^verbatim>\<open>Uint8Array\<close>: a valid prefix
  counts, a sign or a leading blank is accepted, \<^verbatim>\<open>NaN\<close> becomes 0.
\<close>

definition parse_hex_pair :: "code_unit \<times> code_unit \<Rightarrow> byte" where
  "parse_hex_pair p =
     (case p of (c, d) \<Rightarrow>
       (case (hex_any c, hex_any d) of
          (Some a, Some b) \<Rightarrow> of_nat (16 * a + b)
        | (Some a, None) \<Rightarrow> of_nat a
        | (None, Some b) \<Rightarrow>
            (if c = 45 then - of_nat b else if c = 43 \<or> white_space c then of_nat b else 0)
        | (None, None) \<Rightarrow> 0))"

definition unhex :: "jsstring \<Rightarrow> bytes" where
  "unhex s = map parse_hex_pair (match_pairs s)"

lemma hex_byte_digits: "hex_byte b = [digit_char (unat b div 16), digit_char (unat b mod 16)]"
proof -
  have b: "unat b < 256" by (rule unat_byte)
  then have "pad_start 2 48 (to_base 16 (unat b)) = map digit_char (digits 16 2 (unat b))"
    by (intro pad_start_to_base) auto
  moreover have "unat b div 16 mod 16 = unat b div 16" using b by simp
  ultimately show ?thesis by (simp add: hex_byte_def numeral_2_eq_2)
qed

lemma length_hex [simp]: "length (hex bs) = 2 * length bs"
  by (induction bs) (auto simp: hex_def hex_byte_digits)

lemma list_all_is_hex_hex: "list_all is_hex (hex bs)"
proof (induction bs)
  case Nil
  then show ?case by (simp add: hex_def)
next
  case (Cons b bs)
  have "unat b < 256" by (rule unat_byte)
  then show ?case using Cons by (simp add: hex_def hex_byte_digits)
qed

lemma digit_char_not_terminator: "d < 16 \<Longrightarrow> \<not> line_terminator (digit_char d)"
  by (auto simp: line_terminator_def word_unat_eq_iff unat_digit_char)

lemma hex_any_digit_char: "d < 16 \<Longrightarrow> hex_any (digit_char d) = Some d"
  by (auto simp: hex_any_def word_le_nat_alt unat_digit_char)

lemma unhex_hex: "unhex (hex bs) = bs"
proof (induction bs)
  case Nil
  then show ?case by (simp add: hex_def unhex_def)
next
  case (Cons b bs)
  have b: "unat b < 256" by (rule unat_byte)
  have "parse_hex_pair (digit_char (unat b div 16), digit_char (unat b mod 16)) = b"
    using b by (simp add: parse_hex_pair_def hex_any_digit_char)
  with Cons b show ?case
    by (simp add: hex_def unhex_def hex_byte_digits digit_char_not_terminator)
qed

lemma hex_inject: "hex a = hex b \<longleftrightarrow> a = b"
  by (metis unhex_hex)

section \<open>Base64\<close>

definition b64_char :: "nat \<Rightarrow> code_unit" where
  "b64_char n =
     (if n < 26 then of_nat (65 + n)
      else if n < 52 then of_nat (71 + n)
      else if n < 62 then of_nat (n - 4)
      else if n = 62 then 43 else 47)"

definition b64_val :: "code_unit \<Rightarrow> nat option" where
  "b64_val c =
     (if 65 \<le> c \<and> c \<le> 90 then Some (unat c - 65)
      else if 97 \<le> c \<and> c \<le> 122 then Some (unat c - 71)
      else if 48 \<le> c \<and> c \<le> 57 then Some (unat c + 4)
      else if c = 43 then Some 62
      else if c = 47 then Some 63
      else None)"

text \<open>\<^verbatim>\<open>btoa\<close> of the binary string of a byte array.\<close>

fun btoa :: "bytes \<Rightarrow> jsstring" where
  "btoa [] = []"
| "btoa [a] = [b64_char (unat a div 4), b64_char (unat a mod 4 * 16), 61, 61]"
| "btoa [a, b] =
     [b64_char (unat a div 4), b64_char (unat a mod 4 * 16 + unat b div 16),
      b64_char (unat b mod 16 * 4), 61]"
| "btoa (a # b # c # cs) =
     [b64_char (unat a div 4), b64_char (unat a mod 4 * 16 + unat b div 16),
      b64_char (unat b mod 16 * 4 + unat c div 64), b64_char (unat c mod 64)] @ btoa cs"

text \<open>The four-to-three regrouping of \<^verbatim>\<open>atob\<close>; a rest of one sextet is an error.\<close>

fun sextets :: "nat list \<Rightarrow> bytes option" where
  "sextets [] = Some []"
| "sextets [p] = None"
| "sextets [p, q] = Some [of_nat (p * 4 + q div 16)]"
| "sextets [p, q, r] = Some [of_nat (p * 4 + q div 16), of_nat (q mod 16 * 16 + r div 4)]"
| "sextets (p # q # r # s # xs) =
     map_option (\<lambda>t. of_nat (p * 4 + q div 16) # of_nat (q mod 16 * 16 + r div 4) #
       of_nat (r mod 4 * 64 + s) # t) (sextets xs)"

definition strip_pad :: "jsstring \<Rightarrow> jsstring" where
  "strip_pad s =
     (if length s mod 4 = 0 \<and> s \<noteq> [] \<and> last s = 61
      then (let t = butlast s in if t \<noteq> [] \<and> last t = 61 then butlast t else t)
      else s)"

text \<open>\<^verbatim>\<open>atob(s)\<close> on a string without blanks; \<open>None\<close> is the exception it throws.\<close>

definition atob :: "jsstring \<Rightarrow> bytes option" where
  "atob s =
     (let t = strip_pad s in
      if \<exists>c \<in> set t. b64_val c = None then None
      else sextets (map (\<lambda>c. the (b64_val c)) t))"

text \<open>\<^verbatim>\<open>/^[A-Za-z0-9+/]*={0,2}$/\<close>.\<close>

definition base64_re :: "jsstring \<Rightarrow> bool" where
  "base64_re s \<longleftrightarrow>
     (let t = dropWhile (\<lambda>c. b64_val c \<noteq> None) s in t = [] \<or> t = [61] \<or> t = [61, 61])"

definition base64Encode :: "bytes \<Rightarrow> jsstring" where
  "base64Encode bs = btoa bs"

definition base64Decode :: "jsstring \<Rightarrow> bytes result" where
  "base64Decode s =
     (if \<not> base64_re s then Inl (Error (js ''not base64''))
      else case atob s of None \<Rightarrow> Inl (Error (js ''InvalidCharacterError'')) | Some b \<Rightarrow> Inr b)"


text \<open>Encoding is printing the sextets and the padding.\<close>

fun sextets_of :: "bytes \<Rightarrow> nat list" where
  "sextets_of [] = []"
| "sextets_of [a] = [unat a div 4, unat a mod 4 * 16]"
| "sextets_of [a, b] = [unat a div 4, unat a mod 4 * 16 + unat b div 16, unat b mod 16 * 4]"
| "sextets_of (a # b # c # cs) =
     [unat a div 4, unat a mod 4 * 16 + unat b div 16,
      unat b mod 16 * 4 + unat c div 64, unat c mod 64] @ sextets_of cs"

definition pad_len :: "bytes \<Rightarrow> nat" where
  "pad_len bs = (3 - length bs mod 3) mod 3"

lemma sextets_of_bound: "n \<in> set (sextets_of bs) \<Longrightarrow> n < 64"
proof (induction bs rule: sextets_of.induct)
  case 1
  then show ?case by simp
next
  case (2 a)
  then show ?case using unat_byte[of a] by auto
next
  case (3 a b)
  have "unat a div 4 < 64" "unat b div 16 < 16" using unat_byte[of a] unat_byte[of b] by auto
  then show ?case using 3 by auto
next
  case (4 a b c cs)
  have "unat a div 4 < 64" "unat b div 16 < 16" "unat c div 64 < 4"
    using unat_byte[of a] unat_byte[of b] unat_byte[of c] by auto
  then show ?case using 4 by auto
qed

lemma btoa_sextets: "btoa bs = map b64_char (sextets_of bs) @ replicate (pad_len bs) 61"
  by (induction bs rule: btoa.induct) (auto simp: pad_len_def numeral_2_eq_2)

lemma sextets_sextets_of: "sextets (sextets_of bs) = Some bs"
proof (induction bs rule: sextets_of.induct)
  case 1
  then show ?case by simp
next
  case (2 a)
  have "unat a div 4 * 4 + unat a mod 4 = unat a" by simp
  then show ?case by (simp del: mod_mult_div_eq)
next
  case (3 a b)
  have "unat b div 16 < 16" using unat_byte[of b] by auto
  then have "(unat a mod 4 * 16 + unat b div 16) div 16 = unat a mod 4"
    "(unat a mod 4 * 16 + unat b div 16) mod 16 = unat b div 16" by simp_all
  then show ?case by simp
next
  case (4 a b c cs)
  have "unat b div 16 < 16" "unat c div 64 < 4" using unat_byte[of b] unat_byte[of c] by auto
  then have "(unat a mod 4 * 16 + unat b div 16) div 16 = unat a mod 4"
    "(unat a mod 4 * 16 + unat b div 16) mod 16 = unat b div 16"
    "(unat b mod 16 * 4 + unat c div 64) div 4 = unat b mod 16"
    "(unat b mod 16 * 4 + unat c div 64) mod 4 = unat c div 64" by simp_all
  with 4 show ?case by simp
qed

lemma length_btoa_mod: "length (btoa bs) mod 4 = 0"
  by (induction bs rule: btoa.induct) auto

lemma unat_b64_char:
  assumes "n < 64"
  shows "unat (b64_char n) =
     (if n < 26 then 65 + n else if n < 52 then 71 + n else if n < 62 then n - 4
      else if n = 62 then 43 else 47)"
proof -
  have u: "unat (of_nat k :: code_unit) = k" if "k < 65536" for k
    using that by (simp add: unat_of_nat take_bit_eq_mod)
  show ?thesis
    using assms by (simp add: b64_char_def u del: of_nat_add of_nat_diff of_nat_numeral)
qed

lemma b64_val_char [simp]: "n < 64 \<Longrightarrow> b64_val (b64_char n) = Some n"
  by (auto simp: b64_val_def word_le_nat_alt word_unat_eq_iff unat_b64_char)

lemma b64_char_not_pad: "n < 64 \<Longrightarrow> b64_char n \<noteq> 61"
  by (auto simp: word_unat_eq_iff unat_b64_char split: if_splits)

lemma b64_val_pad [simp]: "b64_val 61 = None"
  by (simp add: b64_val_def)

lemma strip_pad_btoa: "strip_pad (btoa bs) = map b64_char (sextets_of bs)"
proof -
  let ?t = "map b64_char (sextets_of bs)"
  have t: "?t \<noteq> [] \<Longrightarrow> last ?t \<noteq> 61"
    by (metis (no_types, lifting) b64_char_not_pad imageE last_in_set list.set_map sextets_of_bound)
  have "pad_len bs \<le> 2" by (simp add: pad_len_def)
  then consider "pad_len bs = 0" | "pad_len bs = 1" | "pad_len bs = 2" by linarith
  then show ?thesis
  proof cases
    case 1
    then have "btoa bs = ?t" by (simp add: btoa_sextets)
    then show ?thesis using t by (auto simp: strip_pad_def)
  next
    case 2
    then have "btoa bs = ?t @ [61]" by (simp add: btoa_sextets)
    moreover have "length (?t @ [61]) mod 4 = 0"
      using length_btoa_mod[of bs] calculation by simp
    ultimately show ?thesis using t by (auto simp: strip_pad_def Let_def)
  next
    case 3
    then show ?thesis using t length_btoa_mod[of bs]
      by (simp add: strip_pad_def btoa_sextets numeral_2_eq_2 butlast_append)
  qed
qed

lemma atob_btoa: "atob (btoa bs) = Some bs"
proof -
  have "map (\<lambda>c. the (b64_val c)) (map b64_char (sextets_of bs)) = sextets_of bs"
    unfolding map_map by (rule map_idI) (simp add: sextets_of_bound)
  then show ?thesis
    by (auto simp: atob_def strip_pad_btoa sextets_sextets_of comp_def dest: sextets_of_bound)
qed

lemma base64_re_btoa: "base64_re (btoa bs)"
proof -
  have "dropWhile (\<lambda>c. b64_val c \<noteq> None) (btoa bs) =
      dropWhile (\<lambda>c. b64_val c \<noteq> None) (replicate (pad_len bs) 61)"
    unfolding btoa_sextets by (subst dropWhile_append2) (auto dest: sextets_of_bound)
  moreover have "pad_len bs \<le> 2" by (simp add: pad_len_def)
  ultimately show ?thesis
    by (auto simp: base64_re_def le_Suc_eq numeral_2_eq_2)
qed

lemma base64_roundtrip: "base64Decode (base64Encode bs) = Inr bs"
  by (simp add: base64Decode_def base64Encode_def base64_re_btoa atob_btoa)

end
