(* ===== verification/Signing.thy ===== *)
theory Signing
  imports Json Bytes
begin

text \<open>
  Device keys and signatures of core/src/signing.ts (PROTOCOL.md sections 4.3 and 12).
  SHA-256 and Ed25519 come from \<^verbatim>\<open>@noble/hashes\<close> and \<^verbatim>\<open>@noble/curves\<close>, which are not part
  of the repository: they are the fields of the parameter \<open>crypto\<close>, and what the code relies
  on of them is the predicate \<open>crypto_key\<close>.
\<close>

section \<open>The cryptographic library, a parameter\<close>

record crypto =
  sha256 :: "bytes \<Rightarrow> bytes"
  ed_sign :: "bytes \<Rightarrow> bytes \<Rightarrow> bytes"
  ed_verify :: "bytes \<Rightarrow> bytes \<Rightarrow> bytes \<Rightarrow> bool option"

text \<open>
  \<open>ed_sign payload privateKey\<close> and \<open>ed_verify sig payload publicKey\<close> have the argument order
  of the library; \<open>None\<close> is an exception thrown by \<^verbatim>\<open>verify\<close> (a malformed point or key).
\<close>

record device_key =
  publicKey :: bytes
  privateKey :: bytes

text \<open>
  Documented behaviour of the library for one generated key pair: digests have 32 bytes,
  signatures have 64, and what the private key signs the public key verifies.
\<close>

definition crypto_key :: "crypto \<Rightarrow> device_key \<Rightarrow> bool" where
  "crypto_key C k \<longleftrightarrow>
     (\<forall>x. length (sha256 C x) = 32) \<and>
     (\<forall>p. length (ed_sign C p (privateKey k)) = 64 \<and>
          ed_verify C (ed_sign C p (privateKey k)) p (publicKey k) = Some True)"

section \<open>Identifiers and signatures\<close>

definition SIGNING_DOMAIN :: jsstring where
  "SIGNING_DOMAIN = js ''tangentfeed/v2/op''"

definition deviceIdFromPublicKey :: "crypto \<Rightarrow> bytes \<Rightarrow> jsstring" where
  "deviceIdFromPublicKey C pk = concat (map hex_byte (take 16 (sha256 C pk)))"

definition signPayload :: "crypto \<Rightarrow> bytes \<Rightarrow> bytes \<Rightarrow> jsstring" where
  "signPayload C payload sk = base64Encode (ed_sign C payload sk)"

definition verifyPayload :: "crypto \<Rightarrow> bytes \<Rightarrow> jsstring \<Rightarrow> bytes \<Rightarrow> bool" where
  "verifyPayload C payload signature pk =
     (case base64Decode signature of
        Inl e \<Rightarrow> False
      | Inr sg \<Rightarrow>
          if length sg \<noteq> 64 then False
          else (case ed_verify C sg payload pk of None \<Rightarrow> False | Some b \<Rightarrow> b))"

lemma deviceId_hex: "deviceIdFromPublicKey C pk = hex (take 16 (sha256 C pk))"
  by (simp add: deviceIdFromPublicKey_def hex_def)

lemma deviceId_shape:
  assumes "length (sha256 C pk) = 32"
  shows "length (deviceIdFromPublicKey C pk) = 32" "list_all is_hex (deviceIdFromPublicKey C pk)"
  using assms by (simp_all add: deviceId_hex list_all_is_hex_hex)

lemma deviceId_inject:
  assumes "deviceIdFromPublicKey C pk = deviceIdFromPublicKey C pk'"
  shows "take 16 (sha256 C pk) = take 16 (sha256 C pk')"
  using assms by (simp add: deviceId_hex hex_inject)

lemma verify_sign:
  "crypto_key C k \<Longrightarrow> verifyPayload C p (signPayload C p (privateKey k)) (publicKey k)"
  by (simp add: verifyPayload_def signPayload_def base64_roundtrip crypto_key_def)

lemma verifyPayload_decodes:
  "verifyPayload C p s pk \<Longrightarrow>
     \<exists>sg. base64Decode s = Inr sg \<and> length sg = 64 \<and> ed_verify C sg p pk = Some True"
  by (auto simp: verifyPayload_def split: sum.splits if_splits option.splits)

section \<open>Properties\<close>

text \<open>C11. A payload signed with a device's private key verifies under its public key, and any
signature that verifies is the base64 text of 64 bytes the signature scheme accepts. The device
id derived from a public key always has the shape a timestamp requires of it.\<close>

theorem signature_sound:
  assumes "crypto_key C k"
  shows "verifyPayload C p (signPayload C p (privateKey k)) (publicKey k) \<and>
    length (deviceIdFromPublicKey C pk) = 32 \<and> list_all is_hex (deviceIdFromPublicKey C pk) \<and>
    (verifyPayload C p s pk \<longrightarrow>
      (\<exists>sg. base64Decode s = Inr sg \<and> length sg = 64 \<and> ed_verify C sg p pk = Some True))"
  using verify_sign[OF assms] verifyPayload_decodes deviceId_shape[of C pk] assms
  by (auto simp: crypto_key_def)

text \<open>A scheme that meets the hypothesis: a signature carries the first half of the public key.\<close>

definition sample_crypto :: crypto where
  "sample_crypto = \<lparr>
     sha256 = (\<lambda>x. take 32 (x @ replicate 32 0)),
     ed_sign = (\<lambda>p sk. take 32 (sk @ replicate 32 0) @ take 32 (p @ replicate 32 0)),
     ed_verify = (\<lambda>s p pk. Some (s = take 32 (pk @ replicate 32 0) @ take 32 (p @ replicate 32 0)))\<rparr>"

definition sample_key :: "byte \<Rightarrow> device_key" where
  "sample_key b = \<lparr>publicKey = replicate 32 b, privateKey = replicate 32 b\<rparr>"

lemma sample_crypto_key: "crypto_key sample_crypto (sample_key b)"
  by (simp add: crypto_key_def sample_crypto_def sample_key_def min_def)

theorem signature_sound_witness:
  "verifyPayload sample_crypto [1, 2, 3] (signPayload sample_crypto [1, 2, 3] (privateKey (sample_key 7)))
     (publicKey (sample_key 7))"
  using signature_sound[OF sample_crypto_key] by blast

end
