(* ===== verification/Op.thy ===== *)
theory Op
  imports Hlc Signing Ulid
begin

text \<open>
  Operations and frontiers of core/src/op.ts (PROTOCOL.md sections 3, 6, 11 and 12): the
  record, its validation from an untrusted value, the version-vector tests, and the payload
  a signature covers.
\<close>

section \<open>Operations\<close>

definition TOMBSTONE_COLUMN :: jsstring where "TOMBSTONE_COLUMN = js ''-''"
definition MAX_OP_BYTES :: nat where "MAX_OP_BYTES = 64 * 1024"
definition MAX_BATCH_OPS :: nat where "MAX_BATCH_OPS = 1000"

record op =
  o_id :: jsstring
  o_table :: jsstring
  o_row :: jsstring
  o_column :: jsstring
  o_value :: jsval
  o_hlc :: jsstring
  o_sig :: jsstring
  o_device :: jsstring

text \<open>A frontier is a plain object from device to the highest encoded timestamp seen.\<close>

type_synonym frontier = "(jsstring, jsstring) jsmap"

section \<open>Validation\<close>

text \<open>\<^verbatim>\<open>/^[a-zA-Z_][a-zA-Z0-9_]{0,63}$/\<close>.\<close>

definition name_start :: "code_unit \<Rightarrow> bool" where
  "name_start c \<longleftrightarrow> (97 \<le> c \<and> c \<le> 122) \<or> (65 \<le> c \<and> c \<le> 90) \<or> c = 95"

definition name_re :: "jsstring \<Rightarrow> bool" where
  "name_re s \<longleftrightarrow>
     (case s of
        [] \<Rightarrow> False
      | c # cs \<Rightarrow> name_start c \<and> length cs \<le> 63 \<and>
          list_all (\<lambda>d. name_start d \<or> (48 \<le> d \<and> d \<le> 57)) cs)"

text \<open>\<open>v.forEach\<close> visits every element; the first failing element decides the error.\<close>

function assertJson :: "jsval \<Rightarrow> jsstring \<Rightarrow> unit result" where
  "assertJson (JBool b) path = Inr ()"
| "assertJson (JStr s) path = Inr ()"
| "assertJson (JNum n) path =
     (if \<not> is_finite n then Inl (BadOpError (path @ js '': non-finite number'')) else Inr ())"
| "assertJson JNull path = Inr ()"
| "assertJson (JArr xs) path =
     check_all (\<lambda>(i, x). assertJson x (path @ js ''['' @ to_base 10 i @ js '']''))
       (zip [0..<length xs] xs)"
| "assertJson (JObj kvs) path =
     check_all (\<lambda>(k, x). assertJson x (path @ js ''.'' @ k)) kvs"
| "assertJson JUndef path = Inl (BadOpError (path @ js '': unsupported type '' @ typeof JUndef))"
| "assertJson JFun path = Inl (BadOpError (path @ js '': unsupported type '' @ typeof JFun))"
  by pat_completeness auto
termination
proof (relation "measure (\<lambda>(v, p). size v)", goal_cases)
  case 1
  show ?case by simp
next
  case (2 xs path x i y)
  then have "y \<in> set xs" by (auto dest: set_zip_rightD)
  then have "size y < Suc (size_list size xs)" by (simp add: size_list_estimation' less_Suc_eq_le)
  then show ?case by simp
next
  case (3 kvs path x k y)
  then have "size_prod (\<lambda>x. 0) size x \<le> size_list (size_prod (\<lambda>x. 0) size) kvs"
    by (intro size_list_estimation') auto
  with 3(2) show ?case by auto
qed

text \<open>Reading a property of an object value: absent and \<^verbatim>\<open>undefined\<close> are the same.\<close>

definition get_prop :: "(jsstring \<times> jsval) list \<Rightarrow> jsstring \<Rightarrow> jsval" where
  "get_prop ob k = (case map_of ob k of None \<Rightarrow> JUndef | Some v \<Rightarrow> v)"

fun the_str :: "jsval \<Rightarrow> jsstring" where
  "the_str (JStr s) = s"
| "the_str _ = []"

definition is_str :: "jsval \<Rightarrow> bool" where
  "is_str v \<longleftrightarrow> (case v of JStr s \<Rightarrow> True | _ \<Rightarrow> False)"

definition required_strings :: "jsstring list" where
  "required_strings = map js [''id'', ''table'', ''row'', ''column'', ''hlc'', ''device'', ''sig'']"

definition validateOp :: "jsval \<Rightarrow> op result" where
  "validateOp v =
     (case v of
        JArr xs \<Rightarrow> Inl (BadOpError (js ''field id must be a string''))
      | JObj ob \<Rightarrow>
          bind_res (check_all (\<lambda>f. check (is_str (get_prop ob f))
              (BadOpError (js ''field '' @ f @ js '' must be a string''))) required_strings) (\<lambda>_.
          bind_res (check (map_of ob (js ''value'') \<noteq> None) (BadOpError (js ''missing value''))) (\<lambda>_.
          let id = the_str (get_prop ob (js ''id'')); table = the_str (get_prop ob (js ''table''));
              row = the_str (get_prop ob (js ''row'')); column = the_str (get_prop ob (js ''column''));
              hlc = the_str (get_prop ob (js ''hlc'')); device = the_str (get_prop ob (js ''device''));
              sg = the_str (get_prop ob (js ''sig'')); value = get_prop ob (js ''value'')
          in case decodeHlc hlc of
               Inl e \<Rightarrow> Inl (BadOpError (js ''malformed hlc: '' @ hlc))
             | Inr decoded \<Rightarrow>
          bind_res (check (id = hlc) (BadOpError (js ''id must equal hlc in v0.1''))) (\<lambda>_.
          bind_res (check (device = deviceId decoded)
              (BadOpError (js ''device does not match hlc suffix''))) (\<lambda>_.
          bind_res (check (name_re table) (BadOpError (js ''bad table name: '' @ table))) (\<lambda>_.
          bind_res (check (column = TOMBSTONE_COLUMN \<or> name_re column)
              (BadOpError (js ''bad column name: '' @ column))) (\<lambda>_.
          bind_res (check (ulid_re row) (BadOpError (js ''row is not a ULID: '' @ row))) (\<lambda>_.
          bind_res (assertJson value (js ''value'')) (\<lambda>_.
          bind_res (check (length (the (json_stringify v)) \<le> MAX_OP_BYTES)
              (BadOpError (js ''op exceeds 64 KiB''))) (\<lambda>_.
          Inr \<lparr>o_id = id, o_table = table, o_row = row, o_column = column, o_value = value,
               o_hlc = hlc, o_sig = sg, o_device = device\<rparr>)))))))))
      | _ \<Rightarrow> Inl (BadOpError (js ''not an object'')))"

text \<open>The object a program holds for an operation: \<open>makeLocalOp\<close> builds it in this key order.\<close>

definition op_to_js :: "op \<Rightarrow> jsval" where
  "op_to_js p = JObj
     [(js ''id'', JStr (o_id p)), (js ''table'', JStr (o_table p)), (js ''row'', JStr (o_row p)),
      (js ''column'', JStr (o_column p)), (js ''value'', o_value p), (js ''hlc'', JStr (o_hlc p)),
      (js ''device'', JStr (o_device p)), (js ''sig'', JStr (o_sig p))]"

lemma op_keys: "\<forall>k \<in> set (map js [''id'', ''table'', ''row'', ''column'', ''value'', ''hlc'', ''device'', ''sig'']). array_index k = None"
  by code_simp

lemma op_to_js_values [simp]:
  "wf_val (op_to_js p) \<longleftrightarrow> wf_val (o_value p)" "is_json (op_to_js p) \<longleftrightarrow> is_json (o_value p)"
proof -
  obtain ob where ob: "op_to_js p = JObj ob"
    "map fst ob = map js [''id'', ''table'', ''row'', ''column'', ''value'', ''hlc'', ''device'', ''sig'']"
    "map snd ob = [JStr (o_id p), JStr (o_table p), JStr (o_row p), JStr (o_column p), o_value p, JStr (o_hlc p),
       JStr (o_device p), JStr (o_sig p)]"
    by (simp add: op_to_js_def)
  have "\<forall>e \<in> set ob. array_index (fst e) = None" using op_keys unfolding ob(2)[symmetric] by simp
  then have "entry_order ob = ob" by (rule entry_order_names)
  moreover have "distinct (map fst ob)" unfolding ob(2) by simp
  moreover have "(\<forall>(k, v) \<in> set ob. P v) \<longleftrightarrow> (\<forall>v \<in> set (map snd ob). P v)" for P by auto
  ultimately show "wf_val (op_to_js p) \<longleftrightarrow> wf_val (o_value p)" "is_json (op_to_js p) \<longleftrightarrow> is_json (o_value p)"
    unfolding ob(1) wf_val.simps is_json.simps by (simp_all add: ob(3))
qed

text \<open>What a validated operation satisfies.\<close>

definition valid_op :: "op \<Rightarrow> bool" where
  "valid_op p \<longleftrightarrow>
     o_id p = o_hlc p \<and>
     (\<exists>h. decodeHlc (o_hlc p) = Inr h \<and> deviceId h = o_device p) \<and>
     name_re (o_table p) \<and>
     (o_column p = TOMBSTONE_COLUMN \<or> name_re (o_column p)) \<and>
     ulid_re (o_row p) \<and>
     assertJson (o_value p) (js ''value'') = Inr ()"

section \<open>Frontiers\<close>

definition aboveFrontier :: "op \<Rightarrow> frontier \<Rightarrow> bool" where
  "aboveFrontier p f =
     (case map_of f (o_device p) of None \<Rightarrow> True | Some seen \<Rightarrow> seen < o_hlc p)"

definition advanceFrontier :: "frontier \<Rightarrow> op \<Rightarrow> frontier" where
  "advanceFrontier f p =
     (case map_of f (o_device p) of
        None \<Rightarrow> map_set (o_device p) (o_hlc p) f
      | Some seen \<Rightarrow> if o_hlc p \<le> seen then f else map_set (o_device p) (o_hlc p) f)"

text \<open>
  A frontier is an object: its entries are in the language's order. One whose devices are not
  array indices is an object in the order of insertion.
\<close>

definition js_frontier :: "frontier \<Rightarrow> bool" where
  "js_frontier f \<longleftrightarrow> dkeys f \<and> entry_order f = f"

definition plain_frontier :: "frontier \<Rightarrow> bool" where
  "plain_frontier f \<longleftrightarrow> dkeys f \<and> (\<forall>d \<in> fst ` set f. array_index d = None)"

lemma plain_js_frontier: "plain_frontier f \<Longrightarrow> js_frontier f"
  using entry_order_names[of f] by (auto simp: plain_frontier_def js_frontier_def)

lemma plain_frontier_Nil [simp]: "plain_frontier []"
  by (simp add: plain_frontier_def)

lemma plain_advance:
  "plain_frontier f \<Longrightarrow> array_index (o_device p) = None \<Longrightarrow> plain_frontier (advanceFrontier f p)"
  using set_map_set_subset[of "o_device p" "o_hlc p" f]
  by (fastforce simp: plain_frontier_def advanceFrontier_def split: option.split)

section \<open>Signatures\<close>

definition signedPayload :: "op \<Rightarrow> bytes" where
  "signedPayload p = utf8_encode (SIGNING_DOMAIN @ the (canonicalJson (JObj
     [(js ''id'', JStr (o_id p)), (js ''table'', JStr (o_table p)), (js ''row'', JStr (o_row p)),
      (js ''column'', JStr (o_column p)), (js ''value'', o_value p), (js ''hlc'', JStr (o_hlc p)),
      (js ''device'', JStr (o_device p))])))"

definition verifyOp :: "crypto \<Rightarrow> op \<Rightarrow> bytes \<Rightarrow> bool" where
  "verifyOp C p pk = verifyPayload C (signedPayload p) (o_sig p) pk"

section \<open>Facts about validation\<close>

lemma is_str_iff: "is_str v \<longleftrightarrow> (\<exists>s. v = JStr s)"
  by (auto simp: is_str_def split: jsval.splits)

lemma validateOp_valid:
  assumes "validateOp v = Inr p"
  shows "valid_op p"
proof -
  from assms obtain ob where v: "v = JObj ob"
    by (auto simp: validateOp_def split: jsval.splits)
  show ?thesis
    using assms unfolding validateOp_def v jsval.case
    by (auto simp: bind_res_eq_Inr check_eq_Inr Let_def valid_op_def split: sum.splits)
qed

lemma assertJson_is_json: "assertJson v path = Inr () \<Longrightarrow> wf_val v \<Longrightarrow> is_json v"
proof (induction v path rule: assertJson.induct)
  case (5 xs path)
  have "is_json x" if "x \<in> set xs" for x
  proof -
    from that obtain i where i: "i < length xs" "xs ! i = x" by (auto simp: in_set_conv_nth)
    then have mem: "(i, x) \<in> set (zip [0..<length xs] xs)" by (force simp: in_set_zip)
    with 5 that show ?thesis by (fastforce simp: check_all_eq_Inr)
  qed
  then show ?case by simp
next
  case (6 kvs path)
  then show ?case by (fastforce simp: check_all_eq_Inr)
qed (auto split: if_splits)

lemma name_re_units: "name_re s \<Longrightarrow> 0 \<notin> set s"
  by (auto simp: name_re_def name_start_def list_all_iff split: list.splits)

lemma ulid_re_units: "ulid_re s \<Longrightarrow> 0 \<notin> set s"
  by (auto simp: ulid_re_def ulid_char_def list_all_iff)

lemma validateOp_value:
  assumes "validateOp v = Inr p" "wf_val v"
  shows "is_json (o_value p)"
proof -
  from assms obtain ob where v: "v = JObj ob"
    by (auto simp: validateOp_def split: jsval.splits)
  have p: "o_value p = get_prop ob (js ''value'')" "map_of ob (js ''value'') \<noteq> None"
    using assms(1) unfolding validateOp_def v jsval.case
    by (auto simp: bind_res_eq_Inr check_eq_Inr Let_def split: sum.splits)
  then have "wf_val (o_value p)"
    using assms(2) by (auto simp: v get_prop_def dest!: map_of_SomeD)
  moreover have "assertJson (o_value p) (js ''value'') = Inr ()"
    using validateOp_valid[OF assms(1)] by (simp add: valid_op_def)
  ultimately show ?thesis using assertJson_is_json by blast
qed

lemma validateOp_length:
  assumes "valid_op p"
  shows "validateOp (op_to_js p) =
    bind_res (check (length (the (json_stringify (op_to_js p))) \<le> MAX_OP_BYTES)
      (BadOpError (js ''op exceeds 64 KiB''))) (\<lambda>_. Inr p)"
proof -
  define ob where "ob = [(js ''id'', JStr (o_id p)), (js ''table'', JStr (o_table p)), (js ''row'', JStr (o_row p)),
      (js ''column'', JStr (o_column p)), (js ''value'', o_value p), (js ''hlc'', JStr (o_hlc p)),
      (js ''device'', JStr (o_device p)), (js ''sig'', JStr (o_sig p))]"
  have get: "get_prop ob (js ''id'') = JStr (o_id p)" "get_prop ob (js ''table'') = JStr (o_table p)"
    "get_prop ob (js ''row'') = JStr (o_row p)" "get_prop ob (js ''column'') = JStr (o_column p)"
    "get_prop ob (js ''value'') = o_value p" "get_prop ob (js ''hlc'') = JStr (o_hlc p)"
    "get_prop ob (js ''device'') = JStr (o_device p)" "get_prop ob (js ''sig'') = JStr (o_sig p)"
    "map_of ob (js ''value'') \<noteq> None"
    by (simp_all add: ob_def get_prop_def)
  have req: "check_all (\<lambda>f. check (is_str (get_prop ob f))
      (BadOpError (js ''field '' @ f @ js '' must be a string''))) required_strings = Inr ()"
    unfolding check_all_eq_Inr required_strings_def by (auto simp: get is_str_def)
  have v: "op_to_js p = JObj ob" by (simp add: op_to_js_def ob_def)
  from assms obtain h where h: "decodeHlc (o_hlc p) = Inr h" "deviceId h = o_device p"
    by (auto simp: valid_op_def)
  show ?thesis
    using assms h unfolding validateOp_def v jsval.case req bind_res_simps
    by (simp add: get check_def Let_def valid_op_def)
qed

lemma validateOp_op_to_js:
  "valid_op p \<Longrightarrow> length (the (json_stringify (op_to_js p))) \<le> MAX_OP_BYTES \<Longrightarrow>
     validateOp (op_to_js p) = Inr p"
  by (simp add: validateOp_length)

lemma validateOp_too_long:
  "valid_op p \<Longrightarrow> MAX_OP_BYTES < length (the (json_stringify (op_to_js p))) \<Longrightarrow>
     validateOp (op_to_js p) = Inl (BadOpError (js ''op exceeds 64 KiB''))"
  by (simp add: validateOp_length check_def)

text \<open>
  The object of a validated operation is accepted as well: it is what was validated, less the
  properties an operation does not have, so it is not longer.
\<close>

lemma length_js_join: "length (js_join [c] ws) = sum_list (map (\<lambda>w. length w + 1) ws) - 1"
proof (induction ws)
  case (Cons w ws)
  then show ?case by (cases ws) auto
qed simp

definition entry_length :: "jsstring \<times> jsval \<Rightarrow> nat" where
  "entry_length e = (case json_stringify (snd e) of None \<Rightarrow> 0
     | Some t \<Rightarrow> length (json_quote (fst e)) + 1 + length t + 1)"

lemma length_stringify_obj:
  "length (the (json_stringify (JObj kvs))) = 2 + (sum_list (map entry_length kvs) - 1)"
proof -
  have "sum_list (map (\<lambda>w. length w + 1) (concat (map (\<lambda>(k, x). case json_stringify x of None \<Rightarrow> []
      | Some t \<Rightarrow> [json_quote k @ [58] @ t]) kvs))) = sum_list (map entry_length kvs)"
    by (induction kvs) (auto simp: entry_length_def split: option.splits)
  then show ?thesis by (simp add: length_js_join)
qed

lemma length_stringify_mono:
  assumes "set kvs \<subseteq> set kws" "dkeys kvs" "dkeys kws"
  shows "length (the (json_stringify (JObj kvs))) \<le> length (the (json_stringify (JObj kws)))"
proof -
  have "distinct kvs" "distinct kws" using assms(2,3) by (simp_all add: distinct_map)
  then have "sum_list (map entry_length kvs) \<le> sum_list (map entry_length kws)"
    using assms(1) by (simp add: sum_list_distinct_conv_sum_set sum_mono2)
  then show ?thesis unfolding length_stringify_obj by linarith
qed

lemma validateOp_again:
  assumes v: "validateOp v = Inr p" and wf: "wf_val v"
  shows "validateOp (op_to_js p) = Inr p"
proof -
  from v obtain ob where ob: "v = JObj ob" by (auto simp: validateOp_def split: jsval.splits)
  have req: "is_str (get_prop ob f)" if "f \<in> set required_strings" for f
    using v that by (auto simp: ob validateOp_def bind_res_eq_Inr check_all_eq_Inr check_eq_Inr)
  have str: "map_of ob f = Some (JStr (the_str (get_prop ob f)))" if "f \<in> set required_strings" for f
    using req[OF that] by (auto simp: is_str_iff get_prop_def split: option.splits)
  have flds: "o_id p = the_str (get_prop ob (js ''id''))" "o_table p = the_str (get_prop ob (js ''table''))"
    "o_row p = the_str (get_prop ob (js ''row''))" "o_column p = the_str (get_prop ob (js ''column''))"
    "o_hlc p = the_str (get_prop ob (js ''hlc''))" "o_device p = the_str (get_prop ob (js ''device''))"
    "o_sig p = the_str (get_prop ob (js ''sig''))" "map_of ob (js ''value'') = Some (o_value p)"
    and size: "length (the (json_stringify v)) \<le> MAX_OP_BYTES"
    using v unfolding ob validateOp_def jsval.case
    by (auto simp: bind_res_eq_Inr check_eq_Inr Let_def get_prop_def split: sum.splits)
  obtain kvs where kvs: "op_to_js p = JObj kvs" and kvs': "kvs = [(js ''id'', JStr (o_id p)), (js ''table'', JStr (o_table p)),
      (js ''row'', JStr (o_row p)), (js ''column'', JStr (o_column p)), (js ''value'', o_value p),
      (js ''hlc'', JStr (o_hlc p)), (js ''device'', JStr (o_device p)), (js ''sig'', JStr (o_sig p))]"
    by (simp add: op_to_js_def)
  have "map_of ob k = Some x" if "(k, x) \<in> set kvs" for k x
    using that flds str by (auto simp: kvs' required_strings_def)
  then have "set kvs \<subseteq> set ob" by (auto dest: map_of_SomeD)
  moreover have "dkeys kvs" by (simp add: kvs')
  moreover have "dkeys ob" using wf by (simp add: ob)
  ultimately have "length (the (json_stringify (op_to_js p))) \<le> length (the (json_stringify v))"
    unfolding kvs ob by (rule length_stringify_mono)
  then show ?thesis using size validateOp_op_to_js[OF validateOp_valid[OF v]] by simp
qed

section \<open>Facts about frontiers\<close>

text \<open>Frontiers as maps: advancing takes the maximum per device.\<close>

definition front_join :: "(jsstring \<rightharpoonup> jsstring) \<Rightarrow> op \<Rightarrow> (jsstring \<rightharpoonup> jsstring)" where
  "front_join m p = m(o_device p \<mapsto>
     (case m (o_device p) of None \<Rightarrow> o_hlc p | Some s \<Rightarrow> max s (o_hlc p)))"

lemma map_of_advanceFrontier: "map_of (advanceFrontier f p) = front_join (map_of f) p"
  by (auto simp: advanceFrontier_def front_join_def fun_eq_iff max_def split: option.splits)

lemma dkeys_advanceFrontier [simp]: "dkeys f \<Longrightarrow> dkeys (advanceFrontier f p)"
  by (auto simp: advanceFrontier_def split: option.splits)

lemma front_join_commute: "front_join (front_join m p) q = front_join (front_join m q) p"
  by (auto simp: front_join_def fun_eq_iff max.commute max.left_commute split: option.splits)

lemma front_join_idem: "front_join (front_join m p) p = front_join m p"
  by (auto simp: front_join_def fun_eq_iff split: option.splits)

lemma aboveFrontier_iff:
  "aboveFrontier p f \<longleftrightarrow> (case map_of f (o_device p) of None \<Rightarrow> True | Some s \<Rightarrow> s < o_hlc p)"
  by (simp add: aboveFrontier_def)

lemma not_above_advance: "\<not> aboveFrontier p (advanceFrontier f p)"
  by (auto simp: aboveFrontier_def map_of_advanceFrontier front_join_def split: option.splits)

lemma above_advance_antimono: "aboveFrontier p (advanceFrontier f q) \<Longrightarrow> aboveFrontier p f"
  by (auto simp: aboveFrontier_def map_of_advanceFrontier front_join_def split: option.splits if_splits)

text \<open>A frontier bounds a set of operations: it has passed each of them.\<close>

definition passed :: "(jsstring \<rightharpoonup> jsstring) \<Rightarrow> op \<Rightarrow> bool" where
  "passed m p \<longleftrightarrow> (\<exists>s. m (o_device p) = Some s \<and> o_hlc p \<le> s)"

lemma passed_iff_not_above: "passed (map_of f) p \<longleftrightarrow> \<not> aboveFrontier p f"
  by (auto simp: passed_def aboveFrontier_def split: option.splits)

lemma passed_front_join: "passed (front_join m p) q \<longleftrightarrow>
    passed m q \<or> (o_device q = o_device p \<and> o_hlc q \<le> o_hlc p)"
  by (auto simp: passed_def front_join_def le_max_iff_disj split: option.splits)

end
