(* ===== verification/Op_Properties.thy ===== *)
theory Op_Properties
  imports Op
begin

text \<open>
  What validation accepts and what a frontier remembers, as properties of core/src/op.ts.
  The size limit is examined on an operation whose JSON text is 30 thousand euro signs long.
\<close>

section \<open>Samples\<close>

definition sample_hlc :: jsstring where
  "sample_hlc = js ''000000000001-0000-'' @ replicate 32 97"

definition text_op :: "jsstring \<Rightarrow> op" where
  "text_op s = \<lparr>o_id = sample_hlc, o_table = js ''t'', o_row = replicate 26 48, o_column = js ''c'',
     o_value = JStr s, o_hlc = sample_hlc, o_sig = [], o_device = replicate 32 97\<rparr>"

lemma decode_sample_hlc: "decodeHlc sample_hlc = Inr \<lparr>millis = 1, counter = 0, deviceId = replicate 32 97\<rparr>"
  by code_simp

lemma text_op_valid: "valid_op (text_op s)"
proof -
  have "name_re (js ''t'')" "name_re (js ''c'')" "ulid_re (replicate 26 48)" by code_simp+
  then show ?thesis by (simp add: valid_op_def text_op_def decode_sample_hlc)
qed

text \<open>Text that \<^verbatim>\<open>JSON.stringify\<close> leaves as it is.\<close>

lemma quote_plain:
  "\<forall>c \<in> set s. 32 \<le> c \<and> c \<noteq> 34 \<and> c \<noteq> 92 \<and> \<not> is_high c \<and> \<not> is_low c \<Longrightarrow> quote_body s = s"
  by (induction s rule: quote_body.induct) (auto simp: esc_unit_def Let_def)

definition euros :: jsstring where "euros = replicate 30000 8364"

lemma quote_euros: "json_quote euros = [34] @ euros @ [34]"
  by (simp add: json_quote_def euros_def quote_plain is_high_def is_low_def)

definition json_head :: jsstring where
  "json_head = js ''{'' @ concat (map (\<lambda>(k, v). json_quote k @ [58] @ json_quote v @ [44])
     [(js ''id'', sample_hlc), (js ''table'', js ''t''), (js ''row'', replicate 26 48), (js ''column'', js ''c'')])
   @ json_quote (js ''value'') @ [58, 34]"

definition json_tail :: jsstring where
  "json_tail = [34, 44] @ json_quote (js ''hlc'') @ [58] @ json_quote sample_hlc @ [44]
     @ json_quote (js ''device'') @ [58] @ json_quote (replicate 32 97) @ [44]
     @ json_quote (js ''sig'') @ [58] @ json_quote [] @ [125]"

lemma json_euros: "the (json_stringify (op_to_js (text_op euros))) = json_head @ euros @ json_tail"
  by (simp add: op_to_js_def text_op_def quote_euros json_head_def json_tail_def js_Cons)

lemma json_frame:
  "length json_head + length json_tail \<le> 400" "\<forall>c \<in> set (json_head @ json_tail). c < 128"
proof -
  show "length json_head + length json_tail \<le> 400" by code_simp
  have "list_all (\<lambda>c. c < 128) (json_head @ json_tail)" by code_simp
  then show "\<forall>c \<in> set (json_head @ json_tail). c < 128" by (simp only: list_all_iff)
qed

lemma code_points_plain: "\<forall>c \<in> set s. \<not> is_surrogate c \<Longrightarrow> code_points s = map unat s"
proof (induction s rule: code_points.induct)
  case (3 c d cs)
  have "\<not> (0xD800 \<le> c \<and> c \<le> 0xDBFF)"
    using 3(3) by (auto simp: is_surrogate_def word_le_nat_alt)
  with 3 show ?case by auto
qed auto

lemma utf8_euro_run: "length (concat (map utf8_cp (map unat (replicate n (8364 :: code_unit))))) = 3 * n"
proof (induction n)
  case (Suc n)
  have "length (utf8_cp (unat (8364 :: code_unit))) = 3" by (simp add: utf8_cp_def)
  with Suc show ?case by simp
qed simp

lemma utf8_euros:
  assumes "\<forall>c \<in> set (a @ b). c < 128"
  shows "90000 \<le> length (utf8_encode (a @ euros @ b))"
proof -
  have "\<not> is_surrogate c" if "c \<in> set (a @ euros @ b)" for c
  proof -
    from that assms have "c < 128 \<or> c = 8364" by (auto simp: euros_def)
    then show ?thesis by (auto simp: is_surrogate_def word_less_nat_alt word_le_nat_alt)
  qed
  then have "code_points (a @ euros @ b) = map unat (a @ euros @ b)"
    by (intro code_points_plain) blast
  then have "utf8_encode (a @ euros @ b) = concat (map utf8_cp (map unat (a @ euros @ b)))"
    by (simp only: utf8_encode_def)
  moreover have "length (concat (map utf8_cp (map unat euros))) = 90000"
    unfolding euros_def utf8_euro_run by simp
  ultimately show ?thesis by simp
qed

section \<open>Properties\<close>

text \<open>C8. Validation is sound and complete: what it returns is a well-formed operation, and the
object of a well-formed operation that fits the size limit is accepted and read back unchanged;
the same object above the limit is rejected, and so is anything that is not an object.\<close>

theorem validateOp_exact:
  "(validateOp v = Inr p \<longrightarrow> valid_op p \<and> (\<exists>ob. v = JObj ob)) \<and>
   (valid_op q \<longrightarrow> validateOp (op_to_js q) =
      (if length (the (json_stringify (op_to_js q))) \<le> MAX_OP_BYTES then Inr q
       else Inl (BadOpError (js ''op exceeds 64 KiB''))))"
proof (intro conjI impI)
  show "valid_op p" "\<exists>ob. v = JObj ob" if "validateOp v = Inr p"
    using that validateOp_valid by (auto simp: validateOp_def split: jsval.splits)
  show "validateOp (op_to_js q) =
      (if length (the (json_stringify (op_to_js q))) \<le> MAX_OP_BYTES then Inr q
       else Inl (BadOpError (js ''op exceeds 64 KiB'')))" if "valid_op q"
    using validateOp_op_to_js[OF that] validateOp_too_long[OF that] by (simp add: not_le)
qed

theorem validateOp_exact_witness:
  "validateOp (op_to_js (text_op (js ''hi''))) = Inr (text_op (js ''hi''))"
proof -
  have "length (the (json_stringify (op_to_js (text_op (js ''hi''))))) \<le> MAX_OP_BYTES" by code_simp
  with validateOp_exact[of _ _ "text_op (js ''hi'')"] text_op_valid show ?thesis by simp
qed

text \<open>The documented limit of 64 KiB per operation is a limit on UTF-16 code units: an
operation whose UTF-8 text takes more than 64 KiB is accepted.\<close>

theorem size_limit_counts_code_units:
  "\<exists>p. validateOp (op_to_js p) = Inr p \<and>
     MAX_OP_BYTES < length (utf8_encode (the (json_stringify (op_to_js p))))"
proof (intro exI conjI)
  have "length (json_head @ euros @ json_tail) \<le> MAX_OP_BYTES"
    using json_frame(1) by (simp add: euros_def MAX_OP_BYTES_def)
  then show "validateOp (op_to_js (text_op euros)) = Inr (text_op euros)"
    using validateOp_op_to_js[OF text_op_valid] by (simp only: json_euros)
  show "MAX_OP_BYTES < length (utf8_encode (the (json_stringify (op_to_js (text_op euros)))))"
    using utf8_euros[OF json_frame(2)] by (simp add: json_euros MAX_OP_BYTES_def)
qed

text \<open>C9. A frontier is a version vector: advancing past an operation records it, forgets nothing,
leaves other devices alone, and neither order nor repetition of the operations matters.\<close>

theorem frontier_join:
  "\<not> aboveFrontier p (advanceFrontier f p) \<and>
   (\<not> aboveFrontier q f \<longrightarrow> \<not> aboveFrontier q (advanceFrontier f p)) \<and>
   (o_device q \<noteq> o_device p \<longrightarrow> aboveFrontier q (advanceFrontier f p) = aboveFrontier q f) \<and>
   map_of (advanceFrontier (advanceFrontier f p) q) = map_of (advanceFrontier (advanceFrontier f q) p) \<and>
   map_of (advanceFrontier (advanceFrontier f p) p) = map_of (advanceFrontier f p)"
proof (intro conjI impI)
  show "\<not> aboveFrontier p (advanceFrontier f p)" by (rule not_above_advance)
  show "\<not> aboveFrontier q (advanceFrontier f p)" if "\<not> aboveFrontier q f"
    using that above_advance_antimono by blast
  show "aboveFrontier q (advanceFrontier f p) = aboveFrontier q f" if "o_device q \<noteq> o_device p"
    using that by (simp add: aboveFrontier_def map_of_advanceFrontier front_join_def)
  show "map_of (advanceFrontier (advanceFrontier f p) q) = map_of (advanceFrontier (advanceFrontier f q) p)"
    by (simp add: map_of_advanceFrontier front_join_commute)
  show "map_of (advanceFrontier (advanceFrontier f p) p) = map_of (advanceFrontier f p)"
    by (simp add: map_of_advanceFrontier front_join_idem)
qed

theorem frontier_join_witness:
  "\<not> aboveFrontier (text_op []) (advanceFrontier [] (text_op [])) \<and>
   \<not> aboveFrontier (text_op []) (advanceFrontier [(replicate 32 97, [122])] (text_op []))"
proof -
  have "\<not> aboveFrontier (text_op []) [(replicate 32 97, [122])]"
    by code_simp
  with frontier_join[of "text_op []" "[(replicate 32 97, [122])]" "text_op []"]
    frontier_join[of "text_op []" "[]"] show ?thesis by blast
qed

end
