(* ===== verification/Storage.thy ===== *)
theory Storage
  imports Op
begin

text \<open>
  The storage boundary of core/src/storage.ts (PROTOCOL.md section 8): the interface
  \<open>StorageAdapter\<close> as a record of operations over an abstract state, the contract every
  adapter promises as a locale over an abstract replica, and the reference
  \<open>MemoryAdapter\<close>, which is shown to meet the contract. Reads are total; a write may be
  rejected by the medium, and the contract says that a rejected write changed nothing.
\<close>

section \<open>Keys\<close>

definition cellKey :: "jsstring \<Rightarrow> jsstring \<Rightarrow> jsstring \<Rightarrow> jsstring" where
  "cellKey table row column = table @ [SEP] @ row @ [SEP] @ column"

text \<open>
  \<^verbatim>\<open>const [table, row, column] = key.split(SEP)\<close>. Keys of an adapter always have three
  parts; a string with fewer gives no cell here.
\<close>

definition split_key :: "jsstring \<Rightarrow> (jsstring \<times> jsstring \<times> jsstring) option" where
  "split_key k = (case js_split SEP k of t # r # c # _ \<Rightarrow> Some (t, r, c) | _ \<Rightarrow> None)"

definition no_sep :: "jsstring \<Rightarrow> bool" where
  "no_sep s \<longleftrightarrow> SEP \<notin> set s"

lemma split_cellKey:
  "no_sep t \<Longrightarrow> no_sep r \<Longrightarrow> no_sep c \<Longrightarrow> split_key (cellKey t r c) = Some (t, r, c)"
  by (simp add: split_key_def cellKey_def no_sep_def js_split_append_sep js_split_no_sep)

lemma cellKey_inject:
  "no_sep t \<Longrightarrow> no_sep r \<Longrightarrow> no_sep c \<Longrightarrow> no_sep t' \<Longrightarrow> no_sep r' \<Longrightarrow> no_sep c' \<Longrightarrow>
     cellKey t r c = cellKey t' r' c' \<longleftrightarrow> t = t' \<and> r = r' \<and> c = c'"
  by (metis option.inject prod.inject split_cellKey)

text \<open>The cell an operation writes, as a triple and as a key.\<close>

type_synonym cell = "jsstring \<times> jsstring \<times> jsstring"

definition op_cell :: "op \<Rightarrow> cell" where
  "op_cell p = (o_table p, o_row p, o_column p)"

definition op_key :: "op \<Rightarrow> jsstring" where
  "op_key p = cellKey (o_table p) (o_row p) (o_column p)"

text \<open>
  What storage relies on of an operation: it is keyed by its timestamp, its names contain no
  separator, names, stamps and signature are ASCII text, and the device is not an array index.
\<close>

definition ascii :: "jsstring \<Rightarrow> bool" where
  "ascii s \<longleftrightarrow> (\<forall>c \<in> set s. c < 128)"

definition storable :: "op \<Rightarrow> bool" where
  "storable p \<longleftrightarrow> o_id p = o_hlc p \<and> no_sep (o_table p) \<and> no_sep (o_row p) \<and> no_sep (o_column p) \<and>
     ascii (o_table p) \<and> ascii (o_row p) \<and> ascii (o_column p) \<and> ascii (o_hlc p) \<and> ascii (o_device p) \<and>
     ascii (o_sig p) \<and> array_index (o_device p) = None \<and> is_json (o_value p)"

lemma split_op_key: "storable p \<Longrightarrow> split_key (op_key p) = Some (op_cell p)"
  by (simp add: storable_def op_key_def op_cell_def split_cellKey)

lemma op_key_inject:
  assumes "storable p" "storable q"
  shows "op_key p = op_key q \<longleftrightarrow> op_cell p = op_cell q"
proof
  assume "op_key p = op_key q"
  then have "Some (op_cell p) = Some (op_cell q)"
    using split_op_key[OF assms(1)] split_op_key[OF assms(2)] by simp
  then show "op_cell p = op_cell q" by simp
qed (simp add: op_cell_def op_key_def)

section \<open>The interface\<close>

record clock_pair =
  cs_millis :: nat
  cs_counter :: nat

record batch =
  b_ops :: "op list"
  b_winners :: "(jsstring, op) jsmap"
  b_frontier :: frontier
  b_clock :: clock_pair

record compaction_write =
  w_opIds :: "jsstring list"
  w_cellKeys :: "jsstring list"

record 's storage_ops =
  getRow :: "'s \<Rightarrow> jsstring \<Rightarrow> jsstring \<Rightarrow> (jsstring, op) jsmap option"
  listRows :: "'s \<Rightarrow> jsstring \<Rightarrow> jsstring list"
  listTables :: "'s \<Rightarrow> jsstring list"
  hasOp :: "'s \<Rightarrow> jsstring \<Rightarrow> bool"
  getWinner :: "'s \<Rightarrow> jsstring \<Rightarrow> jsstring \<Rightarrow> jsstring \<Rightarrow> op option"
  opsSince :: "'s \<Rightarrow> frontier \<Rightarrow> op list"
  getFrontier :: "'s \<Rightarrow> frontier"
  getClock :: "'s \<Rightarrow> clock_pair option"
  getDeviceKey :: "'s \<Rightarrow> device_key option"
  setDeviceKey :: "device_key \<Rightarrow> ('s, unit) act"
  applyBatch :: "batch \<Rightarrow> ('s, unit) act"
  opCount :: "'s \<Rightarrow> nat"
  allOps :: "'s \<Rightarrow> op list"
  getPeerFrontiers :: "'s \<Rightarrow> (jsstring, frontier) jsmap"
  setPeerFrontier :: "jsstring \<Rightarrow> frontier \<Rightarrow> ('s, unit) act"
  compact_store :: "compaction_write \<Rightarrow> ('s, unit) act"

section \<open>The contract\<close>

text \<open>What an adapter stores, independent of its layout.\<close>

record replica =
  r_log :: "jsstring \<rightharpoonup> op"
  r_cells :: "cell \<rightharpoonup> op"
  r_front :: frontier
  r_clock :: "clock_pair option"
  r_key :: "device_key option"
  r_peers :: "jsstring \<rightharpoonup> frontier"

text \<open>The numbers of a persisted clock are exact integers.\<close>

definition safe_clock :: "clock_pair \<Rightarrow> bool" where
  "safe_clock ck \<longleftrightarrow> cs_millis ck \<le> 2 ^ 53 \<and> cs_counter ck \<le> 2 ^ 53"

definition batch_ok :: "replica \<Rightarrow> batch \<Rightarrow> bool" where
  "batch_ok v b \<longleftrightarrow>
     distinct (map o_id (b_ops b)) \<and>
     (\<forall>p \<in> set (b_ops b). storable p \<and> r_log v (o_id p) = None) \<and>
     dkeys (b_winners b) \<and>
     (\<forall>(k, p) \<in> set (b_winners b). storable p \<and> k = op_key p) \<and>
     js_frontier (b_frontier b) \<and> safe_clock (b_clock b)"

text \<open>
  The effect of a batch: the operations join the log, every winner becomes the operation of
  its cell, frontier and clock are replaced.
\<close>

definition ops_map :: "op list \<Rightarrow> jsstring \<rightharpoonup> op" where
  "ops_map ps = map_of (map (\<lambda>p. (o_id p, p)) ps)"

definition winners_map :: "(jsstring, op) jsmap \<Rightarrow> cell \<rightharpoonup> op" where
  "winners_map ws = map_of (map (\<lambda>(k, p). (op_cell p, p)) ws)"

definition apply_spec :: "batch \<Rightarrow> replica \<Rightarrow> replica" where
  "apply_spec b v = v\<lparr>r_log := r_log v ++ ops_map (b_ops b),
                     r_cells := r_cells v ++ winners_map (b_winners b),
                     r_front := b_frontier b, r_clock := Some (b_clock b)\<rparr>"

definition compact_ok :: "compaction_write \<Rightarrow> bool" where
  "compact_ok w \<longleftrightarrow> (\<forall>k \<in> set (w_cellKeys w). \<exists>t r c. no_sep t \<and> no_sep r \<and> no_sep c \<and> k = cellKey t r c)"

definition compact_spec :: "compaction_write \<Rightarrow> replica \<Rightarrow> replica" where
  "compact_spec w v = v\<lparr>r_log := r_log v |` (- set (w_opIds w)),
     r_cells := (\<lambda>x. if Some x \<in> split_key ` set (w_cellKeys w) then None else r_cells v x)\<rparr>"

definition sorted_ops :: "op list \<Rightarrow> op set \<Rightarrow> bool" where
  "sorted_ops ps A \<longleftrightarrow> set ps = A \<and> distinct ps \<and> sorted (map o_hlc ps)"

locale storage_adapter =
  fixes S :: "'s storage_ops" and inv :: "'s \<Rightarrow> bool" and view :: "'s \<Rightarrow> replica"
  assumes getRow_None: "inv s \<Longrightarrow> getRow S s t r = None \<longleftrightarrow> (\<forall>c. r_cells (view s) (t, r, c) = None)"
    and getRow_Some: "inv s \<Longrightarrow> getRow S s t r = Some m \<Longrightarrow>
      dkeys m \<and> map_of m = (\<lambda>c. r_cells (view s) (t, r, c))"
    and listRows: "inv s \<Longrightarrow> no_sep t \<Longrightarrow> distinct (listRows S s t) \<and>
      set (listRows S s t) = {r. \<exists>c. r_cells (view s) (t, r, c) \<noteq> None}"
    and listTables: "inv s \<Longrightarrow> distinct (listTables S s) \<and>
      set (listTables S s) = {t. \<exists>r c. r_cells (view s) (t, r, c) \<noteq> None}"
    and hasOp: "inv s \<Longrightarrow> hasOp S s i \<longleftrightarrow> r_log (view s) i \<noteq> None"
    and getWinner: "inv s \<Longrightarrow> getWinner S s t r c = r_cells (view s) (t, r, c)"
    and opsSince: "inv s \<Longrightarrow> sorted_ops (opsSince S s f) {p \<in> ran (r_log (view s)). aboveFrontier p f}"
    and allOps: "inv s \<Longrightarrow> sorted_ops (allOps S s) (ran (r_log (view s)))"
    and opCount: "inv s \<Longrightarrow> opCount S s = card (dom (r_log (view s)))"
    and getFrontier: "inv s \<Longrightarrow> getFrontier S s = r_front (view s)"
    and getClock: "inv s \<Longrightarrow> getClock S s = r_clock (view s)"
    and getDeviceKey: "inv s \<Longrightarrow> getDeviceKey S s = r_key (view s)"
    and getPeerFrontiers: "inv s \<Longrightarrow>
      dkeys (getPeerFrontiers S s) \<and> map_of (getPeerFrontiers S s) = r_peers (view s)"
    and log_storable: "inv s \<Longrightarrow> r_log (view s) i = Some p \<Longrightarrow> o_id p = i \<and> storable p"
    and applyBatch_ok: "inv s \<Longrightarrow> batch_ok (view s) b \<Longrightarrow> applyBatch S b s = (Inr u, s') \<Longrightarrow>
      inv s' \<and> view s' = apply_spec b (view s)"
    and applyBatch_err: "inv s \<Longrightarrow> applyBatch S b s = (Inl e, s') \<Longrightarrow> inv s' \<and> view s' = view s"
    and compact_ok: "inv s \<Longrightarrow> compact_ok w \<Longrightarrow> compact_store S w s = (Inr u, s') \<Longrightarrow>
      inv s' \<and> view s' = compact_spec w (view s)"
    and compact_err: "inv s \<Longrightarrow> compact_store S w s = (Inl e, s') \<Longrightarrow> inv s' \<and> view s' = view s"
    and setPeerFrontier_ok: "inv s \<Longrightarrow> js_frontier f \<Longrightarrow> setPeerFrontier S d f s = (Inr u, s') \<Longrightarrow>
      inv s' \<and> view s' = (view s)\<lparr>r_peers := (r_peers (view s))(d \<mapsto> f)\<rparr>"
    and setPeerFrontier_err: "inv s \<Longrightarrow> setPeerFrontier S d f s = (Inl e, s') \<Longrightarrow>
      inv s' \<and> view s' = view s"
    and setDeviceKey_ok: "inv s \<Longrightarrow> setDeviceKey S k s = (Inr u, s') \<Longrightarrow>
      inv s' \<and> view s' = (view s)\<lparr>r_key := Some k\<rparr>"
    and setDeviceKey_err: "inv s \<Longrightarrow> setDeviceKey S k s = (Inl e, s') \<Longrightarrow> inv s' \<and> view s' = view s"

section \<open>The memory adapter\<close>

record memory =
  opsById :: "(jsstring, op) jsmap"
  tables :: "(jsstring, (jsstring, (jsstring, op) jsmap) jsmap) jsmap"
  m_frontier :: frontier
  m_clock :: "clock_pair option"
  m_key :: "device_key option"
  peerFrontiers :: "(jsstring, frontier) jsmap"

definition new_memory :: memory where
  "new_memory = \<lparr>opsById = [], tables = [], m_frontier = [], m_clock = None, m_key = None,
                 peerFrontiers = []\<rparr>"

definition mem_getRow :: "memory \<Rightarrow> jsstring \<Rightarrow> jsstring \<Rightarrow> (jsstring, op) jsmap option" where
  "mem_getRow m t r = Option.bind (map_of (tables m) t) (\<lambda>rows. map_of rows r)"

definition mem_listRows :: "memory \<Rightarrow> jsstring \<Rightarrow> jsstring list" where
  "mem_listRows m t = (case map_of (tables m) t of None \<Rightarrow> [] | Some rows \<Rightarrow> map fst rows)"

definition mem_listTables :: "memory \<Rightarrow> jsstring list" where
  "mem_listTables m = map fst (tables m)"

definition mem_hasOp :: "memory \<Rightarrow> jsstring \<Rightarrow> bool" where
  "mem_hasOp m i = (map_of (opsById m) i \<noteq> None)"

definition mem_getWinner :: "memory \<Rightarrow> jsstring \<Rightarrow> jsstring \<Rightarrow> jsstring \<Rightarrow> op option" where
  "mem_getWinner m t r c = Option.bind (mem_getRow m t r) (\<lambda>cells. map_of cells c)"

text \<open>The sort is stable and compares the timestamps as strings.\<close>

definition mem_opsSince :: "memory \<Rightarrow> frontier \<Rightarrow> op list" where
  "mem_opsSince m f = sort_key o_hlc (filter (\<lambda>p.
     case map_of f (o_device p) of None \<Rightarrow> True | Some seen \<Rightarrow> seen < o_hlc p) (map snd (opsById m)))"

definition mem_allOps :: "memory \<Rightarrow> op list" where
  "mem_allOps m = sort_key o_hlc (map snd (opsById m))"

definition mem_setPeerFrontier :: "jsstring \<Rightarrow> frontier \<Rightarrow> (memory, unit) act" where
  "mem_setPeerFrontier p f = modify (\<lambda>m. m\<lparr>peerFrontiers := map_set p f (peerFrontiers m)\<rparr>)"

definition mem_setDeviceKey :: "device_key \<Rightarrow> (memory, unit) act" where
  "mem_setDeviceKey k = modify (\<lambda>m. m\<lparr>m_key := Some k\<rparr>)"

abbreviation or_empty :: "('k, 'v) jsmap option \<Rightarrow> ('k, 'v) jsmap" where
  "or_empty x \<equiv> (case x of None \<Rightarrow> [] | Some m \<Rightarrow> m)"

text \<open>One iteration of the loop over \<open>batch.winners\<close>.\<close>

definition put_cell :: "jsstring \<times> op \<Rightarrow>
    (jsstring, (jsstring, (jsstring, op) jsmap) jsmap) jsmap \<Rightarrow>
    (jsstring, (jsstring, (jsstring, op) jsmap) jsmap) jsmap" where
  "put_cell w ts =
     (case split_key (fst w) of
        None \<Rightarrow> ts
      | Some (t, r, c) \<Rightarrow>
          let rows = or_empty (map_of ts t); cells = or_empty (map_of rows r)
          in map_set t (map_set r (map_set c (snd w) cells) rows) ts)"

definition mem_applyBatch :: "batch \<Rightarrow> (memory, unit) act" where
  "mem_applyBatch b = modify (\<lambda>m.
     m\<lparr>opsById := fold (\<lambda>p. map_set (o_id p) p) (b_ops b) (opsById m),
       tables := fold put_cell (b_winners b) (tables m),
       m_frontier := b_frontier b, m_clock := Some (b_clock b)\<rparr>)"

text \<open>One iteration of the loop over \<open>write.cellKeys\<close>.\<close>

definition drop_cell :: "jsstring \<Rightarrow>
    (jsstring, (jsstring, (jsstring, op) jsmap) jsmap) jsmap \<Rightarrow>
    (jsstring, (jsstring, (jsstring, op) jsmap) jsmap) jsmap" where
  "drop_cell k ts =
     (case split_key k of
        None \<Rightarrow> ts
      | Some (t, r, c) \<Rightarrow>
          let rows = or_empty (map_of ts t);
              cells = map_del c (or_empty (map_of rows r));
              rows' = (if cells = [] then map_del r rows else map_set r cells rows)
          in if rows' = [] then map_del t ts else map_set t rows' ts)"

definition mem_compact :: "compaction_write \<Rightarrow> (memory, unit) act" where
  "mem_compact w = modify (\<lambda>m.
     m\<lparr>opsById := fold map_del (w_opIds w) (opsById m),
       tables := fold drop_cell (w_cellKeys w) (tables m)\<rparr>)"

definition memory_adapter :: "memory storage_ops" where
  "memory_adapter = \<lparr>
     getRow = mem_getRow, listRows = mem_listRows, listTables = mem_listTables,
     hasOp = mem_hasOp, getWinner = mem_getWinner, opsSince = mem_opsSince,
     getFrontier = m_frontier, getClock = m_clock, getDeviceKey = m_key,
     setDeviceKey = mem_setDeviceKey, applyBatch = mem_applyBatch,
     opCount = (\<lambda>m. length (opsById m)), allOps = mem_allOps,
     getPeerFrontiers = peerFrontiers, setPeerFrontier = mem_setPeerFrontier,
     compact_store = mem_compact\<rparr>"

section \<open>Correctness of the memory adapter\<close>

type_synonym table_map = "(jsstring, (jsstring, (jsstring, op) jsmap) jsmap) jsmap"

definition cell_of :: "table_map \<Rightarrow> cell \<rightharpoonup> op" where
  "cell_of ts = (\<lambda>(t, r, c). Option.bind (map_of ts t) (\<lambda>rows.
     Option.bind (map_of rows r) (\<lambda>cells. map_of cells c)))"

definition wf_rows :: "(jsstring, (jsstring, op) jsmap) jsmap \<Rightarrow> bool" where
  "wf_rows rows \<longleftrightarrow> dkeys rows \<and> (\<forall>r cells. map_of rows r = Some cells \<longrightarrow> cells \<noteq> [] \<and> dkeys cells)"

definition wf_tables :: "table_map \<Rightarrow> bool" where
  "wf_tables ts \<longleftrightarrow> dkeys ts \<and> (\<forall>t rows. map_of ts t = Some rows \<longrightarrow> rows \<noteq> [] \<and> wf_rows rows)"

declare map_of_eq_Some_iff [simp del]

lemma wf_rows_or_empty: "wf_tables ts \<Longrightarrow> wf_rows (or_empty (map_of ts t))"
  by (auto simp: wf_tables_def split: option.splits) (simp add: wf_rows_def)

lemma dkeys_or_empty: "wf_rows rows \<Longrightarrow> dkeys (or_empty (map_of rows r))"
  by (auto simp: wf_rows_def split: option.splits)

lemma put_cell_spec:
  assumes "wf_tables ts" "split_key (fst w) = Some x"
  shows "wf_tables (put_cell w ts) \<and> cell_of (put_cell w ts) = (cell_of ts)(x \<mapsto> snd w)"
proof -
  obtain t r c where x: "x = (t, r, c)" by (cases x)
  define rows where "rows = or_empty (map_of ts t)"
  define cells where "cells = or_empty (map_of rows r)"
  have rows: "wf_rows rows" unfolding rows_def by (rule wf_rows_or_empty[OF assms(1)])
  have cells: "dkeys cells" unfolding cells_def by (rule dkeys_or_empty[OF rows])
  have put: "put_cell w ts = map_set t (map_set r (map_set c (snd w) cells) rows) ts"
    using assms(2) by (simp add: put_cell_def x Let_def rows_def cells_def)
  have "wf_tables (put_cell w ts)"
    using assms(1) rows cells by (auto simp: put wf_tables_def wf_rows_def)
  moreover have "cell_of (put_cell w ts) (t', r', c') = ((cell_of ts)(x \<mapsto> snd w)) (t', r', c')" for t' r' c'
  proof (cases "t' = t")
    case t: True
    have at_ts: "cell_of ts (t, r', c') = Option.bind (map_of rows r') (\<lambda>cs. map_of cs c')"
      by (cases "map_of ts t") (simp_all add: cell_of_def rows_def)
    have "cell_of (put_cell w ts) (t, r', c') =
        Option.bind (map_of (map_set r (map_set c (snd w) cells) rows) r') (\<lambda>cs. map_of cs c')"
      by (simp add: cell_of_def put)
    then show ?thesis
      using t at_ts by (cases "map_of rows r") (auto simp: x cells_def)
  next
    case False
    then show ?thesis by (simp add: cell_of_def put x)
  qed
  ultimately show ?thesis by auto
qed

lemma drop_cell_spec:
  assumes "wf_tables ts" "split_key k = Some x"
  shows "wf_tables (drop_cell k ts) \<and> cell_of (drop_cell k ts) = (cell_of ts)(x := None)"
proof -
  obtain t r c where x: "x = (t, r, c)" by (cases x)
  define rows where "rows = or_empty (map_of ts t)"
  define cells where "cells = map_del c (or_empty (map_of rows r))"
  define rows' where "rows' = (if cells = [] then map_del r rows else map_set r cells rows)"
  have rows: "wf_rows rows" unfolding rows_def by (rule wf_rows_or_empty[OF assms(1)])
  have cells: "dkeys cells" unfolding cells_def by (simp add: dkeys_or_empty[OF rows])
  have drop: "drop_cell k ts = (if rows' = [] then map_del t ts else map_set t rows' ts)"
    using assms(2) by (simp add: drop_cell_def x Let_def rows_def cells_def rows'_def)
  have rows': "wf_rows rows'"
    using rows cells by (auto simp: rows'_def wf_rows_def)
  have at_row: "Option.bind (map_of rows' r') (\<lambda>cs. map_of cs c') =
      (if r' = r \<and> c' = c then None else Option.bind (map_of rows r') (\<lambda>cs. map_of cs c'))" for r' c'
  proof -
    have c1: "map_of cells c' = (if c' = c then None else map_of (or_empty (map_of rows r)) c')"
      by (simp add: cells_def)
    show ?thesis
    proof (cases "cells = []")
      case True
      with c1 have "c' \<noteq> c \<Longrightarrow> map_of (or_empty (map_of rows r)) c' = None" by simp
      with True show ?thesis by (auto simp: rows'_def split: option.splits)
    next
      case False
      with c1 show ?thesis by (auto simp: rows'_def split: option.splits)
    qed
  qed
  have at_ts: "Option.bind (map_of ts t) (\<lambda>rs. Option.bind (map_of rs r') (\<lambda>cs. map_of cs c')) =
      Option.bind (map_of rows r') (\<lambda>cs. map_of cs c')" for r' c'
    by (simp add: rows_def split: option.splits)
  have "wf_tables (drop_cell k ts)"
    using assms(1) rows' by (auto simp: drop wf_tables_def)
  moreover have "cell_of (drop_cell k ts) (t', r', c') = ((cell_of ts)(x := None)) (t', r', c')" for t' r' c'
  proof (cases "t' = t")
    case True
    have "cell_of (drop_cell k ts) (t, r', c') = Option.bind (map_of rows' r') (\<lambda>cs. map_of cs c')"
      by (simp add: cell_of_def drop)
    with True at_row at_ts show ?thesis by (simp add: cell_of_def x)
  next
    case False
    then show ?thesis by (simp add: cell_of_def drop x)
  qed
  ultimately show ?thesis by auto
qed

lemma fold_map_set:
  "map_of (fold (\<lambda>p. map_set (f p) p) ps m) = map_of m ++ map_of (rev (map (\<lambda>p. (f p, p)) ps))"
  by (induction ps arbitrary: m) (auto simp: map_add_upd_left fun_eq_iff map_add_def split: option.splits)

lemma map_of_rev_distinct: "dkeys xs \<Longrightarrow> map_of (rev xs) = map_of xs"
  by (metis distinct_rev map_of_eqI map_of_inject_set rev_map set_rev)

lemma fold_put_cell:
  assumes "wf_tables ts" "\<forall>(k, p) \<in> set ws. split_key k = Some (op_cell p)"
  shows "wf_tables (fold put_cell ws ts) \<and>
    cell_of (fold put_cell ws ts) = cell_of ts ++ map_of (rev (map (\<lambda>(k, p). (op_cell p, p)) ws))"
  using assms
proof (induction ws arbitrary: ts)
  case Nil
  then show ?case by simp
next
  case (Cons w ws)
  then have w: "split_key (fst w) = Some (op_cell (snd w))" by auto
  from put_cell_spec[OF Cons.prems(1) w] Cons.IH[of "put_cell w ts"] Cons.prems(2)
  show ?case
    by (cases w) (auto simp: fun_eq_iff map_add_def split: option.splits)
qed

lemma winners_map_rev:
  assumes "\<forall>(k, p) \<in> set ws. storable p \<and> k = op_key p" "dkeys ws"
  shows "map_of (rev (map (\<lambda>(k, p). (op_cell p, p)) ws)) = winners_map ws"
proof -
  have "distinct (map fst (map (\<lambda>(k, p). (op_cell p, p)) ws))"
    using assms
  proof (induction ws)
    case Nil
    then show ?case by simp
  next
    case (Cons w ws)
    have "op_cell (snd w) \<noteq> op_cell (snd u)" if "u \<in> set ws" for u
    proof -
      have "fst w \<noteq> fst u" using Cons.prems(2) that by auto
      moreover have "storable (snd w)" "fst w = op_key (snd w)" "storable (snd u)" "fst u = op_key (snd u)"
        using Cons.prems(1) that by auto
      ultimately show ?thesis using op_key_inject by auto
    qed
    with Cons show ?case by (auto simp: case_prod_beta)
  qed
  then show ?thesis by (simp add: winners_map_def map_of_rev_distinct)
qed

lemma fold_drop_cell:
  assumes "wf_tables ts" "\<forall>k \<in> set ks. split_key k \<noteq> None"
  shows "wf_tables (fold drop_cell ks ts) \<and>
    cell_of (fold drop_cell ks ts) = (\<lambda>x. if Some x \<in> split_key ` set ks then None else cell_of ts x)"
  using assms
proof (induction ks arbitrary: ts)
  case Nil
  then show ?case by simp
next
  case (Cons k ks)
  then obtain x where k: "split_key k = Some x" by auto
  from drop_cell_spec[OF Cons.prems(1) k] Cons.IH[of "drop_cell k ts"] Cons.prems(2) k
  show ?case by (auto simp: fun_eq_iff)
qed

lemma fold_map_del: "map_of (fold map_del is m) = map_of m |` (- set is)"
  by (induction "is" arbitrary: m) (auto simp: fun_eq_iff restrict_map_def)

text \<open>The representation invariant and the abstraction.\<close>

definition mem_inv :: "memory \<Rightarrow> bool" where
  "mem_inv m \<longleftrightarrow> dkeys (opsById m) \<and>
     (\<forall>i p. map_of (opsById m) i = Some p \<longrightarrow> o_id p = i \<and> storable p) \<and>
     wf_tables (tables m) \<and> dkeys (peerFrontiers m)"

definition mem_view :: "memory \<Rightarrow> replica" where
  "mem_view m = \<lparr>r_log = map_of (opsById m), r_cells = cell_of (tables m), r_front = m_frontier m,
     r_clock = m_clock m, r_key = m_key m, r_peers = map_of (peerFrontiers m)\<rparr>"

lemma mem_values:
  assumes "mem_inv m"
  shows "set (map snd (opsById m)) = ran (map_of (opsById m))"
    and "distinct (map snd (opsById m))"
    and "distinct (map o_hlc (map snd (opsById m)))"
proof -
  have d: "dkeys (opsById m)" using assms by (simp add: mem_inv_def)
  have id: "map o_hlc (map snd (opsById m)) = map fst (opsById m)"
    unfolding map_map
  proof (rule map_cong [OF refl])
    fix x
    assume "x \<in> set (opsById m)"
    then have "map_of (opsById m) (fst x) = Some (snd x)" using d by (simp add: map_of_is_SomeI)
    then have "o_id (snd x) = fst x \<and> storable (snd x)" using assms unfolding mem_inv_def by blast
    then show "(o_hlc \<circ> snd) x = fst x" by (metis storable_def comp_apply)
  qed
  show "distinct (map o_hlc (map snd (opsById m)))" unfolding id by (rule d)
  then show "distinct (map snd (opsById m))" by (simp only: distinct_map)
  show "set (map snd (opsById m)) = ran (map_of (opsById m))"
    using d by (simp add: map_of_ran_set)
qed

lemma sorted_ops_sort_filter:
  assumes "mem_inv m"
  shows "sorted_ops (sort_key o_hlc (filter P (map snd (opsById m)))) {p \<in> ran (map_of (opsById m)). P p}"
  unfolding sorted_ops_def set_sort set_filter mem_values(1)[OF assms]
  by (simp add: mem_values(2)[OF assms] del: set_map map_map)

lemma mem_listRows_set:
  assumes "wf_tables ts"
  shows "set (case map_of ts t of None \<Rightarrow> [] | Some rows \<Rightarrow> map fst rows) = {r. \<exists>c. cell_of ts (t, r, c) \<noteq> None}"
proof (cases "map_of ts t")
  case None
  then show ?thesis by (simp add: cell_of_def)
next
  case (Some rows)
  then have wf: "wf_rows rows" using assms by (simp add: wf_tables_def)
  have "(\<exists>c. cell_of ts (t, r, c) \<noteq> None) \<longleftrightarrow> map_of rows r \<noteq> None" for r
  proof (cases "map_of rows r")
    case None
    then show ?thesis by (simp add: cell_of_def Some)
  next
    case (Some cells)
    then have "cells \<noteq> []" using wf by (auto simp: wf_rows_def)
    then obtain c p cs where "cells = (c, p) # cs" by (metis list.exhaust surj_pair)
    then have "map_of cells c \<noteq> None" by simp
    with Some \<open>map_of ts t = Some rows\<close> show ?thesis by (auto simp: cell_of_def)
  qed
  with Some show ?thesis by (auto simp: fst_set_eq_dom dom_def)
qed

lemma mem_listTables_set:
  assumes "wf_tables ts"
  shows "set (map fst ts) = {t. \<exists>r c. cell_of ts (t, r, c) \<noteq> None}"
proof -
  have "(\<exists>r c. cell_of ts (t, r, c) \<noteq> None) \<longleftrightarrow> map_of ts t \<noteq> None" for t
  proof (cases "map_of ts t")
    case None
    then show ?thesis by (simp add: cell_of_def)
  next
    case (Some rows)
    then have "rows \<noteq> []" using assms by (auto simp: wf_tables_def)
    then obtain r cells rs where rows: "rows = (r, cells) # rs" by (metis list.exhaust surj_pair)
    then have "set (map fst rows) \<noteq> {}" by simp
    then have "{r. \<exists>c. cell_of ts (t, r, c) \<noteq> None} \<noteq> {}"
      unfolding mem_listRows_set[OF assms, of t, symmetric] Some option.case by simp
    with Some show ?thesis by blast
  qed
  then show ?thesis by (simp add: fst_set_eq_dom dom_def)
qed

lemma cell_of_row:
  "cell_of ts (t, r, c) = Option.bind (Option.bind (map_of ts t) (\<lambda>rows. map_of rows r)) (\<lambda>cells. map_of cells c)"
  by (cases "map_of ts t") (simp_all add: cell_of_def)

lemma mem_getRow_spec:
  assumes "wf_tables ts"
  defines "row \<equiv> \<lambda>t r. Option.bind (map_of ts t) (\<lambda>rows. map_of rows r)"
  shows "row t r = None \<longleftrightarrow> (\<forall>c. cell_of ts (t, r, c) = None)"
    and "row t r = Some cells \<Longrightarrow> dkeys cells \<and> map_of cells = (\<lambda>c. cell_of ts (t, r, c))"
proof -
  show "row t r = Some cells \<Longrightarrow> dkeys cells \<and> map_of cells = (\<lambda>c. cell_of ts (t, r, c))" for cells
    using assms by (auto simp: bind_eq_Some_conv cell_of_row wf_tables_def wf_rows_def)
  show "row t r = None \<longleftrightarrow> (\<forall>c. cell_of ts (t, r, c) = None)"
  proof (cases "row t r")
    case None
    then show ?thesis by (simp add: cell_of_row row_def)
  next
    case (Some cells)
    then have "cells \<noteq> []"
      using assms by (auto simp: bind_eq_Some_conv wf_tables_def wf_rows_def)
    then obtain c p cs where "cells = (c, p) # cs" by (metis list.exhaust surj_pair)
    then have "cell_of ts (t, r, c) \<noteq> None"
      using Some by (simp add: row_def cell_of_row)
    with Some show ?thesis by auto
  qed
qed

lemma split_op_key_conv:
  assumes "\<forall>(k, p) \<in> set ws. storable p \<and> k = op_key p"
  shows "\<forall>(k, p) \<in> set ws. split_key k = Some (op_cell p)"
  using assms split_op_key by auto

lemma mem_applyBatch_spec:
  assumes "mem_inv m" "batch_ok (mem_view m) b"
  shows "mem_inv (snd (mem_applyBatch b m)) \<and> mem_view (snd (mem_applyBatch b m)) = apply_spec b (mem_view m)"
proof -
  have keys: "\<forall>(k, p) \<in> set (b_winners b). storable p \<and> k = op_key p" and d: "dkeys (b_winners b)"
    and ops: "distinct (map o_id (b_ops b))" "\<forall>p \<in> set (b_ops b). storable p"
    using assms(2) by (auto simp: batch_ok_def)
  note P = fold_put_cell[OF _ split_op_key_conv[OF keys], of "tables m", unfolded winners_map_rev[OF keys d]]
  have log: "map_of (fold (\<lambda>p. map_set (o_id p) p) (b_ops b) (opsById m)) = map_of (opsById m) ++ ops_map (b_ops b)"
    unfolding fold_map_set ops_map_def by (simp add: map_of_rev_distinct comp_def ops(1))
  have dk: "dkeys (fold (\<lambda>p. map_set (o_id p) p) ps l)" if "dkeys l" for ps :: "op list" and l
    using that by (induction ps arbitrary: l) auto
  have "o_id p = i \<and> storable p" if "(map_of (opsById m) ++ ops_map (b_ops b)) i = Some p" for i p
  proof (cases "ops_map (b_ops b) i = Some p")
    case True
    then have "p \<in> set (b_ops b) \<and> o_id p = i" by (auto simp: ops_map_def dest: map_of_SomeD)
    with ops(2) show ?thesis by blast
  next
    case False
    with that have "map_of (opsById m) i = Some p" by (simp add: map_add_Some_iff)
    with assms(1) show ?thesis by (simp add: mem_inv_def)
  qed
  with P dk assms(1) show ?thesis
    by (simp add: mem_applyBatch_def act_simps mem_inv_def mem_view_def apply_spec_def log)
qed

lemma compact_ok_split: "compact_ok w \<Longrightarrow> \<forall>k \<in> set (w_cellKeys w). split_key k \<noteq> None"
  using split_cellKey by (fastforce simp: compact_ok_def)

lemma mem_compact_spec:
  assumes "mem_inv m" "compact_ok w"
  shows "mem_inv (snd (mem_compact w m)) \<and> mem_view (snd (mem_compact w m)) = compact_spec w (mem_view m)"
proof -
  note P = fold_drop_cell[OF _ compact_ok_split[OF assms(2)], of "tables m"]
  have dk: "dkeys (fold map_del is l)" if "dkeys l" for "is" :: "jsstring list" and l :: "(jsstring, op) jsmap"
    using that by (induction "is" arbitrary: l) auto
  show ?thesis
    using P assms(1) dk
    by (simp add: mem_compact_def act_simps mem_inv_def mem_view_def compact_spec_def fold_map_del restrict_map_def
        cong: if_cong)
qed

interpretation mem: storage_adapter memory_adapter mem_inv mem_view
proof (unfold_locales, goal_cases)
  case (1 s t r)
  then show ?case
    using mem_getRow_spec(1)[of "tables s" t r]
    by (simp add: memory_adapter_def mem_getRow_def mem_view_def mem_inv_def)
next
  case (2 s t r m)
  then show ?case
    using mem_getRow_spec(2)[of "tables s" t r m]
    by (simp add: memory_adapter_def mem_getRow_def mem_view_def mem_inv_def)
next
  case (3 s t)
  then show ?case
    using mem_listRows_set[of "tables s" t]
    by (auto simp: memory_adapter_def mem_listRows_def mem_view_def mem_inv_def wf_tables_def wf_rows_def
        split: option.splits)
next
  case (4 s)
  then show ?case
    using mem_listTables_set[of "tables s"]
    by (auto simp: memory_adapter_def mem_listTables_def mem_view_def mem_inv_def wf_tables_def)
next
  case (7 s f)
  then show ?case
    using sorted_ops_sort_filter[of s "\<lambda>p. aboveFrontier p f"]
    by (simp add: memory_adapter_def mem_opsSince_def mem_view_def aboveFrontier_def)
next
  case (8 s)
  then show ?case
    using sorted_ops_sort_filter[of s "\<lambda>p. True"]
    by (simp add: memory_adapter_def mem_allOps_def mem_view_def)
next
  case (9 s)
  then show ?case
    by (simp add: memory_adapter_def mem_view_def mem_inv_def card_dom_map_of)
next
  case (15 s b u s')
  then show ?case
    using mem_applyBatch_spec[of s b] by (auto simp: memory_adapter_def mem_applyBatch_def act_simps)
next
  case (17 s w u s')
  then show ?case
    using mem_compact_spec[of s w] by (auto simp: memory_adapter_def mem_compact_def act_simps)
next
  case (6 s t r c)
  then show ?case
    by (simp add: memory_adapter_def mem_getWinner_def mem_getRow_def mem_view_def cell_of_row)
qed (auto simp: memory_adapter_def mem_hasOp_def mem_view_def mem_inv_def
  mem_applyBatch_def mem_compact_def mem_setPeerFrontier_def mem_setDeviceKey_def act_simps)

lemma new_memory_inv: "mem_inv new_memory"
  by (simp add: mem_inv_def new_memory_def wf_tables_def)

lemma new_memory_view:
  "mem_view new_memory = \<lparr>r_log = Map.empty, r_cells = (\<lambda>_. None), r_front = [], r_clock = None, r_key = None,
     r_peers = Map.empty\<rparr>"
  by (simp add: mem_view_def new_memory_def cell_of_def fun_eq_iff)

end
