(* ===== verification/Merge.thy ===== *)
theory Merge
  imports Storage
begin

text \<open>
  The abstract specification of merging (PROTOCOL.md section 5): what a replica holds is a
  function of the set of operations in its log. Every cell carries the operation with the
  greatest timestamp among those that wrote it. The specification knows neither batches nor
  the order of arrival; the engine is shown to refine it.
\<close>

section \<open>Last writer wins\<close>

definition lww_join :: "op option \<Rightarrow> op \<Rightarrow> op" where
  "lww_join q p = (case q of None \<Rightarrow> p | Some r \<Rightarrow> if o_hlc r < o_hlc p then p else r)"

definition cell_join :: "op \<Rightarrow> (cell \<rightharpoonup> op) \<Rightarrow> (cell \<rightharpoonup> op)" where
  "cell_join p cells = cells(op_cell p \<mapsto> lww_join (cells (op_cell p)) p)"

text \<open>\<open>q\<close> is the winner of cell \<open>x\<close> among the operations \<open>A\<close>.\<close>

definition is_winner :: "op set \<Rightarrow> cell \<Rightarrow> op option \<Rightarrow> bool" where
  "is_winner A x q \<longleftrightarrow>
     (case q of
        None \<Rightarrow> \<forall>p \<in> A. op_cell p \<noteq> x
      | Some w \<Rightarrow> w \<in> A \<and> op_cell w = x \<and> (\<forall>p \<in> A. op_cell p = x \<longrightarrow> o_hlc p \<le> o_hlc w))"

definition lww_cells :: "op set \<Rightarrow> (cell \<rightharpoonup> op) \<Rightarrow> bool" where
  "lww_cells A cells \<longleftrightarrow> (\<forall>x. is_winner A x (cells x))"

lemma lww_cellsD: "lww_cells A cells \<Longrightarrow> is_winner A x (cells x)"
  unfolding lww_cells_def by blast

lemma lww_cells_empty: "lww_cells {} (\<lambda>_. None)"
  by (simp add: lww_cells_def is_winner_def)

lemma lww_cells_join:
  assumes "lww_cells A cells"
  shows "lww_cells (insert p A) (cell_join p cells)"
  unfolding lww_cells_def
proof
  fix x
  have w: "is_winner A x (cells x)" by (rule lww_cellsD[OF assms])
  show "is_winner (insert p A) x (cell_join p cells x)"
  proof (cases "x = op_cell p")
    case True
    with w show ?thesis
      by (cases "cells x") (auto simp: is_winner_def cell_join_def lww_join_def)
  next
    case False
    with w show ?thesis
      by (cases "cells x") (auto simp: is_winner_def cell_join_def)
  qed
qed

lemma lww_cells_fold:
  "lww_cells A cells \<Longrightarrow> lww_cells (set ps \<union> A) (fold cell_join ps cells)"
proof (induction ps arbitrary: A cells)
  case Nil
  then show ?case by simp
next
  case (Cons p ps)
  from Cons.IH[OF lww_cells_join[OF Cons.prems, of p]] show ?case by simp
qed

lemma lww_cells_unique:
  assumes "lww_cells A cells" "lww_cells A cells'" "inj_on o_hlc A"
  shows "cells = cells'"
proof
  fix x
  note lww_cellsD[OF assms(1), of x] lww_cellsD[OF assms(2), of x]
  moreover have "a = b" if "is_winner A x (Some a)" "is_winner A x (Some b)" for a b
  proof (rule inj_onD[OF assms(3)])
    show "o_hlc a = o_hlc b" "a \<in> A" "b \<in> A"
      using that by (auto simp: is_winner_def intro: order.antisym)
  qed
  ultimately show "cells x = cells' x"
    by (cases "cells x"; cases "cells' x") (auto simp: is_winner_def)
qed

text \<open>Forgetting operations that are not winners leaves the winners in place.\<close>

lemma lww_cells_subset:
  assumes "lww_cells A cells" "B \<subseteq> A" "\<And>x w. cells x = Some w \<Longrightarrow> w \<in> B"
  shows "lww_cells B cells"
  unfolding lww_cells_def
proof
  fix x
  have "is_winner A x (cells x)" by (rule lww_cellsD[OF assms(1)])
  with assms(2,3) show "is_winner B x (cells x)"
    by (cases "cells x") (auto simp: is_winner_def)
qed

section \<open>Logs\<close>

text \<open>A log files each operation under its id, which is its timestamp.\<close>

definition wf_log :: "(jsstring \<rightharpoonup> op) \<Rightarrow> bool" where
  "wf_log l \<longleftrightarrow> (\<forall>i p. l i = Some p \<longrightarrow> o_id p = i \<and> storable p)"

lemma wf_logD: "wf_log l \<Longrightarrow> l i = Some p \<Longrightarrow> o_id p = i \<and> o_hlc p = i \<and> storable p"
  by (metis wf_log_def storable_def)

lemma wf_log_ran: "wf_log l \<Longrightarrow> p \<in> ran l \<longleftrightarrow> l (o_hlc p) = Some p"
  by (auto simp: ran_def dest: wf_logD)

lemma wf_log_inj: "wf_log l \<Longrightarrow> inj_on o_hlc (ran l)"
  by (rule inj_onI) (metis option.inject wf_log_ran)

lemma ran_ops_map: "distinct (map o_id ps) \<Longrightarrow> ran (ops_map ps) = set ps"
proof -
  assume "distinct (map o_id ps)"
  then have "dkeys (map (\<lambda>p. (o_id p, p)) ps)" by (simp add: comp_def)
  then show ?thesis by (simp add: ops_map_def map_of_ran_set image_image)
qed

lemma ran_map_add_fresh:
  assumes "\<And>p. p \<in> set ps \<Longrightarrow> l (o_id p) = None" "distinct (map o_id ps)"
  shows "ran (l ++ ops_map ps) = set ps \<union> ran l"
proof -
  have "dom l \<inter> dom (ops_map ps) = {}"
    using assms(1) by (auto simp: ops_map_def dest!: map_of_SomeD)
  then have "ran (l ++ ops_map ps) = ran l \<union> ran (ops_map ps)" by (rule ran_map_add)
  then show ?thesis by (auto simp: ran_ops_map[OF assms(2)])
qed

text \<open>The abstract effect of committing new operations and a clock reading.\<close>

definition merge :: "op list \<Rightarrow> clock_pair \<Rightarrow> replica \<Rightarrow> replica" where
  "merge ps ck v = v\<lparr>r_log := r_log v ++ ops_map ps,
                     r_cells := fold cell_join ps (r_cells v),
                     r_front := fold (\<lambda>p f. advanceFrontier f p) ps (r_front v),
                     r_clock := Some ck\<rparr>"

text \<open>Which replicas hold a consistent state: winners and frontier both follow from the log.\<close>

definition consistent :: "replica \<Rightarrow> bool" where
  "consistent v \<longleftrightarrow> wf_log (r_log v) \<and> lww_cells (ran (r_log v)) (r_cells v) \<and>
     plain_frontier (r_front v) \<and> (\<forall>p \<in> ran (r_log v). passed (map_of (r_front v)) p)"

lemma passed_fold_front:
  "passed (map_of f) q \<or> q \<in> set ps \<Longrightarrow> passed (map_of (fold (\<lambda>p f. advanceFrontier f p) ps f)) q"
  by (induction ps arbitrary: f) (auto simp: map_of_advanceFrontier passed_front_join)

lemma plain_fold_front:
  "plain_frontier f \<Longrightarrow> \<forall>p \<in> set ps. array_index (o_device p) = None \<Longrightarrow>
     plain_frontier (fold (\<lambda>p f. advanceFrontier f p) ps f)"
  by (induction ps arbitrary: f) (auto simp: plain_advance)

lemma consistent_merge:
  assumes "consistent v" "\<And>p. p \<in> set ps \<Longrightarrow> storable p \<and> r_log v (o_id p) = None"
    "distinct (map o_id ps)"
  shows "consistent (merge ps ck v)"
proof -
  have ran: "ran (r_log v ++ ops_map ps) = set ps \<union> ran (r_log v)"
    using assms(2,3) by (intro ran_map_add_fresh) auto
  have "wf_log (r_log v ++ ops_map ps)"
    using assms(1,2) by (auto simp: wf_log_def consistent_def map_add_Some_iff ops_map_def dest!: map_of_SomeD)
  moreover have "plain_frontier (fold (\<lambda>p f. advanceFrontier f p) ps (r_front v))"
    using assms(1,2) by (intro plain_fold_front) (auto simp: consistent_def storable_def)
  ultimately show ?thesis
    using assms(1) lww_cells_fold[of "ran (r_log v)" "r_cells v" ps]
    by (auto simp: consistent_def merge_def ran intro: passed_fold_front)
qed

text \<open>Convergence: equal logs, equal cells.\<close>

lemma consistent_converge:
  "consistent v \<Longrightarrow> consistent w \<Longrightarrow> r_log v = r_log w \<Longrightarrow> r_cells v = r_cells w"
  by (metis consistent_def lww_cells_unique wf_log_inj)

text \<open>Batches of the same operations, in any order, have the same effect on the cells.\<close>

lemma fold_cell_join_perm:
  assumes "consistent v" "set ps = set qs" "inj_on o_hlc (set ps \<union> ran (r_log v))"
  shows "fold cell_join ps (r_cells v) = fold cell_join qs (r_cells v)"
proof (rule lww_cells_unique[OF _ _ assms(3)])
  have l: "lww_cells (ran (r_log v)) (r_cells v)" using assms(1) by (simp add: consistent_def)
  show "lww_cells (set ps \<union> ran (r_log v)) (fold cell_join ps (r_cells v))"
    by (rule lww_cells_fold[OF l])
  show "lww_cells (set ps \<union> ran (r_log v)) (fold cell_join qs (r_cells v))"
    unfolding assms(2) by (rule lww_cells_fold[OF l])
qed

text \<open>Frontiers do not depend on the order either.\<close>

lemma fold_front_join: "map_of (fold (\<lambda>p f. advanceFrontier f p) ps f) = fold (\<lambda>p m. front_join m p) ps (map_of f)"
  by (induction ps arbitrary: f) (simp_all add: map_of_advanceFrontier)

lemma front_value:
  "map_of (fold (\<lambda>p f. advanceFrontier f p) ps f) d = Some s \<Longrightarrow>
     map_of f d = Some s \<or> (\<exists>p \<in> set ps. o_device p = d \<and> o_hlc p = s)"
proof (induction ps arbitrary: f)
  case Nil
  then show ?case by simp
next
  case (Cons p ps)
  then have "map_of (advanceFrontier f p) d = Some s \<or> (\<exists>q \<in> set ps. o_device q = d \<and> o_hlc q = s)"
    by simp
  then show ?case
    by (auto simp: map_of_advanceFrontier front_join_def max_def split: if_splits option.splits)
qed

end
