(* ===== verification/Compaction.thy ===== *)
theory Compaction
  imports Merge
begin

text \<open>
  The planning half of compaction, core/src/compaction.ts (PROTOCOL.md section 9): the
  horizon, the peers that hold it back, the snapshot of the winning cells, and the pure
  function that decides what may be reclaimed. The lemmas characterise the plan's two
  loops and show that carrying it out keeps a replica consistent.
\<close>

section \<open>The horizon\<close>

definition ZERO_HLC :: jsstring where "ZERO_HLC = []"

text \<open>\<^verbatim>\<open>frontier[device] ?? ZERO_HLC\<close>.\<close>

definition seen_at :: "frontier \<Rightarrow> jsstring \<Rightarrow> jsstring" where
  "seen_at f d = (case map_of f d of None \<Rightarrow> ZERO_HLC | Some s \<Rightarrow> s)"

text \<open>The inner loop lowers every entry of the horizon in place.\<close>

definition lower_horizon :: "frontier \<Rightarrow> frontier \<Rightarrow> frontier" where
  "lower_horizon f h = map (\<lambda>(d, cur). (d, if seen_at f d < cur then seen_at f d else cur)) h"

definition compactionHorizon :: "frontier \<Rightarrow> (jsstring, frontier) jsmap \<Rightarrow> frontier" where
  "compactionHorizon own peers = fold lower_horizon (map snd peers) own"

definition blockingPeers :: "frontier \<Rightarrow> (jsstring, frontier) jsmap \<Rightarrow> jsstring list" where
  "blockingPeers own peers =
     sort (map fst (filter (\<lambda>(peer, f). list_ex (\<lambda>(d, ours). seen_at f d < ours) own) peers))"

section \<open>The plan\<close>

definition rowKeyOf :: "op \<Rightarrow> jsstring" where
  "rowKeyOf p = o_table p @ [SEP] @ o_row p"

text \<open>\<^verbatim>\<open>key.slice(0, key.lastIndexOf(SEP))\<close>; without a separator the index is \<^verbatim>\<open>-1\<close>.\<close>

definition row_of_key :: "jsstring \<Rightarrow> jsstring" where
  "row_of_key k = (if SEP \<in> set k then rev (tl (dropWhile (\<lambda>c. c \<noteq> SEP) (rev k))) else butlast k)"

record compaction_stats =
  scanned :: nat
  removed :: nat
  rowsReclaimed :: nat
  retainedWinners :: nat
  retainedAboveHorizon :: nat
  blockedBy :: "jsstring list"

definition below :: "frontier \<Rightarrow> op \<Rightarrow> bool" where
  "below h p \<longleftrightarrow> o_hlc p \<le> seen_at h (o_device p)"

text \<open>Pass 1: the tombstoned rows that may be reclaimed whole.\<close>

definition candidate :: "frontier \<Rightarrow> op \<Rightarrow> bool" where
  "candidate h w \<longleftrightarrow> o_column w = TOMBSTONE_COLUMN \<and> o_value w = JBool True \<and> below h w"

definition doomed_rows :: "op list \<Rightarrow> (jsstring, op) jsmap \<Rightarrow> frontier \<Rightarrow> bool \<Rightarrow> jsstring list" where
  "doomed_rows ops winning h includeTombstones =
     (if includeTombstones then
        let candidates = set_of (map (\<lambda>(k, w). row_of_key k) (filter (\<lambda>(k, w). candidate h w) winning));
            blocked = set_of (map rowKeyOf (filter (\<lambda>p. \<not> below h p) ops))
        in filter (\<lambda>r. r \<notin> set blocked) candidates
      else [])"

text \<open>Pass 2: one iteration of the loop over the log.\<close>

record plan_acc =
  a_opIds :: "jsstring list"
  a_cellKeys :: "jsstring list"
  a_removed :: nat
  a_winners :: nat
  a_above :: nat

definition plan_step :: "jsstring list \<Rightarrow> jsstring list \<Rightarrow> frontier \<Rightarrow> op \<Rightarrow> plan_acc \<Rightarrow> plan_acc" where
  "plan_step doomed winnerIds h p a =
     (if rowKeyOf p \<in> set doomed then
        a\<lparr>a_opIds := a_opIds a @ [o_id p],
          a_cellKeys := set_add (cellKey (o_table p) (o_row p) (o_column p)) (a_cellKeys a),
          a_removed := a_removed a + 1\<rparr>
      else if \<not> below h p then a\<lparr>a_above := a_above a + 1\<rparr>
      else if o_id p \<notin> set winnerIds then
        a\<lparr>a_opIds := a_opIds a @ [o_id p], a_removed := a_removed a + 1\<rparr>
      else a\<lparr>a_winners := a_winners a + 1\<rparr>)"

definition planCompaction ::
  "op list \<Rightarrow> (jsstring, op) jsmap \<Rightarrow> frontier \<Rightarrow> bool \<Rightarrow> compaction_write \<times> compaction_stats" where
  "planCompaction ops winning h includeTombstones =
     (let winnerIds = set_of (map (\<lambda>(k, w). o_id w) winning);
          doomed = doomed_rows ops winning h includeTombstones;
          a = fold (plan_step doomed winnerIds h) ops
                \<lparr>a_opIds = [], a_cellKeys = [], a_removed = 0, a_winners = 0, a_above = 0\<rparr>;
          cellKeys = fold (\<lambda>(k, w) ks. if row_of_key k \<in> set doomed then set_add k ks else ks)
                       winning (a_cellKeys a)
      in (\<lparr>w_opIds = a_opIds a, w_cellKeys = cellKeys\<rparr>,
          \<lparr>scanned = length ops, removed = a_removed a, rowsReclaimed = length doomed,
           retainedWinners = a_winners a, retainedAboveHorizon = a_above a, blockedBy = []\<rparr>))"

text \<open>Snapshot of the materialized state: cell key and winning operation.\<close>

definition winningCells :: "'s storage_ops \<Rightarrow> 's \<Rightarrow> (jsstring, op) jsmap" where
  "winningCells S s =
     fold (\<lambda>t out. fold (\<lambda>r out.
         fold (\<lambda>(c, p) out. map_set (cellKey t r c) p out) (or_empty (getRow S s t r)) out)
       (listRows S s t) out) (listTables S s) []"

section \<open>Facts about the horizon\<close>

lemma map_of_lower:
  "map_of (lower_horizon f h) d = map_option (\<lambda>cur. min (seen_at f d) cur) (map_of h d)"
  by (induction h) (auto simp: lower_horizon_def min_def)

lemma ZERO_HLC_least [simp]: "ZERO_HLC \<le> s" "min ZERO_HLC s = ZERO_HLC" "min s ZERO_HLC = ZERO_HLC"
  by (simp_all add: ZERO_HLC_def min_def)

lemma seen_at_lower: "seen_at (lower_horizon f h) d = min (seen_at f d) (seen_at h d)"
  by (cases "map_of h d") (simp_all add: seen_at_def[of _ d] map_of_lower)

lemma dom_lower: "fst ` set (lower_horizon f h) = fst ` set h"
  by (force simp: lower_horizon_def)

lemma dkeys_lower: "dkeys h \<Longrightarrow> dkeys (lower_horizon f h)"
  by (simp add: lower_horizon_def comp_def case_prod_beta)

lemma seen_at_horizon:
  "seen_at (compactionHorizon own peers) d = fold (\<lambda>f x. min (seen_at f d) x) (map snd peers) (seen_at own d)"
proof -
  have "seen_at (fold lower_horizon fs h) d = fold (\<lambda>f x. min (seen_at f d) x) fs (seen_at h d)" for fs h
    by (induction fs arbitrary: h) (simp_all add: seen_at_lower)
  then show ?thesis by (simp add: compactionHorizon_def)
qed

lemma fold_min_le:
  fixes g :: "'a \<Rightarrow> 'b::linorder"
  shows "y \<le> fold (\<lambda>f x. min (g f) x) fs z \<longleftrightarrow> y \<le> z \<and> (\<forall>f \<in> set fs. y \<le> g f)"
  by (induction fs arbitrary: z) auto

text \<open>An entry is at or below the horizon exactly when everyone has seen it.\<close>

lemma le_horizon_iff:
  "x \<le> seen_at (compactionHorizon own peers) d \<longleftrightarrow>
     x \<le> seen_at own d \<and> (\<forall>(peer, f) \<in> set peers. x \<le> seen_at f d)"
  by (auto simp: seen_at_horizon fold_min_le)

lemma below_horizon_iff:
  "below (compactionHorizon own peers) p \<longleftrightarrow> below own p \<and> (\<forall>(peer, f) \<in> set peers. below f p)"
  by (simp add: below_def le_horizon_iff)

lemma below_iff_passed: "o_hlc p \<noteq> [] \<Longrightarrow> below f p \<longleftrightarrow> passed (map_of f) p"
  by (auto simp: below_def seen_at_def passed_def ZERO_HLC_def split: option.splits)

lemma set_blockingPeers:
  "set (blockingPeers own peers) = {peer. \<exists>f d s. (peer, f) \<in> set peers \<and> (d, s) \<in> set own \<and> seen_at f d < s}"
  by (force simp: blockingPeers_def list_ex_iff)

section \<open>Facts about row keys\<close>

lemma row_of_key_op:
  assumes "storable p"
  shows "row_of_key (op_key p) = rowKeyOf p"
proof -
  have c: "SEP \<notin> set (rev (o_column p))" using assms by (simp add: storable_def no_sep_def)
  have "rev (op_key p) = rev (o_column p) @ SEP # rev (rowKeyOf p)"
    by (simp add: op_key_def cellKey_def rowKeyOf_def)
  then have "dropWhile (\<lambda>c. c \<noteq> SEP) (rev (op_key p)) = SEP # rev (rowKeyOf p)"
    using c by (auto simp: dropWhile_append)
  then show ?thesis by (simp add: row_of_key_def op_key_def cellKey_def)
qed

definition row_of_cell :: "cell \<Rightarrow> jsstring" where
  "row_of_cell x = fst x @ [SEP] @ fst (snd x)"

lemma row_of_op_cell: "row_of_cell (op_cell p) = rowKeyOf p"
  by (simp add: row_of_cell_def op_cell_def rowKeyOf_def)

lemma rowKeyOf_inject:
  assumes "storable p" "storable q"
  shows "rowKeyOf p = rowKeyOf q \<longleftrightarrow> o_table p = o_table q \<and> o_row p = o_row q"
proof
  assume eq: "rowKeyOf p = rowKeyOf q"
  have "js_split SEP (rowKeyOf x) = [o_table x, o_row x]" if "storable x" for x
    using that by (simp add: rowKeyOf_def storable_def no_sep_def js_split_append_sep js_split_no_sep)
  from this[OF assms(1)] this[OF assms(2)] eq show "o_table p = o_table q \<and> o_row p = o_row q" by simp
qed (simp add: rowKeyOf_def)

section \<open>Facts about the plan\<close>

definition drops :: "jsstring list \<Rightarrow> jsstring list \<Rightarrow> frontier \<Rightarrow> op \<Rightarrow> bool" where
  "drops doomed winnerIds h p \<longleftrightarrow>
     rowKeyOf p \<in> set doomed \<or> (below h p \<and> o_id p \<notin> set winnerIds)"

lemma plan_fold:
  "fold (plan_step D W h) ops a = a' \<Longrightarrow>
     a_opIds a' = a_opIds a @ map o_id (filter (drops D W h) ops) \<and>
     set (a_cellKeys a') = set (a_cellKeys a) \<union> op_key ` {p \<in> set ops. rowKeyOf p \<in> set D} \<and>
     a_removed a' = a_removed a + length (filter (drops D W h) ops) \<and>
     a_removed a' + a_winners a' + a_above a' = a_removed a + a_winners a + a_above a + length ops"
proof (induction ops arbitrary: a)
  case Nil
  then show ?case by simp
next
  case (Cons p ops)
  have "fold (plan_step D W h) ops (plan_step D W h p a) = a'" using Cons.prems by simp
  note IH = Cons.IH[OF this]
  consider "rowKeyOf p \<in> set D" | "rowKeyOf p \<notin> set D" "\<not> below h p"
    | "rowKeyOf p \<notin> set D" "below h p" "o_id p \<in> set W" | "rowKeyOf p \<notin> set D" "below h p" "o_id p \<notin> set W"
    by blast
  then show ?case
    using IH by cases (auto simp: plan_step_def drops_def op_key_def)
qed

lemma set_sweep:
  "set (fold (\<lambda>(k, w) ks. if row_of_key k \<in> set D then set_add k ks else ks) ws ks) =
     set ks \<union> {k \<in> fst ` set ws. row_of_key k \<in> set D}"
  by (induction ws arbitrary: ks) (auto split: if_splits)

lemma planCompaction_spec:
  assumes "planCompaction ops winning h t = (w, st)"
  defines "D \<equiv> doomed_rows ops winning h t" and "W \<equiv> set_of (map (\<lambda>(k, w). o_id w) winning)"
  shows "w_opIds w = map o_id (filter (drops D W h) ops)"
    and "set (w_cellKeys w) = op_key ` {p \<in> set ops. rowKeyOf p \<in> set D} \<union>
           {k \<in> fst ` set winning. row_of_key k \<in> set D}"
    and "removed st = length (w_opIds w)"
    and "removed st + retainedWinners st + retainedAboveHorizon st = scanned st"
    and "scanned st = length ops"
    and "rowsReclaimed st = length D"
proof -
  define a where "a = fold (plan_step D W h) ops
    \<lparr>a_opIds = [], a_cellKeys = [], a_removed = 0, a_winners = 0, a_above = 0\<rparr>"
  note P = plan_fold[OF a_def[symmetric], simplified]
  have w: "w = \<lparr>w_opIds = a_opIds a, w_cellKeys =
      fold (\<lambda>(k, w) ks. if row_of_key k \<in> set D then set_add k ks else ks) winning (a_cellKeys a)\<rparr>"
    and st: "st = \<lparr>scanned = length ops, removed = a_removed a, rowsReclaimed = length D,
      retainedWinners = a_winners a, retainedAboveHorizon = a_above a, blockedBy = []\<rparr>"
    using assms(1) unfolding planCompaction_def Let_def D_def[symmetric] W_def[symmetric] a_def[symmetric]
    by simp_all
  show "w_opIds w = map o_id (filter (drops D W h) ops)" "removed st = length (w_opIds w)"
    "removed st + retainedWinners st + retainedAboveHorizon st = scanned st"
    "scanned st = length ops" "rowsReclaimed st = length D"
    using P by (simp_all add: w st)
  show "set (w_cellKeys w) = op_key ` {p \<in> set ops. rowKeyOf p \<in> set D} \<union>
      {k \<in> fst ` set winning. row_of_key k \<in> set D}"
    using P by (simp add: w set_sweep)
qed

section \<open>Carrying a plan out\<close>

text \<open>A snapshot of the cells: every winner under its key.\<close>

definition snapshot :: "(cell \<rightharpoonup> op) \<Rightarrow> (jsstring, op) jsmap \<Rightarrow> bool" where
  "snapshot cells w \<longleftrightarrow> dkeys w \<and> set w = (\<lambda>p. (op_key p, p)) ` ran cells"

lemma consistent_cells:
  assumes "consistent v" "r_cells v x = Some p"
  shows "p \<in> ran (r_log v)" "op_cell p = x" "storable p"
proof -
  have "is_winner (ran (r_log v)) x (Some p)"
    using assms lww_cellsD[of "ran (r_log v)" "r_cells v" x] by (simp add: consistent_def)
  then show "p \<in> ran (r_log v)" "op_cell p = x" by (simp_all add: is_winner_def)
  then show "storable p" using assms(1) by (auto simp: consistent_def wf_log_def ran_def)
qed

lemma consistent_storable: "consistent v \<Longrightarrow> p \<in> ran (r_log v) \<Longrightarrow> storable p"
  by (auto simp: consistent_def wf_log_def ran_def)

text \<open>Which rows a plan reclaims, in terms of the replica.\<close>

definition reclaimable :: "frontier \<Rightarrow> replica \<Rightarrow> jsstring \<Rightarrow> bool" where
  "reclaimable h v rk \<longleftrightarrow>
     (\<exists>p \<in> ran (r_cells v). candidate h p \<and> rowKeyOf p = rk) \<and>
     (\<forall>p \<in> ran (r_log v). rowKeyOf p = rk \<longrightarrow> below h p)"

lemma ran_storable: "consistent v \<Longrightarrow> p \<in> ran (r_cells v) \<Longrightarrow> storable p \<and> p \<in> ran (r_log v)"
  using consistent_cells by (fastforce simp: ran_def)

lemma set_doomed_rows:
  assumes "consistent v" "set ops = ran (r_log v)" "snapshot (r_cells v) winning"
  shows "rk \<in> set (doomed_rows ops winning h t) \<longleftrightarrow> t \<and> reclaimable h v rk"
proof -
  have "rk \<in> (\<lambda>(k, w). row_of_key k) ` {x \<in> set winning. case x of (k, w) \<Rightarrow> candidate h w} \<longleftrightarrow>
      (\<exists>p \<in> ran (r_cells v). candidate h p \<and> rowKeyOf p = rk)"
  proof -
    have "rk \<in> (\<lambda>(k, w). row_of_key k) ` {x \<in> set winning. case x of (k, w) \<Rightarrow> candidate h w} \<longleftrightarrow>
        (\<exists>p \<in> ran (r_cells v). candidate h p \<and> row_of_key (op_key p) = rk)"
      using assms(3) by (auto simp: snapshot_def image_iff)
    also have "\<dots> \<longleftrightarrow> (\<exists>p \<in> ran (r_cells v). candidate h p \<and> rowKeyOf p = rk)"
      by (rule bex_cong[OF refl]) (use ran_storable[OF assms(1)] row_of_key_op in simp)
    finally show ?thesis .
  qed
  then show ?thesis
    using assms(2) by (simp add: doomed_rows_def reclaimable_def Let_def) blast
qed

lemma compact_plan_effect:
  assumes cons: "consistent v" and ops: "set ops = ran (r_log v)" and snap: "snapshot (r_cells v) winning"
    and plan: "planCompaction ops winning h t = (w, st)"
  defines "v' \<equiv> compact_spec w v"
  shows "compact_ok w"
    and "r_cells v' = (\<lambda>x. if t \<and> reclaimable h v (row_of_cell x) then None else r_cells v x)"
    and "ran (r_log v') = {p \<in> ran (r_log v). \<not> (t \<and> reclaimable h v (rowKeyOf p)) \<and>
           (below h p \<longrightarrow> p \<in> ran (r_cells v))}"
    and "consistent v'"
proof -
  let ?D = "doomed_rows ops winning h t"
  let ?W = "set_of (map (\<lambda>(k, w). o_id w) winning)"
  note D = set_doomed_rows[OF cons ops snap, of _ h t]
  note P = planCompaction_spec[OF plan]
  have keys: "set (w_cellKeys w) = op_key ` {p \<in> ran (r_log v). rowKeyOf p \<in> set ?D}"
    using P(2) snap ran_storable[OF cons] row_of_key_op by (force simp: snapshot_def ops)
  have store: "storable p" if "p \<in> ran (r_log v)" for p
    using that by (rule consistent_storable[OF cons])
  show "compact_ok w"
    unfolding compact_ok_def keys using store by (force simp: op_key_def storable_def)
  have split: "Some x \<in> split_key ` set (w_cellKeys w) \<longleftrightarrow>
      (\<exists>p \<in> ran (r_log v). op_cell p = x \<and> rowKeyOf p \<in> set ?D)" for x
    unfolding keys using store split_op_key by (force simp: image_iff)
  show cells: "r_cells v' = (\<lambda>x. if t \<and> reclaimable h v (row_of_cell x) then None else r_cells v x)"
  proof
    fix x
    show "r_cells v' x = (if t \<and> reclaimable h v (row_of_cell x) then None else r_cells v x)"
    proof (cases "r_cells v x")
      case None
      then show ?thesis by (simp add: v'_def compact_spec_def)
    next
      case (Some p)
      note x = consistent_cells[OF cons Some]
      have "Some x \<in> split_key ` set (w_cellKeys w) \<longleftrightarrow> rowKeyOf p \<in> set ?D"
        unfolding split using x by (auto simp flip: row_of_op_cell)
      with x show ?thesis by (simp add: v'_def compact_spec_def D flip: row_of_op_cell)
    qed
  qed
  have W: "o_id p \<in> set ?W \<longleftrightarrow> p \<in> ran (r_cells v)" if "p \<in> ran (r_log v)" for p
  proof -
    have "o_id p = o_id q \<longleftrightarrow> p = q" if "q \<in> ran (r_cells v)" for q
    proof -
      have "q \<in> ran (r_log v)" using ran_storable[OF cons that] by simp
      then show ?thesis
        using \<open>p \<in> ran (r_log v)\<close> cons by (metis consistent_def inj_on_def store storable_def wf_log_inj)
    qed
    then show ?thesis using snap by (force simp: snapshot_def)
  qed
  have drops: "drops ?D ?W h p \<longleftrightarrow> (t \<and> reclaimable h v (rowKeyOf p)) \<or> (below h p \<and> p \<notin> ran (r_cells v))"
    if "p \<in> ran (r_log v)" for p
    using W[OF that] by (simp add: drops_def D)
  have wf: "wf_log (r_log v)" using cons by (simp add: consistent_def)
  have dropped: "o_hlc p \<in> set (w_opIds w) \<longleftrightarrow> drops ?D ?W h p" if "p \<in> ran (r_log v)" for p
  proof -
    have "p = q" if "q \<in> ran (r_log v)" "o_hlc p = o_id q" for q
      using that \<open>p \<in> ran (r_log v)\<close> wf_log_inj[OF wf] store by (metis inj_onD storable_def)
    moreover have "o_hlc p = o_id p" using store[OF that] by (simp add: storable_def)
    ultimately show ?thesis using P(1) that ops by auto
  qed
  show log: "ran (r_log v') = {p \<in> ran (r_log v). \<not> (t \<and> reclaimable h v (rowKeyOf p)) \<and>
      (below h p \<longrightarrow> p \<in> ran (r_cells v))}"
  proof -
    have "p \<in> ran (r_log v') \<longleftrightarrow> p \<in> ran (r_log v) \<and> o_hlc p \<notin> set (w_opIds w)" for p
    proof -
      have "p \<in> ran (r_log v') \<longleftrightarrow> (\<exists>i. i \<notin> set (w_opIds w) \<and> r_log v i = Some p)"
        by (auto simp: v'_def compact_spec_def ran_def restrict_map_def)
      then show ?thesis using wf_logD[OF wf] by (auto simp: ran_def)
    qed
    then show ?thesis using dropped drops by blast
  qed
  have wf': "wf_log (r_log v')"
    using wf by (auto simp: wf_log_def v'_def compact_spec_def restrict_map_def split: if_splits)
  have sub: "ran (r_log v') \<subseteq> ran (r_log v)" by (auto simp: log)
  have "is_winner (ran (r_log v')) x (r_cells v' x)" for x
  proof (cases "t \<and> reclaimable h v (row_of_cell x)")
    case True
    then show ?thesis by (auto simp: cells is_winner_def log row_of_op_cell)
  next
    case False
    have "is_winner (ran (r_log v)) x (r_cells v x)"
      using cons by (intro lww_cellsD) (simp add: consistent_def)
    moreover have "q \<in> ran (r_log v')" if "r_cells v x = Some q" for q
    proof -
      have "q \<in> ran (r_cells v)" using that by (rule ranI)
      moreover have "rowKeyOf q = row_of_cell x"
        using consistent_cells(2)[OF cons that] by (auto simp: row_of_op_cell)
      ultimately show ?thesis
        using consistent_cells(1)[OF cons that] False unfolding log by simp
    qed
    ultimately show ?thesis
      using False sub by (cases "r_cells v x") (auto simp: cells is_winner_def)
  qed
  then have "lww_cells (ran (r_log v')) (r_cells v')" unfolding lww_cells_def ..
  with wf' cons sub show "consistent v'"
    by (auto simp: consistent_def v'_def compact_spec_def)
qed

section \<open>The snapshot\<close>

lemma fold_map_set_pairs:
  "map_of (fold (\<lambda>(k, p). map_set k p) xs m) = map_of m ++ map_of (rev xs)"
  "dkeys m \<Longrightarrow> dkeys (fold (\<lambda>(k, p). map_set k p) xs m)"
  by (induction xs arbitrary: m) (auto simp: map_add_upd_left fun_eq_iff map_add_def split: option.splits)

definition cell_list :: "'s storage_ops \<Rightarrow> 's \<Rightarrow> (jsstring \<times> op) list" where
  "cell_list S s = concat (map (\<lambda>t. concat (map (\<lambda>r.
     map (\<lambda>(c, p). (cellKey t r c, p)) (or_empty (getRow S s t r))) (listRows S s t))) (listTables S s))"

lemma winningCells_fold: "winningCells S s = fold (\<lambda>(k, p). map_set k p) (cell_list S s) []"
  unfolding winningCells_def cell_list_def fold_concat_map fold_map comp_def case_prod_beta fst_conv snd_conv ..

lemma set_cells:
  fixes ts :: "'a list" and rows :: "'a \<Rightarrow> 'b list" and f :: "'a \<Rightarrow> 'b \<Rightarrow> 'c \<Rightarrow> 'k" and p :: 'v
  shows "(k, p) \<in> set (concat (map (\<lambda>t. concat (map (\<lambda>r. map (\<lambda>(c, q). (f t r c, q)) (g t r)) (rows t))) ts)) \<longleftrightarrow>
     (\<exists>t \<in> set ts. \<exists>r \<in> set (rows t). \<exists>c. (c, p) \<in> set (g t r) \<and> k = f t r c)"
proof -
  have "(k, p) \<in> set (map (\<lambda>(c, q). (f t r c, q)) xs) \<longleftrightarrow> (\<exists>c. (c, p) \<in> set xs \<and> k = f t r c)" for t r xs
    by force
  moreover have "x \<in> set (concat (map h ys)) \<longleftrightarrow> (\<exists>y \<in> set ys. x \<in> set (h y))" for x :: "'k \<times> 'v" and h :: "'b \<Rightarrow> _" and ys
    by simp
  moreover have "x \<in> set (concat (map h ys)) \<longleftrightarrow> (\<exists>y \<in> set ys. x \<in> set (h y))" for x :: "'k \<times> 'v" and h :: "'a \<Rightarrow> _" and ys
    by simp
  ultimately show ?thesis by (simp only:)
qed

context storage_adapter
begin

lemma set_cell_list:
  assumes "inv s" "consistent (view s)"
  shows "set (cell_list S s) = (\<lambda>p. (op_key p, p)) ` ran (r_cells (view s))"
proof -
  have row: "(c, p) \<in> set (or_empty (getRow S s t r)) \<longleftrightarrow> r_cells (view s) (t, r, c) = Some p" for t r c p
  proof (cases "getRow S s t r")
    case None
    then show ?thesis using getRow_None[OF assms(1), of t r] by simp
  next
    case (Some m)
    from getRow_Some[OF assms(1) Some] have "dkeys m" "map_of m = (\<lambda>c. r_cells (view s) (t, r, c))" by simp_all
    then have "(c, p) \<in> set m \<longleftrightarrow> r_cells (view s) (t, r, c) = Some p"
      by (metis map_of_SomeD map_of_is_SomeI)
    with Some show ?thesis by simp
  qed
  have op: "op_key p = cellKey t r c" if "r_cells (view s) (t, r, c) = Some p" for t r c p
    using consistent_cells(2)[OF assms(2) that] by (auto simp: op_key_def op_cell_def)
  have "(k, p) \<in> set (cell_list S s) \<longleftrightarrow> (\<exists>t r c. k = cellKey t r c \<and> r_cells (view s) (t, r, c) = Some p)" for k p
  proof -
    have t: "t \<in> set (listTables S s) \<longleftrightarrow> (\<exists>r c. r_cells (view s) (t, r, c) \<noteq> None)" for t
      using listTables[OF assms(1)] by simp
    have sep: "no_sep t" if "r_cells (view s) (t, r, c) = Some p" for t r c p
      using consistent_cells[OF assms(2) that] by (auto simp: storable_def op_cell_def)
    have r: "r \<in> set (listRows S s t) \<longleftrightarrow> (\<exists>c. r_cells (view s) (t, r, c) \<noteq> None)"
      if "\<exists>r c. r_cells (view s) (t, r, c) \<noteq> None" for t r
      using that sep listRows[OF assms(1), of t] by auto
    show ?thesis unfolding cell_list_def set_cells row Bex_def t using r by blast
  qed
  moreover have "(\<exists>t r c. k = cellKey t r c \<and> r_cells (view s) (t, r, c) = Some p) \<longleftrightarrow>
      k = op_key p \<and> p \<in> ran (r_cells (view s))" for k p
    unfolding ran_def using op by fastforce
  ultimately show ?thesis by auto
qed

lemma winningCells_snapshot:
  assumes "inv s" "consistent (view s)"
  shows "snapshot (r_cells (view s)) (winningCells S s)"
proof -
  let ?w = "winningCells S s" and ?xs = "cell_list S s"
  note set = set_cell_list[OF assms]
  have uniq: "p = q" if "(k, p) \<in> set ?xs" "(k, q) \<in> set ?xs" for k p q
  proof -
    from that have "op_key p = op_key q" "p \<in> ran (r_cells (view s))" "q \<in> ran (r_cells (view s))"
      by (auto simp: set)
    moreover from this obtain x y where "r_cells (view s) x = Some p" "r_cells (view s) y = Some q"
      by (auto simp: ran_def)
    ultimately show "p = q"
      using consistent_cells[OF assms(2)] op_key_inject by (metis option.inject)
  qed
  have dk: "dkeys ?w" unfolding winningCells_fold by (rule fold_map_set_pairs) simp
  have "map_of ?w k = Some p \<longleftrightarrow> (k, p) \<in> set ?xs" for k p
  proof
    assume "map_of ?w k = Some p"
    then have "map_of (rev ?xs) k = Some p" by (simp add: winningCells_fold fold_map_set_pairs(1))
    then show "(k, p) \<in> set ?xs" by (auto dest: map_of_SomeD)
  next
    assume mem: "(k, p) \<in> set ?xs"
    then have "(k, p) \<in> set (rev ?xs)" by simp
    then obtain q where q: "map_of (rev ?xs) k = Some q" using weak_map_of_SomeI by fastforce
    then have "(k, q) \<in> set ?xs" by (auto dest: map_of_SomeD)
    with mem q uniq show "map_of ?w k = Some p"
      by (auto simp: winningCells_fold fold_map_set_pairs(1))
  qed
  then have "set ?w = set ?xs"
    using dk by (auto intro: map_of_is_SomeI dest: map_of_SomeD)
  with dk set show ?thesis by (simp add: snapshot_def)
qed

end

end
