(* ===== verification/Engine.thy ===== *)
theory Engine
  imports Compaction
begin

text \<open>
  The engine of core/src/engine.ts with the cipher interface of core/src/cipher.ts: one
  space's replica, over any storage adapter. An engine is a record of its mutable state; a
  method is an action that returns or throws and leaves the state as the code leaves it. The
  engine's mutex runs the mutations of one engine one after the other, so an action is one
  turn of the lock. Physical clock readings, random bytes and nonces are arguments.
\<close>

section \<open>Cipher interface\<close>

text \<open>\<open>encrypt nonce value opId\<close>, where the nonce is the random draw of the call.\<close>

record cipher =
  encrypt :: "bytes \<Rightarrow> jsval \<Rightarrow> jsstring \<Rightarrow> jsstring result"
  decrypt :: "jsval \<Rightarrow> jsstring \<Rightarrow> jsval result"

definition CIPHER_PREFIX :: jsstring where "CIPHER_PREFIX = js ''e1:''"

definition isEncryptedValue :: "jsval \<Rightarrow> bool" where
  "isEncryptedValue v = (case v of JStr s \<Rightarrow> starts_with s CIPHER_PREFIX | _ \<Rightarrow> False)"

section \<open>State\<close>

datatype origin = Local | Remote

record change_event =
  ev_changes :: "(jsstring \<times> jsstring) list"
  ev_ops :: "op list"
  ev_origin :: origin

text \<open>\<open>e_events\<close> is what a subscriber registered from the start has been called with.\<close>

record 's engine =
  e_store :: 's
  e_clock :: hlc_clock
  e_keys :: "(jsstring, bytes) jsmap"
  e_deviceKey :: device_key
  e_events :: "change_event list"

definition e_deviceId :: "'s engine \<Rightarrow> jsstring" where
  "e_deviceId e = c_device (e_clock e)"

text \<open>The readings a local write draws: physical time, and a nonce for the cipher.\<close>

record draw =
  d_now :: nat
  d_nonce :: bytes

text \<open>Calls on the engine's storage and clock.\<close>

definition on_store :: "('s, 'a) act \<Rightarrow> ('s engine, 'a) act" where
  "on_store m = (\<lambda>e. let (r, s) = m (e_store e) in (r, e\<lparr>e_store := s\<rparr>))"

definition on_clock :: "(hlc_clock, 'a) act \<Rightarrow> ('s engine, 'a) act" where
  "on_clock m = (\<lambda>e. let (r, c) = m (e_clock e) in (r, e\<lparr>e_clock := c\<rparr>))"

definition clock_pair_of :: "hlc_clock \<Rightarrow> clock_pair" where
  "clock_pair_of c = \<lparr>cs_millis = c_millis c, cs_counter = c_counter c\<rparr>"

section \<open>Opening a replica\<close>

definition open_with :: "'s storage_ops \<Rightarrow> crypto \<Rightarrow> device_key \<Rightarrow> 's \<Rightarrow> 's engine result" where
  "open_with S C key s =
     (let persisted = getClock S s in
      bind_res (new_clock (deviceIdFromPublicKey C (publicKey key))
                  (map_option cs_millis persisted) (map_option cs_counter persisted))
        (\<lambda>c. Inr \<lparr>e_store = s, e_clock = c, e_keys = [(c_device c, publicKey key)],
                 e_deviceKey = key, e_events = []\<rparr>))"

text \<open>\<open>gen\<close> is the key pair \<open>generateDeviceKey\<close> would return.\<close>

definition open_engine :: "'s storage_ops \<Rightarrow> crypto \<Rightarrow> device_key \<Rightarrow> ('s, 's engine) act" where
  "open_engine S C gen = (\<lambda>s.
     case getDeviceKey S s of
       Some key \<Rightarrow> (open_with S C key s, s)
     | None \<Rightarrow> bind_act (setDeviceKey S gen) (\<lambda>_ s'. (open_with S C gen s', s')) s)"

section \<open>Keys\<close>

definition learnKey :: "crypto \<Rightarrow> jsstring \<Rightarrow> bytes \<Rightarrow> 's engine \<Rightarrow> bool \<times> 's engine" where
  "learnKey C d pk e =
     (if deviceIdFromPublicKey C pk \<noteq> d then (False, e)
      else (True, e\<lparr>e_keys := map_set d pk (e_keys e)\<rparr>))"

section \<open>Reads\<close>

definition isTombstoned :: "(jsstring, op) jsmap \<Rightarrow> bool" where
  "isTombstoned cells = (case map_of cells TOMBSTONE_COLUMN of None \<Rightarrow> False | Some p \<Rightarrow> o_value p = JBool True)"

definition cell_value :: "cipher option \<Rightarrow> op \<Rightarrow> jsval result" where
  "cell_value K p =
     (case K of
        Some k \<Rightarrow> if isEncryptedValue (o_value p) then decrypt k (o_value p) (o_id p) else Inr (o_value p)
      | None \<Rightarrow> Inr (o_value p))"

text \<open>
  \<^verbatim>\<open>out[column] = value\<close> on a plain object: the column \<open>__proto__\<close> reaches the setter of
  \<^verbatim>\<open>Object.prototype\<close>, so it never becomes an own property and is not copied by the spread.
\<close>

fun materialize_cells :: "cipher option \<Rightarrow> (jsstring, op) jsmap \<Rightarrow> (jsstring, jsval) jsmap \<Rightarrow>
    (jsstring, jsval) jsmap result" where
  "materialize_cells K [] out = Inr out"
| "materialize_cells K ((column, p) # cells) out =
     (if column = TOMBSTONE_COLUMN then materialize_cells K cells out
      else bind_res (cell_value K p) (\<lambda>v.
        materialize_cells K cells (if v \<noteq> JNull \<and> column \<noteq> PROTO then map_set column v out else out)))"

text \<open>\<^verbatim>\<open>{ id: row, ...out }\<close>: a column named \<open>id\<close> replaces the row id.\<close>

definition materialize :: "cipher option \<Rightarrow> jsstring \<Rightarrow> (jsstring, op) jsmap \<Rightarrow> (jsstring, jsval) jsmap result" where
  "materialize K row cells =
     bind_res (materialize_cells K cells [])
       (\<lambda>out. Inr (fold (\<lambda>(k, v). map_set k v) out [(js ''id'', JStr row)]))"

definition visible_row :: "'s storage_ops \<Rightarrow> cipher option \<Rightarrow> 's \<Rightarrow> jsstring \<Rightarrow> jsstring \<Rightarrow>
    (jsstring, jsval) jsmap option result" where
  "visible_row S K s t r =
     (case getRow S s t r of
        None \<Rightarrow> Inr None
      | Some cells \<Rightarrow>
          if isTombstoned cells then Inr None
          else bind_res (materialize K r cells) (\<lambda>x. Inr (Some x)))"

definition get :: "'s storage_ops \<Rightarrow> cipher option \<Rightarrow> jsstring \<Rightarrow> jsstring \<Rightarrow> 's engine \<Rightarrow>
    (jsstring, jsval) jsmap option result" where
  "get S K t r e = visible_row S K (e_store e) t r"

text \<open>The values of the rows that are visible, in the order of the list.\<close>

fun present :: "'a option list \<Rightarrow> 'a list" where
  "present [] = []"
| "present (None # xs) = present xs"
| "present (Some x # xs) = x # present xs"

definition list_all_rows :: "'s storage_ops \<Rightarrow> cipher option \<Rightarrow> jsstring \<Rightarrow> 's engine \<Rightarrow>
    (jsstring, jsval) jsmap list result" where
  "list_all_rows S K t e =
     bind_res (map_res (visible_row S K (e_store e) t) (sort (listRows S (e_store e) t)))
       (\<lambda>rows. Inr (present rows))"

text \<open>
  \<^verbatim>\<open>(state[table] ??= {})[row] = cols\<close>: a table whose name \<^verbatim>\<open>Object.prototype\<close> already has
  writes into the inherited object instead, and is not part of the result.
\<close>

definition dump_table :: "'s storage_ops \<Rightarrow> cipher option \<Rightarrow> 's \<Rightarrow> jsstring \<Rightarrow>
    (jsstring, (jsstring, jsval) jsmap) jsmap result" where
  "dump_table S K s t =
     bind_res (map_res (\<lambda>r. bind_res (visible_row S K s t r)
         (\<lambda>x. Inr (map_option (\<lambda>cols. (r, filter (\<lambda>(k, v). k \<noteq> js ''id'') cols)) x)))
       (sort (listRows S s t)))
     (\<lambda>rows. Inr (present rows))"

definition dump :: "'s storage_ops \<Rightarrow> cipher option \<Rightarrow> 's engine \<Rightarrow>
    (jsstring, (jsstring, (jsstring, jsval) jsmap) jsmap) jsmap result" where
  "dump S K e =
     bind_res (map_res (\<lambda>t. bind_res (dump_table S K (e_store e) t) (\<lambda>rows. Inr (t, rows)))
         (sort (listTables S (e_store e))))
       (\<lambda>ts. Inr (filter (\<lambda>(t, rows). rows \<noteq> [] \<and> t \<notin> set inherited_names) ts))"

section \<open>The mutation path\<close>

text \<open>One iteration of the loop of \<open>commit\<close>; storage is only read in it.\<close>

definition commit_step :: "'s storage_ops \<Rightarrow> 's \<Rightarrow> op \<Rightarrow> (jsstring, op) jsmap \<times> frontier \<Rightarrow>
    (jsstring, op) jsmap \<times> frontier" where
  "commit_step S s p acc =
     (let key = cellKey (o_table p) (o_row p) (o_column p);
          winners = fst acc;
          pending = map_of winners key;
          current = (case pending of Some q \<Rightarrow> Some q
                     | None \<Rightarrow> getWinner S s (o_table p) (o_row p) (o_column p));
          winners' = (case current of
                        None \<Rightarrow> map_set key p winners
                      | Some q \<Rightarrow> if o_hlc q < o_hlc p then map_set key p winners
                                  else if pending = None then map_set key q winners
                                  else winners)
      in (winners', advanceFrontier (snd acc) p))"

definition changed_rows :: "op list \<Rightarrow> (jsstring \<times> jsstring) list" where
  "changed_rows ops =
     map (\<lambda>k. case js_split SEP k of t # r # _ \<Rightarrow> (t, r) | _ \<Rightarrow> (k, []))
       (set_of (map (\<lambda>p. o_table p @ [SEP] @ o_row p) ops))"

definition commit :: "'s storage_ops \<Rightarrow> op list \<Rightarrow> origin \<Rightarrow> ('s engine, unit) act" where
  "commit S ops origin = (\<lambda>e.
     let (winners, frontier) = fold (commit_step S (e_store e)) ops ([], getFrontier S (e_store e))
     in bind_act (on_store (applyBatch S \<lparr>b_ops = ops, b_winners = winners, b_frontier = frontier,
                                        b_clock = clock_pair_of (e_clock e)\<rparr>))
          (\<lambda>_. modify (\<lambda>e. e\<lparr>e_events := e_events e @
             [\<lparr>ev_changes = changed_rows ops, ev_ops = ops, ev_origin = origin\<rparr>]\<rparr>)) e)"

text \<open>
  The subscribers of an engine are the code's callbacks; all they can do to a call is to throw. A call
  commits once at most and its notification is the last thing it does, so a throw rejects the
  call when the batch is already stored, and the subscribers that follow are not told.
\<close>

type_synonym subscriber = "change_event \<Rightarrow> js_error option"

definition notify :: "subscriber list \<Rightarrow> change_event \<Rightarrow> js_error option" where
  "notify cbs ev = first_some (\<lambda>cb. cb ev) cbs"

definition subscribed :: "subscriber list \<Rightarrow> ('s engine, 'a) act \<Rightarrow> ('s engine, 'a) act" where
  "subscribed cbs call = (\<lambda>e.
     let (res, e') = call e in
     case res of
       Inl x \<Rightarrow> (Inl x, e')
     | Inr y \<Rightarrow> (case first_some (notify cbs) (drop (length (e_events e)) (e_events e')) of
         None \<Rightarrow> (Inr y, e')
       | Some x \<Rightarrow> (Inl x, e')))"

section \<open>Local writes\<close>

definition makeLocalOp :: "crypto \<Rightarrow> cipher option \<Rightarrow> draw \<Rightarrow> jsstring \<Rightarrow> jsstring \<Rightarrow> jsstring \<Rightarrow> jsval \<Rightarrow>
    ('s engine, op) act" where
  "makeLocalOp C K d table row column value =
     bind_act (on_clock (now (time_value (d_now d)))) (\<lambda>h.
       let hlc = encodeHlc h in
       bind_act (lift_res (case K of
           Some k \<Rightarrow> if column \<noteq> TOMBSTONE_COLUMN
                     then bind_res (encrypt k (d_nonce d) value hlc) (\<lambda>s. Inr (JStr s))
                     else Inr value
         | None \<Rightarrow> Inr value)) (\<lambda>stored e.
       let unsigned = \<lparr>o_id = hlc, o_table = table, o_row = row, o_column = column,
                       o_value = stored, o_hlc = hlc, o_sig = [], o_device = e_deviceId e\<rparr>;
           p = unsigned\<lparr>o_sig := signPayload C (signedPayload unsigned) (privateKey (e_deviceKey e))\<rparr>
       in (bind_res (validateOp (op_to_js p)) (\<lambda>_. Inr p), e)))"

text \<open>\<open>ds i\<close> are the draws of the \<open>i\<close>-th column.\<close>

definition update_row :: "'s storage_ops \<Rightarrow> crypto \<Rightarrow> cipher option \<Rightarrow> (nat \<Rightarrow> draw) \<Rightarrow> jsstring \<Rightarrow> jsstring \<Rightarrow>
    (jsstring \<times> jsval) list \<Rightarrow> ('s engine, unit) act" where
  "update_row S C K ds table row values =
     bind_act (map_act (\<lambda>(i, (column, value)). makeLocalOp C K (ds i) table row column value)
         (List.enumerate 0 values))
       (\<lambda>ops. commit S ops Local)"

definition clockMillisForUlid :: "nat \<Rightarrow> 's engine \<Rightarrow> nat" where
  "clockMillisForUlid date e = max (c_millis (e_clock e)) date mod 2 ^ 48"

definition insert_row :: "'s storage_ops \<Rightarrow> crypto \<Rightarrow> cipher option \<Rightarrow> nat \<Rightarrow> bytes \<Rightarrow> (nat \<Rightarrow> draw) \<Rightarrow> jsstring \<Rightarrow>
    (jsstring \<times> jsval) list \<Rightarrow> ('s engine, jsstring) act" where
  "insert_row S C K date rand ds table values = (\<lambda>e.
     bind_act (lift_res (ulid (clockMillisForUlid date e) rand)) (\<lambda>row.
     bind_act (update_row S C K ds table row values) (\<lambda>_. ret row)) e)"

definition delete_row :: "'s storage_ops \<Rightarrow> crypto \<Rightarrow> cipher option \<Rightarrow> draw \<Rightarrow> jsstring \<Rightarrow> jsstring \<Rightarrow>
    ('s engine, unit) act" where
  "delete_row S C K d table row =
     bind_act (makeLocalOp C K d table row TOMBSTONE_COLUMN (JBool True)) (\<lambda>p. commit S [p] Local)"

section \<open>Synchronization\<close>

definition check_signature :: "crypto \<Rightarrow> (jsstring, bytes) jsmap \<Rightarrow> op \<Rightarrow> unit result" where
  "check_signature C keys p =
     (case map_of keys (o_device p) of
        None \<Rightarrow> Inl (BadOpError (js ''unknown device '' @ o_device p @ js ''; no key to verify against''))
      | Some pk \<Rightarrow> check (verifyOp C p pk) (BadOpError (js ''bad signature on op '' @ o_id p)))"

definition max_op :: "op list \<Rightarrow> op option" where
  "max_op ops = fold (\<lambda>p m. case m of None \<Rightarrow> Some p
     | Some q \<Rightarrow> if o_hlc q < o_hlc p then Some p else m) ops None"

definition fresh_ops :: "'s storage_ops \<Rightarrow> 's \<Rightarrow> op list \<Rightarrow> op list" where
  "fresh_ops S s ops = fold (\<lambda>p fresh.
     if \<not> hasOp S s (o_id p) \<and> \<not> list_ex (\<lambda>f. o_id f = o_id p) fresh then fresh @ [p] else fresh) ops []"

text \<open>\<open>this.clock.receive(decodeHlc(s))\<close>.\<close>

definition receive_stamp :: "nat \<Rightarrow> jsstring \<Rightarrow> ('s engine, unit) act" where
  "receive_stamp pt s =
     bind_act (lift_res (decodeHlc s)) (\<lambda>h. bind_act (on_clock (receive (time_value pt) h)) (\<lambda>_. ret ()))"

text \<open>The batch that persists only the clock.\<close>

definition persist_clock :: "'s storage_ops \<Rightarrow> ('s engine, unit) act" where
  "persist_clock S = (\<lambda>e. on_store (applyBatch S \<lparr>b_ops = [], b_winners = [],
     b_frontier = getFrontier S (e_store e), b_clock = clock_pair_of (e_clock e)\<rparr>) e)"

definition applyRemoteOps :: "'s storage_ops \<Rightarrow> crypto \<Rightarrow> nat \<Rightarrow> jsval list \<Rightarrow> ('s engine, nat) act" where
  "applyRemoteOps S C pt remoteOps =
     bind_act (lift_res (check (length remoteOps \<le> MAX_BATCH_OPS)
         (BadOpError (js ''batch exceeds 1000 ops'')))) (\<lambda>_.
     bind_act (lift_res (map_res validateOp remoteOps)) (\<lambda>ops.
     bind_act (\<lambda>e. (check_all (check_signature C (e_keys e)) ops, e)) (\<lambda>_.
     bind_act (case max_op ops of None \<Rightarrow> ret () | Some m \<Rightarrow> receive_stamp pt (o_hlc m)) (\<lambda>_ e.
       let fresh = fresh_ops S (e_store e) ops in
       if fresh = [] then bind_act (persist_clock S) (\<lambda>_. ret 0) e
       else bind_act (commit S fresh Remote) (\<lambda>_. ret (length fresh)) e))))"

definition observeRemoteClock :: "'s storage_ops \<Rightarrow> nat \<Rightarrow> jsstring \<Rightarrow> ('s engine, unit) act" where
  "observeRemoteClock S pt hlc = bind_act (receive_stamp pt hlc) (\<lambda>_. persist_clock S)"

definition recordPeerFrontier :: "'s storage_ops \<Rightarrow> jsstring \<Rightarrow> frontier \<Rightarrow> ('s engine, unit) act" where
  "recordPeerFrontier S peer f = (\<lambda>e.
     if peer = e_deviceId e then (Inr (), e) else on_store (setPeerFrontier S peer f) e)"

definition engine_frontier :: "'s storage_ops \<Rightarrow> 's engine \<Rightarrow> frontier" where
  "engine_frontier S e = getFrontier S (e_store e)"

definition engine_opsSince :: "'s storage_ops \<Rightarrow> frontier \<Rightarrow> 's engine \<Rightarrow> op list" where
  "engine_opsSince S f e = opsSince S (e_store e) f"

section \<open>Compaction\<close>

definition compact :: "'s storage_ops \<Rightarrow> bool \<Rightarrow> bool \<Rightarrow> ('s engine, compaction_stats) act" where
  "compact S includeTombstones dryRun = (\<lambda>e.
     let s = e_store e;
         own = getFrontier S s; peers = getPeerFrontiers S s;
         horizon = compactionHorizon own peers;
         (w, stats) = planCompaction (allOps S s) (winningCells S s) horizon includeTombstones
     in bind_act
          (if \<not> dryRun \<and> (0 < length (w_opIds w) \<or> 0 < length (w_cellKeys w))
           then on_store (compact_store S w) else ret ())
          (\<lambda>_. ret (stats\<lparr>blockedBy := blockingPeers own peers\<rparr>)) e)"

section \<open>Two engines\<close>

text \<open>\<open>syncOnce\<close> acts on a pair of engines, each over its own adapter.\<close>

definition on_fst :: "('x, 'a) act \<Rightarrow> ('x \<times> 'y, 'a) act" where
  "on_fst m = (\<lambda>(x, y). let (r, x') = m x in (r, (x', y)))"

definition on_snd :: "('y, 'a) act \<Rightarrow> ('x \<times> 'y, 'a) act" where
  "on_snd m = (\<lambda>(x, y). let (r, y') = m y in (r, (x, y')))"

definition learn_all :: "crypto \<Rightarrow> (jsstring, bytes) jsmap \<Rightarrow> 's engine \<Rightarrow> 's engine" where
  "learn_all C keys e = fold (\<lambda>(d, k) e. snd (learnKey C d k e)) keys e"

definition meet_keys :: "crypto \<Rightarrow> 's engine \<times> 't engine \<Rightarrow> 's engine \<times> 't engine" where
  "meet_keys C ab =
     (let b = learn_all C (e_keys (fst ab)) (snd ab); a = learn_all C (e_keys b) (fst ab) in (a, b))"

definition syncOnce :: "'s storage_ops \<Rightarrow> 't storage_ops \<Rightarrow> crypto \<Rightarrow> nat \<Rightarrow> nat \<Rightarrow>
    ('s engine \<times> 't engine, unit) act" where
  "syncOnce S T C pta ptb =
     bind_act (modify (meet_keys C)) (\<lambda>_ ab.
       let fa = engine_frontier S (fst ab); fb = engine_frontier T (snd ab);
           aToB = engine_opsSince S fb (fst ab);
           bToA = engine_opsSince T fa (snd ab)
       in bind_act (if aToB \<noteq> [] then on_snd (applyRemoteOps T C ptb (map op_to_js aToB)) else ret 0) (\<lambda>_.
          bind_act (if bToA \<noteq> [] then on_fst (applyRemoteOps S C pta (map op_to_js bToA)) else ret 0) (\<lambda>_ ab.
          bind_act (on_fst (recordPeerFrontier S (e_deviceId (snd ab)) (engine_frontier T (snd ab)))) (\<lambda>_ ab.
            on_snd (recordPeerFrontier T (e_deviceId (fst ab)) (engine_frontier S (fst ab))) ab) ab)) ab)"

end
