(* ===== verification/Engine_Refine.thy ===== *)
theory Engine_Refine
  imports Engine
begin

text \<open>
  The engine implements the abstract replica: the mutation path refines \<open>merge\<close>, a failed
  call leaves the abstract state alone, and every public method preserves the engine's
  invariant. All lemmas are proved once for any adapter that meets the storage contract.
\<close>

section \<open>The winners of a batch\<close>

definition winners_ok :: "(jsstring, op) jsmap \<Rightarrow> bool" where
  "winners_ok ws \<longleftrightarrow> dkeys ws \<and> (\<forall>(k, p) \<in> set ws. storable p \<and> k = op_key p)"

lemma winners_map_simps:
  "winners_map [] = Map.empty"
  "winners_map ((k, p) # ws) = (winners_map ws)(op_cell p \<mapsto> p)"
  by (simp_all add: winners_map_def)

lemma winners_ok_Cons:
  "winners_ok ((k, p) # ws) \<longleftrightarrow> winners_ok ws \<and> k \<notin> fst ` set ws \<and> storable p \<and> k = op_key p"
  by (auto simp: winners_ok_def)

lemma winners_map_at:
  "winners_ok ws \<Longrightarrow> storable p \<Longrightarrow> map_of ws (op_key p) = winners_map ws (op_cell p)"
proof (induction ws)
  case Nil
  then show ?case by (simp add: winners_map_simps)
next
  case (Cons w ws)
  obtain k q where w: "w = (k, q)" by (cases w)
  with Cons op_key_inject[of p q] show ?case by (auto simp: winners_map_simps winners_ok_Cons)
qed

lemma winners_map_set:
  "winners_ok ws \<Longrightarrow> storable q \<Longrightarrow>
     winners_ok (map_set (op_key q) q ws) \<and>
     winners_map (map_set (op_key q) q ws) = (winners_map ws)(op_cell q \<mapsto> q)"
proof (induction ws)
  case Nil
  then show ?case by (simp add: winners_map_simps winners_ok_def)
next
  case (Cons w ws)
  obtain k p where w: "w = (k, p)" by (cases w)
  from Cons.prems have k: "k = op_key p" "storable p" "winners_ok ws" "k \<notin> fst ` set ws"
    unfolding w winners_ok_Cons by blast+
  have IH: "winners_ok (map_set (op_key q) q ws)"
    "winners_map (map_set (op_key q) q ws) = (winners_map ws)(op_cell q \<mapsto> q)"
    using Cons.IH[OF k(3) Cons.prems(2)] by auto
  show ?case
  proof (cases "op_key p = op_key q")
    case True
    then have "op_cell p = op_cell q" using op_key_inject k(2) Cons.prems(2) by blast
    moreover have "op_key q \<notin> fst ` set ws" using k(1,4) True by simp
    ultimately show ?thesis
      using True k(2,3) Cons.prems(2) by (simp add: w winners_ok_Cons winners_map_simps k(1) fun_eq_iff)
  next
    case False
    then have "op_cell p \<noteq> op_cell q" using op_key_inject k(2) Cons.prems(2) by blast
    moreover have "k \<notin> fst ` set (map_set (op_key q) q ws)"
      using False k by (simp add: dom_update)
    ultimately show ?thesis
      using False k IH by (auto simp: w winners_ok_Cons winners_map_simps fun_upd_twist)
  qed
qed

lemma merge_batch:
  assumes "winners_ok ws"
    "r_cells v ++ winners_map ws = fold cell_join ps (r_cells v)"
    "f = fold (\<lambda>p f. advanceFrontier f p) ps (r_front v)"
  shows "apply_spec \<lparr>b_ops = ps, b_winners = ws, b_frontier = f, b_clock = ck\<rparr> v = merge ps ck v"
  using assms by (simp add: apply_spec_def merge_def)

context storage_adapter
begin

lemma commit_step_spec:
  assumes inv: "inv s" and cons: "consistent (view s)" and p: "storable p" and ws: "winners_ok ws"
    and step: "commit_step S s p (ws, f) = (ws', f')"
  shows "winners_ok ws' \<and>
    r_cells (view s) ++ winners_map ws' = cell_join p (r_cells (view s) ++ winners_map ws) \<and>
    f' = advanceFrontier f p"
proof -
  let ?cells = "r_cells (view s)"
  note at = winners_map_at[OF ws p]
  have get: "getWinner S s (o_table p) (o_row p) (o_column p) = ?cells (op_cell p)"
    using getWinner[OF inv] by (simp add: op_cell_def)
  have current: "(case map_of ws (op_key p) of Some q \<Rightarrow> Some q
      | None \<Rightarrow> getWinner S s (o_table p) (o_row p) (o_column p)) = (?cells ++ winners_map ws) (op_cell p)"
    by (simp add: get at map_add_def split: option.splits)
  have ws': "ws' = (case (?cells ++ winners_map ws) (op_cell p) of
      None \<Rightarrow> map_set (op_key p) p ws
    | Some q \<Rightarrow> if o_hlc q < o_hlc p then map_set (op_key p) p ws
               else if map_of ws (op_key p) = None then map_set (op_key p) q ws else ws)"
    and f': "f' = advanceFrontier f p"
    using step unfolding commit_step_def Let_def fst_conv snd_conv op_key_def[symmetric] current by simp_all
  have put: "winners_ok (map_set (op_key p) p ws) \<and>
      ?cells ++ winners_map (map_set (op_key p) p ws) = (?cells ++ winners_map ws)(op_cell p \<mapsto> p)"
    using winners_map_set[OF ws p] by (simp add: map_add_upd)
  show ?thesis
  proof (cases "(?cells ++ winners_map ws) (op_cell p)")
    case None
    show ?thesis
      unfolding ws' f' cell_join_def lww_join_def None option.case using put by simp
  next
    case (Some q)
    show ?thesis
    proof (cases "o_hlc q < o_hlc p")
      case True
      with Some put show ?thesis by (simp add: ws' f' cell_join_def lww_join_def)
    next
      case False
      have same: "cell_join p (?cells ++ winners_map ws) = ?cells ++ winners_map ws"
        using Some False by (simp add: cell_join_def lww_join_def fun_upd_idem)
      show ?thesis
      proof (cases "map_of ws (op_key p)")
        case None
        then have w: "winners_map ws (op_cell p) = None" using at by simp
        with Some have q: "?cells (op_cell p) = Some q" by (simp add: map_add_def)
        note c = consistent_cells[OF cons q]
        have k: "op_key q = op_key p" using c(2) by (simp add: op_key_def op_cell_def)
        have "?cells ++ winners_map (map_set (op_key p) q ws) = (?cells ++ winners_map ws)(op_cell p \<mapsto> q)"
          using winners_map_set[OF ws c(3)] c(2) k by (simp add: map_add_upd)
        also have "\<dots> = ?cells ++ winners_map ws" using Some by (simp add: fun_upd_idem)
        finally show ?thesis
          using Some False None winners_map_set[OF ws c(3)] k same by (simp add: ws' f')
      next
        case (Some r)
        with \<open>(?cells ++ winners_map ws) (op_cell p) = Some q\<close> False ws same show ?thesis
          by (simp add: ws' f')
      qed
    qed
  qed
qed

lemma commit_fold:
  assumes "inv s" "consistent (view s)" "\<forall>p \<in> set ps. storable p" "winners_ok ws"
    "fold (commit_step S s) ps (ws, f) = (ws', f')"
  shows "winners_ok ws' \<and>
    r_cells (view s) ++ winners_map ws' = fold cell_join ps (r_cells (view s) ++ winners_map ws) \<and>
    f' = fold (\<lambda>p f. advanceFrontier f p) ps f"
  using assms(3-)
proof (induction ps arbitrary: ws f)
  case Nil
  then show ?case by simp
next
  case (Cons p ps)
  obtain w1 f1 where step: "commit_step S s p (ws, f) = (w1, f1)" by (cases "commit_step S s p (ws, f)")
  have p: "storable p" using Cons.prems by simp
  note one = commit_step_spec[OF assms(1,2) p Cons.prems(2) step]
  from Cons.IH[of w1 f1] Cons.prems one step show ?case by simp
qed

lemma commit_spec:
  assumes inv: "inv (e_store e)" and cons: "consistent (view (e_store e))"
    and ops: "\<forall>p \<in> set ps. storable p \<and> r_log (view (e_store e)) (o_id p) = None" "distinct (map o_id ps)"
    and run: "commit S ps og e = (r, e')"
    and safe: "safe_hlc (e_clock e)"
  shows "inv (e_store e')"
    and "e_clock e' = e_clock e" "e_keys e' = e_keys e" "e_deviceKey e' = e_deviceKey e"
    and "r = Inr u \<Longrightarrow> view (e_store e') = merge ps (clock_pair_of (e_clock e)) (view (e_store e)) \<and>
           e_events e' = e_events e @ [\<lparr>ev_changes = changed_rows ps, ev_ops = ps, ev_origin = og\<rparr>]"
    and "r = Inl x \<Longrightarrow> view (e_store e') = view (e_store e) \<and> e_events e' = e_events e"
proof -
  let ?s = "e_store e"
  obtain ws f where wf: "fold (commit_step S ?s) ps ([], getFrontier S ?s) = (ws, f)" by fastforce
  have "winners_ok []" by (simp add: winners_ok_def)
  note F = commit_fold[OF inv cons _ this wf]
  have ws: "winners_ok ws" "r_cells (view ?s) ++ winners_map ws = fold cell_join ps (r_cells (view ?s))"
    "f = fold (\<lambda>p f. advanceFrontier f p) ps (r_front (view ?s))"
    using F ops(1) getFrontier[OF inv] by (simp_all add: winners_map_simps)
  define b where "b = \<lparr>b_ops = ps, b_winners = ws, b_frontier = f, b_clock = clock_pair_of (e_clock e)\<rparr>"
  obtain r0 s' where ab: "applyBatch S b ?s = (r0, s')" by fastforce
  have ok: "batch_ok (view ?s) b"
  proof -
    have "plain_frontier f"
      unfolding ws(3) using cons ops(1) by (intro plain_fold_front) (auto simp: consistent_def storable_def)
    then show ?thesis
      using ops ws(1) safe
      by (auto simp: batch_ok_def b_def winners_ok_def plain_js_frontier safe_clock_def safe_hlc_def clock_pair_of_def)
  qed
  have run': "(r, e') = (case r0 of Inl x \<Rightarrow> (Inl x, e\<lparr>e_store := s'\<rparr>)
      | Inr _ \<Rightarrow> (Inr (), e\<lparr>e_store := s', e_events := e_events e @
          [\<lparr>ev_changes = changed_rows ps, ev_ops = ps, ev_origin = og\<rparr>]\<rparr>))"
    using run ab
    by (cases r0) (auto simp: commit_def wf bind_act_eq on_store_def Let_def modify_def b_def)
  show "inv (e_store e')" "e_clock e' = e_clock e" "e_keys e' = e_keys e" "e_deviceKey e' = e_deviceKey e"
    using run' ab applyBatch_ok[OF inv ok] applyBatch_err[OF inv] by (auto split: sum.splits)
  show "r = Inr u \<Longrightarrow> view (e_store e') = merge ps (clock_pair_of (e_clock e)) (view (e_store e)) \<and>
      e_events e' = e_events e @ [\<lparr>ev_changes = changed_rows ps, ev_ops = ps, ev_origin = og\<rparr>]"
    using run' ab applyBatch_ok[OF inv ok] merge_batch[OF ws]
    by (auto simp: b_def split: sum.splits)
  show "r = Inl x \<Longrightarrow> view (e_store e') = view (e_store e) \<and> e_events e' = e_events e"
    using run' ab applyBatch_err[OF inv] by (auto split: sum.splits)
qed

end

section \<open>The engine's invariant\<close>

text \<open>
  An operation is acceptable when its object validates and some key that hashes to its device
  verifies it: any engine that knows the key will take it.
\<close>

definition acceptable :: "crypto \<Rightarrow> op \<Rightarrow> bool" where
  "acceptable C p \<longleftrightarrow> validateOp (op_to_js p) = Inr p \<and>
     (\<exists>pk. deviceIdFromPublicKey C pk = o_device p \<and> verifyOp C p pk)"

definition clock_pair_tick :: "clock_pair \<Rightarrow> nat \<times> nat" where
  "clock_pair_tick ck = (cs_millis ck, cs_counter ck)"

text \<open>The persisted clock has reached every timestamp of the frontier.\<close>

definition clocked :: "replica \<Rightarrow> bool" where
  "clocked v \<longleftrightarrow> (\<forall>d s. map_of (r_front v) d = Some s \<longrightarrow>
     (\<exists>ck. r_clock v = Some ck \<and> stamp_le s (clock_pair_tick ck)))"

definition persisted :: "replica \<Rightarrow> bool" where
  "persisted v \<longleftrightarrow> (\<forall>ck. r_clock v = Some ck \<longrightarrow> safe_clock ck)"

definition replica_ok :: "crypto \<Rightarrow> replica \<Rightarrow> bool" where
  "replica_ok C v \<longleftrightarrow> consistent v \<and> (\<forall>p \<in> ran (r_log v). valid_op p \<and> acceptable C p) \<and> clocked v \<and> persisted v"

definition identity_ok :: "crypto \<Rightarrow> 's engine \<Rightarrow> bool" where
  "identity_ok C e \<longleftrightarrow> isValidDeviceId (e_deviceId e) \<and>
     e_deviceId e = deviceIdFromPublicKey C (publicKey (e_deviceKey e))"

definition keys_ok :: "crypto \<Rightarrow> (jsstring, bytes) jsmap \<Rightarrow> bool" where
  "keys_ok C ks \<longleftrightarrow> dkeys ks \<and> (\<forall>(d, pk) \<in> set ks. deviceIdFromPublicKey C pk = d)"

definition clock_reached :: "replica \<Rightarrow> hlc_clock \<Rightarrow> bool" where
  "clock_reached v c \<longleftrightarrow> (\<forall>ck. r_clock v = Some ck \<longrightarrow> tick_le (clock_pair_tick ck) (clock_tick c))"

definition engine_ok :: "crypto \<Rightarrow> replica \<Rightarrow> 's engine \<Rightarrow> bool" where
  "engine_ok C v e \<longleftrightarrow> replica_ok C v \<and> identity_ok C e \<and> r_key v = Some (e_deviceKey e) \<and>
     keys_ok C (e_keys e) \<and> clock_reached v (e_clock e) \<and> safe_hlc (e_clock e)"

lemma safe_clock_of: "safe_hlc c \<Longrightarrow> safe_clock (clock_pair_of c)"
  by (simp add: safe_clock_def safe_hlc_def clock_pair_of_def)

lemma identity_ok_cong:
  "c_device (e_clock e') = c_device (e_clock e) \<Longrightarrow> e_deviceKey e' = e_deviceKey e \<Longrightarrow>
     identity_ok C e' = identity_ok C e"
  by (simp add: identity_ok_def e_deviceId_def)

lemma clock_reached_mono: "clock_reached v c \<Longrightarrow> tick_le (clock_tick c) (clock_tick c') \<Longrightarrow> clock_reached v c'"
  by (auto simp: clock_reached_def intro: tick_le_trans)

lemma engine_okD:
  assumes "engine_ok C v e"
  shows "replica_ok C v" "consistent v" "clocked v" "\<And>p. p \<in> ran (r_log v) \<Longrightarrow> valid_op p \<and> acceptable C p"
    "identity_ok C e" "r_key v = Some (e_deviceKey e)" "keys_ok C (e_keys e)" "clock_reached v (e_clock e)"
    "safe_hlc (e_clock e)"
  using assms by (auto simp: engine_ok_def replica_ok_def)

lemma engine_ok_store_stamp:
  assumes "engine_ok C v e" "map_of (r_front v) d = Some s"
  shows "stamp_le s (clock_tick (e_clock e))"
  using engine_okD(3,8)[OF assms(1)] assms(2) unfolding clocked_def clock_reached_def
  by (metis stamp_le_mono)

lemma valid_op_decodes: "valid_op p \<Longrightarrow> \<exists>h. decodeHlc (o_hlc p) = Inr h \<and> deviceId h = o_device p"
  by (auto simp: valid_op_def)

lemma engine_ok_logged_stamp:
  assumes "engine_ok C v e" "p \<in> ran (r_log v)"
  shows "stamp_le (o_hlc p) (clock_tick (e_clock e))"
proof -
  have c: "consistent v" "valid_op p" using engine_okD[OF assms(1)] assms(2) by auto
  then obtain s where s: "map_of (r_front v) (o_device p) = Some s" "o_hlc p \<le> s"
    using assms(2) by (auto simp: consistent_def passed_def)
  obtain h where "decodeHlc (o_hlc p) = Inr h" using valid_op_decodes[OF c(2)] by blast
  with stamp_le_below[OF engine_ok_store_stamp[OF assms(1) s(1)] _ s(2)] show ?thesis by blast
qed

text \<open>A clock may only move forward under the invariant.\<close>

lemma engine_ok_clock:
  assumes "engine_ok C v e" "c_device c = e_deviceId e" "tick_le (clock_tick (e_clock e)) (clock_tick c)"
    "safe_hlc c"
  shows "engine_ok C v (e\<lparr>e_clock := c\<rparr>)"
  using assms identity_ok_cong[of "e\<lparr>e_clock := c\<rparr>" e] clock_reached_mono
  by (auto simp: engine_ok_def e_deviceId_def)

text \<open>What a commit of new operations needs in order to preserve the invariant.\<close>

definition committable :: "crypto \<Rightarrow> replica \<Rightarrow> 's engine \<Rightarrow> op list \<Rightarrow> bool" where
  "committable C v e ps \<longleftrightarrow> distinct (map o_id ps) \<and>
     (\<forall>p \<in> set ps. storable p \<and> valid_op p \<and> acceptable C p \<and> r_log v (o_id p) = None \<and>
        stamp_le (o_hlc p) (clock_tick (e_clock e)))"

lemma replica_ok_merge:
  assumes ok: "engine_ok C v e" and ps: "committable C v e ps"
  shows "replica_ok C (merge ps (clock_pair_of (e_clock e)) v)"
proof -
  let ?w = "merge ps (clock_pair_of (e_clock e)) v"
  have cons: "consistent v" and old: "\<forall>p \<in> ran (r_log v). valid_op p \<and> acceptable C p"
    using engine_okD[OF ok] by auto
  have d: "distinct (map o_id ps)" and new: "\<And>p. p \<in> set ps \<Longrightarrow> storable p \<and> r_log v (o_id p) = None"
    using ps by (auto simp: committable_def)
  have "consistent ?w" using consistent_merge[OF cons new d] by simp
  moreover have "ran (r_log ?w) = set ps \<union> ran (r_log v)"
    using ran_map_add_fresh[OF _ d] new by (simp add: merge_def)
  then have "\<forall>p \<in> ran (r_log ?w). valid_op p \<and> acceptable C p"
    using old ps by (auto simp: committable_def)
  moreover have "clocked ?w"
    unfolding clocked_def
  proof (intro allI impI)
    fix d s
    assume "map_of (r_front ?w) d = Some s"
    then have "map_of (r_front v) d = Some s \<or> (\<exists>p \<in> set ps. o_hlc p = s)"
      using front_value[of ps "r_front v" d s] by (auto simp: merge_def)
    then have "stamp_le s (clock_tick (e_clock e))"
      using engine_ok_store_stamp[OF ok] ps by (auto simp: committable_def)
    then show "\<exists>ck. r_clock ?w = Some ck \<and> stamp_le s (clock_pair_tick ck)"
      by (simp add: merge_def clock_pair_tick_def clock_pair_of_def clock_tick_def)
  qed
  moreover have "persisted ?w"
    using engine_okD(9)[OF ok] by (simp add: persisted_def merge_def safe_clock_of)
  ultimately show ?thesis by (simp add: replica_ok_def)
qed

context storage_adapter
begin

lemma commit_ok:
  assumes "inv (e_store e)" "engine_ok C (view (e_store e)) e" "committable C (view (e_store e)) e ps"
    "commit S ps og e = (r, e')"
  shows "inv (e_store e') \<and> engine_ok C (view (e_store e')) e'"
proof -
  have cons: "consistent (view (e_store e))" by (rule engine_okD(2)[OF assms(2)])
  have ops: "\<forall>p \<in> set ps. storable p \<and> r_log (view (e_store e)) (o_id p) = None" "distinct (map o_id ps)"
    using assms(3) by (auto simp: committable_def)
  note C = commit_spec[OF assms(1) cons ops assms(4) engine_okD(9)[OF assms(2)]]
  have id: "identity_ok C e' = identity_ok C e" using C(2,4) by (intro identity_ok_cong) simp_all
  show ?thesis
  proof (cases r)
    case (Inl x)
    then have "view (e_store e') = view (e_store e)" using C(6) by blast
    with C(1-4) assms(2) id show ?thesis by (simp add: engine_ok_def)
  next
    case (Inr u)
    then have v: "view (e_store e') = merge ps (clock_pair_of (e_clock e)) (view (e_store e))"
      using C(5) by blast
    have "clock_reached (view (e_store e')) (e_clock e')"
      using C(2) by (simp add: v merge_def clock_reached_def clock_pair_tick_def clock_pair_of_def clock_tick_def)
    moreover have "r_key (view (e_store e')) = r_key (view (e_store e))" by (simp add: v merge_def)
    ultimately show ?thesis
      using C(1-4) assms(2) id replica_ok_merge[OF assms(2,3)] by (simp add: engine_ok_def flip: v)
  qed
qed

end

section \<open>Local operations\<close>

lemma name_re_ascii: "name_re s \<Longrightarrow> ascii s"
  by (auto simp: name_re_def name_start_def ascii_def list_all_iff word_less_nat_alt word_le_nat_alt split: list.splits)

lemma ulid_re_ascii: "ulid_re s \<Longrightarrow> ascii s"
  by (auto simp: ulid_re_def ulid_char_def ascii_def list_all_iff Let_def word_less_nat_alt word_le_nat_alt split: if_splits)

lemma hex_ascii: "list_all is_hex s \<Longrightarrow> ascii s"
  by (auto simp: is_hex_def ascii_def list_all_iff word_less_nat_alt word_le_nat_alt)

lemma decode_ascii:
  assumes "decodeHlc s = Inr h"
  shows "ascii s" "ascii (deviceId h)"
proof -
  have v: "valid_hlc h" "encodeHlc h = s" using decode_valid[OF assms] by simp_all
  then have "ascii (deviceId h)" by (intro hex_ascii) (simp add: valid_hlc_def isValidDeviceId_def)
  moreover have "s = map digit_char (digits 16 12 (millis h)) @ [45] @ map digit_char (digits 16 4 (counter h)) @ [45] @ deviceId h"
    using v encodeHlc_valid[OF v(1)] by simp
  ultimately show "ascii s" "ascii (deviceId h)"
    using hex_ascii[OF list_all_hex_digits] by (auto simp: ascii_def)
qed

lemma base64_ascii: "base64_re s \<Longrightarrow> ascii s"
proof -
  assume re: "base64_re s"
  let ?d = "\<lambda>c. b64_val c \<noteq> None"
  have c: "c < 128" if "?d c" for c
    using that by (auto simp: b64_val_def word_less_nat_alt word_le_nat_alt split: if_splits)
  have "\<forall>c \<in> set (takeWhile ?d s). c < 128" using c by (blast dest: set_takeWhileD)
  moreover have "dropWhile ?d s = [] \<or> dropWhile ?d s = [61] \<or> dropWhile ?d s = [61, 61]"
    using re by (simp only: base64_re_def Let_def)
  then have "\<forall>c \<in> set (dropWhile ?d s). c < 128" by (elim disjE) (simp_all only: list.set, simp_all)
  ultimately show "ascii s" unfolding ascii_def by (metis Un_iff set_append takeWhile_dropWhile_id)
qed

lemma verified_ascii: "verifyOp C p pk \<Longrightarrow> ascii (o_sig p)"
  by (auto simp: verifyOp_def verifyPayload_def base64Decode_def base64_ascii split: sum.splits if_splits)

lemma device_no_index: "isValidDeviceId d \<Longrightarrow> array_index d = None"
  by (simp add: isValidDeviceId_def array_index_long)

lemma valid_storable:
  assumes "valid_op p" "is_json (o_value p)" "ascii (o_sig p)"
  shows "storable p"
proof -
  have c: "no_sep (o_column p)" "ascii (o_column p)"
    using assms(1) name_re_units name_re_ascii
    by (auto simp: valid_op_def no_sep_def ascii_def TOMBSTONE_COLUMN_def js_def)
  obtain h where h: "decodeHlc (o_hlc p) = Inr h" "deviceId h = o_device p" using assms(1) by (auto simp: valid_op_def)
  have "array_index (o_device p) = None"
    using decode_valid[OF h(1)] h(2) by (auto simp: valid_hlc_def device_no_index)
  then show ?thesis
    using assms name_re_units ulid_re_units name_re_ascii ulid_re_ascii decode_ascii[OF h(1)] h(2) c
    by (auto simp: storable_def valid_op_def no_sep_def)
qed

lemma signedPayload_unsigned: "signedPayload (p\<lparr>o_sig := s\<rparr>) = signedPayload p"
  by (simp add: signedPayload_def)

lemma validateOp_own:
  assumes "validateOp (op_to_js p) = Inr q"
  shows "q = p"
proof -
  define ob where "ob = [(js ''id'', JStr (o_id p)), (js ''table'', JStr (o_table p)), (js ''row'', JStr (o_row p)),
      (js ''column'', JStr (o_column p)), (js ''value'', o_value p), (js ''hlc'', JStr (o_hlc p)),
      (js ''device'', JStr (o_device p)), (js ''sig'', JStr (o_sig p))]"
  have get: "get_prop ob (js ''id'') = JStr (o_id p)" "get_prop ob (js ''table'') = JStr (o_table p)"
    "get_prop ob (js ''row'') = JStr (o_row p)" "get_prop ob (js ''column'') = JStr (o_column p)"
    "get_prop ob (js ''value'') = o_value p" "get_prop ob (js ''hlc'') = JStr (o_hlc p)"
    "get_prop ob (js ''device'') = JStr (o_device p)" "get_prop ob (js ''sig'') = JStr (o_sig p)"
    by (simp_all add: ob_def get_prop_def)
  have "op_to_js p = JObj ob" by (simp add: op_to_js_def ob_def)
  with assms show ?thesis
    unfolding validateOp_def by (auto simp: get bind_res_eq_Inr check_eq_Inr Let_def split: sum.splits)
qed

text \<open>What a call of \<open>makeLocalOp\<close> returns and leaves behind.\<close>

lemma makeLocalOp_state:
  "makeLocalOp C K d t r c val e = (res, e') \<Longrightarrow> e' = e\<lparr>e_clock := snd (now (time_value (d_now d)) (e_clock e))\<rparr>"
  by (auto simp: makeLocalOp_def bind_act_eq on_clock_def lift_res_def Let_def split: prod.splits sum.splits)

lemma makeLocalOp_result:
  assumes "makeLocalOp C K d t r c val e = (Inr p, e')" "crypto_key C (e_deviceKey e)"
    "identity_ok C e" "wf_val val"
  obtains h where "now (time_value (d_now d)) (e_clock e) = (Inr h, e_clock e')" "o_hlc p = encodeHlc h" "o_id p = o_hlc p"
    "o_device p = e_deviceId e" "o_table p = t" "o_row p = r" "o_column p = c"
    "valid_op p" "storable p" "verifyOp C p (publicKey (e_deviceKey e))" "acceptable C p"
    "K = None \<or> c = TOMBSTONE_COLUMN \<Longrightarrow> o_value p = val"
    "\<And>k. K = Some k \<Longrightarrow> c \<noteq> TOMBSTONE_COLUMN \<Longrightarrow>
       \<exists>s. encrypt k (d_nonce d) val (o_id p) = Inr s \<and> o_value p = JStr s"
proof -
  define clk where "clk = now (time_value (d_now d)) (e_clock e)"
  from assms(1) obtain h where h: "fst clk = Inr h"
    by (auto simp: makeLocalOp_def bind_act_eq on_clock_def Let_def clk_def split: prod.splits sum.splits)
  let ?e = "e\<lparr>e_clock := snd clk\<rparr>"
  define st where "st = (case K of
      Some k \<Rightarrow> if c \<noteq> TOMBSTONE_COLUMN
        then bind_res (encrypt k (d_nonce d) val (encodeHlc h)) (\<lambda>s. Inr (JStr s)) else Inr val
    | None \<Rightarrow> Inr val)"
  have eid: "e_deviceId ?e = e_deviceId e" by (simp add: e_deviceId_def clk_def)
  from assms(1) h obtain stored where stored: "st = Inr stored"
    by (auto simp: makeLocalOp_def bind_act_eq on_clock_def lift_res_def Let_def st_def[symmetric]
        case_prod_beta clk_def[symmetric] split: sum.splits)
  define q where "q = \<lparr>o_id = encodeHlc h, o_table = t, o_row = r, o_column = c, o_value = stored,
    o_hlc = encodeHlc h, o_sig = [], o_device = e_deviceId e\<rparr>"
  define p' where "p' = q\<lparr>o_sig := signPayload C (signedPayload q) (privateKey (e_deviceKey e))\<rparr>"
  have run: "makeLocalOp C K d t r c val e = (bind_res (validateOp (op_to_js p')) (\<lambda>_. Inr p'), ?e)"
    using h stored unfolding makeLocalOp_def bind_act_eq on_clock_def lift_res_def Let_def clk_def[symmetric]
    by (simp add: case_prod_beta st_def[symmetric] eid q_def p'_def)
  from assms(1) run have p: "p = p'" and e': "e' = ?e" and v: "\<exists>x. validateOp (op_to_js p') = Inr x"
    by (auto simp: bind_res_eq_Inr)
  from v obtain x where x: "validateOp (op_to_js p') = Inr x" by blast
  have valid: "valid_op p'" using validateOp_valid[OF x] validateOp_own[OF x] by simp
  have "wf_val stored"
    using stored assms(4) by (auto simp: st_def bind_res_eq_Inr split: option.splits if_splits)
  then have json: "is_json (o_value p')"
    using valid assertJson_is_json by (auto simp: valid_op_def p'_def q_def)
  have ver: "verifyOp C p' (publicKey (e_deviceKey e))"
    using verify_sign[OF assms(2)] by (simp add: verifyOp_def p'_def signedPayload_unsigned)
  have sto: "storable p'" by (rule valid_storable[OF valid json verified_ascii[OF ver]])
  have auth: "acceptable C p'"
    unfolding acceptable_def using ver assms(3) x validateOp_own[OF x]
    by (intro conjI exI[of _ "publicKey (e_deviceKey e)"]) (simp_all add: p'_def q_def identity_ok_def)
  show ?thesis
  proof (rule that)
    show "now (time_value (d_now d)) (e_clock e) = (Inr h, e_clock e')"
      using h by (simp add: e' clk_def[symmetric] prod_eq_iff)
    show "\<exists>s. encrypt k (d_nonce d) val (o_id p) = Inr s \<and> o_value p = JStr s"
      if "K = Some k" "c \<noteq> TOMBSTONE_COLUMN" for k
      using that stored by (auto simp: st_def bind_res_eq_Inr p p'_def q_def)
    show "o_value p = val" if "K = None \<or> c = TOMBSTONE_COLUMN"
      using that stored by (auto simp: st_def p p'_def q_def split: option.splits)
  qed (use p valid sto ver auth in \<open>simp_all add: p'_def q_def\<close>)
qed

text \<open>The stamp of an operation issued after a clock reading.\<close>

definition stamp_gt :: "nat \<times> nat \<Rightarrow> jsstring \<Rightarrow> bool" where
  "stamp_gt t s \<longleftrightarrow> (\<exists>h. decodeHlc s = Inr h \<and> tick_less t (hlc_tick h))"

lemma stamp_le_gt:
  assumes "stamp_le s t" "stamp_gt t s'"
  shows "s < s'"
proof -
  from assms(2) obtain h where h: "decodeHlc s' = Inr h" "tick_less t (hlc_tick h)"
    by (auto simp: stamp_gt_def)
  show ?thesis using stamp_le_less[OF assms(1) h(2) decode_valid(1)[OF h(1)]] decode_valid(2)[OF h(1)] by simp
qed

lemma stamp_gt_antimono: "stamp_gt t s \<Longrightarrow> tick_le t' t \<Longrightarrow> stamp_gt t' s"
  by (auto simp: stamp_gt_def intro: tick_le_less_trans)

text \<open>An operation this engine has just made: its cell, its stamp after \<open>t\<close> and not after \<open>t'\<close>.\<close>

definition own_op :: "crypto \<Rightarrow> 's engine \<Rightarrow> jsstring \<Rightarrow> jsstring \<Rightarrow> nat \<times> nat \<Rightarrow> nat \<times> nat \<Rightarrow> op \<Rightarrow> bool" where
  "own_op C e table row t t' p \<longleftrightarrow>
     o_device p = e_deviceId e \<and> o_table p = table \<and> o_row p = row \<and> o_id p = o_hlc p \<and>
     valid_op p \<and> storable p \<and> acceptable C p \<and> stamp_gt t (o_hlc p) \<and> stamp_le (o_hlc p) t'"

text \<open>What the value of a cell becomes in the log.\<close>

definition stored_as :: "cipher option \<Rightarrow> jsstring \<times> jsval \<Rightarrow> op \<Rightarrow> bool" where
  "stored_as K cv p \<longleftrightarrow> o_column p = fst cv \<and>
     (case K of None \<Rightarrow> o_value p = snd cv
      | Some k \<Rightarrow> if fst cv = TOMBSTONE_COLUMN then o_value p = snd cv
          else (\<exists>n s. encrypt k n (snd cv) (o_id p) = Inr s \<and> o_value p = JStr s))"

text \<open>Only the clock has moved.\<close>

definition same_but_clock :: "'s engine \<Rightarrow> 's engine \<Rightarrow> bool" where
  "same_but_clock e e' \<longleftrightarrow> e_store e' = e_store e \<and> e_keys e' = e_keys e \<and> e_deviceKey e' = e_deviceKey e \<and>
     e_events e' = e_events e \<and> c_device (e_clock e') = c_device (e_clock e) \<and>
     (safe_hlc (e_clock e) \<longrightarrow> safe_hlc (e_clock e'))"

lemma same_but_clock_refl [simp]: "same_but_clock e e"
  by (simp add: same_but_clock_def)

lemma same_but_clock_trans: "same_but_clock e f \<Longrightarrow> same_but_clock f g \<Longrightarrow> same_but_clock e g"
  by (simp add: same_but_clock_def)

lemma makeLocalOp_clock:
  assumes "makeLocalOp C K d t r c val e = (res, e')"
  shows "same_but_clock e e'"
    "tick_less (clock_tick (e_clock e)) (clock_tick (e_clock e'))"
  using makeLocalOp_state[OF assms] now_tick_mono[of "e_clock e" "time_value (d_now d)"] now_safe[of "e_clock e" "d_now d"]
  by (simp_all add: same_but_clock_def)

lemma makeLocalOp_own:
  assumes "makeLocalOp C K d t r c val e = (Inr p, e')" "crypto_key C (e_deviceKey e)"
    "identity_ok C e" "wf_val val"
  shows "own_op C e t r (clock_tick (e_clock e)) (clock_tick (e_clock e')) p" "stored_as K (c, val) p"
proof -
  from makeLocalOp_result[OF assms] obtain h where
    h: "now (time_value (d_now d)) (e_clock e) = (Inr h, e_clock e')" and p: "o_hlc p = encodeHlc h" "o_id p = o_hlc p"
    "o_device p = e_deviceId e" "o_table p = t" "o_row p = r" "o_column p = c" "valid_op p" "storable p"
    "acceptable C p" and val: "K = None \<or> c = TOMBSTONE_COLUMN \<Longrightarrow> o_value p = val"
    "\<And>k. K = Some k \<Longrightarrow> c \<noteq> TOMBSTONE_COLUMN \<Longrightarrow>
       \<exists>s. encrypt k (d_nonce d) val (o_id p) = Inr s \<and> o_value p = JStr s"
    by metis
  have dev: "isValidDeviceId (c_device (e_clock e))"
    using assms(3) unfolding identity_ok_def e_deviceId_def by blast
  note N = now_spec[OF h dev]
  have "decodeHlc (o_hlc p) = Inr h"
    using N(1,2) by (simp add: p(1) clock_ok_def decode_encode)
  moreover have "hlc_tick h = clock_tick (e_clock e')" by (simp add: N(2))
  ultimately show "own_op C e t r (clock_tick (e_clock e)) (clock_tick (e_clock e')) p"
    using N(4) p by (simp add: own_op_def stamp_gt_def stamp_le_def)
  show "stored_as K (c, val) p"
    using p val by (auto simp: stored_as_def split: option.splits)
qed

lemma own_op_weaken:
  "own_op C e t r a b p \<Longrightarrow> tick_le a' a \<Longrightarrow> tick_le b b' \<Longrightarrow> own_op C e t r a' b' p"
  using stamp_gt_antimono[of a "o_hlc p" a'] stamp_le_mono[of "o_hlc p" b b'] by (simp add: own_op_def)

lemma own_op_engine: "e_deviceId e' = e_deviceId e \<Longrightarrow> own_op C e' = own_op C e"
  by (simp add: own_op_def fun_eq_iff)

definition local_ops :: "crypto \<Rightarrow> cipher option \<Rightarrow> (nat \<Rightarrow> draw) \<Rightarrow> jsstring \<Rightarrow> jsstring \<Rightarrow>
    (nat \<times> jsstring \<times> jsval) list \<Rightarrow> ('s engine, op list) act" where
  "local_ops C K ds t r = map_act (\<lambda>(i, (column, value)). makeLocalOp C K (ds i) t r column value)"

lemma local_ops_Nil: "local_ops C K ds t r [] e = (Inr [], e)"
  by (simp add: local_ops_def act_simps)

lemma local_ops_Cons:
  "local_ops C K ds t r ((i, c, v) # ivs) e =
     (case makeLocalOp C K (ds i) t r c v e of
        (Inl x, e1) \<Rightarrow> (Inl x, e1)
      | (Inr p, e1) \<Rightarrow> (case local_ops C K ds t r ivs e1 of
          (Inl x, e2) \<Rightarrow> (Inl x, e2) | (Inr ps, e2) \<Rightarrow> (Inr (p # ps), e2)))"
  by (simp add: local_ops_def bind_act_def act_simps split: prod.splits sum.splits)

lemma local_ops_clock:
  "local_ops C K ds t r ivs e = (res, e') \<Longrightarrow>
     same_but_clock e e' \<and> tick_le (clock_tick (e_clock e)) (clock_tick (e_clock e'))"
proof (induction ivs arbitrary: e res)
  case Nil
  then show ?case by (simp add: local_ops_Nil)
next
  case (Cons iv ivs)
  obtain i c v where iv: "iv = (i, c, v)" by (cases iv)
  obtain r1 e1 where one: "makeLocalOp C K (ds i) t r c v e = (r1, e1)" by fastforce
  obtain r2 e2 where rest: "local_ops C K ds t r ivs e1 = (r2, e2)" by fastforce
  note C1 = makeLocalOp_clock[OF one]
  from Cons.prems one rest have "e' = e1 \<or> e' = e2"
    by (auto simp: iv local_ops_Cons split: sum.splits)
  then show ?case
  proof
    assume "e' = e2"
    with rest Cons.IH have "same_but_clock e1 e'" "tick_le (clock_tick (e_clock e1)) (clock_tick (e_clock e'))"
      by blast+
    with C1 show ?thesis using same_but_clock_trans tick_le_trans tick_less_imp_le by blast
  qed (use C1 in \<open>simp add: tick_less_imp_le\<close>)
qed

lemma local_ops_own:
  assumes "local_ops C K ds t r ivs e = (Inr ps, e')" "crypto_key C (e_deviceKey e)" "identity_ok C e"
    "\<forall>(i, c, v) \<in> set ivs. wf_val v"
  shows "(\<forall>p \<in> set ps. own_op C e t r (clock_tick (e_clock e)) (clock_tick (e_clock e')) p) \<and>
    sorted_wrt (<) (map o_hlc ps) \<and> list_all2 (stored_as K) (map snd ivs) ps"
  using assms
proof (induction ivs arbitrary: e ps)
  case Nil
  then show ?case by (simp add: local_ops_Nil)
next
  case (Cons iv ivs)
  obtain i c v where iv: "iv = (i, c, v)" by (cases iv)
  obtain p e1 ps' where one: "makeLocalOp C K (ds i) t r c v e = (Inr p, e1)"
    and rest: "local_ops C K ds t r ivs e1 = (Inr ps', e')" and ps: "ps = p # ps'"
    using Cons.prems(1) by (auto simp: iv local_ops_Cons split: sum.splits prod.splits)
  note C1 = makeLocalOp_clock[OF one] and C2 = local_ops_clock[OF rest]
  have dev: "e_deviceKey e1 = e_deviceKey e" "identity_ok C e1" "e_deviceId e1 = e_deviceId e"
    using C1(1) Cons.prems(3) identity_ok_cong[of e1 e] by (simp_all add: same_but_clock_def e_deviceId_def)
  note P = makeLocalOp_own[OF one Cons.prems(2,3)]
  have wf: "wf_val v" "\<forall>(i, c, v) \<in> set ivs. wf_val v" using Cons.prems(4) by (auto simp: iv)
  have IH: "\<forall>q \<in> set ps'. own_op C e t r (clock_tick (e_clock e1)) (clock_tick (e_clock e')) q"
    "sorted_wrt (<) (map o_hlc ps')" "list_all2 (stored_as K) (map snd ivs) ps'"
    using Cons.IH[OF rest _ dev(2) wf(2)] Cons.prems(2) dev(1) own_op_engine[OF dev(3), of C] by simp_all
  have "o_hlc p < o_hlc q" if "q \<in> set ps'" for q
    using that IH(1) P(1)[OF wf(1)] stamp_le_gt unfolding own_op_def by blast
  moreover have "own_op C e t r (clock_tick (e_clock e)) (clock_tick (e_clock e')) q" if "q \<in> set ps" for q
    using that IH(1) P(1)[OF wf(1)] C1(2) C2 own_op_weaken tick_less_imp_le tick_le_refl
    unfolding ps by (metis set_ConsD)
  ultimately show ?case using IH P(2)[OF wf(1)] by (simp add: ps iv)
qed

lemma own_op_newer:
  assumes "engine_ok C v e" "own_op C e t r (clock_tick (e_clock e)) t' p" "q \<in> ran (r_log v)"
  shows "o_hlc q < o_hlc p"
  using engine_ok_logged_stamp[OF assms(1,3)] assms(2) stamp_le_gt unfolding own_op_def by blast

lemma own_op_fresh:
  assumes "engine_ok C v e" "own_op C e t r (clock_tick (e_clock e)) t' p"
  shows "r_log v (o_id p) = None"
proof (rule ccontr)
  assume "r_log v (o_id p) \<noteq> None"
  then obtain q where q: "r_log v (o_id p) = Some q" by auto
  have "wf_log (r_log v)" using engine_okD(2)[OF assms(1)] by (simp add: consistent_def)
  then have "o_hlc q = o_hlc p" using wf_logD q assms(2) unfolding own_op_def by metis
  moreover have "q \<in> ran (r_log v)" using q by (rule ranI)
  ultimately show False using own_op_newer[OF assms] by (metis order.irrefl)
qed

text \<open>A frontier has passed no operation that is made now: every peer is owed it.\<close>

lemma own_op_above:
  assumes "engine_ok C v e" "own_op C e t r (clock_tick (e_clock e)) t' p"
  shows "aboveFrontier p (r_front v)"
proof (cases "map_of (r_front v) (o_device p)")
  case None
  then show ?thesis by (simp add: aboveFrontier_def)
next
  case (Some s)
  have "stamp_gt (clock_tick (e_clock e)) (o_hlc p)" using assms(2) by (simp add: own_op_def)
  with stamp_le_gt[OF engine_ok_store_stamp[OF assms(1) Some]] Some show ?thesis
    by (simp add: aboveFrontier_def)
qed

lemma same_but_clock_ok:
  assumes "engine_ok C v e" "same_but_clock e e'" "tick_le (clock_tick (e_clock e)) (clock_tick (e_clock e'))"
  shows "engine_ok C v e'"
  using assms identity_ok_cong[of e' e] clock_reached_mono
  by (auto simp: engine_ok_def same_but_clock_def)

lemma own_ops_committable:
  assumes "engine_ok C v e" "same_but_clock e e'"
    "\<forall>p \<in> set ps. own_op C e t r (clock_tick (e_clock e)) (clock_tick (e_clock e')) p"
    "sorted_wrt (<) (map o_hlc ps)"
  shows "committable C v e' ps"
proof -
  have "map o_id ps = map o_hlc ps" using assms(3) by (simp add: own_op_def)
  moreover have "distinct (map o_hlc ps)" using assms(4) strict_sorted_iff by blast
  ultimately have "distinct (map o_id ps)" by (simp only:)
  moreover have "r_log v (o_id p) = None" if "p \<in> set ps" for p
    using that assms(3) own_op_fresh[OF assms(1)] by blast
  ultimately show ?thesis using assms(3) by (simp add: committable_def own_op_def)
qed

section \<open>Every method preserves the invariant\<close>

context storage_adapter
begin

text \<open>The state of an engine over an adapter that meets the contract.\<close>

definition good :: "crypto \<Rightarrow> 's engine \<Rightarrow> bool" where
  "good C e \<longleftrightarrow> inv (e_store e) \<and> engine_ok C (view (e_store e)) e"

lemma good_same_but_clock:
  "good C e \<Longrightarrow> same_but_clock e e' \<Longrightarrow> tick_le (clock_tick (e_clock e)) (clock_tick (e_clock e')) \<Longrightarrow> good C e'"
  unfolding good_def using same_but_clock_ok[of C "view (e_store e)" e e'] by (simp add: same_but_clock_def)

text \<open>Committing acceptable operations, whatever the outcome.\<close>

lemma commit_good:
  assumes good: "good C e" and com: "committable C (view (e_store e)) e ps"
    and run: "commit S ps og e = (res, e')"
  shows "good C e'" "e_clock e' = e_clock e" "e_keys e' = e_keys e" "e_deviceKey e' = e_deviceKey e"
    and "\<And>u. res = Inr u \<Longrightarrow> view (e_store e') = merge ps (clock_pair_of (e_clock e)) (view (e_store e)) \<and>
           e_events e' = e_events e @ [\<lparr>ev_changes = changed_rows ps, ev_ops = ps, ev_origin = og\<rparr>]"
    and "\<And>x. res = Inl x \<Longrightarrow> view (e_store e') = view (e_store e) \<and> e_events e' = e_events e"
proof -
  have ok: "engine_ok C (view (e_store e)) e" "inv (e_store e)" using good by (simp_all add: good_def)
  have ps: "\<forall>p \<in> set ps. storable p \<and> r_log (view (e_store e)) (o_id p) = None" "distinct (map o_id ps)"
    using com by (auto simp: committable_def)
  note R = commit_spec[OF ok(2) engine_okD(2)[OF ok(1)] ps run engine_okD(9)[OF ok(1)]]
  show "good C e'" unfolding good_def by (rule commit_ok[OF ok(2,1) com run])
  show "e_clock e' = e_clock e" "e_keys e' = e_keys e" "e_deviceKey e' = e_deviceKey e"
    by (rule R)+
  show "\<And>u. res = Inr u \<Longrightarrow> view (e_store e') = merge ps (clock_pair_of (e_clock e)) (view (e_store e)) \<and>
      e_events e' = e_events e @ [\<lparr>ev_changes = changed_rows ps, ev_ops = ps, ev_origin = og\<rparr>]"
    by (rule R(5))
  show "\<And>x. res = Inl x \<Longrightarrow> view (e_store e') = view (e_store e) \<and> e_events e' = e_events e"
    by (rule R(6))
qed

text \<open>A local write: what it made, and that it was committed as one batch or not at all.\<close>

lemma update_row_spec:
  assumes good: "good C e" and key: "crypto_key C (e_deviceKey e)" and wf: "\<forall>(c, v) \<in> set vs. wf_val v"
    and run: "update_row S C K ds t r vs e = (res, e')"
  shows "good C e'"
    and "\<And>u. res = Inr u \<Longrightarrow> \<exists>ps e1. same_but_clock e e1 \<and> e_clock e' = e_clock e1 \<and>
           view (e_store e') = merge ps (clock_pair_of (e_clock e')) (view (e_store e)) \<and>
           (\<forall>p \<in> set ps. own_op C e t r (clock_tick (e_clock e)) (clock_tick (e_clock e')) p) \<and>
           sorted_wrt (<) (map o_hlc ps) \<and> list_all2 (stored_as K) vs ps \<and>
           e_events e' = e_events e @ [\<lparr>ev_changes = changed_rows ps, ev_ops = ps, ev_origin = Local\<rparr>]"
    and "\<And>x. res = Inl x \<Longrightarrow> view (e_store e') = view (e_store e) \<and> e_events e' = e_events e"
proof -
  obtain r1 e1 where ops: "local_ops C K ds t r (List.enumerate 0 vs) e = (r1, e1)" by fastforce
  have run': "(res, e') = (case r1 of Inl x \<Rightarrow> (Inl x, e1) | Inr ps \<Rightarrow> commit S ps Local e1)"
    using run ops by (simp add: update_row_def local_ops_def bind_act_eq split: sum.splits)
  note C1 = local_ops_clock[OF ops]
  have sbc: "same_but_clock e e1" using C1 by blast
  have good1: "good C e1" using good_same_but_clock[OF good] C1 by blast
  have store: "e_store e1 = e_store e" "e_events e1 = e_events e" using sbc by (simp_all add: same_but_clock_def)
  have ok: "engine_ok C (view (e_store e)) e" using good by (simp add: good_def)
  have wf': "\<forall>(i, c, v) \<in> set (List.enumerate 0 vs). wf_val v"
    using wf by (auto simp: enumerate_eq_zip dest!: set_zip_rightD)
  have commit: "good C e' \<and>
      (\<forall>u. res = Inr u \<longrightarrow> (\<exists>ps e1. same_but_clock e e1 \<and> e_clock e' = e_clock e1 \<and>
         view (e_store e') = merge ps (clock_pair_of (e_clock e')) (view (e_store e)) \<and>
         (\<forall>p \<in> set ps. own_op C e t r (clock_tick (e_clock e)) (clock_tick (e_clock e')) p) \<and>
         sorted_wrt (<) (map o_hlc ps) \<and> list_all2 (stored_as K) vs ps \<and>
         e_events e' = e_events e @ [\<lparr>ev_changes = changed_rows ps, ev_ops = ps, ev_origin = Local\<rparr>])) \<and>
      (\<forall>x. res = Inl x \<longrightarrow> view (e_store e') = view (e_store e) \<and> e_events e' = e_events e)"
    if r1: "r1 = Inr ps" for ps
  proof -
    note L = local_ops_own[OF ops[unfolded r1] key engine_okD(5)[OF ok] wf']
    have com: "committable C (view (e_store e1)) e1 ps"
      unfolding store using own_ops_committable[OF ok sbc] L by blast
    have cm: "commit S ps Local e1 = (res, e')" using run' r1 by simp
    note R = commit_good[OF good1 com cm]
    have vs: "map snd (List.enumerate 0 vs) = vs" by simp
    have "\<exists>ps e1. same_but_clock e e1 \<and> e_clock e' = e_clock e1 \<and>
         view (e_store e') = merge ps (clock_pair_of (e_clock e')) (view (e_store e)) \<and>
         (\<forall>p \<in> set ps. own_op C e t r (clock_tick (e_clock e)) (clock_tick (e_clock e')) p) \<and>
         sorted_wrt (<) (map o_hlc ps) \<and> list_all2 (stored_as K) vs ps \<and>
         e_events e' = e_events e @ [\<lparr>ev_changes = changed_rows ps, ev_ops = ps, ev_origin = Local\<rparr>]"
      if "res = Inr u" for u
      using R(5)[OF that] R(2) sbc L unfolding store vs by metis
    moreover have "view (e_store e') = view (e_store e) \<and> e_events e' = e_events e" if "res = Inl x" for x
      using R(6)[OF that] unfolding store .
    ultimately show ?thesis using R(1) by blast
  qed
  show "good C e'" using run' good1 commit by (cases r1) auto
  show "\<exists>ps e1. same_but_clock e e1 \<and> e_clock e' = e_clock e1 \<and>
      view (e_store e') = merge ps (clock_pair_of (e_clock e')) (view (e_store e)) \<and>
      (\<forall>p \<in> set ps. own_op C e t r (clock_tick (e_clock e)) (clock_tick (e_clock e')) p) \<and>
      sorted_wrt (<) (map o_hlc ps) \<and> list_all2 (stored_as K) vs ps \<and>
      e_events e' = e_events e @ [\<lparr>ev_changes = changed_rows ps, ev_ops = ps, ev_origin = Local\<rparr>]"
    if "res = Inr u" for u
    using that run' commit by (cases r1) auto
  show "view (e_store e') = view (e_store e) \<and> e_events e' = e_events e" if "res = Inl x" for x
    using that run' commit store by (cases r1) auto
qed

text \<open>A write adds its operations to the log and announces them once.\<close>

lemma update_row_logged:
  assumes good: "good C e" "crypto_key C (e_deviceKey e)" and vs: "\<forall>(c, v) \<in> set vs. wf_val v"
    and run: "update_row S C K ds t r vs e = (Inr u, e')"
  shows "\<exists>ps. ran (r_log (view (e_store e'))) = ran (r_log (view (e_store e))) \<union> set ps \<and> (\<forall>p \<in> set ps. o_table p = t \<and> o_row p = r \<and> p \<notin> ran (r_log (view (e_store e)))) \<and>
    list_all2 (stored_as K) vs ps \<and> e_events e' = e_events e @ [\<lparr>ev_changes = changed_rows ps, ev_ops = ps, ev_origin = Local\<rparr>]"
proof -
  from update_row_spec(2)[OF good vs run]
  obtain ps where ps: "view (e_store e') = merge ps (clock_pair_of (e_clock e')) (view (e_store e))"
    "\<forall>p \<in> set ps. own_op C e t r (clock_tick (e_clock e)) (clock_tick (e_clock e')) p"
    "sorted_wrt (<) (map o_hlc ps)" "list_all2 (stored_as K) vs ps"
    "e_events e' = e_events e @ [\<lparr>ev_changes = changed_rows ps, ev_ops = ps, ev_origin = Local\<rparr>]" by blast
  have ok: "engine_ok C (view (e_store e)) e" using good by (simp add: good_def)
  have ids: "map o_id ps = map o_hlc ps" using ps(2) by (simp add: own_op_def)
  have fresh: "\<forall>p \<in> set ps. r_log (view (e_store e)) (o_id p) = None" "distinct (map o_id ps)"
    using ps(2,3) own_op_fresh[OF ok] strict_sorted_iff[of "map o_hlc ps"] unfolding ids by blast+
  have "ran (r_log (view (e_store e'))) = ran (r_log (view (e_store e))) \<union> set ps"
    unfolding ps(1) using ran_map_add_fresh[of ps "r_log (view (e_store e))"] fresh by (simp add: merge_def Un_commute)
  moreover have "p \<notin> ran (r_log (view (e_store e)))" if "p \<in> set ps" for p
    using engine_okD(2)[OF ok] fresh(1) that by (force simp: consistent_def wf_log_def ran_def)
  ultimately show ?thesis using ps(2,4,5) by (auto simp: own_op_def)
qed

lemma delete_row_update:
  "delete_row S C K d t r e = update_row S C K (\<lambda>_. d) t r [(TOMBSTONE_COLUMN, JBool True)] e"
  by (simp add: delete_row_def update_row_def bind_act_def act_simps split: prod.splits sum.splits)

lemma insert_row_update:
  "insert_row S C K date rand ds t vs e =
     (case ulid (clockMillisForUlid date e) rand of
        Inl x \<Rightarrow> (Inl x, e)
      | Inr row \<Rightarrow> (case update_row S C K ds t row vs e of
          (Inl x, e') \<Rightarrow> (Inl x, e') | (Inr u, e') \<Rightarrow> (Inr row, e')))"
  by (simp add: insert_row_def bind_act_def act_simps split: prod.splits sum.splits)

end

lemma wf_val_tombstone: "\<forall>(c, v) \<in> set [(TOMBSTONE_COLUMN, JBool True)]. wf_val v"
  by simp

section \<open>Remote operations\<close>

lemma receive_stamp_state:
  assumes "receive_stamp pt s e = (res, e')"
  shows "same_but_clock e e'" "tick_le (clock_tick (e_clock e)) (clock_tick (e_clock e'))"
proof -
  have "e' = e \<or> (\<exists>h. e' = e\<lparr>e_clock := snd (receive (time_value pt) h (e_clock e))\<rparr>)"
    using assms by (cases "decodeHlc s")
      (auto simp: receive_stamp_def bind_act_eq lift_res_def on_clock_def ret_def Let_def case_prod_beta split: sum.splits)
  then show "same_but_clock e e'" "tick_le (clock_tick (e_clock e)) (clock_tick (e_clock e'))"
    using receive_tick_mono[of "time_value pt" _ "e_clock e"] receive_safe[of "e_clock e" pt]
    by (auto simp: same_but_clock_def) (metis tick_le_def)
qed

lemma receive_stamp_reached:
  assumes "receive_stamp pt s e = (Inr u, e')" "identity_ok C e"
  shows "stamp_le s (clock_tick (e_clock e'))"
    "\<exists>h. decodeHlc s = Inr h \<and> millis h \<le> pt + MAX_DRIFT_MS"
proof -
  obtain h g c where h: "decodeHlc s = Inr h" and r: "receive (time_value pt) h (e_clock e) = (Inr g, c)"
    and e': "e' = e\<lparr>e_clock := c\<rparr>"
    using assms(1) by (auto simp: receive_stamp_def bind_act_eq lift_res_def on_clock_def ret_def Let_def
        split: prod.splits sum.splits)
  have dev: "isValidDeviceId (c_device (e_clock e))"
    using assms(2) unfolding identity_ok_def e_deviceId_def by blast
  note R = receive_spec[OF r dev]
  show "stamp_le s (clock_tick (e_clock e'))"
    using h R(5) e' by (simp add: stamp_le_def tick_le_def)
  show "\<exists>h. decodeHlc s = Inr h \<and> millis h \<le> pt + MAX_DRIFT_MS" using h R(6) by (auto simp: time_value_def)
qed

lemma max_op_spec:
  fixes ops :: "op list"
  assumes "ops \<noteq> []"
  shows "\<exists>m \<in> set ops. max_op ops = Some m \<and> (\<forall>p \<in> set ops. o_hlc p \<le> o_hlc m)"
proof -
  define f where "f = (\<lambda>(p :: op) m. case m of None \<Rightarrow> Some p | Some q \<Rightarrow> if o_hlc q < o_hlc p then Some p else m)"
  have f: "f p (Some q) = Some (if o_hlc q < o_hlc p then p else q)" for p q by (simp add: f_def)
  have "\<exists>m \<in> insert q (set ps). fold f ps (Some q) = Some m \<and> (\<forall>p \<in> insert q (set ps). o_hlc p \<le> o_hlc m)" for ps and q :: op
  proof (induction ps arbitrary: q)
    case Nil
    then show ?case by simp
  next
    case (Cons p ps)
    define r where "r = (if o_hlc q < o_hlc p then p else q)"
    have r: "r \<in> {p, q}" "o_hlc p \<le> o_hlc r" "o_hlc q \<le> o_hlc r" by (auto simp: r_def)
    from Cons.IH[of r] obtain m where m: "m \<in> insert r (set ps)" "fold f ps (Some r) = Some m"
      "\<forall>p \<in> insert r (set ps). o_hlc p \<le> o_hlc m" by blast
    then have "fold f (p # ps) (Some q) = Some m" by (simp add: f r_def)
    moreover have "\<forall>x \<in> insert q (set (p # ps)). o_hlc x \<le> o_hlc m"
      using m(3) r(2,3) by (auto intro: order.trans)
    moreover have "m \<in> insert q (set (p # ps))" using m(1) r(1) by auto
    ultimately show ?case by blast
  qed
  from this[of "hd ops" "tl ops"] assms show ?thesis
    by (cases ops) (simp_all add: max_op_def flip: f_def, simp add: f_def)
qed

lemma max_op_Nil: "max_op [] = None"
  by (simp add: max_op_def)

context storage_adapter
begin

lemma fresh_ops_spec:
  assumes "inv s"
  defines "log \<equiv> r_log (view s)"
  shows "distinct (map o_id (fresh_ops S s ops))"
    and "set (fresh_ops S s ops) \<subseteq> {p \<in> set ops. log (o_id p) = None}"
    and "o_id ` set (fresh_ops S s ops) = {i \<in> o_id ` set ops. log i = None}"
proof -
  define f where "f = (\<lambda>(p :: op) (fresh :: op list). if \<not> hasOp S s (o_id p) \<and> \<not> list_ex (\<lambda>g. o_id g = o_id p) fresh
    then fresh @ [p] else fresh)"
  have f: "f p fr = (if log (o_id p) = None \<and> o_id p \<notin> o_id ` set fr then fr @ [p] else fr)" for p fr
  proof -
    have "list_ex (\<lambda>g. o_id g = o_id p) fr \<longleftrightarrow> o_id p \<in> o_id ` set fr"
      unfolding list_ex_iff image_iff by metis
    then show ?thesis using hasOp[OF assms(1)] by (simp add: f_def log_def)
  qed
  have "distinct (map o_id (fold f ops fr)) = distinct (map o_id fr) \<and>
      set (fold f ops fr) \<subseteq> set fr \<union> {p \<in> set ops. log (o_id p) = None} \<and>
      o_id ` set (fold f ops fr) = o_id ` set fr \<union> {i \<in> o_id ` set ops. log i = None}" for fr
  proof (induction ops arbitrary: fr)
    case Nil
    then show ?case by simp
  next
    case (Cons p ops)
    show ?case using Cons.IH[of "f p fr"] by (auto simp: f)
  qed
  from this[of "[]"] show "distinct (map o_id (fresh_ops S s ops))"
    "set (fresh_ops S s ops) \<subseteq> {p \<in> set ops. log (o_id p) = None}"
    "o_id ` set (fresh_ops S s ops) = {i \<in> o_id ` set ops. log i = None}"
    by (simp_all add: fresh_ops_def f_def[symmetric])
qed

lemma persist_clock_good:
  assumes good: "good C e" and run: "persist_clock S e = (res, e')"
  shows "good C e'" "same_but_clock (e\<lparr>e_store := e_store e'\<rparr>) e'"
    "\<And>u. res = Inr u \<Longrightarrow> view (e_store e') = merge [] (clock_pair_of (e_clock e)) (view (e_store e))"
    "\<And>x. res = Inl x \<Longrightarrow> view (e_store e') = view (e_store e)"
proof -
  let ?s = "e_store e"
  have ok: "engine_ok C (view ?s) e" "inv ?s" using good by (simp_all add: good_def)
  define b where "b = \<lparr>b_ops = [], b_winners = [], b_frontier = getFrontier S ?s, b_clock = clock_pair_of (e_clock e)\<rparr>"
  obtain s' where s': "applyBatch S b ?s = (res, s')" and e': "e' = e\<lparr>e_store := s'\<rparr>"
    using run by (auto simp: persist_clock_def on_store_def b_def split: prod.splits)
  have "plain_frontier (getFrontier S ?s)"
    using engine_okD(2)[OF ok(1)] getFrontier[OF ok(2)] by (simp add: consistent_def)
  then have bok: "batch_ok (view ?s) b"
    using engine_okD(9)[OF ok(1)] by (simp add: batch_ok_def b_def plain_js_frontier safe_clock_of)
  have spec: "apply_spec b (view ?s) = merge [] (clock_pair_of (e_clock e)) (view ?s)"
    using getFrontier[OF ok(2)] by (simp add: b_def apply_spec_def merge_def ops_map_def winners_map_def)
  have inv': "inv s'" using applyBatch_ok[OF ok(2) bok] applyBatch_err[OF ok(2)] s' by (cases res) auto
  show mv: "\<And>u. res = Inr u \<Longrightarrow> view (e_store e') = merge [] (clock_pair_of (e_clock e)) (view ?s)"
    using applyBatch_ok[OF ok(2) bok] s' e' spec by simp
  show sv: "\<And>x. res = Inl x \<Longrightarrow> view (e_store e') = view ?s"
    using applyBatch_err[OF ok(2)] s' e' by simp
  have com: "committable C (view ?s) e []" by (simp add: committable_def)
  have id: "identity_ok C e' = identity_ok C e" by (rule identity_ok_cong) (simp_all add: e')
  show "good C e'"
  proof (cases res)
    case (Inl x)
    then show ?thesis using sv[OF Inl] inv' ok e' id by (simp add: good_def engine_ok_def)
  next
    case (Inr u)
    note v = mv[OF Inr]
    have "clock_reached (view (e_store e')) (e_clock e')"
      unfolding v by (simp add: e' merge_def clock_reached_def clock_pair_tick_def clock_pair_of_def clock_tick_def)
    moreover have "r_key (view (e_store e')) = r_key (view ?s)" by (simp add: v merge_def)
    moreover have "replica_ok C (view (e_store e'))" unfolding v by (rule replica_ok_merge[OF ok(1) com])
    ultimately show ?thesis using inv' ok(1) id e' by (simp add: good_def engine_ok_def)
  qed
  show "same_but_clock (e\<lparr>e_store := e_store e'\<rparr>) e'" by (simp add: e' same_but_clock_def)
qed

end

text \<open>The first half of \<open>applyRemoteOps\<close>: batch size, shape, signatures.\<close>

definition admitted :: "crypto \<Rightarrow> (jsstring, bytes) jsmap \<Rightarrow> jsval list \<Rightarrow> op list \<Rightarrow> bool" where
  "admitted C keys raw ops \<longleftrightarrow> length raw \<le> MAX_BATCH_OPS \<and> map_res validateOp raw = Inr ops \<and>
     (\<forall>p \<in> set ops. \<exists>pk. map_of keys (o_device p) = Some pk \<and> verifyOp C p pk)"

lemma check_signature_iff:
  "check_signature C keys p = Inr u \<longleftrightarrow> (\<exists>pk. map_of keys (o_device p) = Some pk \<and> verifyOp C p pk)"
  by (auto simp: check_signature_def check_eq_Inr split: option.splits)

lemma admitted_op:
  assumes "admitted C keys raw ops" "\<forall>v \<in> set raw. wf_val v" "keys_ok C keys" "p \<in> set ops"
  shows "valid_op p" "storable p" "acceptable C p"
proof -
  from assms(1,4) obtain v where v: "v \<in> set raw" "validateOp v = Inr p"
    using map_res_mem unfolding admitted_def by metis
  show valid: "valid_op p" by (rule validateOp_valid[OF v(2)])
  from assms(1,4) obtain pk where pk: "map_of keys (o_device p) = Some pk" "verifyOp C p pk"
    by (auto simp: admitted_def)
  show "storable p"
    using valid_storable[OF valid _ verified_ascii[OF pk(2)]] validateOp_value[OF v(2)] assms(2) v(1) by blast
  have "validateOp (op_to_js p) = Inr p" using validateOp_again[OF v(2)] assms(2) v(1) by blast
  with pk assms(3) map_of_SomeD[OF pk(1)] show "acceptable C p"
    by (auto simp: acceptable_def keys_ok_def)
qed

text \<open>The call splits into the checks, the clock and the commit.\<close>

lemma applyRemoteOps_rejected:
  assumes "\<nexists>ops. admitted C (e_keys e) raw ops"
  shows "\<exists>x. applyRemoteOps S C pt raw e = (Inl x, e)"
proof -
  show ?thesis
  proof (cases "length raw \<le> MAX_BATCH_OPS")
    case False
    then show ?thesis by (simp add: applyRemoteOps_def bind_act_eq lift_res_def)
  next
    case len: True
    show ?thesis
    proof (cases "map_res validateOp raw")
      case (Inl x)
      with len show ?thesis by (simp add: applyRemoteOps_def bind_act_eq lift_res_def)
    next
      case (Inr ops)
      then have "check_all (check_signature C (e_keys e)) ops \<noteq> Inr ()"
        using assms len by (auto simp: admitted_def check_all_eq_Inr check_signature_iff)
      then obtain x where "check_all (check_signature C (e_keys e)) ops = Inl x"
        by (cases "check_all (check_signature C (e_keys e)) ops") auto
      with Inr len show ?thesis by (simp add: applyRemoteOps_def bind_act_eq lift_res_def)
    qed
  qed
qed

lemma applyRemoteOps_admitted:
  assumes "admitted C (e_keys e) raw ops"
  shows "applyRemoteOps S C pt raw e =
    (case (case max_op ops of None \<Rightarrow> ret () | Some m \<Rightarrow> receive_stamp pt (o_hlc m)) e of
       (Inl x, e1) \<Rightarrow> (Inl x, e1)
     | (Inr _, e1) \<Rightarrow>
         (if fresh_ops S (e_store e1) ops = [] then bind_act (persist_clock S) (\<lambda>_. ret 0) e1
          else bind_act (commit S (fresh_ops S (e_store e1) ops) Remote)
                 (\<lambda>_. ret (length (fresh_ops S (e_store e1) ops))) e1))"
proof -
  have "check_all (check_signature C (e_keys e)) ops = Inr ()"
    using assms by (auto simp: check_all_eq_Inr check_signature_iff admitted_def)
  then show ?thesis
    using assms by (simp add: applyRemoteOps_def bind_act_eq lift_res_def admitted_def Let_def)
qed

lemma receive_max:
  assumes "(case max_op ops of None \<Rightarrow> ret () | Some m \<Rightarrow> receive_stamp pt (o_hlc m)) e = (res, e1)"
    "\<forall>p \<in> set ops. valid_op p"
  shows "same_but_clock e e1" "tick_le (clock_tick (e_clock e)) (clock_tick (e_clock e1))"
    "res = Inr u \<Longrightarrow> identity_ok C e \<Longrightarrow> p \<in> set ops \<Longrightarrow> stamp_le (o_hlc p) (clock_tick (e_clock e1))"
proof -
  show "same_but_clock e e1" "tick_le (clock_tick (e_clock e)) (clock_tick (e_clock e1))"
    using assms(1) receive_stamp_state by (auto simp: ret_def split: option.splits)
  show "stamp_le (o_hlc p) (clock_tick (e_clock e1))" if res: "res = Inr u" and id: "identity_ok C e" and p: "p \<in> set ops"
  proof -
    from p obtain m where m: "max_op ops = Some m" "o_hlc p \<le> o_hlc m"
      using max_op_spec[of ops] by fastforce
    obtain h where h: "decodeHlc (o_hlc p) = Inr h" using valid_op_decodes assms(2) p by blast
    have "receive_stamp pt (o_hlc m) e = (Inr u, e1)" using assms(1) m(1) res by simp
    from stamp_le_below[OF receive_stamp_reached(1)[OF this id] h m(2)] show ?thesis .
  qed
qed

context storage_adapter
begin

lemma applyRemoteOps_spec:
  assumes good: "good C e" and wf: "\<forall>v \<in> set raw. wf_val v"
    and adm: "admitted C (e_keys e) raw ops"
    and run: "applyRemoteOps S C pt raw e = (res, e')"
  shows "good C e'" "e_keys e' = e_keys e" "e_deviceKey e' = e_deviceKey e"
    "c_device (e_clock e') = c_device (e_clock e)"
    and "\<And>n. res = Inr n \<Longrightarrow> n = length (fresh_ops S (e_store e) ops) \<and>
       view (e_store e') = merge (fresh_ops S (e_store e) ops) (clock_pair_of (e_clock e')) (view (e_store e)) \<and>
       (\<forall>p \<in> set ops. stamp_le (o_hlc p) (clock_tick (e_clock e')))"
    and "\<And>x. res = Inl x \<Longrightarrow> view (e_store e') = view (e_store e) \<and> e_events e' = e_events e"
proof -
  define fresh where "fresh = fresh_ops S (e_store e) ops"
  obtain r1 e1 where rcv: "(case max_op ops of None \<Rightarrow> ret () | Some m \<Rightarrow> receive_stamp pt (o_hlc m)) e = (r1, e1)"
    by fastforce
  have ok: "engine_ok C (view (e_store e)) e" "inv (e_store e)" using good by (simp_all add: good_def)
  have ops: "\<forall>p \<in> set ops. valid_op p" using admitted_op(1)[OF adm wf engine_okD(7)[OF ok(1)]] by blast
  note R = receive_max[OF rcv ops]
  have sbc: "e_store e1 = e_store e" "e_keys e1 = e_keys e" "e_deviceKey e1 = e_deviceKey e"
    "e_events e1 = e_events e" "c_device (e_clock e1) = c_device (e_clock e)"
    using R(1) by (simp_all add: same_but_clock_def)
  have good1: "good C e1" using good_same_but_clock[OF good R(1,2)] .
  have run': "(res, e') = (case r1 of Inl x \<Rightarrow> (Inl x, e1) | Inr _ \<Rightarrow>
      (if fresh = [] then bind_act (persist_clock S) (\<lambda>_. ret 0) e1
       else bind_act (commit S fresh Remote) (\<lambda>_. ret (length fresh)) e1))"
    using run[symmetric] applyRemoteOps_admitted[OF adm, of S pt] rcv
    unfolding fresh_def sbc(1)[symmetric] by simp
  have all: "good C e' \<and> e_keys e' = e_keys e \<and> e_deviceKey e' = e_deviceKey e \<and>
    c_device (e_clock e') = c_device (e_clock e) \<and>
    (\<forall>n. res = Inr n \<longrightarrow> n = length fresh \<and>
       view (e_store e') = merge fresh (clock_pair_of (e_clock e')) (view (e_store e)) \<and>
       (\<forall>p \<in> set ops. stamp_le (o_hlc p) (clock_tick (e_clock e')))) \<and>
    (\<forall>x. res = Inl x \<longrightarrow> view (e_store e') = view (e_store e) \<and> e_events e' = e_events e)"
  proof (cases r1)
    case (Inl x)
    then show ?thesis using run' good1 by (simp add: sbc)
  next
    case (Inr u)
    have stamps: "\<forall>p \<in> set ops. stamp_le (o_hlc p) (clock_tick (e_clock e1))"
      using R(3)[OF Inr engine_okD(5)[OF ok(1)]] by blast
    show ?thesis
    proof (cases "fresh = []")
      case True
      obtain r2 e2 where p: "persist_clock S e1 = (r2, e2)" by fastforce
      note P = persist_clock_good[OF good1 p]
      have r: "(res, e') = (case r2 of Inl x \<Rightarrow> (Inl x, e2) | Inr _ \<Rightarrow> (Inr 0, e2))"
        using run' Inr True p by (simp add: bind_act_eq ret_def split: sum.splits)
      then have e': "e' = e2" by (cases r2) auto
      have same: "e_clock e' = e_clock e1" "e_keys e' = e_keys e1" "e_deviceKey e' = e_deviceKey e1"
        "e_events e' = e_events e1"
        using p e' by (auto simp: persist_clock_def on_store_def split: prod.splits)
      show ?thesis
      proof (cases r2)
        case (Inl x)
        then show ?thesis using r P(1) P(4)[OF Inl] e' same by (simp add: sbc)
      next
        case (Inr w)
        then show ?thesis using r P(1) P(3)[OF Inr] e' same stamps True by (simp add: sbc)
      qed
    next
      case False
      obtain r2 e2 where c: "commit S fresh Remote e1 = (r2, e2)" by fastforce
      have r: "(res, e') = (case r2 of Inl x \<Rightarrow> (Inl x, e2) | Inr _ \<Rightarrow> (Inr (length fresh), e2))"
        using run' Inr False c by (simp add: bind_act_eq ret_def split: sum.splits)
      then have e': "e' = e2" by (cases r2) auto
      have F: "distinct (map o_id fresh)"
        "set fresh \<subseteq> {p \<in> set ops. r_log (view (e_store e)) (o_id p) = None}"
        unfolding fresh_def by (rule fresh_ops_spec[OF ok(2)])+
      have com: "committable C (view (e_store e1)) e1 fresh"
        using F stamps admitted_op[OF adm wf engine_okD(7)[OF ok(1)]]
        unfolding committable_def sbc by blast
      note P = commit_good[OF good1 com c]
      show ?thesis
      proof (cases r2)
        case (Inl x)
        then show ?thesis using r P(1-4) P(6)[OF Inl] e' by (simp add: sbc)
      next
        case (Inr w)
        then show ?thesis using r P(1-4) P(5)[OF Inr] e' stamps by (simp add: sbc)
      qed
    qed
  qed
  from all show "good C e'" "e_keys e' = e_keys e" "e_deviceKey e' = e_deviceKey e"
    "c_device (e_clock e') = c_device (e_clock e)" by blast+
  from all show "\<And>n. res = Inr n \<Longrightarrow> n = length (fresh_ops S (e_store e) ops) \<and>
       view (e_store e') = merge (fresh_ops S (e_store e) ops) (clock_pair_of (e_clock e')) (view (e_store e)) \<and>
       (\<forall>p \<in> set ops. stamp_le (o_hlc p) (clock_tick (e_clock e')))"
    unfolding fresh_def by blast
  from all show "\<And>x. res = Inl x \<Longrightarrow> view (e_store e') = view (e_store e) \<and> e_events e' = e_events e" by blast
qed

end

section \<open>The remaining methods\<close>

lemma engine_ok_peers [simp]: "engine_ok C (v\<lparr>r_peers := x\<rparr>) e = engine_ok C v e"
  by (simp add: engine_ok_def replica_ok_def consistent_def clocked_def clock_reached_def persisted_def)

lemma engine_ok_store [simp]: "engine_ok C v (e\<lparr>e_store := s\<rparr>) = engine_ok C v e"
  by (simp add: engine_ok_def identity_ok_def e_deviceId_def)

lemma learnKey_ok: "engine_ok C v e \<Longrightarrow> engine_ok C v (snd (learnKey C d pk e))"
  using set_map_set_subset[of d pk "e_keys e"]
  by (auto simp: learnKey_def engine_ok_def identity_ok_def keys_ok_def e_deviceId_def)

lemma replica_ok_compact:
  assumes "replica_ok C v" "consistent (compact_spec w v)"
  shows "replica_ok C (compact_spec w v)"
proof -
  have "ran (r_log (compact_spec w v)) \<subseteq> ran (r_log v)"
    by (auto simp: compact_spec_def ran_def restrict_map_def)
  with assms show ?thesis by (auto simp: replica_ok_def clocked_def persisted_def compact_spec_def)
qed

lemma compact_spec_empty: "w_opIds w = [] \<Longrightarrow> w_cellKeys w = [] \<Longrightarrow> compact_spec w v = v"
  by (simp add: compact_spec_def restrict_map_def)

definition persist_state :: "device_key \<Rightarrow> replica \<Rightarrow> bool" where
  "persist_state key v \<longleftrightarrow> r_key v = None \<or> r_key v = Some key"

context storage_adapter
begin

lemma learnKey_good: "good C e \<Longrightarrow> good C (snd (learnKey C d pk e))"
proof -
  have "e_store (snd (learnKey C d pk e)) = e_store e" by (simp add: learnKey_def)
  then show "good C e \<Longrightarrow> good C (snd (learnKey C d pk e))" by (simp add: good_def learnKey_ok)
qed

lemma observeRemoteClock_good:
  assumes "good C e" "observeRemoteClock S pt s e = (res, e')"
  shows "good C e'" "e_deviceKey e' = e_deviceKey e"
    "r_log (view (e_store e')) = r_log (view (e_store e))" "r_cells (view (e_store e')) = r_cells (view (e_store e))"
    "r_front (view (e_store e')) = r_front (view (e_store e))"
proof -
  obtain r1 e1 where rcv: "receive_stamp pt s e = (r1, e1)" by fastforce
  note R = receive_stamp_state[OF rcv]
  have g1: "good C e1" by (rule good_same_but_clock[OF assms(1) R])
  have e1: "e_store e1 = e_store e" "e_deviceKey e1 = e_deviceKey e" using R(1) by (simp_all add: same_but_clock_def)
  have "good C e' \<and> e_deviceKey e' = e_deviceKey e \<and> r_log (view (e_store e')) = r_log (view (e_store e)) \<and>
      r_cells (view (e_store e')) = r_cells (view (e_store e)) \<and> r_front (view (e_store e')) = r_front (view (e_store e))"
  proof (cases r1)
    case (Inl x)
    then show ?thesis using assms(2) rcv g1 e1 by (simp add: observeRemoteClock_def bind_act_eq)
  next
    case (Inr u)
    then have p: "persist_clock S e1 = (res, e')"
      using assms(2) rcv by (simp add: observeRemoteClock_def bind_act_eq)
    note P = persist_clock_good[OF g1 p]
    have "e_deviceKey e' = e_deviceKey e1" using P(2) by (simp add: same_but_clock_def)
    then show ?thesis
      using P(1) P(3)[of "projr res"] P(4)[of "projl res"] e1
      by (cases res) (auto simp: merge_def ops_map_def)
  qed
  then show "good C e'" "e_deviceKey e' = e_deviceKey e"
    "r_log (view (e_store e')) = r_log (view (e_store e))" "r_cells (view (e_store e')) = r_cells (view (e_store e))"
    "r_front (view (e_store e')) = r_front (view (e_store e))" by blast+
qed

lemma frontier_js: "good C e \<Longrightarrow> js_frontier (engine_frontier S e)"
  using engine_okD(2)[of C "view (e_store e)" e] getFrontier[of "e_store e"]
  by (simp add: good_def consistent_def engine_frontier_def plain_js_frontier)

lemma recordPeerFrontier_good:
  assumes "good C e" "recordPeerFrontier S d f e = (res, e')" "js_frontier f"
  shows "good C e'" "e_deviceKey e' = e_deviceKey e" "e_clock e' = e_clock e" "e_keys e' = e_keys e"
    "\<And>u. res = Inr u \<Longrightarrow> view (e_store e') = (if d = e_deviceId e then view (e_store e)
        else (view (e_store e))\<lparr>r_peers := (r_peers (view (e_store e)))(d \<mapsto> f)\<rparr>)"
    "\<And>x. res = Inl x \<Longrightarrow> view (e_store e') = view (e_store e)"
proof -
  have inv: "inv (e_store e)" and ok: "engine_ok C (view (e_store e)) e"
    using assms(1) by (simp_all add: good_def)
  have "good C e' \<and> e_deviceKey e' = e_deviceKey e \<and> e_clock e' = e_clock e \<and> e_keys e' = e_keys e \<and>
    (\<forall>u. res = Inr u \<longrightarrow> view (e_store e') = (if d = e_deviceId e then view (e_store e)
        else (view (e_store e))\<lparr>r_peers := (r_peers (view (e_store e)))(d \<mapsto> f)\<rparr>)) \<and>
    (\<forall>x. res = Inl x \<longrightarrow> view (e_store e') = view (e_store e))"
  proof (cases "d = e_deviceId e")
    case True
    then show ?thesis using assms by (auto simp: recordPeerFrontier_def)
  next
    case False
    obtain r s' where s': "setPeerFrontier S d f (e_store e) = (r, s')" by fastforce
    have e': "e' = e\<lparr>e_store := s'\<rparr>" "res = r"
      using assms(2) False s' by (auto simp: recordPeerFrontier_def on_store_def)
    show ?thesis
      using setPeerFrontier_ok[OF inv assms(3)] setPeerFrontier_err[OF inv] s' e' ok False
      by (cases r) (auto simp: good_def)
  qed
  then show "good C e'" "e_deviceKey e' = e_deviceKey e" "e_clock e' = e_clock e" "e_keys e' = e_keys e"
    "\<And>u. res = Inr u \<Longrightarrow> view (e_store e') = (if d = e_deviceId e then view (e_store e)
        else (view (e_store e))\<lparr>r_peers := (r_peers (view (e_store e)))(d \<mapsto> f)\<rparr>)"
    "\<And>x. res = Inl x \<Longrightarrow> view (e_store e') = view (e_store e)"
    by blast+
qed

text \<open>Compaction: the plan is carried out as specified, or nothing changes.\<close>

definition horizon_of :: "'s \<Rightarrow> frontier" where
  "horizon_of s = compactionHorizon (getFrontier S s) (getPeerFrontiers S s)"

lemma compact_good:
  assumes good: "good C e" and run: "compact S t dry e = (res, e')"
  defines "v \<equiv> view (e_store e)" and "h \<equiv> horizon_of (e_store e)"
  shows "good C e'" "e_deviceKey e' = e_deviceKey e" "e_clock e' = e_clock e" "e_keys e' = e_keys e"
    and "\<And>st. res = Inr st \<Longrightarrow> dry \<Longrightarrow> e' = e"
    and "\<And>st. res = Inr st \<Longrightarrow> \<not> dry \<Longrightarrow>
      r_cells (view (e_store e')) = (\<lambda>x. if t \<and> reclaimable h v (row_of_cell x) then None else r_cells v x) \<and>
      ran (r_log (view (e_store e'))) = {p \<in> ran (r_log v). \<not> (t \<and> reclaimable h v (rowKeyOf p)) \<and>
         (below h p \<longrightarrow> p \<in> ran (r_cells v))} \<and>
      r_front (view (e_store e')) = r_front v \<and> r_peers (view (e_store e')) = r_peers v \<and>
      r_clock (view (e_store e')) = r_clock v"
    and "\<And>x. res = Inl x \<Longrightarrow> view (e_store e') = v"
proof -
  let ?s = "e_store e"
  have inv: "inv ?s" and ok: "engine_ok C v e" using good by (simp_all add: good_def v_def)
  have cons: "consistent (view ?s)" using engine_okD(2)[OF ok] by (simp add: v_def)
  obtain w st where plan: "planCompaction (allOps S ?s) (winningCells S ?s) h t = (w, st)" by fastforce
  have ops: "set (allOps S ?s) = ran (r_log (view ?s))"
    using allOps[OF inv] by (simp add: sorted_ops_def)
  note P = compact_plan_effect[OF cons ops winningCells_snapshot[OF inv cons] plan, folded v_def]
  define st' where "st' = st\<lparr>blockedBy := blockingPeers (getFrontier S ?s) (getPeerFrontiers S ?s)\<rparr>"
  define work where "work \<longleftrightarrow> \<not> dry \<and> (0 < length (w_opIds w) \<or> 0 < length (w_cellKeys w))"
  have run': "(res, e') = bind_act (if work then on_store (compact_store S w) else ret ()) (\<lambda>_. ret st') e"
    using run plan unfolding compact_def Let_def h_def horizon_of_def work_def st'_def by simp
  have all: "good C e' \<and> e_deviceKey e' = e_deviceKey e \<and> e_clock e' = e_clock e \<and> e_keys e' = e_keys e \<and>
    (\<forall>st. res = Inr st \<longrightarrow> dry \<longrightarrow> e' = e) \<and>
    (\<forall>st. res = Inr st \<longrightarrow> \<not> dry \<longrightarrow> view (e_store e') = compact_spec w v) \<and>
    (\<forall>x. res = Inl x \<longrightarrow> view (e_store e') = v)"
  proof (cases work)
    case False
    then have "res = Inr st'" "e' = e" using run' by (simp_all add: bind_act_eq ret_def)
    then show ?thesis
      using False good compact_spec_empty by (auto simp: work_def v_def)
  next
    case True
    obtain r s' where s': "compact_store S w ?s = (r, s')" by fastforce
    have e': "e' = e\<lparr>e_store := s'\<rparr>" and r: "res = (case r of Inl x \<Rightarrow> Inl x | Inr _ \<Rightarrow> Inr st')"
      using run' s' True by (auto simp: bind_act_eq on_store_def ret_def split: sum.splits)
    show ?thesis
    proof (cases r)
      case (Inl x)
      then have "inv s'" "view s' = v" using compact_err[OF inv] s' by (auto simp: v_def)
      then show ?thesis using e' ok r Inl by (simp add: good_def)
    next
      case (Inr u)
      then have v': "inv s'" "view s' = compact_spec w v"
        using compact_ok[OF inv P(1)] s' by (auto simp: v_def)
      have "engine_ok C (compact_spec w v) e"
        using ok replica_ok_compact[OF engine_okD(1)[OF ok] P(4)]
        by (simp add: engine_ok_def compact_spec_def clock_reached_def)
      then show ?thesis using e' r Inr v' True by (simp add: good_def work_def)
    qed
  qed
  show "good C e'" "e_deviceKey e' = e_deviceKey e" "e_clock e' = e_clock e" "e_keys e' = e_keys e"
    using all by blast+
  show "\<And>st. res = Inr st \<Longrightarrow> dry \<Longrightarrow> e' = e" "\<And>x. res = Inl x \<Longrightarrow> view (e_store e') = v"
    using all by blast+
  show "r_cells (view (e_store e')) = (\<lambda>x. if t \<and> reclaimable h v (row_of_cell x) then None else r_cells v x) \<and>
      ran (r_log (view (e_store e'))) = {p \<in> ran (r_log v). \<not> (t \<and> reclaimable h v (rowKeyOf p)) \<and>
         (below h p \<longrightarrow> p \<in> ran (r_cells v))} \<and>
      r_front (view (e_store e')) = r_front v \<and> r_peers (view (e_store e')) = r_peers v \<and>
      r_clock (view (e_store e')) = r_clock v"
    if "res = Inr x" "\<not> dry" for x
  proof -
    have "view (e_store e') = compact_spec w v" using all that by blast
    then show ?thesis using P(2,3) by (simp add: compact_spec_def)
  qed
qed

lemma open_good:
  assumes inv: "inv s" and ok: "replica_ok C (view s)" and run: "open_engine S C gen s = (Inr e, s')"
    and sha: "\<And>x. length (sha256 C x) = 32"
  shows "good C e" "e_store e = s'" "e_deviceKey e = (case r_key (view s) of Some k \<Rightarrow> k | None \<Rightarrow> gen)"
    "r_log (view s') = r_log (view s)" "r_cells (view s') = r_cells (view s)" "e_events e = []"
    "r_front (view s') = r_front (view s)"
proof -
  have good_with: "good C e \<and> e_store e = z \<and> e_deviceKey e = key \<and> e_events e = []"
    if z: "inv z" "replica_ok C (view z)" "r_key (view z) = Some key" and op: "open_with S C key z = Inr e" for z key
  proof -
    obtain c where c: "new_clock (deviceIdFromPublicKey C (publicKey key))
        (map_option cs_millis (getClock S z)) (map_option cs_counter (getClock S z)) = Inr c"
      and e: "e = \<lparr>e_store = z, e_clock = c, e_keys = [(c_device c, publicKey key)], e_deviceKey = key, e_events = []\<rparr>"
      using op by (auto simp: open_with_def Let_def bind_res_eq_Inr)
    have dev: "c_device c = deviceIdFromPublicKey C (publicKey key)"
      and tick: "getClock S z = Some ck \<Longrightarrow> clock_tick c = clock_pair_tick ck" for ck
      using c by (auto simp: new_clock_def Let_def bind_res_eq_Inr clock_tick_def clock_pair_tick_def split: if_splits)
    have "isValidDeviceId (c_device c)"
      using deviceId_shape[OF sha] by (simp add: dev isValidDeviceId_def)
    moreover have "clock_reached (view z) c"
      using tick getClock[OF z(1)] by (simp add: clock_reached_def)
    moreover have "safe_hlc c"
      using c z(2) getClock[OF z(1)]
      by (auto simp: new_clock_def Let_def bind_res_eq_Inr safe_hlc_def replica_ok_def
          persisted_def safe_clock_def split: if_splits option.splits)
    ultimately show ?thesis
      using z by (simp add: good_def e engine_ok_def identity_ok_def e_deviceId_def keys_ok_def dev)
  qed
  have all: "good C e \<and> e_store e = s' \<and> e_deviceKey e = (case r_key (view s) of Some k \<Rightarrow> k | None \<Rightarrow> gen) \<and>
    r_log (view s') = r_log (view s) \<and> r_cells (view s') = r_cells (view s) \<and> e_events e = [] \<and>
    r_front (view s') = r_front (view s)"
  proof (cases "r_key (view s)")
    case (Some key)
    then have "open_with S C key s = Inr e" "s' = s"
      using run getDeviceKey[OF inv] by (auto simp: open_engine_def)
    with good_with[OF inv ok Some] Some show ?thesis by simp
  next
    case None
    then obtain u where k: "setDeviceKey S gen s = (Inr u, s')" and op: "open_with S C gen s' = Inr e"
      using run getDeviceKey[OF inv] by (auto simp: open_engine_def bind_act_def split: prod.splits sum.splits)
    have v: "inv s'" "view s' = (view s)\<lparr>r_key := Some gen\<rparr>" using setDeviceKey_ok[OF inv k] by auto
    have "replica_ok C (view s')"
      using ok by (simp add: v replica_ok_def consistent_def clocked_def persisted_def)
    with good_with[OF v(1) _ _ op] v None show ?thesis by simp
  qed
  then show "good C e" "e_store e = s'" "e_deviceKey e = (case r_key (view s) of Some k \<Rightarrow> k | None \<Rightarrow> gen)"
    "r_log (view s') = r_log (view s)" "r_cells (view s') = r_cells (view s)" "e_events e = []"
    "r_front (view s') = r_front (view s)" by blast+
qed

end

end
