(* ===== verification/Engine_Reads.thy ===== *)
theory Engine_Reads
  imports Engine_Refine
begin

text \<open>
  What an application reads: rows, lists and the whole state are functions of the replica's
  cells. A row's content is described as a map from column to value; the results of two
  adapters may differ in the order of the keys of an object, and in nothing else.
\<close>

section \<open>Rows\<close>

text \<open>The content of a visible row whose winning operations are \<open>m\<close>.\<close>

definition column_value :: "cipher option \<Rightarrow> (jsstring \<rightharpoonup> op) \<Rightarrow> jsstring \<Rightarrow> jsval option" where
  "column_value K m c =
     (if c = TOMBSTONE_COLUMN \<or> c = PROTO then None
      else case m c of
        None \<Rightarrow> None
      | Some p \<Rightarrow> (case cell_value K p of Inl _ \<Rightarrow> None | Inr v \<Rightarrow> if v = JNull then None else Some v))"

definition row_content :: "cipher option \<Rightarrow> jsstring \<Rightarrow> (jsstring \<rightharpoonup> op) \<Rightarrow> jsstring \<rightharpoonup> jsval" where
  "row_content K r m = [js ''id'' \<mapsto> JStr r] ++ column_value K m"

definition readable :: "cipher option \<Rightarrow> (jsstring \<rightharpoonup> op) \<Rightarrow> bool" where
  "readable K m \<longleftrightarrow> (\<forall>c p. m c = Some p \<longrightarrow> c \<noteq> TOMBSTONE_COLUMN \<longrightarrow> (\<exists>v. cell_value K p = Inr v))"

definition tombstoned :: "(jsstring \<rightharpoonup> op) \<Rightarrow> bool" where
  "tombstoned m \<longleftrightarrow> (\<exists>p. m TOMBSTONE_COLUMN = Some p \<and> o_value p = JBool True)"

lemma isTombstoned_iff: "isTombstoned cells \<longleftrightarrow> tombstoned (map_of cells)"
  by (auto simp: isTombstoned_def tombstoned_def split: option.splits)

lemma materialize_cells_spec:
  assumes "dkeys cells" "dkeys out" "fst ` set out \<inter> fst ` set cells = {}"
  shows "(\<exists>out'. materialize_cells K cells out = Inr out') \<longleftrightarrow> readable K (map_of cells)"
    and "materialize_cells K cells out = Inr out' \<Longrightarrow>
       dkeys out' \<and> map_of out' = map_of out ++ column_value K (map_of cells)"
proof -
  have "((\<exists>out'. materialize_cells K cells out = Inr out') \<longleftrightarrow> readable K (map_of cells)) \<and>
      (\<forall>out'. materialize_cells K cells out = Inr out' \<longrightarrow>
         dkeys out' \<and> map_of out' = map_of out ++ column_value K (map_of cells))"
    using assms
  proof (induction cells arbitrary: out)
    case Nil
    then show ?case by (simp add: readable_def column_value_def map_add_def fun_eq_iff)
  next
    case (Cons cp cells)
    obtain c p where cp: "cp = (c, p)" by (cases cp)
    have c: "map_of cells c = None" using Cons.prems(1) by (simp add: cp map_of_eq_None_iff)
    have oc: "map_of out c = None" using Cons.prems(3) by (simp add: cp map_of_eq_None_iff)
    have rd: "readable K (map_of ((c, p) # cells)) \<longleftrightarrow>
        (c = TOMBSTONE_COLUMN \<or> (\<exists>v. cell_value K p = Inr v)) \<and> readable K (map_of cells)"
      using c by (auto simp: readable_def)
    show ?case
    proof (cases "c = TOMBSTONE_COLUMN")
      case True
      have cv: "column_value K (map_of ((c, p) # cells)) = column_value K (map_of cells)"
        using True by (auto simp: column_value_def fun_eq_iff)
      have rd': "readable K (map_of ((c, p) # cells)) = readable K (map_of cells)" using rd True by blast
      have step: "materialize_cells K ((c, p) # cells) out = materialize_cells K cells out"
        using True by simp
      show ?thesis using Cons.IH[of out] Cons.prems unfolding cp step cv rd' by simp
    next
      case False
      show ?thesis
      proof (cases "cell_value K p")
        case (Inl x)
        have "\<not> readable K (map_of ((c, p) # cells))" unfolding rd using False Inl by simp
        moreover have "materialize_cells K ((c, p) # cells) out = Inl x" using False Inl by simp
        ultimately show ?thesis unfolding cp by (metis sum.distinct(1))
      next
        case (Inr v)
        define o1 where "o1 = (if v \<noteq> JNull \<and> c \<noteq> PROTO then map_set c v out else out)"
        have step: "materialize_cells K (cp # cells) out = materialize_cells K cells o1"
          using False Inr by (simp add: cp o1_def)
        have o1: "dkeys o1" "fst ` set o1 \<inter> fst ` set cells = {}"
          using Cons.prems by (auto simp: o1_def cp dom_update)
        have mo1: "map_of o1 ++ column_value K (map_of cells) =
            map_of out ++ column_value K (map_of ((c, p) # cells))"
          using c oc False Inr by (auto simp: o1_def fun_eq_iff map_add_def column_value_def split: option.splits)
        have rd': "readable K (map_of (cp # cells)) = readable K (map_of cells)"
          unfolding cp rd using Inr by blast
        have "dkeys cells" using Cons.prems(1) by simp
        from Cons.IH[OF this o1] show ?thesis unfolding step rd' mo1[folded cp] .
      qed
    qed
  qed
  then show "(\<exists>out'. materialize_cells K cells out = Inr out') \<longleftrightarrow> readable K (map_of cells)"
    "materialize_cells K cells out = Inr out' \<Longrightarrow>
       dkeys out' \<and> map_of out' = map_of out ++ column_value K (map_of cells)" by blast+
qed

lemma fold_pairs_map: "dkeys xs \<Longrightarrow> map_of (fold (\<lambda>(k, v). map_set k v) xs m) = map_of m ++ map_of xs"
  by (simp add: fold_map_set_pairs(1) map_of_rev_distinct)

lemma materialize_spec:
  assumes "dkeys cells"
  shows "(\<exists>row. materialize K r cells = Inr row) \<longleftrightarrow> readable K (map_of cells)"
    and "materialize K r cells = Inr row \<Longrightarrow> dkeys row \<and> map_of row = row_content K r (map_of cells)"
proof -
  note M = materialize_cells_spec[OF assms, of "[]" K, simplified]
  show "(\<exists>row. materialize K r cells = Inr row) \<longleftrightarrow> readable K (map_of cells)"
    using M(1) by (auto simp: materialize_def bind_res_eq_Inr)
  show "dkeys row \<and> map_of row = row_content K r (map_of cells)" if "materialize K r cells = Inr row"
  proof -
    from that obtain out where out: "materialize_cells K cells [] = Inr out"
      and row: "row = fold (\<lambda>(k, v). map_set k v) out [(js ''id'', JStr r)]"
      by (auto simp: materialize_def bind_res_eq_Inr)
    have "dkeys row" unfolding row by (rule fold_map_set_pairs(2)) simp
    then show ?thesis
      using M(2)[OF out] by (simp add: row fold_pairs_map row_content_def)
  qed
qed

section \<open>Reads as functions of the cells\<close>

definition row_cells :: "replica \<Rightarrow> jsstring \<Rightarrow> jsstring \<Rightarrow> jsstring \<rightharpoonup> op" where
  "row_cells v t r = (\<lambda>c. r_cells v (t, r, c))"

definition visible :: "replica \<Rightarrow> jsstring \<Rightarrow> jsstring \<Rightarrow> bool" where
  "visible v t r \<longleftrightarrow> row_cells v t r \<noteq> Map.empty \<and> \<not> tombstoned (row_cells v t r)"

context storage_adapter
begin

lemma visible_row_spec:
  assumes "inv s"
  shows "visible_row S K s t r = Inr None \<longleftrightarrow> \<not> visible (view s) t r"
    and "visible_row S K s t r = Inr (Some row) \<Longrightarrow>
       visible (view s) t r \<and> dkeys row \<and> map_of row = row_content K r (row_cells (view s) t r)"
    and "(\<exists>x. visible_row S K s t r = Inl x) \<longleftrightarrow> visible (view s) t r \<and> \<not> readable K (row_cells (view s) t r)"
proof -
  have "(visible_row S K s t r = Inr None \<longleftrightarrow> \<not> visible (view s) t r) \<and>
    (\<forall>row. visible_row S K s t r = Inr (Some row) \<longrightarrow>
       visible (view s) t r \<and> dkeys row \<and> map_of row = row_content K r (row_cells (view s) t r)) \<and>
    ((\<exists>x. visible_row S K s t r = Inl x) \<longleftrightarrow> visible (view s) t r \<and> \<not> readable K (row_cells (view s) t r))"
  proof (cases "getRow S s t r")
    case None
    then have "row_cells (view s) t r = Map.empty"
      using getRow_None[OF assms] by (auto simp: row_cells_def)
    with None show ?thesis by (simp add: visible_row_def visible_def)
  next
    case (Some cells)
    then have d: "dkeys cells" and m: "map_of cells = row_cells (view s) t r"
      using getRow_Some[OF assms Some] by (simp_all add: row_cells_def)
    have ne: "row_cells (view s) t r \<noteq> Map.empty"
      using Some getRow_None[OF assms, of t r] by (auto simp: row_cells_def fun_eq_iff)
    note M = materialize_spec[OF d, of K r, unfolded m]
    show ?thesis
    proof (cases "tombstoned (row_cells (view s) t r)")
      case True
      with Some ne show ?thesis by (simp add: visible_row_def isTombstoned_iff m visible_def)
    next
      case False
      then have vis: "visible (view s) t r" using ne by (simp add: visible_def)
      have vr: "visible_row S K s t r = bind_res (materialize K r cells) (\<lambda>x. Inr (Some x))"
        using Some False by (simp add: visible_row_def isTombstoned_iff m)
      show ?thesis
        using vis M by (cases "materialize K r cells") (auto simp: vr)
    qed
  qed
  then show "visible_row S K s t r = Inr None \<longleftrightarrow> \<not> visible (view s) t r"
    "visible_row S K s t r = Inr (Some row) \<Longrightarrow>
       visible (view s) t r \<and> dkeys row \<and> map_of row = row_content K r (row_cells (view s) t r)"
    "(\<exists>x. visible_row S K s t r = Inl x) \<longleftrightarrow> visible (view s) t r \<and> \<not> readable K (row_cells (view s) t r)"
    by blast+
qed

lemma sorted_rows:
  assumes "inv s" "no_sep t"
  shows "sort (listRows S s t) = sorted_list_of_set {r. \<exists>c. r_cells (view s) (t, r, c) \<noteq> None}"
  using listRows[OF assms] by (metis sorted_list_of_set_sort_remdups distinct_remdups_id)

lemma sorted_tables:
  assumes "inv s"
  shows "sort (listTables S s) = sorted_list_of_set {t. \<exists>r c. r_cells (view s) (t, r, c) \<noteq> None}"
  using listTables[OF assms] by (metis sorted_list_of_set_sort_remdups distinct_remdups_id)

end

section \<open>Two replicas with the same cells read the same\<close>

text \<open>Objects are the same when they have the same properties, in whatever order.\<close>

definition same_obj :: "(jsstring, jsval) jsmap \<Rightarrow> (jsstring, jsval) jsmap \<Rightarrow> bool" where
  "same_obj x y \<longleftrightarrow> map_of x = map_of y"

definition same_state :: "(jsstring, (jsstring, (jsstring, jsval) jsmap) jsmap) jsmap \<Rightarrow>
    (jsstring, (jsstring, (jsstring, jsval) jsmap) jsmap) jsmap \<Rightarrow> bool" where
  "same_state = list_all2 (rel_prod (=) (list_all2 (rel_prod (=) same_obj)))"

text \<open>Both fail, or both succeed with related results.\<close>

abbreviation same_result :: "('a \<Rightarrow> 'b \<Rightarrow> bool) \<Rightarrow> 'a result \<Rightarrow> 'b result \<Rightarrow> bool" where
  "same_result \<equiv> rel_sum (\<lambda>_ _. True)"

lemma same_result_bind:
  "same_result R x y \<Longrightarrow> (\<And>a b. R a b \<Longrightarrow> same_result Q (f a) (g b)) \<Longrightarrow>
     same_result Q (bind_res x f) (bind_res y g)"
  by (cases x; cases y) auto

lemma same_result_map:
  "(\<And>a. a \<in> set xs \<Longrightarrow> same_result R (f a) (g a)) \<Longrightarrow> same_result (list_all2 R) (map_res f xs) (map_res g xs)"
proof (induction xs)
  case Nil
  then show ?case by simp
next
  case (Cons a xs)
  have "same_result (list_all2 R) (map_res f xs) (map_res g xs)" using Cons by simp
  with Cons.prems[of a] show ?case
    by (cases "f a"; cases "g a"; cases "map_res f xs"; cases "map_res g xs") auto
qed

lemma present_rel: "list_all2 (rel_option R) xs ys \<Longrightarrow> list_all2 R (present xs) (present ys)"
  by (induction xs ys rule: list_all2_induct) (auto elim!: option.rel_cases)

lemma map_of_drop_key: "map_of (filter (\<lambda>(k, v). k \<noteq> i) xs) = (map_of xs)(i := None)"
  by (induction xs) (auto simp: fun_eq_iff)

locale two_adapters = left: storage_adapter S inv view + right: storage_adapter T inv' view'
  for S :: "'s storage_ops" and inv view and T :: "'t storage_ops" and inv' view'
begin

lemma same_row_cells:
  assumes "inv s" "inv' s'" and c: "row_cells (view s) t r = row_cells (view' s') t r"
  shows "same_result (rel_option same_obj) (visible_row S K s t r) (visible_row T K s' t r)"
proof -
  have v: "visible (view s) t r = visible (view' s') t r" using c by (simp add: visible_def)
  note L = left.visible_row_spec[OF assms(1), of K t r] and R = right.visible_row_spec[OF assms(2), of K t r]
  show ?thesis
  proof (cases "visible_row S K s t r")
    case (Inl x)
    then obtain y where "visible_row T K s' t r = Inl y" using L(3) R(3) c v by auto
    with Inl show ?thesis by simp
  next
    case (Inr x)
    then obtain y where y: "visible_row T K s' t r = Inr y"
      using L(3) R(3) c v by (cases "visible_row T K s' t r") auto
    show ?thesis
    proof (cases x)
      case None
      then have "y = None" using Inr y L(1) R(1) v by auto
      with None Inr y show ?thesis by simp
    next
      case (Some row)
      then obtain row' where row': "y = Some row'" using Inr y L(1) R(1) v by (cases y) auto
      have "map_of row = map_of row'" using L(2) R(2) Inr y Some row' c by simp
      with Inr y Some row' show ?thesis by (simp add: same_obj_def)
    qed
  qed
qed

lemma visible_row_same:
  assumes "inv s" "inv' s'" "r_cells (view s) = r_cells (view' s')"
  shows "same_result (rel_option same_obj) (visible_row S K s t r) (visible_row T K s' t r)"
  by (rule same_row_cells[OF assms(1,2)]) (simp add: row_cells_def assms(3))

lemma rows_tables_same:
  assumes "inv s" "inv' s'" "r_cells (view s) = r_cells (view' s')"
  shows "no_sep t \<Longrightarrow> sort (listRows S s t) = sort (listRows T s' t)" "sort (listTables S s) = sort (listTables T s')"
  using assms(3) left.sorted_rows[OF assms(1)] right.sorted_rows[OF assms(2)]
    left.sorted_tables[OF assms(1)] right.sorted_tables[OF assms(2)] by simp_all

lemma list_same:
  assumes "inv (e_store a)" "inv' (e_store b)" "r_cells (view (e_store a)) = r_cells (view' (e_store b))"
    and t: "no_sep t"
  shows "same_result (list_all2 same_obj) (list_all_rows S K t a) (list_all_rows T K t b)"
  unfolding list_all_rows_def rows_tables_same(1)[OF assms(1-3) t]
  by (rule same_result_bind[OF same_result_map[OF visible_row_same[OF assms(1-3)]]]) (simp add: present_rel)

lemma dump_table_same:
  assumes "inv s" "inv' s'" "r_cells (view s) = r_cells (view' s')" and t: "no_sep t"
  shows "same_result (list_all2 (rel_prod (=) same_obj)) (dump_table S K s t) (dump_table T K s' t)"
proof -
  have "same_result (rel_option (rel_prod (=) same_obj))
      (bind_res (visible_row S K s t r) (\<lambda>x. Inr (map_option (\<lambda>cols. (r, filter (\<lambda>(k, v). k \<noteq> js ''id'') cols)) x)))
      (bind_res (visible_row T K s' t r) (\<lambda>x. Inr (map_option (\<lambda>cols. (r, filter (\<lambda>(k, v). k \<noteq> js ''id'') cols)) x)))" for r
    by (rule same_result_bind[OF visible_row_same[OF assms(1-3)]])
      (auto elim!: option.rel_cases simp: same_obj_def map_of_drop_key)
  then show ?thesis
    unfolding dump_table_def rows_tables_same(1)[OF assms(1-3) t]
    by (intro same_result_bind[OF same_result_map]) (auto intro: present_rel)
qed

lemma dump_same:
  assumes "inv (e_store a)" "inv' (e_store b)" "r_cells (view (e_store a)) = r_cells (view' (e_store b))"
    and named: "\<And>t r c. r_cells (view (e_store a)) (t, r, c) \<noteq> None \<Longrightarrow> no_sep t"
  shows "same_result same_state (dump S K a) (dump T K b)"
proof -
  let ?R = "rel_prod (=) (list_all2 (rel_prod (=) same_obj))"
  have "same_result ?R (bind_res (dump_table S K (e_store a) t) (\<lambda>rows. Inr (t, rows)))
      (bind_res (dump_table T K (e_store b) t) (\<lambda>rows. Inr (t, rows)))"
    if "t \<in> set (sort (listTables S (e_store a)))" for t
  proof (rule same_result_bind[OF dump_table_same[OF assms(1-3)]])
    show "no_sep t" using that left.listTables[OF assms(1)] named by auto
  qed simp
  moreover have "list_all2 ?R (filter (\<lambda>(t, rows). rows \<noteq> [] \<and> t \<notin> set inherited_names) xs)
      (filter (\<lambda>(t, rows). rows \<noteq> [] \<and> t \<notin> set inherited_names) ys)" if "list_all2 ?R xs ys" for xs ys
    using that
  proof (induction xs ys rule: list_all2_induct)
    case (Cons x xs y ys)
    then show ?case by (cases x; cases y) auto
  qed simp
  ultimately show ?thesis
    unfolding dump_def rows_tables_same(2)[OF assms(1-3), symmetric] same_state_def
    by (intro same_result_bind[OF same_result_map]) auto
qed

text \<open>Replicas whose logs hold the same operations show the same state.\<close>

lemma converge:
  assumes "left.good C a" "right.good C b" "r_log (view (e_store a)) = r_log (view' (e_store b))"
  shows "r_cells (view (e_store a)) = r_cells (view' (e_store b))"
    and "same_result same_state (dump S K a) (dump T K b)"
    and "same_result (rel_option same_obj) (get S K t r a) (get T K t r b)"
    and "no_sep t \<Longrightarrow> same_result (list_all2 same_obj) (list_all_rows S K t a) (list_all_rows T K t b)"
proof -
  have i: "inv (e_store a)" "inv' (e_store b)"
    using assms(1,2) by (simp_all add: left.good_def right.good_def)
  have con: "consistent (view (e_store a))" "consistent (view' (e_store b))"
    using assms(1,2) engine_okD(2) unfolding left.good_def right.good_def by blast+
  then show c: "r_cells (view (e_store a)) = r_cells (view' (e_store b))"
    using consistent_converge assms(3) by blast
  show "same_result same_state (dump S K a) (dump T K b)" proof (rule dump_same[OF i c])
    fix t r c assume "r_cells (view (e_store a)) (t, r, c) \<noteq> None"
    then obtain p where p: "r_cells (view (e_store a)) (t, r, c) = Some p" by blast
    from consistent_cells[OF con(1) p] show "no_sep t" by (auto simp: storable_def op_cell_def)
  qed
  show "same_result (rel_option same_obj) (get S K t r a) (get T K t r b)"
    unfolding get_def by (rule visible_row_same[OF i c])
  show "no_sep t \<Longrightarrow> same_result (list_all2 same_obj) (list_all_rows S K t a) (list_all_rows T K t b)"
    by (rule list_same[OF i c])
qed

end

end
