(* ===== verification/Engine_Steps.thy ===== *)
theory Engine_Steps
  imports Engine_Reads
begin

text \<open>
  The life of one engine as a transition system: every public method with every argument and
  every outcome is a step, and so is a restart, which reopens the same storage. What holds in
  every reachable state is proved by rule induction, for any adapter that meets the contract.
\<close>

section \<open>Steps\<close>

definition json_values :: "(jsstring \<times> jsval) list \<Rightarrow> bool" where
  "json_values vs \<longleftrightarrow> (\<forall>(c, v) \<in> set vs. wf_val v)"

inductive engine_step :: "'s storage_ops \<Rightarrow> crypto \<Rightarrow> cipher option \<Rightarrow> 's engine \<Rightarrow> 's engine \<Rightarrow> bool"
  for S C K where
  learn: "engine_step S C K e (snd (learnKey C d pk e))"
| insert: "json_values vs \<Longrightarrow> insert_row S C K date rand ds t vs e = (res, e') \<Longrightarrow> engine_step S C K e e'"
| update: "json_values vs \<Longrightarrow> update_row S C K ds t r vs e = (res, e') \<Longrightarrow> engine_step S C K e e'"
| delete: "delete_row S C K d t r e = (res, e') \<Longrightarrow> engine_step S C K e e'"
| remote: "\<forall>v \<in> set raw. wf_val v \<Longrightarrow> applyRemoteOps S C pt raw e = (res, e') \<Longrightarrow> engine_step S C K e e'"
| observe: "observeRemoteClock S pt s e = (res, e') \<Longrightarrow> engine_step S C K e e'"
| ack: "js_frontier f \<Longrightarrow> recordPeerFrontier S peer f e = (res, e') \<Longrightarrow> engine_step S C K e e'"
| compaction: "compact S gc dry e = (res, e') \<Longrightarrow> engine_step S C K e e'"
| restart: "open_engine S C gen (e_store e) = (Inr e', s') \<Longrightarrow> engine_step S C K e e'"

text \<open>The states of a replica whose storage started as \<open>s0\<close>.\<close>

inductive reachable :: "'s storage_ops \<Rightarrow> crypto \<Rightarrow> cipher option \<Rightarrow> 's \<Rightarrow> 's engine \<Rightarrow> bool"
  for S C K s0 where
  start: "open_engine S C gen s0 = (Inr e, s') \<Longrightarrow> crypto_key C (e_deviceKey e) \<Longrightarrow> reachable S C K s0 e"
| step: "reachable S C K s0 e \<Longrightarrow> engine_step S C K e e' \<Longrightarrow> reachable S C K s0 e'"

inductive_cases engine_stepE: "engine_step S C K e e'"

section \<open>The invariant\<close>

context storage_adapter
begin

lemma update_row_key:
  assumes "update_row S C K ds t r vs e = (res, e')"
  shows "e_deviceKey e' = e_deviceKey e" "e_keys e' = e_keys e"
proof -
  obtain r1 e1 where ops: "local_ops C K ds t r (List.enumerate 0 vs) e = (r1, e1)" by fastforce
  have "same_but_clock e e1" using local_ops_clock[OF ops] by blast
  then have e1: "e_deviceKey e1 = e_deviceKey e" "e_keys e1 = e_keys e" by (simp_all add: same_but_clock_def)
  have "e_deviceKey e2 = e_deviceKey e1 \<and> e_keys e2 = e_keys e1" if "commit S ps og e1 = (r2, e2)" for ps og r2 e2
    using that by (auto simp: commit_def bind_act_def on_store_def modify_def Let_def split: prod.splits sum.splits)
  with assms ops e1 show "e_deviceKey e' = e_deviceKey e" "e_keys e' = e_keys e"
    by (auto simp: update_row_def local_ops_def bind_act_eq split: sum.splits)
qed

lemma applyRemoteOps_good:
  assumes "good C e" "\<forall>v \<in> set raw. wf_val v" "applyRemoteOps S C pt raw e = (res, e')"
  shows "good C e' \<and> e_deviceKey e' = e_deviceKey e"
proof (cases "\<exists>ops. admitted C (e_keys e) raw ops")
  case True
  then obtain ops where "admitted C (e_keys e) raw ops" ..
  from applyRemoteOps_spec(1,3)[OF assms(1,2) this assms(3)] show ?thesis by blast
next
  case False
  obtain x where "applyRemoteOps S C pt raw e = (Inl x, e)"
    using applyRemoteOps_rejected[OF False, of S pt] ..
  with assms show ?thesis by simp
qed

lemma engine_step_good:
  assumes "engine_step S C K e e'" "good C e" "crypto_key C (e_deviceKey e)"
  shows "good C e' \<and> e_deviceKey e' = e_deviceKey e"
  using assms
proof cases
  case (learn d pk)
  then show ?thesis using learnKey_good[OF assms(2)] by (simp add: learnKey_def)
next
  case (insert vs date rand ds t res)
  then show ?thesis
    using update_row_spec(1)[OF assms(2,3)] update_row_key assms(2)
    by (fastforce simp: insert_row_update json_values_def split: sum.splits prod.splits)
next
  case (update vs ds t r res)
  then show ?thesis
    using update_row_spec(1)[OF assms(2,3)] update_row_key by (simp add: json_values_def)
next
  case (delete d t r res)
  then show ?thesis
    using update_row_spec(1)[OF assms(2,3) wf_val_tombstone] update_row_key
    unfolding delete_row_update by blast
next
  case (remote raw pt res)
  then show ?thesis using applyRemoteOps_good[OF assms(2)] by blast
next
  case (observe pt s res)
  then show ?thesis using observeRemoteClock_good[OF assms(2)] by blast
next
  case (ack peer f res)
  then show ?thesis using recordPeerFrontier_good[OF assms(2) ack(2,1)] by blast
next
  case (compaction gc dry res)
  then show ?thesis using compact_good[OF assms(2)] by blast
next
  case (restart gen s')
  have g: "inv (e_store e)" "engine_ok C (view (e_store e)) e" using assms(2) by (simp_all add: good_def)
  have sha: "\<And>x. length (sha256 C x) = 32" using assms(3) by (simp add: crypto_key_def)
  note O = open_good[OF g(1) engine_okD(1)[OF g(2)] restart sha]
  show ?thesis using O(1,3) engine_okD(6)[OF g(2)] by simp
qed

lemma reachable_good:
  assumes "reachable S C K s0 e" "inv s0" "replica_ok C (view s0)"
  shows "good C e \<and> crypto_key C (e_deviceKey e)"
  using assms
proof (induction rule: reachable.induct)
  case (start gen e s')
  then have sha: "\<And>x. length (sha256 C x) = 32" by (simp add: crypto_key_def)
  from open_good(1)[OF start.prems(1,2) start.hyps(1) sha] start.hyps(2) show ?case by blast
next
  case (step e e')
  then show ?case using engine_step_good by metis
qed

end

lemma new_memory_ok: "replica_ok C (mem_view new_memory)"
  by (simp add: replica_ok_def new_memory_view consistent_def wf_log_def lww_cells_empty clocked_def persisted_def)

text \<open>Engines over the memory adapter, from a fresh store.\<close>

abbreviation mem_reachable :: "crypto \<Rightarrow> cipher option \<Rightarrow> memory engine \<Rightarrow> bool" where
  "mem_reachable C K e \<equiv> reachable memory_adapter C K new_memory e"

lemma mem_reachable_good: "mem_reachable C K e \<Longrightarrow> mem.good C e \<and> crypto_key C (e_deviceKey e)"
  by (rule mem.reachable_good[OF _ new_memory_inv new_memory_ok])

interpretation mem2: two_adapters memory_adapter mem_inv mem_view memory_adapter mem_inv mem_view
  by unfold_locales

end
