(* ===== verification/Engine_Live.thy ===== *)
theory Engine_Live
  imports Engine_Steps
begin

text \<open>
  Progress: when a local write is accepted. The size limit of an operation is bounded from the
  size of the value alone, because the other fields have bounded length; the clock admits a
  write as long as it is below the 48-bit range; the memory adapter never rejects a batch.
\<close>

section \<open>Size of an operation\<close>

lemma esc_unit_length: "length (esc_unit c) \<le> 6"
proof -
  have "length (pad_start 4 48 (to_base 16 (unat c))) = 4"
    using pad_start_to_base[of 16 "unat c" 4] unsigned_less[of c, where ?'a = nat] by simp
  then show ?thesis by (simp add: esc_unit_def)
qed

lemma quote_body_length: "length (quote_body s) \<le> 6 * length s"
proof (induction s rule: quote_body.induct)
  case (2 c)
  then show ?case using esc_unit_length[of c] by simp
next
  case (3 c d cs)
  then show ?case using esc_unit_length[of c] by (cases "is_high c \<and> is_low d") auto
qed simp

lemma json_quote_length: "length s \<le> n \<Longrightarrow> length (json_quote s) \<le> 6 * n + 2"
  using quote_body_length[of s] by (simp add: json_quote_def)

lemma op_json_length:
  assumes "json_stringify (o_value p) = Some t"
  shows "length (the (json_stringify (op_to_js p))) \<le>
    length t + 6 * (length (o_id p) + length (o_table p) + length (o_row p) + length (o_column p) +
      length (o_hlc p) + length (o_device p) + length (o_sig p)) + 300"
proof -
  have key: "length (json_quote (js k)) \<le> 6 * length k + 2" for k
    using json_quote_length[of "js k"] by simp
  show ?thesis
    using assms key[of "''id''"] key[of "''table''"] key[of "''row''"] key[of "''column''"] key[of "''value''"]
      key[of "''hlc''"] key[of "''device''"] key[of "''sig''"]
      json_quote_length[of "o_id p", OF order.refl] json_quote_length[of "o_table p", OF order.refl]
      json_quote_length[of "o_row p", OF order.refl] json_quote_length[of "o_column p", OF order.refl]
      json_quote_length[of "o_hlc p", OF order.refl] json_quote_length[of "o_device p", OF order.refl]
      json_quote_length[of "o_sig p", OF order.refl]
    by (simp add: op_to_js_def)
qed

lemma length_btoa: "length (btoa bs) \<le> 4 * ((length bs + 2) div 3)"
proof (induction bs rule: btoa.induct)
  case (4 a b c cs)
  have "(5 + length cs) div 3 = Suc ((2 + length cs) div 3)" by presburger
  with 4 show ?case by simp
qed auto

section \<open>Local writes are accepted\<close>

text \<open>A value that fits one operation, whatever the names around it.\<close>

definition fits :: "jsval \<Rightarrow> bool" where
  "fits v \<longleftrightarrow> wf_val v \<and> assertJson v (js ''value'') = Inr () \<and>
     (\<exists>t. json_stringify v = Some t \<and> length t \<le> 60000)"

lemma fits_str: "length s \<le> 9000 \<Longrightarrow> fits (JStr s)"
  using json_quote_length[of s 9000] by (simp add: fits_def)

lemma fits_bool: "fits (JBool b)"
  by (simp add: fits_def)

text \<open>What is stored of a value, which is the ciphertext where there is a cipher, fits.\<close>

definition fits_stored :: "cipher option \<Rightarrow> bytes \<Rightarrow> jsstring \<Rightarrow> jsval \<Rightarrow> bool" where
  "fits_stored K nonce c v \<longleftrightarrow>
     (case K of
        None \<Rightarrow> fits v
      | Some k \<Rightarrow> if c = TOMBSTONE_COLUMN then fits v
          else (\<forall>opId. \<exists>s. encrypt k nonce v opId = Inr s \<and> length s \<le> 9000))"

lemma fits_stored_simps [simp]:
  "fits_stored None nonce c v = fits v" "fits_stored K nonce TOMBSTONE_COLUMN v = fits v"
  by (simp_all add: fits_stored_def split: option.splits)

definition column_ok :: "jsstring \<Rightarrow> bool" where
  "column_ok c \<longleftrightarrow> c = TOMBSTONE_COLUMN \<or> name_re c"

lemma name_re_length: "name_re s \<Longrightarrow> length s \<le> 64"
  by (auto simp: name_re_def split: list.splits)

lemma column_ok_length: "column_ok c \<Longrightarrow> length c \<le> 64"
  using name_re_length by (auto simp: column_ok_def TOMBSTONE_COLUMN_def)

lemma now_millis: "c_millis (snd (now pt c)) \<le> max (c_millis c + 1) pt"
  by (auto simp: now_def Let_def rollover_def double_succ_def)

lemma makeLocalOp_total:
  assumes id: "identity_ok C e" and key: "crypto_key C (e_deviceKey e)"
    and names: "name_re t" "ulid_re r" "column_ok c" and v: "fits_stored K (d_nonce d) c v"
    and clk: "c_millis (e_clock e) < MAX_MILLIS" "d_now d \<le> MAX_MILLIS"
  shows "\<exists>p e'. makeLocalOp C K d t r c v e = (Inr p, e')"
proof -
  obtain h c' where now: "now (d_now d) (e_clock e) = (Inr h, c')"
    using now_total[OF clk] by blast
  have now': "now (time_value (d_now d)) (e_clock e) = (Inr h, c')"
    using now clk(2) by (simp add: time_value_small)
  have dev: "isValidDeviceId (c_device (e_clock e))"
    using id unfolding identity_ok_def e_deviceId_def by blast
  note N = now_spec[OF now dev]
  have vh: "valid_hlc h" using N(1,2) by (simp add: clock_ok_def)
  obtain w where w: "(case K of Some k \<Rightarrow> if c \<noteq> TOMBSTONE_COLUMN
      then bind_res (encrypt k (d_nonce d) v (encodeHlc h)) (\<lambda>s. Inr (JStr s)) else Inr v | None \<Rightarrow> Inr v) = Inr w"
    "fits w"
  proof (cases "K = None \<or> c = TOMBSTONE_COLUMN")
    case True
    then have "fits v" using v by auto
    with True that[of v] show thesis by (auto split: option.splits)
  next
    case False
    then obtain k where k: "K = Some k" "c \<noteq> TOMBSTONE_COLUMN" by auto
    then obtain s where "encrypt k (d_nonce d) v (encodeHlc h) = Inr s" "length s \<le> 9000"
      using v by (auto simp: fits_stored_def)
    with k that fits_str show thesis by simp
  qed
  define q where "q = \<lparr>o_id = encodeHlc h, o_table = t, o_row = r, o_column = c, o_value = w,
    o_hlc = encodeHlc h, o_sig = [], o_device = e_deviceId e\<rparr>"
  define p where "p = q\<lparr>o_sig := signPayload C (signedPayload q) (privateKey (e_deviceKey e))\<rparr>"
  have eid: "e_deviceId (e\<lparr>e_clock := c'\<rparr>) = e_deviceId e" by (simp add: e_deviceId_def N(3))
  have run: "makeLocalOp C K d t r c v e = (bind_res (validateOp (op_to_js p)) (\<lambda>_. Inr p), e\<lparr>e_clock := c'\<rparr>)"
    using now' w(1) by (simp add: makeLocalOp_def bind_act_eq on_clock_def lift_res_def Let_def eid q_def p_def)
  have "deviceId h = e_deviceId e" using N(2,3) by (simp add: e_deviceId_def)
  then have valid: "valid_op p"
    using names w(2) decode_encode[OF vh]
    by (simp add: valid_op_def p_def q_def column_ok_def fits_def)
  obtain tv where tv: "json_stringify (o_value p) = Some tv" "length tv \<le> 60000"
    using w(2) by (auto simp: fits_def p_def q_def)
  have sig: "length (o_sig p) \<le> 88"
  proof -
    have "length (ed_sign C (signedPayload q) (privateKey (e_deviceKey e))) = 64"
      using key by (simp add: crypto_key_def)
    then show ?thesis
      using length_btoa[of "ed_sign C (signedPayload q) (privateKey (e_deviceKey e))"]
      by (simp add: p_def signPayload_def base64Encode_def)
  qed
  have lens: "length (o_id p) = 50" "length (o_hlc p) = 50" "length (o_device p) = 32" "length (o_row p) = 26"
    "length (o_table p) \<le> 64" "length (o_column p) \<le> 64"
    using length_encodeHlc[OF vh] dev names name_re_length column_ok_length
    by (simp_all add: p_def q_def HLC_LENGTH_def e_deviceId_def isValidDeviceId_def ulid_re_def)
  have "length (the (json_stringify (op_to_js p))) \<le> MAX_OP_BYTES"
    using op_json_length[OF tv(1)] tv(2) sig lens by (simp add: MAX_OP_BYTES_def)
  with validateOp_op_to_js[OF valid] show ?thesis by (simp add: run)
qed

lemma local_ops_total:
  assumes "identity_ok C e" "crypto_key C (e_deviceKey e)" "name_re t" "ulid_re r"
    "\<forall>(i, c, v) \<in> set ivs. column_ok c \<and> fits_stored K (d_nonce (ds i)) c v \<and> d_now (ds i) \<le> m"
    "c_millis (e_clock e) + length ivs \<le> MAX_MILLIS" "m + length ivs \<le> MAX_MILLIS"
  shows "\<exists>ps e'. local_ops C K ds t r ivs e = (Inr ps, e')"
  using assms
proof (induction ivs arbitrary: e)
  case Nil
  then show ?case by (simp add: local_ops_Nil)
next
  case (Cons iv ivs)
  obtain i c v where iv: "iv = (i, c, v)" by (cases iv)
  have "c_millis (e_clock e) < MAX_MILLIS" "d_now (ds i) \<le> MAX_MILLIS" "column_ok c" "fits_stored K (d_nonce (ds i)) c v"
    using Cons.prems(5-7) by (auto simp: iv)
  then obtain p e1 where one: "makeLocalOp C K (ds i) t r c v e = (Inr p, e1)"
    using makeLocalOp_total[OF Cons.prems(1-4)] by blast
  note C1 = makeLocalOp_clock[OF one]
  have e1: "identity_ok C e1" "crypto_key C (e_deviceKey e1)"
    using C1(1) Cons.prems(1,2) identity_ok_cong[of e1 e] by (simp_all add: same_but_clock_def)
  have "c_millis (e_clock e1) \<le> max (c_millis (e_clock e) + 1) (d_now (ds i))"
    using makeLocalOp_state[OF one] now_millis[of "time_value (d_now (ds i))" "e_clock e"]
    by (simp add: time_value_def)
  moreover have "d_now (ds i) \<le> m" using Cons.prems(5) by (auto simp: iv)
  ultimately have m1: "c_millis (e_clock e1) + length ivs \<le> MAX_MILLIS" using Cons.prems(6,7) by simp
  have "\<forall>(i, c, v) \<in> set ivs. column_ok c \<and> fits_stored K (d_nonce (ds i)) c v \<and> d_now (ds i) \<le> m" using Cons.prems(5) by simp
  then obtain ps e2 where "local_ops C K ds t r ivs e1 = (Inr ps, e2)"
    using Cons.IH[OF e1 Cons.prems(3,4)] m1 Cons.prems(7) by auto
  with one show ?case by (simp add: iv local_ops_Cons)
qed

section \<open>A medium that does not fail\<close>

text \<open>Over a store that accepts every batch, writes and merges of proper input succeed.\<close>

locale accepting =
  fixes S :: "'s storage_ops" and willing :: "'s \<Rightarrow> bool"
  assumes accepts: "willing s \<Longrightarrow> \<exists>s'. applyBatch S b s = (Inr (), s') \<and> willing s'"
begin

lemma commit_total:
  assumes "willing (e_store e)"
  shows "\<exists>e'. commit S ps og e = (Inr (), e') \<and> willing (e_store e')"
proof -
  obtain ws f where wf: "fold (commit_step S (e_store e)) ps ([], getFrontier S (e_store e)) = (ws, f)" by fastforce
  obtain s' where "applyBatch S \<lparr>b_ops = ps, b_winners = ws, b_frontier = f, b_clock = clock_pair_of (e_clock e)\<rparr>
      (e_store e) = (Inr (), s')" "willing s'" using accepts[OF assms] by blast
  then show ?thesis by (simp add: commit_def wf bind_act_eq on_store_def modify_def Let_def)
qed

lemma persist_total:
  assumes "willing (e_store e)"
  shows "\<exists>e'. persist_clock S e = (Inr (), e') \<and> willing (e_store e')"
proof -
  obtain s' where "applyBatch S \<lparr>b_ops = [], b_winners = [], b_frontier = getFrontier S (e_store e),
      b_clock = clock_pair_of (e_clock e)\<rparr> (e_store e) = (Inr (), s')" "willing s'" using accepts[OF assms] by blast
  then show ?thesis by (simp add: persist_clock_def on_store_def)
qed

lemma update_total:
  assumes "willing (e_store e)" "identity_ok C e" "crypto_key C (e_deviceKey e)" "name_re t" "ulid_re r"
    "\<forall>(c, v) \<in> set vs. column_ok c \<and> (\<forall>i. fits_stored K (d_nonce (ds i)) c v)" "\<forall>i. d_now (ds i) \<le> m"
    "c_millis (e_clock e) + length vs \<le> MAX_MILLIS" "m + length vs \<le> MAX_MILLIS"
  shows "\<exists>e'. update_row S C K ds t r vs e = (Inr (), e') \<and> willing (e_store e')"
proof -
  have "\<forall>(i, c, v) \<in> set (List.enumerate 0 vs). column_ok c \<and> fits_stored K (d_nonce (ds i)) c v \<and> d_now (ds i) \<le> m"
    using assms(6,7) by (fastforce simp: enumerate_eq_zip dest: set_zip_rightD)
  then obtain ps e1 where ops: "local_ops C K ds t r (List.enumerate 0 vs) e = (Inr ps, e1)"
    using local_ops_total[OF assms(2-5)] assms(8,9) by fastforce
  then have "e_store e1 = e_store e" using local_ops_clock[OF ops] by (simp add: same_but_clock_def)
  then obtain e' where "commit S ps Local e1 = (Inr (), e')" "willing (e_store e')"
    using commit_total assms(1) by metis
  with ops show ?thesis by (simp add: update_row_def local_ops_def bind_act_eq)
qed

lemma apply_total:
  assumes "willing (e_store e)" "admitted C (e_keys e) raw ops" "c_millis (e_clock e) < MAX_MILLIS" "pt < MAX_MILLIS"
    "\<forall>p \<in> set ops. \<exists>h. decodeHlc (o_hlc p) = Inr h \<and> millis h < MAX_MILLIS \<and> millis h \<le> pt + MAX_DRIFT_MS"
  shows "\<exists>n e'. applyRemoteOps S C pt raw e = (Inr n, e') \<and> willing (e_store e')"
proof -
  have rest: "\<exists>n e'. (if fresh_ops S (e_store e1) ops = [] then bind_act (persist_clock S) (\<lambda>_. ret 0) e1
      else bind_act (commit S (fresh_ops S (e_store e1) ops) Remote)
        (\<lambda>_. ret (length (fresh_ops S (e_store e1) ops))) e1) = (Inr n, e') \<and> willing (e_store e')"
    if "willing (e_store e1)" for e1
    using persist_total[OF that] commit_total[OF that, of "fresh_ops S (e_store e1) ops" Remote]
    by (auto simp: bind_act_eq ret_def)
  show ?thesis
  proof (cases "max_op ops")
    case None
    then show ?thesis unfolding applyRemoteOps_admitted[OF assms(2)] using rest[OF assms(1)] by (simp add: ret_def)
  next
    case (Some m)
    then have "m \<in> set ops" using max_op_spec[of ops] max_op_Nil by (cases ops) auto
    then obtain h where h: "decodeHlc (o_hlc m) = Inr h" "millis h < MAX_MILLIS" "millis h \<le> pt + MAX_DRIFT_MS"
      using assms(5) by blast
    obtain g c where "receive (time_value pt) h (e_clock e) = (Inr g, c)"
      using receive_total[OF assms(3,4) h(2,3)] assms(4) by (auto simp: time_value_small)
    then have "receive_stamp pt (o_hlc m) e = (Inr (), e\<lparr>e_clock := c\<rparr>)"
      by (simp add: receive_stamp_def bind_act_eq lift_res_def h on_clock_def ret_def)
    then show ?thesis
      unfolding applyRemoteOps_admitted[OF assms(2)] Some using rest[of "e\<lparr>e_clock := c\<rparr>"] assms(1) by simp
  qed
qed

end

interpretation memory_accepts: accepting memory_adapter "\<lambda>_. True"
  by unfold_locales (simp add: memory_adapter_def mem_applyBatch_def modify_def)

end
