(* ===== verification/Engine_Merge.thy ===== *)
theory Engine_Merge
  imports Engine_Live
begin

text \<open>
  What merging remote batches does to a replica, and its consequences: idempotence,
  independence of order and batching, and strong convergence of engines that have applied
  the same operations; and what the engine refuses.
\<close>

section \<open>Sample engines\<close>

text \<open>The engine a fresh store opens with, for the samples of this development.\<close>

definition sample_engine :: "byte \<Rightarrow> memory engine" where
  "sample_engine b =
     (let d = deviceIdFromPublicKey sample_crypto (publicKey (sample_key b)) in
      \<lparr>e_store = new_memory\<lparr>m_key := Some (sample_key b)\<rparr>,
       e_clock = \<lparr>c_millis = 0, c_counter = 0, c_device = d\<rparr>,
       e_keys = [(d, publicKey (sample_key b))], e_deviceKey = sample_key b, e_events = []\<rparr>)"

lemma sample_engine_open:
  "open_engine memory_adapter sample_crypto (sample_key b) new_memory =
     (Inr (sample_engine b), new_memory\<lparr>m_key := Some (sample_key b)\<rparr>)"
proof -
  have "isValidDeviceId (deviceIdFromPublicKey sample_crypto (publicKey (sample_key b)))"
    using deviceId_shape[of sample_crypto] sample_crypto_key[of b]
    by (simp add: isValidDeviceId_def crypto_key_def)
  then show ?thesis
    by (simp add: open_engine_def memory_adapter_def new_memory_def mem_setDeviceKey_def bind_act_eq modify_def
        open_with_def new_clock_def checkBounds_def Let_def sample_engine_def)
qed

lemma sample_engine_key [simp]: "e_deviceKey (sample_engine b) = sample_key b"
  by (simp add: sample_engine_def Let_def)

lemma sample_engine_reachable: "mem_reachable sample_crypto K (sample_engine b)"
  by (rule reachable.start[OF sample_engine_open]) (simp add: sample_crypto_key)

lemma sample_engine_view:
  "mem_view (e_store (sample_engine b)) = (mem_view new_memory)\<lparr>r_key := Some (sample_key b)\<rparr>"
  by (simp add: sample_engine_def Let_def mem_view_def new_memory_def)

definition sample_draw :: draw where
  "sample_draw = \<lparr>d_now = 1000, d_nonce = replicate 24 0\<rparr>"

lemma sample_update_total:
  assumes "name_re t" "ulid_re r" "\<forall>(c, v) \<in> set vs. column_ok c \<and> fits_stored K (d_nonce sample_draw) c v" "length vs \<le> 1000"
  shows "\<exists>e'. update_row memory_adapter sample_crypto K (\<lambda>_. sample_draw) t r vs (sample_engine b) = (Inr (), e')"
proof (rule memory_accepts.update_total[OF TrueI _ _ assms(1,2), where m = 1000, unfolded simp_thms])
  show "\<forall>(c, v) \<in> set vs. column_ok c \<and> (\<forall>i. fits_stored K (d_nonce ((\<lambda>_. sample_draw) i)) c v)"
    using assms(3) by simp
  have g: "mem.good sample_crypto (sample_engine b)"
    using mem_reachable_good[OF sample_engine_reachable] by blast
  show "identity_ok sample_crypto (sample_engine b)"
    using g engine_okD(5) unfolding mem.good_def by blast
  show "crypto_key sample_crypto (e_deviceKey (sample_engine b))" by (simp add: sample_crypto_key)
  show "c_millis (e_clock (sample_engine b)) + length vs \<le> MAX_MILLIS"
    "1000 + length vs \<le> MAX_MILLIS"
    using assms(4) by (simp_all add: sample_engine_def Let_def MAX_MILLIS_def)
qed (simp add: sample_draw_def)

section \<open>The log after a merge\<close>

lemma wf_log_le:
  assumes "wf_log l" "wf_log l'" "ran l \<subseteq> ran l'" "l i = Some p"
  shows "l' i = Some p"
proof -
  have "p \<in> ran l'" using assms(3,4) by (auto simp: ran_def)
  with wf_log_ran[OF assms(2)] have "l' (o_hlc p) = Some p" by blast
  with wf_logD[OF assms(1,4)] show ?thesis by simp
qed

lemma wf_log_eqI:
  assumes "wf_log l" "wf_log l'" "ran l = ran l'"
  shows "l = l'"
proof
  fix i
  show "l i = l' i"
    using wf_log_le[OF assms(1,2), of i] wf_log_le[OF assms(2,1), of i] assms(3)
    by (cases "l i"; cases "l' i") auto
qed

text \<open>The operations of a batch that validates.\<close>

definition batch_ops :: "jsval list \<Rightarrow> op list" where
  "batch_ops raw = (case map_res validateOp raw of Inl _ \<Rightarrow> [] | Inr ops \<Rightarrow> ops)"

text \<open>A sequence of batches, each at its own physical time, all accepted.\<close>

fun apply_all :: "'s storage_ops \<Rightarrow> crypto \<Rightarrow> (nat \<times> jsval list) list \<Rightarrow> 's engine \<Rightarrow> 's engine option" where
  "apply_all S C [] e = Some e"
| "apply_all S C ((pt, raw) # bs) e =
     (case applyRemoteOps S C pt raw e of (Inl _, _) \<Rightarrow> None | (Inr _, e') \<Rightarrow> apply_all S C bs e')"

lemma map_res_op_to_js:
  "\<forall>p \<in> set ops. validateOp (op_to_js p) = Inr p \<Longrightarrow> map_res validateOp (map op_to_js ops) = Inr ops"
  by (induction ops) auto

lemma batch_ops_own: "\<forall>p \<in> set ops. validateOp (op_to_js p) = Inr p \<Longrightarrow> batch_ops (map op_to_js ops) = ops"
  by (simp add: batch_ops_def map_res_op_to_js)

definition ops_of :: "(nat \<times> jsval list) list \<Rightarrow> op set" where
  "ops_of bs = (\<Union>(pt, raw) \<in> set bs. set (batch_ops raw))"

definition wf_batches :: "(nat \<times> jsval list) list \<Rightarrow> bool" where
  "wf_batches bs \<longleftrightarrow> (\<forall>(pt, raw) \<in> set bs. \<forall>v \<in> set raw. wf_val v)"

lemma applyRemoteOps_ok_admitted:
  assumes "applyRemoteOps S C pt raw e = (Inr n, e')"
  shows "admitted C (e_keys e) raw (batch_ops raw)"
proof (rule ccontr)
  assume no: "\<not> admitted C (e_keys e) raw (batch_ops raw)"
  have "\<nexists>ops. admitted C (e_keys e) raw ops"
    using no by (auto simp: admitted_def batch_ops_def)
  from applyRemoteOps_rejected[OF this, of S pt] assms show False by simp
qed

lemma fresh_covers:
  assumes fresh: "set fresh \<subseteq> set ops" "o_id ` set fresh = {i \<in> o_id ` set ops. l i = None}"
    and inj: "inj_on o_id (ran l \<union> set ops)" and wf: "\<And>i p. l i = Some p \<Longrightarrow> o_id p = i"
  shows "set fresh \<union> ran l = ran l \<union> set ops"
proof -
  have "p \<in> set fresh \<union> ran l" if p: "p \<in> set ops" for p
  proof (cases "l (o_id p)")
    case None
    then have "o_id p \<in> o_id ` set fresh" using fresh(2) p by auto
    then obtain q where q: "q \<in> set fresh" "o_id q = o_id p" by force
    then have "q = p" using inj_onD[OF inj q(2)] fresh(1) p by auto
    with q show ?thesis by simp
  next
    case (Some q)
    then have "o_id q = o_id p" "q \<in> ran l" using wf by (auto simp: ran_def)
    then have "q = p" using inj_onD[OF inj] p by auto
    with Some show ?thesis by (auto simp: ran_def)
  qed
  with fresh(1) show ?thesis by auto
qed

context storage_adapter
begin

lemma applyRemoteOps_log:
  assumes good: "good C e" and wf: "\<forall>v \<in> set raw. wf_val v"
    and run: "applyRemoteOps S C pt raw e = (Inr n, e')"
    and inj: "inj_on o_id (ran (r_log (view (e_store e))) \<union> set (batch_ops raw))"
  shows "good C e'"
    and "ran (r_log (view (e_store e'))) = ran (r_log (view (e_store e))) \<union> set (batch_ops raw)"
proof -
  note adm = applyRemoteOps_ok_admitted[OF run]
  note A = applyRemoteOps_spec[OF good wf adm run]
  show "good C e'" by (rule A(1))
  have inv: "inv (e_store e)" and ok: "engine_ok C (view (e_store e)) e" using good by (simp_all add: good_def)
  let ?l = "r_log (view (e_store e))" and ?fresh = "fresh_ops S (e_store e) (batch_ops raw)"
  have wfl: "wf_log ?l" using engine_okD(2)[OF ok] by (simp add: consistent_def)
  note F = fresh_ops_spec[OF inv, of "batch_ops raw"]
  have "ran (r_log (view (e_store e'))) = set ?fresh \<union> ran ?l"
    using A(5)[OF refl] ran_map_add_fresh[of ?fresh ?l] F(1,2) by (auto simp: merge_def)
  also have "\<dots> = ran ?l \<union> set (batch_ops raw)"
    using F(2,3) wf_logD[OF wfl] by (intro fresh_covers[OF _ _ inj]) auto
  finally show "ran (r_log (view (e_store e'))) = ran ?l \<union> set (batch_ops raw)" .
qed

lemma apply_all_log:
  assumes "good C e" "wf_batches bs" "apply_all S C bs e = Some e'"
    "inj_on o_id (ran (r_log (view (e_store e))) \<union> ops_of bs)"
  shows "good C e' \<and> ran (r_log (view (e_store e'))) = ran (r_log (view (e_store e))) \<union> ops_of bs"
  using assms
proof (induction bs arbitrary: e)
  case Nil
  then show ?case by (simp add: ops_of_def)
next
  case (Cons b bs)
  obtain pt raw where b: "b = (pt, raw)" by (cases b)
  obtain n e1 where one: "applyRemoteOps S C pt raw e = (Inr n, e1)" and rest: "apply_all S C bs e1 = Some e'"
    using Cons.prems(3) by (auto simp: b split: prod.splits sum.splits)
  have wf: "\<forall>v \<in> set raw. wf_val v" "wf_batches bs" using Cons.prems(2) by (auto simp: wf_batches_def b)
  have ops: "ops_of (b # bs) = set (batch_ops raw) \<union> ops_of bs" by (simp add: ops_of_def b)
  have inj: "inj_on o_id (ran (r_log (view (e_store e))) \<union> set (batch_ops raw))"
    using Cons.prems(4) unfolding ops by (rule inj_on_subset) auto
  note L = applyRemoteOps_log[OF Cons.prems(1) wf(1) one inj]
  show ?case
    using Cons.IH[OF L(1) wf(2) rest] Cons.prems(4) unfolding L(2) ops by (simp add: Un_assoc)
qed

lemma good_wf_log: "good C e \<Longrightarrow> wf_log (r_log (view (e_store e)))"
  using engine_okD(2) by (auto simp: good_def consistent_def)

text \<open>A batch that is already in the log changes neither log, cells nor frontier.\<close>

lemma applyRemoteOps_again:
  assumes good: "good C e" and wf: "\<forall>v \<in> set raw. wf_val v"
    and run: "applyRemoteOps S C pt raw e = (Inr n, e')"
    and known: "\<forall>p \<in> set (batch_ops raw). r_log (view (e_store e)) (o_id p) \<noteq> None"
  shows "n = 0 \<and> r_log (view (e_store e')) = r_log (view (e_store e)) \<and>
    r_cells (view (e_store e')) = r_cells (view (e_store e)) \<and> r_front (view (e_store e')) = r_front (view (e_store e))"
proof -
  note A = applyRemoteOps_spec[OF good wf applyRemoteOps_ok_admitted[OF run] run]
  have inv: "inv (e_store e)" using good by (simp add: good_def)
  have "fresh_ops S (e_store e) (batch_ops raw) = []"
    using fresh_ops_spec(2)[OF inv, of "batch_ops raw"] known by (cases "fresh_ops S (e_store e) (batch_ops raw)") auto
  with A(5)[OF refl] show ?thesis by (simp add: merge_def ops_map_def)
qed

end

context two_adapters
begin

lemma converge_all:
  assumes "left.good C a" "right.good C b" "r_log (view (e_store a)) = r_log (view' (e_store b))"
    "wf_batches bs" "wf_batches cs" "apply_all S C bs a = Some a'" "apply_all T C cs b = Some b'"
    "ops_of bs = ops_of cs" "inj_on o_id (ran (r_log (view (e_store a))) \<union> ops_of bs)"
  shows "r_log (view (e_store a')) = r_log (view' (e_store b'))"
    and "same_result same_state (dump S K a') (dump T K b')"
proof -
  note L = left.apply_all_log[OF assms(1,4,6,9)]
  have R: "right.good C b' \<and> ran (r_log (view' (e_store b'))) = ran (r_log (view' (e_store b))) \<union> ops_of cs"
    using right.apply_all_log[OF assms(2,5,7)] assms(3,8,9) by simp
  have "ran (r_log (view (e_store a'))) = ran (r_log (view' (e_store b')))"
    using L R assms(3,8) by simp
  then show log: "r_log (view (e_store a')) = r_log (view' (e_store b'))"
    using wf_log_eqI left.good_wf_log right.good_wf_log L R by blast
  show "same_result same_state (dump S K a') (dump T K b')"
    using converge(2)[OF _ _ log] L R by blast
qed

end

end
