(* ===== verification/Samples.thy ===== *)
theory Samples
  imports Engine_Merge
begin

text \<open>
  Concrete operations and engines on which the properties are applied: signed operations of
  the sample devices, engines that know their keys, and the batches they accept.
\<close>

section \<open>Signed operations\<close>

definition signed_op :: "crypto \<Rightarrow> device_key \<Rightarrow> nat \<Rightarrow> jsstring \<Rightarrow> jsval \<Rightarrow> op" where
  "signed_op C k n c v =
     (let d = deviceIdFromPublicKey C (publicKey k);
          s = encodeHlc \<lparr>millis = n, counter = 0, deviceId = d\<rparr>;
          q = \<lparr>o_id = s, o_table = js ''t'', o_row = replicate 26 48, o_column = c, o_value = v,
               o_hlc = s, o_sig = [], o_device = d\<rparr>
      in q\<lparr>o_sig := signPayload C (signedPayload q) (privateKey k)\<rparr>)"

lemma signed_op_facts:
  assumes "crypto_key C k" "n \<le> MAX_MILLIS" "column_ok c" "fits v"
  shows "valid_op (signed_op C k n c v)" "validateOp (op_to_js (signed_op C k n c v)) = Inr (signed_op C k n c v)"
    "verifyOp C (signed_op C k n c v) (publicKey k)"
    "decodeHlc (o_hlc (signed_op C k n c v)) =
       Inr \<lparr>millis = n, counter = 0, deviceId = deviceIdFromPublicKey C (publicKey k)\<rparr>"
proof -
  let ?p = "signed_op C k n c v" and ?d = "deviceIdFromPublicKey C (publicKey k)"
  let ?h = "\<lparr>millis = n, counter = 0, deviceId = ?d\<rparr>"
  have dev: "isValidDeviceId ?d"
    using deviceId_shape[of C "publicKey k"] assms(1) by (simp add: isValidDeviceId_def crypto_key_def)
  then have vh: "valid_hlc ?h" using assms(2) by (simp add: valid_hlc_def)
  show d: "decodeHlc (o_hlc ?p) = Inr ?h"
    using decode_encode[OF vh] by (simp add: signed_op_def Let_def)
  have names: "name_re (js ''t'')" "ulid_re (replicate 26 48)" by code_simp+
  show valid: "valid_op ?p"
    using d names assms(3,4) by (simp add: valid_op_def signed_op_def Let_def column_ok_def fits_def)
  show "verifyOp C ?p (publicKey k)"
  proof -
    obtain q where q: "?p = q\<lparr>o_sig := signPayload C (signedPayload q) (privateKey k)\<rparr>"
      unfolding signed_op_def Let_def by blast
    show ?thesis unfolding verifyOp_def q signedPayload_unsigned using verify_sign[OF assms(1)] by simp
  qed
  obtain tv where tv: "json_stringify (o_value ?p) = Some tv" "length tv \<le> 60000"
    using assms(4) by (auto simp: fits_def signed_op_def Let_def)
  have sig: "length (o_sig ?p) \<le> 88"
    using assms(1) length_btoa[of "ed_sign C _ (privateKey k)"]
    by (simp add: signed_op_def Let_def signPayload_def base64Encode_def crypto_key_def order.trans[OF length_btoa])
  have "length (the (json_stringify (op_to_js ?p))) \<le> MAX_OP_BYTES"
    using op_json_length[OF tv(1)] tv(2) sig length_encodeHlc[OF vh] dev column_ok_length[OF assms(3)]
    by (simp add: MAX_OP_BYTES_def signed_op_def Let_def HLC_LENGTH_def isValidDeviceId_def)
  with validateOp_op_to_js[OF valid] show "validateOp (op_to_js ?p) = Inr ?p" .
qed

lemma signed_op_simps [simp]:
  "o_id (signed_op C k n c v) = o_hlc (signed_op C k n c v)"
  "o_device (signed_op C k n c v) = deviceIdFromPublicKey C (publicKey k)"
  "op_cell (signed_op C k n c v) = (js ''t'', replicate 26 48, c)"
  "o_table (signed_op C k n c v) = js ''t''" "o_row (signed_op C k n c v) = replicate 26 48"
  "o_column (signed_op C k n c v) = c" "o_value (signed_op C k n c v) = v"
  by (simp_all add: signed_op_def Let_def op_cell_def)

lemma signed_op_wf: "wf_val v \<Longrightarrow> wf_val (op_to_js (signed_op C k n c v))"
  by simp

lemma column_ok_a: "column_ok (js ''a'')"
proof -
  have "name_re (js ''a'')" by code_simp
  then show ?thesis by (simp add: column_ok_def)
qed

text \<open>The operation of sample device \<open>b\<close> at time \<open>n\<close> that writes \<open>s\<close>.\<close>

definition sample_op :: "byte \<Rightarrow> nat \<Rightarrow> jsstring \<Rightarrow> op" where
  "sample_op b n s = signed_op sample_crypto (sample_key b) n (js ''a'') (JStr s)"

lemma MAX_MILLIS_large: "n \<le> 1000000 \<Longrightarrow> n < MAX_MILLIS"
  by (simp add: MAX_MILLIS_def)

lemma sample_op_facts:
  assumes "n \<le> 1000000" "length s \<le> 9000"
  shows "valid_op (sample_op b n s)" "validateOp (op_to_js (sample_op b n s)) = Inr (sample_op b n s)"
    "verifyOp sample_crypto (sample_op b n s) (publicKey (sample_key b))"
    "decodeHlc (o_hlc (sample_op b n s)) =
       Inr \<lparr>millis = n, counter = 0, deviceId = deviceIdFromPublicKey sample_crypto (publicKey (sample_key b))\<rparr>"
  unfolding sample_op_def
  using signed_op_facts[OF sample_crypto_key _ column_ok_a fits_str[OF assms(2)], of n] MAX_MILLIS_large[OF assms(1)]
  by (simp_all add: less_imp_le)

text \<open>The sample engine after it has learned the key of sample device \<open>x\<close>.\<close>

definition meeting :: "byte \<Rightarrow> byte \<Rightarrow> memory engine" where
  "meeting b x = snd (learnKey sample_crypto
     (deviceIdFromPublicKey sample_crypto (publicKey (sample_key x))) (publicKey (sample_key x)) (sample_engine b))"

lemma meeting_reachable: "mem_reachable sample_crypto K (meeting b x)"
  unfolding meeting_def by (rule reachable.step[OF sample_engine_reachable engine_step.learn])

lemma meeting_simps [simp]:
  "e_store (meeting b x) = e_store (sample_engine b)" "e_clock (meeting b x) = e_clock (sample_engine b)"
  "map_of (e_keys (meeting b x)) (deviceIdFromPublicKey sample_crypto (publicKey (sample_key x))) =
     Some (publicKey (sample_key x))"
  by (simp_all add: meeting_def learnKey_def)

lemma sample_clock_zero: "c_millis (e_clock (sample_engine b)) = 0"
  by (simp add: sample_engine_def Let_def)

lemma sample_log_empty: "r_log (mem_view (e_store (sample_engine b))) = Map.empty"
  by (simp add: sample_engine_view new_memory_view)

lemma sample_devices_differ:
  "b \<noteq> c \<Longrightarrow> deviceIdFromPublicKey sample_crypto (publicKey (sample_key b)) \<noteq>
     deviceIdFromPublicKey sample_crypto (publicKey (sample_key c))"
proof
  assume "b \<noteq> c" and "deviceIdFromPublicKey sample_crypto (publicKey (sample_key b)) =
    deviceIdFromPublicKey sample_crypto (publicKey (sample_key c))"
  from deviceId_inject[OF this(2)] this(1) show False by (simp add: sample_crypto_def sample_key_def)
qed

lemma sample_device: "e_deviceId (sample_engine b) = deviceIdFromPublicKey sample_crypto (publicKey (sample_key b))"
  "e_deviceId (meeting b x) = e_deviceId (sample_engine b)"
  by (simp_all add: e_deviceId_def sample_engine_def Let_def meeting_simps(2))

end
