(* ===== verification/Merge_Properties.thy ===== *)
theory Merge_Properties
  imports Samples
begin

text \<open>
  The promises of PROTOCOL.md sections 5 and 12 for an engine over the memory adapter, in
  every state it can reach: the state is a function of the operations, merging commutes and
  is idempotent, engines with the same operations agree, and nothing unauthenticated enters.
\<close>

section \<open>A sample exchange\<close>

text \<open>Two operations of device 5 and a third party that has met it.\<close>

definition sample_batch :: "op list \<Rightarrow> nat \<times> jsval list" where
  "sample_batch ops = (1000, map op_to_js ops)"

definition op_one :: op where "op_one = sample_op 5 1 (js ''x'')"
definition op_two :: op where "op_two = sample_op 5 2 (js ''y'')"

lemma sample_ops:
  "\<forall>p \<in> {op_one, op_two}. valid_op p \<and> validateOp (op_to_js p) = Inr p \<and> wf_val (op_to_js p) \<and>
     verifyOp sample_crypto p (publicKey (sample_key 5)) \<and>
     o_device p = deviceIdFromPublicKey sample_crypto (publicKey (sample_key 5)) \<and>
     (\<exists>h. decodeHlc (o_hlc p) = Inr h \<and> millis h < MAX_MILLIS \<and> millis h \<le> 1000 + MAX_DRIFT_MS)"
proof -
  have f: "fits (JStr (js ''x''))" "fits (JStr (js ''y''))" by (rule fits_str, simp)+
  have s: "sample_op 5 n s = signed_op sample_crypto (sample_key 5) n (js ''a'') (JStr s)" for n s
    by (simp add: sample_op_def)
  show ?thesis
    using sample_op_facts[of 1 "js ''x''" 5] sample_op_facts[of 2 "js ''y''" 5]
    by (auto simp: op_one_def op_two_def MAX_DRIFT_MS_def MAX_MILLIS_large s intro: signed_op_wf)
qed

lemma op_one_two: "o_hlc op_one < o_hlc op_two" "o_id op_one \<noteq> o_id op_two"
proof -
  let ?d = "deviceIdFromPublicKey sample_crypto (publicKey (sample_key 5))"
  have dev: "isValidDeviceId ?d"
    using deviceId_shape[of sample_crypto "publicKey (sample_key 5)"] sample_crypto_key[of 5]
    by (simp add: isValidDeviceId_def crypto_key_def)
  have v: "valid_hlc \<lparr>millis = 1, counter = 0, deviceId = ?d\<rparr>" "valid_hlc \<lparr>millis = 2, counter = 0, deviceId = ?d\<rparr>"
    using dev by (simp_all add: valid_hlc_def MAX_MILLIS_def)
  show less: "o_hlc op_one < o_hlc op_two"
    using encodeHlc_less_iff[OF v]
    by (simp add: op_one_def op_two_def sample_op_def signed_op_def Let_def)
  have "o_id op_one = o_hlc op_one" "o_id op_two = o_hlc op_two"
    by (simp_all add: op_one_def op_two_def sample_op_def)
  with less show "o_id op_one \<noteq> o_id op_two" by auto
qed

lemma sample_admitted:
  assumes "set ops \<subseteq> {op_one, op_two}" "length ops \<le> 1000"
    "map_of keys (deviceIdFromPublicKey sample_crypto (publicKey (sample_key 5))) = Some (publicKey (sample_key 5))"
  shows "admitted sample_crypto keys (map op_to_js ops) ops"
proof -
  have v: "validateOp (op_to_js p) = Inr p" if "p \<in> set ops" for p
    using sample_ops assms(1) that by blast
  then have "map_res validateOp (map op_to_js ops) = Inr ops" by (simp add: map_res_op_to_js)
  moreover have "\<exists>pk. map_of keys (o_device p) = Some pk \<and> verifyOp sample_crypto p pk" if "p \<in> set ops" for p
  proof -
    have "p \<in> {op_one, op_two}" using assms(1) that by blast
    then have "o_device p = deviceIdFromPublicKey sample_crypto (publicKey (sample_key 5))"
      "verifyOp sample_crypto p (publicKey (sample_key 5))" using sample_ops by blast+
    with assms(3) show ?thesis by simp
  qed
  ultimately show ?thesis using assms(2) by (simp add: admitted_def MAX_BATCH_OPS_def)
qed

lemma sample_apply:
  assumes "set ops \<subseteq> {op_one, op_two}" "length ops \<le> 1000" "c_millis (e_clock e) \<le> 1000000"
    "map_of (e_keys e) (deviceIdFromPublicKey sample_crypto (publicKey (sample_key 5))) = Some (publicKey (sample_key 5))"
  shows "\<exists>n e'. applyRemoteOps memory_adapter sample_crypto 1000 (map op_to_js ops) e = (Inr n, e')"
proof (rule memory_accepts.apply_total[OF TrueI sample_admitted[OF assms(1,2,4)] MAX_MILLIS_large[OF assms(3)] MAX_MILLIS_large, unfolded simp_thms])
  show "(1000 :: nat) \<le> 1000000" by simp
  show "\<forall>p \<in> set ops. \<exists>h. decodeHlc (o_hlc p) = Inr h \<and> millis h < MAX_MILLIS \<and> millis h \<le> 1000 + MAX_DRIFT_MS"
    using sample_ops assms(1) by blast
qed

lemma sample_wf: "set ops \<subseteq> {op_one, op_two} \<Longrightarrow> \<forall>v \<in> set (map op_to_js ops). wf_val v"
  using sample_ops by auto

lemma sample_batch_ops: "set ops \<subseteq> {op_one, op_two} \<Longrightarrow> batch_ops (map op_to_js ops) = ops"
  using sample_ops by (intro batch_ops_own) blast

lemma sample_meeting_clock: "c_millis (e_clock (meeting b 5)) \<le> 1000000"
  by (simp add: sample_clock_zero)

lemma receive_millis: "c_millis (snd (receive pt h c)) \<le> max (max (c_millis c) (millis h)) pt + 1"
  by (auto simp: receive_def Let_def rollover_def double_succ_def)

lemma commit_clock: "commit S ps og e = (r, e') \<Longrightarrow> e_clock e' = e_clock e"
  by (auto simp: commit_def bind_act_def on_store_def modify_def Let_def split: prod.splits sum.splits)

lemma persist_clock_clock: "persist_clock S e = (r, e') \<Longrightarrow> e_clock e' = e_clock e"
  by (auto simp: persist_clock_def on_store_def split: prod.splits)

lemma bind_ret_state: "bind_act m (\<lambda>_. ret k) e = (r, e') \<Longrightarrow> \<exists>q. m e = (q, e')"
  by (auto simp: bind_act_def ret_def split: prod.splits sum.splits)

lemma applyRemoteOps_clock:
  assumes adm: "admitted C (e_keys e) raw ops" and m: "max_op ops = Some m" and h: "decodeHlc (o_hlc m) = Inr h"
    and run: "applyRemoteOps S C pt raw e = (r, e')"
  shows "e_clock e' = snd (receive (time_value pt) h (e_clock e))"
proof -
  obtain r1 e1 where rcv: "receive_stamp pt (o_hlc m) e = (r1, e1)" by fastforce
  then have e1: "e_clock e1 = snd (receive (time_value pt) h (e_clock e))"
    by (auto simp: receive_stamp_def bind_act_eq lift_res_def h on_clock_def ret_def Let_def split: prod.splits sum.splits)
  show ?thesis
  proof (cases r1)
    case (Inl x)
    then show ?thesis using run rcv e1 unfolding applyRemoteOps_admitted[OF adm] m by simp
  next
    case (Inr u)
    define fr where "fr = fresh_ops S (e_store e1) ops"
    have "(if fr = [] then bind_act (persist_clock S) (\<lambda>_. ret 0) e1
        else bind_act (commit S fr Remote) (\<lambda>_. ret (length fr)) e1) = (r, e')"
      using run rcv Inr unfolding applyRemoteOps_admitted[OF adm] m fr_def by simp
    then consider "bind_act (persist_clock S) (\<lambda>_. ret 0) e1 = (r, e')"
      | "bind_act (commit S fr Remote) (\<lambda>_. ret (length fr)) e1 = (r, e')"
      by (cases "fr = []") auto
    then have "e_clock e' = e_clock e1"
    proof cases
      case 1
      from bind_ret_state[OF this] persist_clock_clock show ?thesis by blast
    next
      case 2
      from bind_ret_state[OF this] commit_clock show ?thesis by blast
    qed
    with e1 show ?thesis by simp
  qed
qed

lemma sample_apply_single:
  assumes p: "p \<in> {op_one, op_two}"
  obtains a where "applyRemoteOps memory_adapter sample_crypto 1000 (map op_to_js [p]) (meeting b 5) = (Inr 1, a)"
    "mem_reachable sample_crypto K a" "ran (r_log (mem_view (e_store a))) = {p}"
    "r_log (mem_view (e_store a)) (o_id p) = Some p" "c_millis (e_clock a) \<le> 1000000"
    "e_keys a = e_keys (meeting b 5)" "e_deviceId a = e_deviceId (meeting b 5)"
proof -
  let ?e = "meeting b 5"
  have sub: "set [p] \<subseteq> {op_one, op_two}" using p by simp
  obtain n a where one: "applyRemoteOps memory_adapter sample_crypto 1000 (map op_to_js [p]) ?e = (Inr n, a)"
    using sample_apply[OF sub _ sample_meeting_clock meeting_simps(3), of b] by auto
  have good: "mem.good sample_crypto ?e" using mem_reachable_good[OF meeting_reachable] by blast
  note wf = sample_wf[OF sub]
  have ops: "batch_ops (map op_to_js [p]) = [p]" by (rule sample_batch_ops[OF sub])
  have adm: "admitted sample_crypto (e_keys ?e) (map op_to_js [p]) [p]" by (rule sample_admitted[OF sub]) simp_all
  note A = mem.applyRemoteOps_spec[OF good wf adm one]
  have reach: "mem_reachable sample_crypto K a"
    by (rule reachable.step[OF meeting_reachable engine_step.remote[OF wf one]])
  have log: "ran (r_log (mem_view (e_store a))) = {p}"
    using mem.applyRemoteOps_log(2)[OF good wf one] ops by (simp add: sample_log_empty)
  have "fresh_ops memory_adapter (e_store ?e) [p] = [p]"
    by (simp add: fresh_ops_def sample_engine_def Let_def memory_adapter_def mem_hasOp_def new_memory_def)
  then have n: "n = 1" using A(5)[OF refl] by simp
  have "wf_log (r_log (mem_view (e_store a)))" using mem.good_wf_log mem_reachable_good[OF reach] by blast
  moreover have "o_id p = o_hlc p" using p by (auto simp: op_one_def op_two_def sample_op_def)
  ultimately have known: "r_log (mem_view (e_store a)) (o_id p) = Some p"
    using wf_log_ran[of "r_log (mem_view (e_store a))" p] log by simp
  obtain h where h: "decodeHlc (o_hlc p) = Inr h" "millis h \<le> 2"
    using p sample_op_facts(4)[of 1 "js ''x''" 5] sample_op_facts(4)[of 2 "js ''y''" 5]
    by (auto simp: op_one_def op_two_def)
  have max: "max_op [p] = Some p" by (simp add: max_op_def)
  have "e_clock a = snd (receive 1000 h (e_clock ?e))"
    using applyRemoteOps_clock[OF adm max h(1) one] by (simp add: time_value_def)
  then have clk: "c_millis (e_clock a) \<le> 1000000"
    using receive_millis[of 1000 h "e_clock ?e"] h by (simp add: sample_clock_zero)
  have "e_deviceId a = e_deviceId ?e" using A(4) by (simp only: e_deviceId_def)
  with one n reach log known clk A(2) show ?thesis by (intro that[of a]) simp_all
qed

lemma sample_one_batch:
  assumes "set ops \<subseteq> {op_one, op_two}" "length ops \<le> 1000"
  shows "\<exists>e'. apply_all memory_adapter sample_crypto [sample_batch ops] (meeting b 5) = Some e'"
proof -
  obtain n e' where "applyRemoteOps memory_adapter sample_crypto 1000 (map op_to_js ops) (meeting b 5) = (Inr n, e')"
    using sample_apply[OF assms sample_meeting_clock meeting_simps(3)] by blast
  then show ?thesis by (simp add: sample_batch_def)
qed

section \<open>Properties\<close>

text \<open>C2. In every reachable state of an engine the materialized cells are a function of the log:
each cell holds the operation with the greatest timestamp among the logged writes to it and no
cell exists without one. Every logged operation is well formed, validates again when it is sent on, is filed under its timestamp,
passed by the frontier, not ahead of the engine's clock, and signed by a key that hashes to its
author's device id.\<close>

theorem reachable_replica:
  assumes "mem_reachable C K e"
  shows "is_winner (ran (r_log (mem_view (e_store e)))) x (r_cells (mem_view (e_store e)) x) \<and>
    (r_log (mem_view (e_store e)) i = Some p \<longrightarrow>
       o_id p = i \<and> o_hlc p = i \<and> valid_op p \<and> validateOp (op_to_js p) = Inr p \<and> \<not> aboveFrontier p (r_front (mem_view (e_store e))) \<and>
       stamp_le (o_hlc p) (clock_tick (e_clock e)) \<and>
       (\<exists>pk. deviceIdFromPublicKey C pk = o_device p \<and> verifyOp C p pk))"
proof -
  have good: "mem.good C e" using mem_reachable_good[OF assms] by blast
  then have ok: "engine_ok C (mem_view (e_store e)) e" by (simp add: mem.good_def)
  have cons: "consistent (mem_view (e_store e))" by (rule engine_okD(2)[OF ok])
  have wf: "wf_log (r_log (mem_view (e_store e)))" using cons by (simp add: consistent_def)
  have "is_winner (ran (r_log (mem_view (e_store e)))) x (r_cells (mem_view (e_store e)) x)"
    using cons by (intro lww_cellsD) (simp add: consistent_def)
  moreover have "o_id p = i \<and> o_hlc p = i \<and> valid_op p \<and> validateOp (op_to_js p) = Inr p \<and> \<not> aboveFrontier p (r_front (mem_view (e_store e))) \<and>
       stamp_le (o_hlc p) (clock_tick (e_clock e)) \<and>
       (\<exists>pk. deviceIdFromPublicKey C pk = o_device p \<and> verifyOp C p pk)"
    if i: "r_log (mem_view (e_store e)) i = Some p"
  proof -
    have ran: "p \<in> ran (r_log (mem_view (e_store e)))" using i by (rule ranI)
    have "passed (map_of (r_front (mem_view (e_store e)))) p" using cons ran by (simp add: consistent_def)
    then show ?thesis
      using wf_logD[OF wf i] engine_okD(4)[OF ok ran] engine_ok_logged_stamp[OF ok ran]
      by (simp add: passed_iff_not_above acceptable_def)
  qed
  ultimately show ?thesis by blast
qed

theorem reachable_replica_witness:
  "\<exists>e'. apply_all memory_adapter sample_crypto [sample_batch [op_one]] (meeting 7 5) = Some e' \<and>
     is_winner (ran (r_log (mem_view (e_store e')))) (js ''t'', replicate 26 48, js ''a'')
       (r_cells (mem_view (e_store e')) (js ''t'', replicate 26 48, js ''a''))"
proof -
  obtain n e' where run: "applyRemoteOps memory_adapter sample_crypto 1000 (map op_to_js [op_one]) (meeting 7 5) = (Inr n, e')"
    using sample_apply[of "[op_one]", OF _ _ sample_meeting_clock meeting_simps(3)] by fastforce
  have "mem_reachable sample_crypto None e'"
    by (rule reachable.step[OF meeting_reachable engine_step.remote[OF sample_wf run]]) simp
  from reachable_replica[OF this] run show ?thesis by (auto simp: sample_batch_def)
qed

text \<open>C1. Strong convergence: two engines that start from the same log and accept the same
operations, in any order, in any batches and with any repetition, end with the same log and the
same visible state.\<close>

theorem strong_convergence:
  assumes "mem_reachable C K a" "mem_reachable C K b"
    "r_log (mem_view (e_store a)) = r_log (mem_view (e_store b))"
    "wf_batches bs" "wf_batches cs"
    "apply_all memory_adapter C bs a = Some a'" "apply_all memory_adapter C cs b = Some b'"
    "ops_of bs = ops_of cs" "inj_on o_id (ran (r_log (mem_view (e_store a))) \<union> ops_of bs)"
  shows "r_log (mem_view (e_store a')) = r_log (mem_view (e_store b')) \<and>
    same_result same_state (dump memory_adapter K a') (dump memory_adapter K b')"
  using mem2.converge_all[OF _ _ assms(3-9)] mem_reachable_good[OF assms(1)] mem_reachable_good[OF assms(2)]
  by blast

theorem strong_convergence_witness:
  "\<exists>a' b'. apply_all memory_adapter sample_crypto [sample_batch [op_one, op_two]] (meeting 7 5) = Some a' \<and>
     apply_all memory_adapter sample_crypto [sample_batch [op_two, op_one, op_two]] (meeting 9 5) = Some b' \<and>
     same_result same_state (dump memory_adapter None a') (dump memory_adapter None b')"
proof -
  obtain a' where a: "apply_all memory_adapter sample_crypto [sample_batch [op_one, op_two]] (meeting 7 5) = Some a'"
    using sample_one_batch[of "[op_one, op_two]"] by auto
  obtain b' where b: "apply_all memory_adapter sample_crypto [sample_batch [op_two, op_one, op_two]] (meeting 9 5) = Some b'"
    using sample_one_batch[of "[op_two, op_one, op_two]"] by auto
  have log: "r_log (mem_view (e_store (meeting 7 5))) = r_log (mem_view (e_store (meeting 9 5)))"
    by (simp add: sample_log_empty)
  have wf: "wf_batches [sample_batch [op_one, op_two]]" "wf_batches [sample_batch [op_two, op_one, op_two]]"
    using sample_wf[of "[op_one, op_two]"] by (simp_all add: wf_batches_def sample_batch_def)
  have ops: "ops_of [sample_batch [op_one, op_two]] = {op_one, op_two}"
    "ops_of [sample_batch [op_two, op_one, op_two]] = {op_one, op_two}"
    using sample_batch_ops[of "[op_one, op_two]"] sample_batch_ops[of "[op_two, op_one, op_two]"]
    by (auto simp: ops_of_def sample_batch_def)
  have "inj_on o_id (ran (r_log (mem_view (e_store (meeting 7 5)))) \<union> ops_of [sample_batch [op_one, op_two]])"
    unfolding ops using op_one_two(2) by (auto simp: sample_log_empty inj_on_def)
  from strong_convergence[OF meeting_reachable meeting_reachable log wf a b _ this] ops a b
  show ?thesis by blast
qed

text \<open>Merging is idempotent: a batch whose operations are all in the log applies nothing and
leaves log, winners and frontier as they are.\<close>

theorem apply_idempotent:
  assumes "mem_reachable C K e" "\<forall>v \<in> set raw. wf_val v"
    "applyRemoteOps memory_adapter C pt raw e = (Inr n, e')"
    "\<forall>p \<in> set (batch_ops raw). r_log (mem_view (e_store e)) (o_id p) \<noteq> None"
  shows "n = 0 \<and> r_log (mem_view (e_store e')) = r_log (mem_view (e_store e)) \<and>
    r_cells (mem_view (e_store e')) = r_cells (mem_view (e_store e)) \<and>
    r_front (mem_view (e_store e')) = r_front (mem_view (e_store e))"
  using mem.applyRemoteOps_again[OF _ assms(2-4)] mem_reachable_good[OF assms(1)] by blast

theorem apply_idempotent_witness:
  "\<exists>a b. applyRemoteOps memory_adapter sample_crypto 1000 (map op_to_js [op_one]) (meeting 7 5) = (Inr 1, a) \<and>
     applyRemoteOps memory_adapter sample_crypto 1000 (map op_to_js [op_one, op_one]) a = (Inr 0, b)"
proof -
  obtain a where one: "applyRemoteOps memory_adapter sample_crypto 1000 (map op_to_js [op_one]) (meeting 7 5) = (Inr 1, a)"
    and reach: "mem_reachable sample_crypto None a" and known: "r_log (mem_view (e_store a)) (o_id op_one) = Some op_one"
    and clk: "c_millis (e_clock a) \<le> 1000000" and keys: "e_keys a = e_keys (meeting 7 5)"
    by (rule sample_apply_single[of op_one 7]) simp
  have wf: "\<forall>v \<in> set (map op_to_js [op_one, op_one]). wf_val v" by (rule sample_wf) simp
  have "batch_ops (map op_to_js [op_one, op_one]) = [op_one, op_one]" by (rule sample_batch_ops) simp
  then have known': "\<forall>p \<in> set (batch_ops (map op_to_js [op_one, op_one])). r_log (mem_view (e_store a)) (o_id p) \<noteq> None"
    using known by simp
  obtain m b where two: "applyRemoteOps memory_adapter sample_crypto 1000 (map op_to_js [op_one, op_one]) a = (Inr m, b)"
    using sample_apply[of "[op_one, op_one]", OF _ _ clk] keys by fastforce
  from apply_idempotent[OF reach wf two known'] one two show ?thesis by blast
qed

text \<open>C3. Nothing unauthenticated enters: a batch with an operation whose device has no known key,
or whose signature that key does not verify, is refused as a whole and leaves the engine, its
clock included, exactly as it was.\<close>

theorem forged_batch_refused:
  assumes "v \<in> set raw" "validateOp v = Inr p"
    "\<forall>pk. map_of (e_keys e) (o_device p) = Some pk \<longrightarrow> \<not> verifyOp C p pk"
  shows "\<exists>x. applyRemoteOps memory_adapter C pt raw e = (Inl x, e)"
proof (rule applyRemoteOps_rejected)
  show "\<nexists>ops. admitted C (e_keys e) raw ops"
  proof
    assume "\<exists>ops. admitted C (e_keys e) raw ops"
    then obtain ops where ops: "admitted C (e_keys e) raw ops" ..
    then have "p \<in> set ops"
      using assms(1,2) by (fastforce simp: admitted_def map_res_eq_Inr list_all2_conv_all_nth in_set_conv_nth)
    with ops assms(3) show False by (auto simp: admitted_def)
  qed
qed

theorem forged_batch_refused_witness:
  "\<exists>x. applyRemoteOps memory_adapter sample_crypto 1000 [op_to_js op_one] (sample_engine 7) = (Inl x, sample_engine 7)"
proof (rule forged_batch_refused)
  show "op_to_js op_one \<in> set [op_to_js op_one]" by simp
  show "validateOp (op_to_js op_one) = Inr op_one" using sample_ops by blast
  have "deviceIdFromPublicKey sample_crypto (publicKey (sample_key 5)) \<noteq>
      deviceIdFromPublicKey sample_crypto (publicKey (sample_key 7))"
  proof
    assume "deviceIdFromPublicKey sample_crypto (publicKey (sample_key 5)) =
      deviceIdFromPublicKey sample_crypto (publicKey (sample_key 7))"
    from deviceId_inject[OF this] show False by (simp add: sample_crypto_def sample_key_def)
  qed
  moreover have "o_device op_one = deviceIdFromPublicKey sample_crypto (publicKey (sample_key 5))"
    using sample_ops by blast
  ultimately show "\<forall>pk. map_of (e_keys (sample_engine 7)) (o_device op_one) = Some pk \<longrightarrow> \<not> verifyOp sample_crypto op_one pk"
    by (simp add: sample_engine_def Let_def)
qed

end
