(* ===== verification/Replicator.thy ===== *)
theory Replicator
  imports Engine
begin

text \<open>
  The replicator of core/src/replicator.ts (PROTOCOL.md section 6): the wire messages, and one
  replica's side of the protocol over a message bus. The state is a record; what is handed to
  the transport and to the event callbacks is kept as traces. The asynchronous functions are
  cut at their awaits; \<open>deliver\<close>, \<open>start\<close> and \<open>peer_connected\<close> run them undisturbed, and
  Replicator_Tasks interleaves them.
\<close>

section \<open>Messages\<close>

definition WIRE_VERSION :: nat where "WIRE_VERSION = 2"
definition OPS_PER_MESSAGE :: nat where "OPS_PER_MESSAGE = 500"

text \<open>
  The operations of a received message are untrusted values; a hello of an older client may
  lack its key. \<open>to\<close> is optional where the type says so.
\<close>

datatype wire_body =
    Hello (hello_clock: jsstring) (hello_key: "jsstring option")
  | Keys (keys_to: "jsstring option") (keys_of: "(jsstring, jsstring) jsmap")
  | Since (since_to: jsstring) (since_have: frontier)
  | Ops (ops_to: "jsstring option") (ops_raw: "jsval list")
  | Ack (ack_to: jsstring) (ack_frontier: frontier)

record wire =
  w_v :: nat
  w_space :: jsstring
  w_from :: jsstring
  w_body :: wire_body

text \<open>The field \<open>to\<close> of a message, if it has one.\<close>

fun addressee :: "wire_body \<Rightarrow> jsstring option" where
  "addressee (Hello c k) = None"
| "addressee (Keys to ks) = to"
| "addressee (Since to f) = Some to"
| "addressee (Ops to ops) = to"
| "addressee (Ack to f) = Some to"

section \<open>State\<close>

datatype subscription = OnMessage | OnPeerConnect | OnChange

record 's replicator =
  rp_engine :: "'s engine"
  rp_started :: bool
  rp_unsubs :: "subscription list"
  rp_peers :: "(jsstring, frontier option) jsmap"
  rp_sent :: "wire list"
  rp_peersChanges :: "jsstring list list"
  rp_errors :: "(js_error \<times> jsstring) list"

text \<open>The options: the space, and whether the transport reports new peer links.\<close>

record replicator_opts =
  ro_space :: jsstring
  ro_links :: bool

definition new_replicator :: "'s engine \<Rightarrow> 's replicator" where
  "new_replicator e = \<lparr>rp_engine = e, rp_started = False, rp_unsubs = [], rp_peers = [], rp_sent = [],
     rp_peersChanges = [], rp_errors = []\<rparr>"

definition peerIds :: "'s replicator \<Rightarrow> jsstring list" where
  "peerIds r = map fst (rp_peers r)"

definition peers_change :: "('s replicator, unit) act" where
  "peers_change = modify (\<lambda>r. r\<lparr>rp_peersChanges := rp_peersChanges r @ [peerIds r]\<rparr>)"

section \<open>Sending\<close>

function chunks_from :: "nat \<Rightarrow> 'a list \<Rightarrow> nat \<Rightarrow> 'a list list" where
  "chunks_from i arr sz =
     (if i < length arr \<and> 0 < sz then take sz (drop i arr) # chunks_from (i + sz) arr sz else [])"
  by pat_completeness auto
termination by (relation "measure (\<lambda>(i, arr, sz). length arr - i)") auto

declare chunks_from.simps [simp del]

definition chunks :: "'a list \<Rightarrow> nat \<Rightarrow> 'a list list" where
  "chunks arr sz = chunks_from 0 arr sz"

definition zeroClock :: "jsstring \<Rightarrow> jsstring" where
  "zeroClock d = replicate 12 48 @ js ''-0000-'' @ d"

definition msg :: "replicator_opts \<Rightarrow> 's engine \<Rightarrow> wire_body \<Rightarrow> wire" where
  "msg ro e body = \<lparr>w_v = WIRE_VERSION, w_space = ro_space ro, w_from = e_deviceId e, w_body = body\<rparr>"

definition send :: "replicator_opts \<Rightarrow> wire_body \<Rightarrow> ('s replicator, unit) act" where
  "send ro body = modify (\<lambda>r. r\<lparr>rp_sent := rp_sent r @ [msg ro (rp_engine r) body]\<rparr>)"

definition send_all :: "replicator_opts \<Rightarrow> wire_body list \<Rightarrow> ('s replicator, unit) act" where
  "send_all ro bodies = modify (\<lambda>r. r\<lparr>rp_sent := rp_sent r @ map (msg ro (rp_engine r)) bodies\<rparr>)"

definition send_hello :: "replicator_opts \<Rightarrow> op list \<Rightarrow> ('s replicator, unit) act" where
  "send_hello ro ops = (\<lambda>r.
     let latest = (if ops = [] then zeroClock (e_deviceId (rp_engine r)) else o_hlc (last ops))
     in send ro (Hello latest (Some (hex (publicKey (e_deviceKey (rp_engine r)))))) r)"

definition sendKeys :: "replicator_opts \<Rightarrow> jsstring option \<Rightarrow> ('s replicator, unit) act" where
  "sendKeys ro to = (\<lambda>r. send ro (Keys to (map (\<lambda>(d, k). (d, hex k)) (e_keys (rp_engine r)))) r)"

section \<open>Live tail\<close>

text \<open>What the subscriber sends for one change event.\<close>

definition tail_bodies :: "change_event \<Rightarrow> wire_body list" where
  "tail_bodies ev =
     (if ev_origin ev \<noteq> Local \<or> ev_ops ev = [] then []
      else map (\<lambda>ch. Ops None (map op_to_js ch)) (chunks (ev_ops ev) OPS_PER_MESSAGE))"

text \<open>A call on the engine; the events it emits reach the subscriber, if there is one.\<close>

definition on_engine :: "replicator_opts \<Rightarrow> ('s engine, 'a) act \<Rightarrow> ('s replicator, 'a) act" where
  "on_engine ro m = (\<lambda>r.
     let (res, e) = m (rp_engine r);
         new = drop (length (e_events (rp_engine r))) (e_events e);
         bodies = (if OnChange \<in> set (rp_unsubs r) then concat (map tail_bodies new) else [])
     in bind_act (send_all ro bodies) (\<lambda>_. lift_res res) (r\<lparr>rp_engine := e\<rparr>))"

section \<open>Waiting points\<close>

text \<open>
  \<open>handle\<close>, \<open>start\<close> and \<open>sendHello\<close> are asynchronous: they run up to an \<^verbatim>\<open>await\<close>, and whatever else
  happens before the awaited promise is settled happens in between. A \<open>point\<close> is one \<^verbatim>\<open>await\<close> with
  the variables that are still needed after it. \<open>ask\<close> is what is awaited, a turn of the engine's lock
  (nothing for the helpers that have already done their work), and \<open>proceed\<close> the code from there to
  the next \<^verbatim>\<open>await\<close> or to the end.
\<close>

datatype point =
    Greeting
  | Hello_Clock jsstring jsstring
  | Hello_Greeting jsstring
  | Hello_Greeted jsstring
  | Hello_Keys jsstring
  | Hello_Frontier jsstring
  | Since_Record jsstring frontier
  | Since_Missing jsstring frontier
  | Since_Keys jsstring "op list"
  | Ops_Apply jsstring "jsval list"
  | Ops_Frontier jsstring
  | Ack_Record jsstring frontier

datatype reply = Returned | Applied nat | Found "op list" | Have frontier

text \<open>Whose message is handled; the greeting of \<open>start\<close> and of a new link handles none.\<close>

fun point_from :: "point \<Rightarrow> jsstring option" where
  "point_from Greeting = None"
| "point_from (Hello_Clock from clock) = Some from"
| "point_from (Hello_Greeting from) = Some from"
| "point_from (Hello_Greeted from) = Some from"
| "point_from (Hello_Keys from) = Some from"
| "point_from (Hello_Frontier from) = Some from"
| "point_from (Since_Record from have) = Some from"
| "point_from (Since_Missing from have) = Some from"
| "point_from (Since_Keys from missing) = Some from"
| "point_from (Ops_Apply from raw) = Some from"
| "point_from (Ops_Frontier from) = Some from"
| "point_from (Ack_Record from f) = Some from"

definition unit_reply :: "('s engine, unit) act \<Rightarrow> ('s engine, reply) act" where
  "unit_reply m = bind_act m (\<lambda>_. ret Returned)"

fun ask :: "'s storage_ops \<Rightarrow> crypto \<Rightarrow> nat \<Rightarrow> point \<Rightarrow> ('s engine, reply) act" where
  "ask S C pt Greeting = gets (\<lambda>e. Found (engine_opsSince S [] e))"
| "ask S C pt (Hello_Clock from clock) = unit_reply (observeRemoteClock S pt clock)"
| "ask S C pt (Hello_Greeting from) = gets (\<lambda>e. Found (engine_opsSince S [] e))"
| "ask S C pt (Hello_Greeted from) = ret Returned"
| "ask S C pt (Hello_Keys from) = ret Returned"
| "ask S C pt (Hello_Frontier from) = gets (\<lambda>e. Have (engine_frontier S e))"
| "ask S C pt (Since_Record from have) = unit_reply (recordPeerFrontier S from have)"
| "ask S C pt (Since_Missing from have) = gets (\<lambda>e. Found (engine_opsSince S have e))"
| "ask S C pt (Since_Keys from missing) = ret Returned"
| "ask S C pt (Ops_Apply from raw) = bind_act (applyRemoteOps S C pt raw) (\<lambda>n. ret (Applied n))"
| "ask S C pt (Ops_Frontier from) = gets (\<lambda>e. Have (engine_frontier S e))"
| "ask S C pt (Ack_Record from f) = unit_reply (recordPeerFrontier S from f)"

definition set_peer :: "jsstring \<Rightarrow> frontier option \<Rightarrow> ('s replicator, unit) act" where
  "set_peer p f = modify (\<lambda>r. r\<lparr>rp_peers := map_set p f (rp_peers r)\<rparr>)"

definition send_missing :: "replicator_opts \<Rightarrow> jsstring \<Rightarrow> op list \<Rightarrow> ('s replicator, unit) act" where
  "send_missing ro from missing =
     send_all ro (map (\<lambda>ch. Ops (Some from) (map op_to_js ch)) (chunks missing OPS_PER_MESSAGE))"

text \<open>The result is the next point, or nothing when the function has returned.\<close>

fun proceed :: "replicator_opts \<Rightarrow> point \<Rightarrow> reply \<Rightarrow> ('s replicator, point option) act" where
  "proceed ro Greeting (Found ops) = bind_act (send_hello ro ops) (\<lambda>_. ret None)"
| "proceed ro (Hello_Clock from clock) Returned =
     bind_act (gets (\<lambda>r. map_of (rp_peers r) from = None)) (\<lambda>isNew.
     if isNew
     then bind_act (set_peer from None) (\<lambda>_. bind_act peers_change (\<lambda>_. ret (Some (Hello_Greeting from))))
     else bind_act (sendKeys ro (Some from)) (\<lambda>_. ret (Some (Hello_Keys from))))"
| "proceed ro (Hello_Greeting from) (Found ops) = bind_act (send_hello ro ops) (\<lambda>_. ret (Some (Hello_Greeted from)))"
| "proceed ro (Hello_Greeted from) Returned = bind_act (sendKeys ro (Some from)) (\<lambda>_. ret (Some (Hello_Keys from)))"
| "proceed ro (Hello_Keys from) Returned = ret (Some (Hello_Frontier from))"
| "proceed ro (Hello_Frontier from) (Have have) = bind_act (send ro (Since from have)) (\<lambda>_. ret None)"
| "proceed ro (Since_Record from have) Returned = ret (Some (Since_Missing from have))"
| "proceed ro (Since_Missing from have) (Found missing) =
     (if 0 < length missing
      then bind_act (sendKeys ro (Some from)) (\<lambda>_. ret (Some (Since_Keys from missing)))
      else bind_act (send_missing ro from missing) (\<lambda>_. ret None))"
| "proceed ro (Since_Keys from missing) Returned = bind_act (send_missing ro from missing) (\<lambda>_. ret None)"
| "proceed ro (Ops_Apply from raw) (Applied applied) =
     (if 0 < applied then ret (Some (Ops_Frontier from)) else ret None)"
| "proceed ro (Ops_Frontier from) (Have f) = bind_act (send ro (Ack from f)) (\<lambda>_. ret None)"
| "proceed ro (Ack_Record from f) Returned = ret None"
| "proceed ro _ _ = ret None"

section \<open>Start and stop\<close>

text \<open>The part of \<open>start\<close> before its \<^verbatim>\<open>await\<close>.\<close>

definition rp_subscribe :: "replicator_opts \<Rightarrow> 's replicator \<Rightarrow> 's replicator" where
  "rp_subscribe ro r = r\<lparr>rp_started := True,
     rp_unsubs := rp_unsubs r @ [OnMessage] @ (if ro_links ro then [OnPeerConnect] else []) @ [OnChange]\<rparr>"

definition stop :: "('s replicator, unit) act" where
  "stop = bind_act (modify (\<lambda>r. r\<lparr>rp_started := False, rp_unsubs := [], rp_peers := []\<rparr>)) (\<lambda>_. peers_change)"

section \<open>Receiving\<close>

definition learn_hex :: "crypto \<Rightarrow> (jsstring, jsstring) jsmap \<Rightarrow> 's engine \<Rightarrow> 's engine" where
  "learn_hex C ks e = fold (\<lambda>(d, k) e. snd (learnKey C d (unhex k) e)) ks e"

text \<open>The messages \<open>handle\<close> looks at.\<close>

definition relevant :: "replicator_opts \<Rightarrow> 's replicator \<Rightarrow> wire \<Rightarrow> bool" where
  "relevant ro r m \<longleftrightarrow>
     rp_started r \<and> w_space m = ro_space ro \<and> w_v m = WIRE_VERSION \<and>
     w_from m \<noteq> e_deviceId (rp_engine r) \<and>
     (case addressee (w_body m) of None \<Rightarrow> True | Some to \<Rightarrow> to = e_deviceId (rp_engine r))"

text \<open>
  What a transport passes on is whatever the other side sent: a message, or \<^verbatim>\<open>null\<close>, whose fields
  cannot be read: \<^verbatim>\<open>msg.space\<close> throws in the \<^verbatim>\<open>try\<close>, and \<^verbatim>\<open>msg.from\<close> throws again in the \<^verbatim>\<open>catch\<close>,
  so that the promise of \<open>handle\<close> rejects. (Another value without fields fails the first guard, as does
  a message of another space.)
\<close>

datatype inbound = NullMsg | Msg wire

definition null_error :: js_error where
  "null_error = Error (js ''Cannot read properties of null (reading from)'')"

text \<open>\<open>handle\<close> up to its first \<^verbatim>\<open>await\<close>; \<open>Inl\<close> is a promise that rejects.\<close>

definition handle :: "crypto \<Rightarrow> replicator_opts \<Rightarrow> inbound \<Rightarrow> ('s replicator, point option) act" where
  "handle C ro x = (\<lambda>r.
     if \<not> rp_started r then (Inr None, r)
     else (case x of
       NullMsg \<Rightarrow> (Inl null_error, r)
     | Msg m \<Rightarrow>
        if \<not> relevant ro r m then (Inr None, r)
        else (case w_body m of
           Hello clock key \<Rightarrow> (Inr (Some (Hello_Clock (w_from m) clock)), (case key of None \<Rightarrow> r
             | Some k \<Rightarrow> r\<lparr>rp_engine := snd (learnKey C (w_from m) (unhex k) (rp_engine r))\<rparr>))
         | Keys to ks \<Rightarrow> (Inr None, r\<lparr>rp_engine := learn_hex C ks (rp_engine r)\<rparr>)
         | Since to have \<Rightarrow> bind_act (set_peer (w_from m) (Some have)) (\<lambda>_. ret (Some (Since_Record (w_from m) have))) r
         | Ops to raw \<Rightarrow> (Inr (if raw = [] then None else Some (Ops_Apply (w_from m) raw)), r)
         | Ack to f \<Rightarrow> bind_act (set_peer (w_from m) (Some f)) (\<lambda>_. ret (Some (Ack_Record (w_from m) f))) r)))"

text \<open>A settled point: the code goes on, or the rejection reaches the \<^verbatim>\<open>catch\<close> of \<open>handle\<close>.\<close>

definition settle :: "replicator_opts \<Rightarrow> point \<Rightarrow> reply result \<Rightarrow> ('s replicator, point option) act" where
  "settle ro p res = (\<lambda>r. case res of
     Inr x \<Rightarrow> proceed ro p x r
   | Inl err \<Rightarrow> (case point_from p of
       None \<Rightarrow> (Inl err, r)
     | Some from \<Rightarrow> (Inr None, r\<lparr>rp_errors := rp_errors r @ [(err, from)]\<rparr>)))"

section \<open>Undisturbed runs\<close>

text \<open>
  A function that runs to its end with nothing in between: every point is answered at once.
  The number of points still ahead bounds the run.
\<close>

fun ahead :: "point \<Rightarrow> nat" where
  "ahead (Hello_Clock from clock) = 4"
| "ahead (Hello_Greeting from) = 3"
| "ahead (Hello_Greeted from) = 2"
| "ahead (Hello_Keys from) = 1"
| "ahead (Since_Record from have) = 2"
| "ahead (Since_Missing from have) = 1"
| "ahead (Ops_Apply from raw) = 1"
| "ahead _ = 0"

lemma resume_ahead: "proceed ro p x r = (Inr (Some q), r') \<Longrightarrow> ahead q < ahead p"
  by (induction ro p x rule: proceed.induct)
    (auto simp: bind_act_def ret_def gets_def peers_change_def modify_def set_peer_def sendKeys_def send_def
      split: if_splits prod.splits sum.splits)

lemma settle_ahead: "settle ro p res r = (Inr (Some q), r') \<Longrightarrow> ahead q < ahead p"
  by (auto simp: settle_def dest: resume_ahead split: sum.splits option.splits)

function run_task :: "'s storage_ops \<Rightarrow> crypto \<Rightarrow> replicator_opts \<Rightarrow> nat \<Rightarrow> point \<Rightarrow> 's replicator \<Rightarrow>
    unit result \<times> 's replicator" where
  "run_task S C ro pt p r =
     (let (res, r1) = on_engine ro (ask S C pt p) r in
      case settle ro p res r1 of
        (Inl err, r2) \<Rightarrow> (Inl err, r2)
      | (Inr None, r2) \<Rightarrow> (Inr (), r2)
      | (Inr (Some q), r2) \<Rightarrow> run_task S C ro pt q r2)"
  by pat_completeness auto
termination
  by (relation "measure (\<lambda>(S, C, ro, pt, p, r). ahead p)") (auto dest: settle_ahead[OF sym])

declare run_task.simps [simp del]

definition sendHello :: "'s storage_ops \<Rightarrow> replicator_opts \<Rightarrow> ('s replicator, unit) act" where
  "sendHello S ro = (\<lambda>r. send_hello ro (engine_opsSince S [] (rp_engine r)) r)"

definition start :: "'s storage_ops \<Rightarrow> replicator_opts \<Rightarrow> ('s replicator, unit) act" where
  "start S ro = (\<lambda>r. if rp_started r then (Inr (), r) else sendHello S ro (rp_subscribe ro r))"

definition peer_connected :: "'s storage_ops \<Rightarrow> replicator_opts \<Rightarrow> ('s replicator, unit) act" where
  "peer_connected S ro = (\<lambda>r. if OnPeerConnect \<in> set (rp_unsubs r) then sendHello S ro r else (Inr (), r))"

text \<open>The transport calls the handler only while it is registered.\<close>

definition deliver :: "'s storage_ops \<Rightarrow> crypto \<Rightarrow> replicator_opts \<Rightarrow> nat \<Rightarrow> wire \<Rightarrow> ('s replicator, unit) act" where
  "deliver S C ro pt m = (\<lambda>r.
     if OnMessage \<in> set (rp_unsubs r)
     then (case handle C ro (Msg m) r of
        (Inl err, r1) \<Rightarrow> (Inl err, r1)
      | (Inr None, r1) \<Rightarrow> (Inr (), r1)
      | (Inr (Some p), r1) \<Rightarrow> run_task S C ro pt p r1)
     else (Inr (), r))"

end
