(* ===== verification/Replicator_Steps.thy ===== *)
theory Replicator_Steps
  imports Replicator Engine_Steps
begin

text \<open>
  The replicator as a transition system and what every step keeps. A replicator only ever
  drives its engine through the engine's own methods, so whatever arrives on the wire, its
  replica stays a reachable one; the bookkeeping of peers, subscriptions and sent messages is
  an invariant of its own.
\<close>

section \<open>Chunks\<close>

lemma chunks_from_concat: "0 < n \<Longrightarrow> concat (chunks_from i xs n) = drop i xs"
proof (induction i xs n rule: chunks_from.induct)
  case (1 i xs n)
  show ?case
  proof (cases "i < length xs")
    case True
    then have "concat (chunks_from i xs n) = take n (drop i xs) @ drop (i + n) xs"
      using 1 by (subst chunks_from.simps) simp
    then show ?thesis by (metis append_take_drop_id drop_drop add.commute)
  next
    case False
    then show ?thesis by (subst chunks_from.simps) simp
  qed
qed

lemma chunks_from_length: "0 < n \<Longrightarrow> c \<in> set (chunks_from i xs n) \<Longrightarrow> c \<noteq> [] \<and> length c \<le> n"
proof (induction i xs n rule: chunks_from.induct)
  case (1 i xs n)
  then show ?case using chunks_from.simps[of i xs n] by (auto split: if_splits)
qed

lemma chunks_concat: "0 < n \<Longrightarrow> concat (chunks xs n) = xs"
  by (simp add: chunks_def chunks_from_concat)

lemma chunks_length: "0 < n \<Longrightarrow> c \<in> set (chunks xs n) \<Longrightarrow> c \<noteq> [] \<and> length c \<le> n"
  unfolding chunks_def by (rule chunks_from_length)

lemma chunk_mem: "0 < n \<Longrightarrow> c \<in> set (chunks xs n) \<Longrightarrow> x \<in> set c \<Longrightarrow> x \<in> set xs"
proof -
  assume "0 < n" "c \<in> set (chunks xs n)" "x \<in> set c"
  then have "x \<in> set (concat (chunks xs n))" by auto
  then show ?thesis by (simp only: chunks_concat[OF \<open>0 < n\<close>])
qed

section \<open>Preservation by composition\<close>

definition keeps :: "('t \<Rightarrow> bool) \<Rightarrow> ('t, 'a) act \<Rightarrow> bool" where
  "keeps P m \<longleftrightarrow> (\<forall>r. P r \<longrightarrow> P (snd (m r)))"

named_theorems keeps_rules \<open>preservation rules of the action combinators\<close>

lemma keepsI: "(\<And>r. P r \<Longrightarrow> P (snd (m r))) \<Longrightarrow> keeps P m"
  by (simp add: keeps_def)

lemma keepsD: "keeps P m \<Longrightarrow> P r \<Longrightarrow> m r = (res, r') \<Longrightarrow> P r'"
  by (auto simp: keeps_def)

lemma keeps_ret [keeps_rules]: "keeps P (ret x)"
  by (simp add: keeps_def ret_def)

lemma keeps_gets [keeps_rules]: "keeps P (gets f)"
  by (simp add: keeps_def gets_def)

lemma keeps_lift [keeps_rules]: "keeps P (lift_res r)"
  by (simp add: keeps_def lift_res_def)

lemma keeps_bind [keeps_rules]: "keeps P m \<Longrightarrow> (\<And>x. keeps P (f x)) \<Longrightarrow> keeps P (bind_act m f)"
  by (auto simp: keeps_def bind_act_def split: prod.splits sum.splits)

lemma keeps_if [keeps_rules]: "(b \<Longrightarrow> keeps P m) \<Longrightarrow> (\<not> b \<Longrightarrow> keeps P n) \<Longrightarrow> keeps P (if b then m else n)"
  by simp

section \<open>The invariant of a replicator\<close>

text \<open>What it may have sent: its own messages, with batches every engine takes.\<close>

definition own_wire :: "replicator_opts \<Rightarrow> jsstring \<Rightarrow> wire \<Rightarrow> bool" where
  "own_wire ro d m \<longleftrightarrow> w_v m = WIRE_VERSION \<and> w_space m = ro_space ro \<and> w_from m = d \<and>
     (\<forall>to raw. w_body m = Ops to raw \<longrightarrow> raw \<noteq> [] \<and> length raw \<le> MAX_BATCH_OPS)"

definition small_body :: "wire_body \<Rightarrow> bool" where
  "small_body b \<longleftrightarrow> (\<forall>to raw. b = Ops to raw \<longrightarrow> raw \<noteq> [] \<and> length raw \<le> MAX_BATCH_OPS)"

text \<open>\<open>R\<close> is what holds of the engine; \<open>d\<close> its device; \<open>on\<close> whether the replicator is started.\<close>

definition sound :: "bool \<Rightarrow> ('s engine \<Rightarrow> bool) \<Rightarrow> replicator_opts \<Rightarrow> jsstring \<Rightarrow> 's replicator \<Rightarrow> bool" where
  "sound on R ro d r \<longleftrightarrow>
     R (rp_engine r) \<and> (\<forall>e. R e \<longrightarrow> e_deviceId e = d) \<and> d \<notin> fst ` set (rp_peers r) \<and>
     (\<forall>m \<in> set (rp_sent r). own_wire ro d m) \<and> rp_started r = on \<and>
     rp_unsubs r = (if on then [OnMessage] @ (if ro_links ro then [OnPeerConnect] else []) @ [OnChange] else [])"

abbreviation running :: "('s engine \<Rightarrow> bool) \<Rightarrow> replicator_opts \<Rightarrow> jsstring \<Rightarrow> 's replicator \<Rightarrow> bool" where
  "running \<equiv> sound True"

lemma sound_msg: "sound on R ro d r \<Longrightarrow> small_body b \<Longrightarrow> own_wire ro d (msg ro (rp_engine r) b)"
  by (simp add: sound_def own_wire_def msg_def small_body_def)

lemma keeps_send [keeps_rules]: "small_body b \<Longrightarrow> keeps (sound on R ro d) (send ro b)"
  using sound_msg by (fastforce simp: keeps_def send_def modify_def sound_def)

lemma keeps_send_all [keeps_rules]: "\<forall>b \<in> set bs. small_body b \<Longrightarrow> keeps (sound on R ro d) (send_all ro bs)"
proof (rule keepsI)
  fix r assume "\<forall>b \<in> set bs. small_body b" and r: "sound on R ro d r"
  then have "\<forall>m \<in> set (map (msg ro (rp_engine r)) bs). own_wire ro d m" using sound_msg by fastforce
  then show "sound on R ro d (snd (send_all ro bs r))"
    using r by (auto simp: send_all_def modify_def sound_def)
qed

lemma keeps_send_of: "(\<And>r. small_body (g r)) \<Longrightarrow> keeps (sound on R ro d) (\<lambda>r. send ro (g r) r)"
  using keeps_send by (fastforce simp: keeps_def)

lemma keeps_send_hello [keeps_rules]: "keeps (sound on R ro d) (send_hello ro ops)"
  unfolding send_hello_def Let_def by (rule keeps_send_of) (simp add: small_body_def)

lemma keeps_sendHello [keeps_rules]: "keeps (sound on R ro d) (sendHello S ro)"
  using keeps_send_hello by (fastforce simp: keeps_def sendHello_def)

lemma keeps_sendKeys [keeps_rules]: "keeps (sound on R ro d) (sendKeys ro to)"
  unfolding sendKeys_def by (rule keeps_send_of) (simp add: small_body_def)

lemma keeps_peers_change [keeps_rules]: "keeps (sound on R ro d) peers_change"
  by (simp add: keeps_def peers_change_def modify_def sound_def)

lemma keeps_set_peer [keeps_rules]: "p \<noteq> d \<Longrightarrow> keeps (sound on R ro d) (set_peer p f)"
  by (auto simp: keeps_def set_peer_def modify_def sound_def dom_map_of_conv_image_fst[symmetric] domIff)

lemma small_chunks:
  "\<forall>b \<in> set (map (\<lambda>ch. Ops to (map op_to_js ch)) (chunks ops OPS_PER_MESSAGE)). small_body b"
proof
  fix b assume "b \<in> set (map (\<lambda>ch. Ops to (map op_to_js ch)) (chunks ops OPS_PER_MESSAGE))"
  then obtain ch where "ch \<in> set (chunks ops OPS_PER_MESSAGE)" "b = Ops to (map op_to_js ch)" by auto
  then show "small_body b"
    using chunks_length[of OPS_PER_MESSAGE ch ops] by (simp add: small_body_def OPS_PER_MESSAGE_def MAX_BATCH_OPS_def)
qed

lemma small_tail: "b \<in> set (tail_bodies ev) \<Longrightarrow> small_body b"
  using small_chunks[of None "ev_ops ev"] by (auto simp: tail_bodies_def split: if_splits)

lemma sound_engine: "sound on R ro d r \<Longrightarrow> R e \<Longrightarrow> sound on R ro d (r\<lparr>rp_engine := e\<rparr>)"
  by (simp add: sound_def)

lemma keeps_on_engine [keeps_rules]:
  assumes "keeps R m" shows "keeps (sound on R ro d) (on_engine ro m)"
proof (rule keepsI)
  fix r assume r: "sound on R ro d r"
  obtain res e where m: "m (rp_engine r) = (res, e)" by fastforce
  then have "R e" using r keepsD[OF assms _ m] by (simp add: sound_def)
  then have r': "sound on R ro d (r\<lparr>rp_engine := e\<rparr>)" by (rule sound_engine[OF r])
  let ?bs = "if OnChange \<in> set (rp_unsubs r)
    then concat (map tail_bodies (drop (length (e_events (rp_engine r))) (e_events e))) else []"
  have "\<forall>b \<in> set ?bs. small_body b" using small_tail by auto
  then have "keeps (sound on R ro d) (bind_act (send_all ro ?bs) (\<lambda>_. lift_res res))"
    by (intro keeps_rules)
  with r' show "sound on R ro d (snd (on_engine ro m r))" by (simp add: on_engine_def m Let_def keeps_def)
qed

section \<open>Handlers in one piece\<close>

text \<open>
  What an undisturbed run of each handler amounts to. These are not a second model of the code:
  \<open>deliver_eq\<close> derives them from \<open>handle\<close>, \<open>ask\<close> and \<open>proceed\<close>.
\<close>

definition on_hello :: "'s storage_ops \<Rightarrow> crypto \<Rightarrow> replicator_opts \<Rightarrow> nat \<Rightarrow> jsstring \<Rightarrow> jsstring \<Rightarrow>
    jsstring option \<Rightarrow> ('s replicator, unit) act" where
  "on_hello S C ro pt from clock key =
     bind_act (modify (\<lambda>r. case key of None \<Rightarrow> r
       | Some k \<Rightarrow> r\<lparr>rp_engine := snd (learnKey C from (unhex k) (rp_engine r))\<rparr>)) (\<lambda>_.
     bind_act (on_engine ro (observeRemoteClock S pt clock)) (\<lambda>_.
     bind_act (gets (\<lambda>r. map_of (rp_peers r) from = None)) (\<lambda>isNew.
     bind_act (if isNew
         then bind_act (set_peer from None) (\<lambda>_. bind_act peers_change (\<lambda>_. sendHello S ro))
         else ret ()) (\<lambda>_.
     bind_act (sendKeys ro (Some from)) (\<lambda>_.
     bind_act (gets (\<lambda>r. engine_frontier S (rp_engine r))) (\<lambda>have.
     send ro (Since from have)))))))"

definition on_since :: "'s storage_ops \<Rightarrow> replicator_opts \<Rightarrow> jsstring \<Rightarrow> frontier \<Rightarrow> ('s replicator, unit) act" where
  "on_since S ro from have =
     bind_act (set_peer from (Some have)) (\<lambda>_.
     bind_act (on_engine ro (recordPeerFrontier S from have)) (\<lambda>_.
     bind_act (gets (\<lambda>r. engine_opsSince S have (rp_engine r))) (\<lambda>missing.
     bind_act (if 0 < length missing then sendKeys ro (Some from) else ret ()) (\<lambda>_.
     send_missing ro from missing))))"

definition on_ops :: "'s storage_ops \<Rightarrow> crypto \<Rightarrow> replicator_opts \<Rightarrow> nat \<Rightarrow> jsstring \<Rightarrow> jsval list \<Rightarrow>
    ('s replicator, unit) act" where
  "on_ops S C ro pt from raw =
     (if raw = [] then ret ()
      else bind_act (on_engine ro (applyRemoteOps S C pt raw)) (\<lambda>applied.
        if 0 < applied
        then bind_act (gets (\<lambda>r. engine_frontier S (rp_engine r))) (\<lambda>f. send ro (Ack from f))
        else ret ()))"

definition on_ack :: "'s storage_ops \<Rightarrow> replicator_opts \<Rightarrow> jsstring \<Rightarrow> frontier \<Rightarrow> ('s replicator, unit) act" where
  "on_ack S ro from f =
     bind_act (set_peer from (Some f)) (\<lambda>_. on_engine ro (recordPeerFrontier S from f))"

definition handle_body :: "'s storage_ops \<Rightarrow> crypto \<Rightarrow> replicator_opts \<Rightarrow> nat \<Rightarrow> wire \<Rightarrow> ('s replicator, unit) act" where
  "handle_body S C ro pt m =
     (case w_body m of
        Hello clock key \<Rightarrow> on_hello S C ro pt (w_from m) clock key
      | Keys to ks \<Rightarrow> modify (\<lambda>r. r\<lparr>rp_engine := learn_hex C ks (rp_engine r)\<rparr>)
      | Since to have \<Rightarrow> on_since S ro (w_from m) have
      | Ops to raw \<Rightarrow> on_ops S C ro pt (w_from m) raw
      | Ack to f \<Rightarrow> on_ack S ro (w_from m) f)"

definition handled :: "'s storage_ops \<Rightarrow> crypto \<Rightarrow> replicator_opts \<Rightarrow> nat \<Rightarrow> wire \<Rightarrow> ('s replicator, unit) act" where
  "handled S C ro pt m = (\<lambda>r.
     if \<not> relevant ro r m then (Inr (), r)
     else (case handle_body S C ro pt m r of
             (Inl err, r') \<Rightarrow> (Inr (), r'\<lparr>rp_errors := rp_errors r' @ [(err, w_from m)]\<rparr>)
           | (Inr u, r') \<Rightarrow> (Inr (), r')))"

lemma on_engine_same:
  assumes "m (rp_engine r) = (res, rp_engine r)" shows "on_engine ro m r = (res, r)"
  using assms by (simp add: on_engine_def Let_def send_all_def bind_act_eq modify_def lift_res_def)

lemma on_engine_gets [simp]: "on_engine ro (gets f) r = (Inr (f (rp_engine r)), r)"
  by (rule on_engine_same) (simp add: gets_def)

lemma on_engine_ret [simp]: "on_engine ro (ret x) r = (Inr x, r)"
  by (rule on_engine_same) (simp add: ret_def)

lemma ret_run: "ret x r = (Inr x, r)"
  by (simp add: ret_def)

lemma gets_run: "gets f r = (Inr (f r), r)"
  by (simp add: gets_def)

lemma bind_left: "m r = (Inl e, s) \<Longrightarrow> bind_act m f r = (Inl e, s)"
  by (simp add: bind_act_def)

lemma bind_right: "m r = (Inr x, s) \<Longrightarrow> bind_act m f r = f x s"
  by (simp add: bind_act_def)

lemma on_engine_then:
  "on_engine ro (bind_act m (\<lambda>x. ret (f x))) r = (case on_engine ro m r of (Inl e, r') \<Rightarrow> (Inl e, r') | (Inr x, r') \<Rightarrow> (Inr (f x), r'))"
  by (simp add: on_engine_def Let_def send_all_def bind_act_eq modify_def lift_res_def ret_run split: prod.split sum.split)

lemma run_quietly:
  "run_task S C ro pt Greeting r = sendHello S ro r"
  "run_task S C ro pt (Hello_Frontier from) r = send ro (Since from (engine_frontier S (rp_engine r))) r"
  "run_task S C ro pt (Since_Keys from missing) r = send_missing ro from missing r"
  "run_task S C ro pt (Ops_Frontier from) r = send ro (Ack from (engine_frontier S (rp_engine r))) r"
  by (simp_all add: run_task.simps settle_def sendHello_def send_hello_def send_missing_def send_def send_all_def
      bind_act_eq modify_def ret_run Let_def)

lemma run_hello_keys:
  "run_task S C ro pt (Hello_Keys from) r = send ro (Since from (engine_frontier S (rp_engine r))) r"
  by (subst run_task.simps) (simp add: settle_def run_quietly ret_run)

lemma run_hello_greeted: "run_task S C ro pt (Hello_Greeted from) r =
    bind_act (sendKeys ro (Some from)) (\<lambda>_. run_task S C ro pt (Hello_Keys from)) r"
  by (subst run_task.simps) (simp add: settle_def ret_run bind_act_eq sendKeys_def send_def modify_def)

lemma run_hello_greeting: "run_task S C ro pt (Hello_Greeting from) r =
    bind_act (sendHello S ro) (\<lambda>_. run_task S C ro pt (Hello_Greeted from)) r"
  by (subst run_task.simps)
    (simp add: settle_def ret_run bind_act_eq sendHello_def send_hello_def send_def modify_def Let_def)

lemma run_since_missing: "run_task S C ro pt (Since_Missing from have) r =
    bind_act (gets (\<lambda>r. engine_opsSince S have (rp_engine r))) (\<lambda>missing.
     bind_act (if 0 < length missing then sendKeys ro (Some from) else ret ()) (\<lambda>_. send_missing ro from missing)) r"
  by (subst run_task.simps)
    (simp add: settle_def ret_run bind_act_eq gets_run sendKeys_def send_def send_missing_def send_all_def modify_def
      run_quietly)

text \<open>The \<^verbatim>\<open>catch\<close> of \<open>handle\<close> around the rest of a handler.\<close>

definition caught :: "jsstring \<Rightarrow> unit result \<times> 's replicator \<Rightarrow> unit result \<times> 's replicator" where
  "caught from x = (case x of (Inl err, r) \<Rightarrow> (Inr (), r\<lparr>rp_errors := rp_errors r @ [(err, from)]\<rparr>) | (Inr u, r) \<Rightarrow> (Inr (), r))"

lemma caught_Inr [simp]: "caught from (Inr u, r) = (Inr (), r)"
  by (simp add: caught_def)

lemma caught_ok: "fst x = Inr () \<Longrightarrow> caught from x = x"
  by (cases x) simp

lemma run_ack: "run_task S C ro pt (Ack_Record from f) r = caught from (on_engine ro (recordPeerFrontier S from f) r)"
  by (subst run_task.simps)
    (simp add: unit_reply_def on_engine_then settle_def caught_def ret_run split: prod.split sum.split)

lemma run_ops: "run_task S C ro pt (Ops_Apply from raw) r =
    caught from (bind_act (on_engine ro (applyRemoteOps S C pt raw)) (\<lambda>applied.
      if 0 < applied then bind_act (gets (\<lambda>r. engine_frontier S (rp_engine r))) (\<lambda>f. send ro (Ack from f)) else ret ()) r)"
  by (subst run_task.simps)
    (simp add: on_engine_then settle_def caught_def ret_run bind_act_eq gets_run run_quietly send_def modify_def
      split: prod.split sum.split)

lemma run_since: "run_task S C ro pt (Since_Record from have) r =
    caught from (bind_act (on_engine ro (recordPeerFrontier S from have)) (\<lambda>_.
      bind_act (gets (\<lambda>r. engine_opsSince S have (rp_engine r))) (\<lambda>missing.
      bind_act (if 0 < length missing then sendKeys ro (Some from) else ret ()) (\<lambda>_. send_missing ro from missing))) r)"
proof -
  let ?rest = "bind_act (gets (\<lambda>r. engine_opsSince S have (rp_engine r))) (\<lambda>missing.
      bind_act (if 0 < length missing then sendKeys ro (Some from) else ret ()) (\<lambda>_. send_missing ro from missing))"
  have "fst (?rest s) = Inr ()" for s :: "'a replicator"
    by (simp add: bind_act_eq gets_run ret_run sendKeys_def send_def send_missing_def send_all_def modify_def)
  then have quiet: "caught from (?rest s) = ?rest s" for s by (rule caught_ok)
  obtain res s where e: "on_engine ro (recordPeerFrontier S from have) r = (res, s)" by fastforce
  show ?thesis
  proof (cases res)
    case (Inl err)
    with e have "run_task S C ro pt (Since_Record from have) r = caught from (Inl err, s)"
      by (subst run_task.simps) (simp add: unit_reply_def on_engine_then settle_def caught_def)
    with e Inl show ?thesis by (simp only: bind_left)
  next
    case (Inr u)
    with e have "run_task S C ro pt (Since_Record from have) r = ?rest s"
      by (subst run_task.simps) (simp add: unit_reply_def on_engine_then settle_def ret_run run_since_missing)
    with e Inr quiet show ?thesis by (simp only: bind_right)
  qed
qed

lemma run_hello: "run_task S C ro pt (Hello_Clock from clock) r =
    caught from (bind_act (on_engine ro (observeRemoteClock S pt clock)) (\<lambda>_.
      bind_act (gets (\<lambda>r. map_of (rp_peers r) from = None)) (\<lambda>isNew.
      bind_act (if isNew
         then bind_act (set_peer from None) (\<lambda>_. bind_act peers_change (\<lambda>_. sendHello S ro))
         else ret ()) (\<lambda>_.
      bind_act (sendKeys ro (Some from)) (\<lambda>_.
      bind_act (gets (\<lambda>r. engine_frontier S (rp_engine r))) (\<lambda>have.
      send ro (Since from have)))))) r)"
  by (subst run_task.simps)
    (simp add: unit_reply_def on_engine_then settle_def caught_def ret_run bind_act_eq gets_run set_peer_def
      peers_change_def modify_def sendKeys_def send_def run_hello_greeting run_hello_greeted run_hello_keys
      sendHello_def send_hello_def Let_def split: prod.split sum.split)

lemma handled_caught: "relevant ro r m \<Longrightarrow> handled S C ro pt m r = caught (w_from m) (handle_body S C ro pt m r)"
  by (simp add: handled_def caught_def split: prod.split sum.split)

lemma deliver_eq: "deliver S C ro pt m r = (if OnMessage \<in> set (rp_unsubs r) then handled S C ro pt m r else (Inr (), r))"
proof (cases "relevant ro r m")
  case True
  then have "rp_started r" by (simp add: relevant_def)
  with True show ?thesis
    by (cases "w_body m")
      (simp_all add: deliver_def handle_def handled_caught handle_body_def on_hello_def on_since_def on_ops_def on_ack_def
        run_hello run_since run_ops run_ack bind_act_eq modify_def set_peer_def ret_run gets_run Let_def
        split: option.split)
next
  case False
  then show ?thesis by (auto simp: deliver_def handle_def handled_def)
qed

text \<open>The methods a handler may call keep the engine's property; learning keys does, too.\<close>

definition remote_closed :: "'s storage_ops \<Rightarrow> crypto \<Rightarrow> ('s engine \<Rightarrow> bool) \<Rightarrow> bool" where
  "remote_closed S C R \<longleftrightarrow>
     (\<forall>e d pk. R e \<longrightarrow> R (snd (learnKey C d pk e))) \<and>
     (\<forall>pt s. keeps R (observeRemoteClock S pt s)) \<and>
     (\<forall>p f. js_frontier f \<longrightarrow> keeps R (recordPeerFrontier S p f)) \<and>
     (\<forall>pt raw. (\<forall>v \<in> set raw. wf_val v) \<longrightarrow> keeps R (applyRemoteOps S C pt raw))"

definition wf_wire :: "wire \<Rightarrow> bool" where
  "wf_wire m \<longleftrightarrow>
     (case w_body m of Since to f \<Rightarrow> js_frontier f | Ack to f \<Rightarrow> js_frontier f
      | Ops to raw \<Rightarrow> (\<forall>v \<in> set raw. wf_val v) | _ \<Rightarrow> True)"

lemma learn_hex_keeps:
  assumes "\<forall>e d pk. R e \<longrightarrow> R (snd (learnKey C d pk e))" "R e"
  shows "R (learn_hex C ks e)"
  using assms(2) unfolding learn_hex_def
  by (induction ks arbitrary: e) (use assms(1) in auto)

lemma keeps_handle_body:
  assumes R: "remote_closed S C R" and m: "wf_wire m" "w_from m \<noteq> d"
  shows "keeps (running R ro d) (handle_body S C ro pt m)"
proof -
  have obs: "keeps R (observeRemoteClock S pt s)" and rec: "js_frontier f \<Longrightarrow> keeps R (recordPeerFrontier S p f)" for s p f
    using R by (auto simp: remote_closed_def)
  show ?thesis
  proof (cases "w_body m")
    case (Hello clock key)
    have "keeps (running R ro d) (modify (\<lambda>r. case key of None \<Rightarrow> r
        | Some k \<Rightarrow> r\<lparr>rp_engine := snd (learnKey C (w_from m) (unhex k) (rp_engine r))\<rparr>))"
    proof (rule keepsI)
      fix r assume r: "running R ro d r"
      have "R (snd (learnKey C (w_from m) (unhex k) (rp_engine r)))" for k
        using R r unfolding remote_closed_def sound_def by blast
      then show "running R ro d (snd (modify (\<lambda>r. case key of None \<Rightarrow> r
          | Some k \<Rightarrow> r\<lparr>rp_engine := snd (learnKey C (w_from m) (unhex k) (rp_engine r))\<rparr>) r))"
        using r sound_engine[OF r] by (simp add: modify_def split: option.splits)
    qed
    then show ?thesis
      unfolding handle_body_def Hello on_hello_def wire_body.case
      by (intro keeps_rules obs m(2)) (simp_all add: small_body_def)
  next
    case (Keys to ks)
    have "keeps (running R ro d) (modify (\<lambda>r. r\<lparr>rp_engine := learn_hex C ks (rp_engine r)\<rparr>))"
    proof (rule keepsI)
      fix r assume r: "running R ro d r"
      have learn: "\<forall>e d pk. R e \<longrightarrow> R (snd (learnKey C d pk e))" using R unfolding remote_closed_def by (rule conjunct1)
      have "R (rp_engine r)" using r unfolding sound_def by (rule conjunct1)
      with learn have "R (learn_hex C ks (rp_engine r))" by (rule learn_hex_keeps)
      with sound_engine[OF r] show "running R ro d (snd (modify (\<lambda>r. r\<lparr>rp_engine := learn_hex C ks (rp_engine r)\<rparr>) r))"
        by (simp add: modify_def)
    qed
    then show ?thesis by (simp add: handle_body_def Keys)
  next
    case (Since to have')
    then have "js_frontier have'" using m(1) by (simp add: wf_wire_def)
    with Since show ?thesis
      unfolding handle_body_def Since on_since_def send_missing_def wire_body.case
      by (intro keeps_rules rec m(2) small_chunks)
  next
    case (Ops to raw)
    have "keeps R (applyRemoteOps S C pt raw)" using R m(1) by (auto simp: remote_closed_def wf_wire_def Ops)
    then show ?thesis
      unfolding handle_body_def Ops on_ops_def wire_body.case
      by (intro keeps_rules) (simp_all add: small_body_def)
  next
    case (Ack to f)
    then have "js_frontier f" using m(1) by (simp add: wf_wire_def)
    with Ack show ?thesis
      unfolding handle_body_def Ack on_ack_def wire_body.case by (intro keeps_rules rec m(2))
  qed
qed

lemma handle_never_throws: "fst (handled S C ro pt m r) = Inr ()" "fst (deliver S C ro pt m r) = Inr ()"
  by (auto simp: handled_def deliver_eq split: prod.splits sum.splits)

lemma keeps_handle:
  assumes "remote_closed S C R" "wf_wire m"
  shows "keeps (running R ro d) (handled S C ro pt m)"
proof (rule keepsI)
  fix r assume r: "running R ro d r"
  show "running R ro d (snd (handled S C ro pt m r))"
  proof (cases "relevant ro r m")
    case True
    then have "w_from m \<noteq> d" using r by (auto simp: relevant_def sound_def)
    from keeps_handle_body[OF assms this, of ro pt] r
    have "running R ro d (snd (handle_body S C ro pt m r))" by (simp add: keeps_def)
    then show ?thesis using True by (auto simp: handled_def sound_def split: prod.splits sum.splits)
  next
    case False
    then show ?thesis using r by (simp add: handled_def)
  qed
qed

section \<open>Steps\<close>

text \<open>
  Any message may arrive at any time (lost, duplicated and reordered messages included, since
  nothing constrains which do), local calls go through the engine with the live tail attached,
  and the transport may report a link.
\<close>

inductive local_call :: "'s storage_ops \<Rightarrow> crypto \<Rightarrow> cipher option \<Rightarrow> ('s engine, unit) act \<Rightarrow> bool"
  for S C K where
  "json_values vs \<Longrightarrow> local_call S C K (bind_act (insert_row S C K date rand ds t vs) (\<lambda>_. ret ()))"
| "json_values vs \<Longrightarrow> local_call S C K (update_row S C K ds t r vs)"
| "local_call S C K (delete_row S C K d t r)"
| "local_call S C K (bind_act (compact S gc dry) (\<lambda>_. ret ()))"

inductive replicator_step :: "'s storage_ops \<Rightarrow> crypto \<Rightarrow> cipher option \<Rightarrow> replicator_opts \<Rightarrow>
    's replicator \<Rightarrow> 's replicator \<Rightarrow> bool" for S C K ro where
  starts: "replicator_step S C K ro r (snd (start S ro r))"
| stops: "replicator_step S C K ro r (snd (stop r))"
| links: "replicator_step S C K ro r (snd (peer_connected S ro r))"
| delivers: "wf_wire m \<Longrightarrow> replicator_step S C K ro r (snd (deliver S C ro pt m r))"
| calls: "local_call S C K m \<Longrightarrow> replicator_step S C K ro r (snd (on_engine ro m r))"

inductive replicator_reachable :: "'s storage_ops \<Rightarrow> crypto \<Rightarrow> cipher option \<Rightarrow> replicator_opts \<Rightarrow> 's \<Rightarrow>
    's replicator \<Rightarrow> bool" for S C K ro s0 where
  r_new: "reachable S C K s0 e \<Longrightarrow> replicator_reachable S C K ro s0 (new_replicator e)"
| r_step: "replicator_reachable S C K ro s0 r \<Longrightarrow> replicator_step S C K ro r r' \<Longrightarrow>
    replicator_reachable S C K ro s0 r'"

text \<open>The invariant in both states: running, and stopped with nothing registered.\<close>

definition replicator_inv :: "('s engine \<Rightarrow> bool) \<Rightarrow> replicator_opts \<Rightarrow> jsstring \<Rightarrow> 's replicator \<Rightarrow> bool" where
  "replicator_inv R ro d r \<longleftrightarrow>
     running R ro d r \<or>
     R (rp_engine r) \<and> (\<forall>e. R e \<longrightarrow> e_deviceId e = d) \<and> rp_peers r = [] \<and> \<not> rp_started r \<and>
     rp_unsubs r = [] \<and> (\<forall>m \<in> set (rp_sent r). own_wire ro d m)"

lemma inv_on_engine:
  assumes m: "keeps R m" and inv: "replicator_inv R ro d r"
  shows "replicator_inv R ro d (snd (on_engine ro m r))"
proof (cases "running R ro d r")
  case True
  with keeps_on_engine[OF m, of True ro d] show ?thesis by (simp add: keeps_def replicator_inv_def)
next
  case False
  then have r: "R (rp_engine r)" "\<forall>e. R e \<longrightarrow> e_deviceId e = d" "rp_peers r = []" "\<not> rp_started r"
    "rp_unsubs r = []" "\<forall>m \<in> set (rp_sent r). own_wire ro d m" using inv by (auto simp: replicator_inv_def)
  obtain res e where run: "m (rp_engine r) = (res, e)" by fastforce
  have "R e" by (rule keepsD[OF m r(1) run])
  then have "replicator_inv R ro d (r\<lparr>rp_engine := e\<rparr>)" using r by (simp add: replicator_inv_def)
  moreover have "snd (on_engine ro m r) = r\<lparr>rp_engine := e\<rparr>"
    using r by (simp add: on_engine_def run Let_def send_all_def bind_act_eq modify_def lift_res_def)
  ultimately show ?thesis by simp
qed

lemma replicator_step_inv:
  assumes step: "replicator_step S C K ro r r'" and inv: "replicator_inv R ro d r"
    and remote: "remote_closed S C R" and calls: "\<And>m. local_call S C K m \<Longrightarrow> keeps R m"
  shows "replicator_inv R ro d r'"
  using step
proof cases
  case starts
  show ?thesis
  proof (cases "rp_started r")
    case True
    then show ?thesis using inv starts by (simp add: start_def)
  next
    case False
    then have "running R ro d (rp_subscribe ro r)"
      using inv by (auto simp: replicator_inv_def sound_def rp_subscribe_def)
    with keeps_sendHello[of True R ro d S] False starts show ?thesis
      by (simp add: start_def keeps_def replicator_inv_def)
  qed
next
  case stops
  then show ?thesis using inv
    by (auto simp: stop_def bind_act_eq modify_def peers_change_def replicator_inv_def sound_def)
next
  case links
  show ?thesis
  proof (cases "OnPeerConnect \<in> set (rp_unsubs r)")
    case True
    then have "running R ro d r" using inv by (auto simp: replicator_inv_def)
    with keeps_sendHello[of True R ro d S] True links show ?thesis
      by (simp add: peer_connected_def keeps_def replicator_inv_def)
  next
    case False
    then show ?thesis using inv links by (simp add: peer_connected_def)
  qed
next
  case (delivers m pt)
  show ?thesis
  proof (cases "OnMessage \<in> set (rp_unsubs r)")
    case True
    then have "running R ro d r" using inv by (auto simp: replicator_inv_def)
    with keeps_handle[OF remote delivers(2), of ro d pt] True delivers show ?thesis
      by (simp add: deliver_eq keeps_def replicator_inv_def)
  next
    case False
    then show ?thesis using inv delivers by (simp add: deliver_eq)
  qed
next
  case (calls m)
  then show ?thesis using inv_on_engine[OF assms(4) inv] by blast
qed

text \<open>For the engine's own reachability.\<close>

definition reached :: "'s storage_ops \<Rightarrow> crypto \<Rightarrow> cipher option \<Rightarrow> 's \<Rightarrow> device_key \<Rightarrow> 's engine \<Rightarrow> bool" where
  "reached S C K s0 k e \<longleftrightarrow> reachable S C K s0 e \<and> e_deviceKey e = k"

context storage_adapter
begin

lemma reached_step:
  assumes "inv s0" "replica_ok C (view s0)" "reached S C K s0 k e" "engine_step S C K e e'"
  shows "reached S C K s0 k e'"
  using assms reachable.step[of S C K s0 e e'] engine_step_good reachable_good
  unfolding reached_def by metis

lemma reached_keeps:
  assumes s0: "inv s0" "replica_ok C (view s0)" and m: "\<And>e res e'. m e = (res, e') \<Longrightarrow> engine_step S C K e e'"
  shows "keeps (reached S C K s0 k) m"
proof (rule keepsI)
  fix e assume e: "reached S C K s0 k e"
  obtain res e' where run: "m e = (res, e')" by fastforce
  from reached_step[OF s0 e m[OF run]] run show "reached S C K s0 k (snd (m e))" by simp
qed

lemma reached_remote:
  assumes s0: "inv s0" "replica_ok C (view s0)"
  shows "remote_closed S C (reached S C K s0 k)"
  unfolding remote_closed_def
proof (intro conjI allI impI)
  show "keeps (reached S C K s0 k) (observeRemoteClock S pt s)" for pt s
    by (rule reached_keeps[OF s0]) (rule engine_step.observe)
  show "keeps (reached S C K s0 k) (recordPeerFrontier S p f)" if "js_frontier f" for p f
    by (rule reached_keeps[OF s0]) (rule engine_step.ack[OF that])
  show "keeps (reached S C K s0 k) (applyRemoteOps S C pt raw)" if "\<forall>v \<in> set raw. wf_val v" for pt raw
    by (rule reached_keeps[OF s0]) (rule engine_step.remote[OF that])
qed (use reached_step[OF s0] engine_step.learn in blast)

lemma bind_unit_state: "bind_act m (\<lambda>_. ret ()) e = (res, e') \<Longrightarrow> \<exists>q. m e = (q, e')"
  by (auto simp: bind_act_def ret_def split: prod.splits sum.splits)

lemma reached_local:
  assumes s0: "inv s0" "replica_ok C (view s0)" and "local_call S C K m"
  shows "keeps (reached S C K s0 k) m"
  using assms(3)
proof cases
  case (1 vs date rand ds t)
  show ?thesis unfolding 1(1)
    by (rule reached_keeps[OF s0]) (metis 1(2) engine_step.insert bind_unit_state)
next
  case (2 vs ds t r)
  show ?thesis unfolding 2(1)
    by (rule reached_keeps[OF s0]) (use 2(2) engine_step.update in blast)
next
  case (3 d t r)
  show ?thesis unfolding 3(1)
    by (rule reached_keeps[OF s0]) (use engine_step.delete in blast)
next
  case (4 gc dry)
  show ?thesis unfolding 4(1)
    by (rule reached_keeps[OF s0]) (metis engine_step.compaction bind_unit_state)
qed

lemma reached_device:
  assumes "inv s0" "replica_ok C (view s0)" "reached S C K s0 k e"
  shows "e_deviceId e = deviceIdFromPublicKey C (publicKey k)"
proof -
  have "good C e" using reachable_good assms unfolding reached_def by blast
  then have "identity_ok C e" using engine_okD(5) unfolding good_def by blast
  then show ?thesis using assms(3) by (simp add: identity_ok_def reached_def)
qed

lemma replicator_reachable_inv:
  assumes s0: "inv s0" "replica_ok C (view s0)" and r: "replicator_reachable S C K ro s0 r"
  shows "\<exists>k. replicator_inv (reached S C K s0 k) ro (deviceIdFromPublicKey C (publicKey k)) r"
  using r
proof (induction rule: replicator_reachable.induct)
  case (r_new e)
  then show ?case using reached_device[OF s0]
    by (intro exI[of _ "e_deviceKey e"]) (auto simp: replicator_inv_def new_replicator_def reached_def)
next
  case (r_step r r')
  then show ?case
    using replicator_step_inv[OF r_step.hyps(2) _ reached_remote[OF s0] reached_local[OF s0]] by blast
qed

end

end
