(* ===== verification/Engine_Writes.thy ===== *)
theory Engine_Writes
  imports Engine_Steps
begin

text \<open>
  What a local write leaves behind: after an update that returned, the written cells are won by
  the operations just made, every other cell is as before, and an application reads what it
  wrote. Proved for any adapter that meets the contract.
\<close>

section \<open>New operations win their cells\<close>

lemma fold_cell_join_newer:
  assumes "\<forall>p \<in> set ps. \<forall>q. m (op_cell p) = Some q \<longrightarrow> o_hlc q < o_hlc p" "distinct (map op_cell ps)"
  shows "fold cell_join ps m x = (case List.find (\<lambda>p. op_cell p = x) ps of None \<Rightarrow> m x | Some p \<Rightarrow> Some p)"
  using assms
proof (induction ps arbitrary: m)
  case Nil
  then show ?case by simp
next
  case (Cons p ps)
  have j: "cell_join p m = m(op_cell p \<mapsto> p)"
    using Cons.prems(1) by (auto simp: cell_join_def lww_join_def split: option.splits)
  have "fold cell_join ps (cell_join p m) x =
      (case List.find (\<lambda>p. op_cell p = x) ps of None \<Rightarrow> cell_join p m x | Some p \<Rightarrow> Some p)"
    using Cons.prems by (intro Cons.IH) (auto simp: j image_iff)
  moreover have "List.find (\<lambda>q. op_cell q = op_cell p) ps = None"
    using Cons.prems(2) by (auto simp: find_None_iff) (metis imageI)
  moreover have "op_cell p \<noteq> x \<Longrightarrow> cell_join p m x = m x" by (simp add: j)
  ultimately show ?case by (auto simp: j split: option.splits)
qed

lemma find_op_cell:
  assumes "p \<in> set ps" "distinct (map op_cell ps)"
  shows "List.find (\<lambda>q. op_cell q = op_cell p) ps = Some p"
  using assms by (induction ps) (auto simp: image_iff)

context storage_adapter
begin

lemma update_cells:
  assumes good: "good C e" and key: "crypto_key C (e_deviceKey e)" and wf: "json_values vs" and d: "dkeys vs"
    and run: "update_row S C K ds t r vs e = (Inr u, e')"
  shows "\<forall>(c, v) \<in> set vs. \<exists>p. row_cells (view (e_store e')) t r c = Some p \<and> stored_as K (c, v) p"
    and "\<forall>c. c \<notin> fst ` set vs \<longrightarrow> row_cells (view (e_store e')) t r c = row_cells (view (e_store e)) t r c"
    and "\<forall>t' r'. (t', r') \<noteq> (t, r) \<longrightarrow> row_cells (view (e_store e')) t' r' = row_cells (view (e_store e)) t' r'"
proof -
  let ?v = "view (e_store e)" and ?v' = "view (e_store e')"
  have ok: "engine_ok C ?v e" using good by (simp add: good_def)
  have con: "consistent ?v" by (rule engine_okD(2)[OF ok])
  from update_row_spec(2)[OF good key _ run] wf obtain ps where
    v': "?v' = merge ps (clock_pair_of (e_clock e')) ?v"
    and own: "\<forall>p \<in> set ps. own_op C e t r (clock_tick (e_clock e)) (clock_tick (e_clock e')) p"
    and st: "list_all2 (stored_as K) vs ps"
    unfolding json_values_def by blast
  have cols: "map o_column ps = map fst vs"
    using st by (induction vs ps rule: list_all2_induct) (auto simp: stored_as_def)
  have cell: "\<forall>p \<in> set ps. op_cell p = (t, r, o_column p)" using own by (simp add: own_op_def op_cell_def)
  have "map op_cell ps = map (\<lambda>c. (t, r, c)) (map fst vs)"
    unfolding cols[symmetric] using cell by simp
  then have dist: "distinct (map op_cell ps)" using d by (simp add: distinct_map inj_on_def comp_def)
  have newer: "o_hlc q < o_hlc p" if "p \<in> set ps" "r_cells ?v x = Some q" for p q x
    using own_op_newer[OF ok] own that(1) consistent_cells(1)[OF con that(2)] by blast
  have cells: "r_cells ?v' x = (case List.find (\<lambda>p. op_cell p = x) ps of None \<Rightarrow> r_cells ?v x | Some p \<Rightarrow> Some p)" for x
    unfolding v' using fold_cell_join_newer[OF _ dist] newer by (simp add: merge_def)
  show "\<forall>(c, v) \<in> set vs. \<exists>p. row_cells ?v' t r c = Some p \<and> stored_as K (c, v) p"
  proof safe
    fix c w assume "(c, w) \<in> set vs"
    then obtain p where p: "p \<in> set ps" "stored_as K (c, w) p"
      using st by (metis in_set_conv_nth list_all2_conv_all_nth)
    then have "op_cell p = (t, r, c)" using cell by (simp add: stored_as_def)
    with find_op_cell[OF p(1) dist] p(2)
    show "\<exists>p. row_cells ?v' t r c = Some p \<and> stored_as K (c, w) p" by (simp add: row_cells_def cells)
  qed
  show "\<forall>c. c \<notin> fst ` set vs \<longrightarrow> row_cells ?v' t r c = row_cells ?v t r c"
  proof (intro allI impI)
    fix c assume "c \<notin> fst ` set vs"
    then have "c \<notin> o_column ` set ps" using arg_cong[OF cols, of set] by simp
    then have "List.find (\<lambda>p. op_cell p = (t, r, c)) ps = None" using cell by (auto simp: find_None_iff)
    then show "row_cells ?v' t r c = row_cells ?v t r c" by (simp add: row_cells_def cells)
  qed
  show "\<forall>t' r'. (t', r') \<noteq> (t, r) \<longrightarrow> row_cells ?v' t' r' = row_cells ?v t' r'"
  proof (intro allI impI)
    fix t' r' assume "(t', r') \<noteq> (t, r)"
    then have "List.find (\<lambda>p. op_cell p = (t', r', c)) ps = None" for c using cell by (auto simp: find_None_iff)
    then show "row_cells ?v' t' r' = row_cells ?v t' r'" by (simp add: row_cells_def cells fun_eq_iff)
  qed
qed

lemma get_value:
  assumes "inv (e_store e)" "get S K t r e = Inr (Some row)" "row_cells (view (e_store e)) t r c = Some p"
    "c \<noteq> TOMBSTONE_COLUMN" "c \<noteq> PROTO" "cell_value K p = Inr w"
  shows "map_of row c = (if w = JNull then if c = js ''id'' then Some (JStr r) else None else Some w)"
proof -
  have "map_of row = row_content K r (row_cells (view (e_store e)) t r)"
    using visible_row_spec(2)[OF assms(1)] assms(2) by (simp add: get_def)
  with assms(3-6) show ?thesis by (auto simp: row_content_def column_value_def map_add_def)
qed

text \<open>A row that is not deleted is read after a write, when its values can be.\<close>

lemma update_shown:
  assumes good: "good C e" and key: "crypto_key C (e_deviceKey e)" and wf: "json_values vs" and d: "dkeys vs"
    and run: "update_row S C K ds t r vs e = (Inr u, e')"
    and live: "\<not> tombstoned (row_cells (view (e_store e)) t r)" "TOMBSTONE_COLUMN \<notin> fst ` set vs" "vs \<noteq> []"
    and old: "readable K (row_cells (view (e_store e)) t r)"
    and new: "\<And>c v p. (c, v) \<in> set vs \<Longrightarrow> stored_as K (c, v) p \<Longrightarrow> \<exists>w. cell_value K p = Inr w"
  shows "\<exists>row. get S K t r e' = Inr (Some row)"
proof -
  note U = update_cells[OF good key wf d run]
  have inv: "inv (e_store e')"
    using update_row_spec(1)[OF good key wf[unfolded json_values_def] run] by (simp add: good_def)
  obtain c v where "(c, v) \<in> set vs" using live(3) by (cases vs) auto
  then have "row_cells (view (e_store e')) t r \<noteq> Map.empty" using U(1) by fastforce
  moreover have "\<not> tombstoned (row_cells (view (e_store e')) t r)" using live(1,2) U(2) by (simp add: tombstoned_def)
  ultimately have vis: "visible (view (e_store e')) t r" by (simp add: visible_def)
  have "\<exists>w. cell_value K p = Inr w" if "row_cells (view (e_store e')) t r c = Some p" "c \<noteq> TOMBSTONE_COLUMN" for c p
  proof (cases "c \<in> fst ` set vs")
    case True
    then obtain v where "(c, v) \<in> set vs" by auto
    with U(1) that(1) new show ?thesis by fastforce
  next
    case False
    then show ?thesis using U(2) that old by (simp add: readable_def)
  qed
  then have "readable K (row_cells (view (e_store e')) t r)" by (simp add: readable_def)
  then show ?thesis
    using visible_row_spec[OF inv, of K t r] vis unfolding get_def
    by (cases "visible_row S K (e_store e') t r"; cases "projr (visible_row S K (e_store e') t r)") auto
qed

text \<open>A row that is deleted is not read, whatever its columns hold.\<close>

lemma deleted_cell:
  assumes "good C e" "crypto_key C (e_deviceKey e)" "delete_row S C K d t r e = (Inr u, e')"
  shows "\<exists>p. row_cells (view (e_store e')) t r TOMBSTONE_COLUMN = Some p \<and> o_value p = JBool True"
proof -
  have run: "update_row S C K (\<lambda>_. d) t r [(TOMBSTONE_COLUMN, JBool True)] e = (Inr u, e')"
    using assms(3) by (simp add: delete_row_update)
  show ?thesis
    using update_cells(1)[OF assms(1,2) _ _ run, unfolded json_values_def, OF wf_val_tombstone]
    by (auto simp: stored_as_def split: option.splits)
qed

lemma delete_hidden:
  assumes "good C e" "crypto_key C (e_deviceKey e)" "delete_row S C K d t r e = (Inr u, e')"
  shows "get S K' t r e' = Inr None"
proof -
  have run: "update_row S C K (\<lambda>_. d) t r [(TOMBSTONE_COLUMN, JBool True)] e = (Inr u, e')"
    using assms(3) by (simp add: delete_row_update)
  have "\<not> visible (view (e_store e')) t r"
    using deleted_cell[OF assms] by (auto simp: visible_def tombstoned_def)
  moreover have "inv (e_store e')"
    using update_row_spec(1)[OF assms(1,2) wf_val_tombstone run] by (simp add: good_def)
  ultimately show ?thesis using visible_row_spec(1) by (simp add: get_def)
qed

end

end
