(* ===== verification/Engine_Later.thy ===== *)
theory Engine_Later
  imports Engine_Writes Engine_Merge
begin

text \<open>
  What lasts over the further life of a replica: the frontier never falls back behind an operation
  it has passed, and a tombstone stays until somebody writes another value to it or a
  reclaiming compaction removes it together with its row.
\<close>

section \<open>What one action does to the view\<close>

lemma fresh_ops_subset: "set (fresh_ops S s ops) \<subseteq> set ops"
proof -
  have "set (fold (\<lambda>p fresh. if \<not> hasOp S s (o_id p) \<and> \<not> list_ex (\<lambda>f. o_id f = o_id p) fresh then fresh @ [p] else fresh) ops fr)
      \<subseteq> set fr \<union> set ops" for fr
    by (induction ops arbitrary: fr) (auto split: if_splits, fastforce+)
  then show ?thesis by (force simp: fresh_ops_def)
qed

context storage_adapter
begin

lemma update_view:
  assumes "good C e" "crypto_key C (e_deviceKey e)" "json_values vs" "update_row S C K ds t r vs e = (res, e')"
  obtains "view (e_store e') = view (e_store e)"
  | ps ck where "view (e_store e') = merge ps ck (view (e_store e))" "\<forall>p \<in> set ps. o_table p = t \<and> o_row p = r"
      "list_all2 (stored_as K) vs ps"
proof (cases res)
  case (Inl x)
  with update_row_spec(3)[OF assms(1,2) assms(3)[unfolded json_values_def] assms(4)] show ?thesis by (intro that(1)) simp
next
  case (Inr u)
  from update_row_spec(2)[OF assms(1,2) assms(3)[unfolded json_values_def] assms(4) this] show ?thesis
    by (elim exE conjE) (rule that(2), auto simp: own_op_def)
qed

lemma remote_view:
  assumes "good C e" "\<forall>v \<in> set raw. wf_val v" "applyRemoteOps S C pt raw e = (res, e')"
  obtains "view (e_store e') = view (e_store e)"
  | ps ck where "view (e_store e') = merge ps ck (view (e_store e))" "set ps \<subseteq> set (batch_ops raw)"
proof (cases res)
  case (Inl x)
  show ?thesis
  proof (cases "admitted C (e_keys e) raw (batch_ops raw)")
    case True
    from applyRemoteOps_spec(6)[OF assms(1,2) this assms(3) Inl] show ?thesis by (intro that(1)) simp
  next
    case False
    then have "\<nexists>ops. admitted C (e_keys e) raw ops" by (auto simp: admitted_def batch_ops_def)
    from applyRemoteOps_rejected[OF this, of S pt] assms(3) show ?thesis by (intro that(1)) auto
  qed
next
  case (Inr n)
  note A = applyRemoteOps_spec(5)[OF assms(1,2) applyRemoteOps_ok_admitted[OF assms(3)[unfolded Inr]] assms(3) Inr]
  have "set (fresh_ops S (e_store e) (batch_ops raw)) \<subseteq> set (batch_ops raw)"
    by (rule fresh_ops_subset)
  with A show ?thesis by (intro that(2)) auto
qed

text \<open>Steps that write no operation: the cells and the frontier stay, but for reclaimed rows.\<close>

lemma silent_view:
  assumes good: "good C e" "crypto_key C (e_deviceKey e)"
    and silent: "(\<exists>pk d. e' = snd (learnKey C d pk e)) \<or> (\<exists>pt s res. observeRemoteClock S pt s e = (res, e')) \<or>
      (\<exists>peer f res. js_frontier f \<and> recordPeerFrontier S peer f e = (res, e')) \<or>
      (\<exists>gen s'. open_engine S C gen (e_store e) = (Inr e', s'))"
  shows "r_cells (view (e_store e')) = r_cells (view (e_store e))" "r_front (view (e_store e')) = r_front (view (e_store e))"
proof -
  have inv: "inv (e_store e)" and ok: "engine_ok C (view (e_store e)) e" using good(1) by (simp_all add: good_def)
  have sha: "\<And>x. length (sha256 C x) = 32" using good(2) by (simp add: crypto_key_def)
  have "r_cells (view (e_store e')) = r_cells (view (e_store e)) \<and> r_front (view (e_store e')) = r_front (view (e_store e))"
    using silent
  proof (elim disjE exE conjE)
    fix d pk assume "e' = snd (learnKey C d pk e)"
    then show ?thesis by (simp add: learnKey_def)
  next
    fix pt s res assume "observeRemoteClock S pt s e = (res, e')"
    from observeRemoteClock_good(4,5)[OF good(1) this] show ?thesis by blast
  next
    fix peer f res assume "js_frontier f" and r: "recordPeerFrontier S peer f e = (res, e')"
    from recordPeerFrontier_good(5,6)[OF good(1) r this(1)] show ?thesis by (cases res) auto
  next
    fix gen s' assume r: "open_engine S C gen (e_store e) = (Inr e', s')"
    from open_good(2,5,7)[OF inv engine_okD(1)[OF ok] r sha] show ?thesis by simp
  qed
  then show "r_cells (view (e_store e')) = r_cells (view (e_store e))" "r_front (view (e_store e')) = r_front (view (e_store e))"
    by simp_all
qed

section \<open>The frontier\<close>

lemma passed_merge: "passed (map_of (r_front v)) q \<Longrightarrow> passed (map_of (r_front (merge ps ck v))) q"
  using passed_fold_front[of "r_front v" q ps] by (simp add: merge_def)

lemma passed_step:
  assumes good: "good C e" "crypto_key C (e_deviceKey e)" and step: "engine_step S C K e e'"
    and q: "passed (map_of (r_front (view (e_store e)))) q"
  shows "passed (map_of (r_front (view (e_store e')))) q"
proof -
  have upd: ?thesis if "json_values vs" "update_row S C K ds t r vs e = (res, e')" for vs ds t r res
    by (rule update_view[OF good that]) (use q passed_merge in auto)
  have silent: ?thesis if "(\<exists>pk d. e' = snd (learnKey C d pk e)) \<or> (\<exists>pt s res. observeRemoteClock S pt s e = (res, e')) \<or>
      (\<exists>peer f res. js_frontier f \<and> recordPeerFrontier S peer f e = (res, e')) \<or>
      (\<exists>gen s'. open_engine S C gen (e_store e) = (Inr e', s'))"
    using silent_view(2)[OF good that] q by simp
  from step show ?thesis
  proof cases
    case (insert vs date rand ds t res)
    then show ?thesis using upd[OF insert(1)] q by (auto simp: insert_row_update split: sum.splits prod.splits)
  next
    case (delete d t r res)
    have "json_values [(TOMBSTONE_COLUMN, JBool True)]" using wf_val_tombstone by (simp only: json_values_def)
    from upd[OF this delete[unfolded delete_row_update]] show ?thesis .
  next
    case (remote raw pt res)
    show ?thesis by (rule remote_view[OF good(1) remote]) (use q passed_merge in auto)
  next
    case (compaction gc dry res)
    note P = compact_good(5-7)[OF good(1) compaction]
    show ?thesis by (cases res; cases dry) (use P q in auto)
  qed (use upd silent in blast)+
qed

lemma engine_steps_good:
  assumes "(engine_step S C K)\<^sup>*\<^sup>* e e'" "good C e" "crypto_key C (e_deviceKey e)"
  shows "good C e' \<and> crypto_key C (e_deviceKey e')"
  using assms
proof (induction rule: rtranclp_induct)
  case (step e1 e2)
  then show ?case using engine_step_good[OF step.hyps(2)] by simp
qed simp

lemma passed_later:
  assumes "(engine_step S C K)\<^sup>*\<^sup>* e e'" "good C e" "crypto_key C (e_deviceKey e)"
    "passed (map_of (r_front (view (e_store e)))) q"
  shows "passed (map_of (r_front (view (e_store e')))) q"
  using assms
proof (induction rule: rtranclp_induct)
  case (step e1 e2)
  then show ?case using passed_step engine_steps_good by blast
qed simp

end

section \<open>Tombstones\<close>

text \<open>
  Everything that may happen to a replica but two things: an operation that writes another value than
  \<open>true\<close> to the tombstone of the row, local or remote, and a compaction that reclaims tombstones.
\<close>

definition keeps_tombstone :: "op list \<Rightarrow> jsstring \<Rightarrow> jsstring \<Rightarrow> bool" where
  "keeps_tombstone ps t r \<longleftrightarrow> (\<forall>p \<in> set ps. op_cell p = (t, r, TOMBSTONE_COLUMN) \<longrightarrow> o_value p = JBool True)"

inductive later_step :: "'s storage_ops \<Rightarrow> crypto \<Rightarrow> cipher option \<Rightarrow> jsstring \<Rightarrow> jsstring \<Rightarrow> 's engine \<Rightarrow> 's engine \<Rightarrow> bool"
  for S C K t r where
  l_learn: "later_step S C K t r e (snd (learnKey C d pk e))"
| l_insert: "json_values vs \<Longrightarrow> TOMBSTONE_COLUMN \<notin> fst ` set vs \<Longrightarrow>
    insert_row S C K date rand ds t' vs e = (ires, e') \<Longrightarrow> later_step S C K t r e e'"
| l_update: "json_values vs \<Longrightarrow> (t', r') = (t, r) \<Longrightarrow> \<forall>v. (TOMBSTONE_COLUMN, v) \<in> set vs \<longrightarrow> v = JBool True \<Longrightarrow>
    update_row S C K ds t' r' vs e = (res, e') \<Longrightarrow> later_step S C K t r e e'"
| l_elsewhere: "json_values vs \<Longrightarrow> (t', r') \<noteq> (t, r) \<Longrightarrow>
    update_row S C K ds t' r' vs e = (res, e') \<Longrightarrow> later_step S C K t r e e'"
| l_delete: "delete_row S C K d t' r' e = (res, e') \<Longrightarrow> later_step S C K t r e e'"
| l_remote: "\<forall>v \<in> set raw. wf_val v \<Longrightarrow> keeps_tombstone (batch_ops raw) t r \<Longrightarrow>
    applyRemoteOps S C pt raw e = (nres, e') \<Longrightarrow> later_step S C K t r e e'"
| l_observe: "observeRemoteClock S pt s e = (res, e') \<Longrightarrow> later_step S C K t r e e'"
| l_ack: "js_frontier f \<Longrightarrow> recordPeerFrontier S peer f e = (res, e') \<Longrightarrow> later_step S C K t r e e'"
| l_compact: "\<not> gc \<or> dry \<Longrightarrow> compact S gc dry e = (cres, e') \<Longrightarrow> later_step S C K t r e e'"
| l_restart: "open_engine S C gen (e_store e) = (Inr e', s') \<Longrightarrow> later_step S C K t r e e'"

lemma later_engine_step: "later_step S C K t r e e' \<Longrightarrow> engine_step S C K e e'"
  by (induction rule: later_step.induct) (auto intro: engine_step.intros)

definition buried :: "replica \<Rightarrow> jsstring \<Rightarrow> jsstring \<Rightarrow> bool" where
  "buried v t r \<longleftrightarrow> (\<exists>p. r_cells v (t, r, TOMBSTONE_COLUMN) = Some p \<and> o_value p = JBool True)"

lemma buried_hidden: "buried v t r \<Longrightarrow> \<not> visible v t r"
  by (auto simp: buried_def visible_def tombstoned_def row_cells_def)

lemma cell_join_cases: "fold cell_join ps cells x = Some p \<Longrightarrow> cells x = Some p \<or> p \<in> set ps \<and> op_cell p = x"
proof (induction ps arbitrary: cells)
  case (Cons q ps)
  then have "cell_join q cells x = Some p \<or> p \<in> set ps \<and> op_cell p = x" by simp
  then show ?case by (auto simp: cell_join_def lww_join_def split: if_splits option.splits)
qed simp

lemma cell_join_stays: "cells x \<noteq> None \<Longrightarrow> fold cell_join ps cells x \<noteq> None"
proof (induction ps arbitrary: cells)
  case (Cons q ps)
  have "cell_join q cells x \<noteq> None" using Cons.prems by (auto simp: cell_join_def lww_join_def split: option.splits)
  then show ?case using Cons.IH[of "cell_join q cells"] by simp
qed simp

lemma buried_merge: "buried v t r \<Longrightarrow> keeps_tombstone ps t r \<Longrightarrow> buried (merge ps ck v) t r"
proof -
  assume b: "buried v t r" and k: "keeps_tombstone ps t r"
  let ?x = "(t, r, TOMBSTONE_COLUMN)"
  obtain p where p: "fold cell_join ps (r_cells v) ?x = Some p"
    using b cell_join_stays[of "r_cells v" ?x ps] by (auto simp: buried_def)
  from cell_join_cases[OF p] have "o_value p = JBool True" using b k by (auto simp: buried_def keeps_tombstone_def)
  with p show ?thesis by (simp add: buried_def merge_def)
qed

context storage_adapter
begin

lemma stored_tombstones:
  assumes "list_all2 (stored_as K) vs ps" "\<forall>p \<in> set ps. o_table p = t' \<and> o_row p = r'"
    "(t', r') = (t, r) \<longrightarrow> (\<forall>v. (TOMBSTONE_COLUMN, v) \<in> set vs \<longrightarrow> v = JBool True)"
  shows "keeps_tombstone ps t r"
  unfolding keeps_tombstone_def
proof (intro ballI impI)
  fix p assume p: "p \<in> set ps" "op_cell p = (t, r, TOMBSTONE_COLUMN)"
  obtain c v where cv: "(c, v) \<in> set vs" "stored_as K (c, v) p" using assms(1) p(1) by (metis in_set_conv_nth list_all2_conv_all_nth surj_pair)
  then have "c = TOMBSTONE_COLUMN" "o_value p = v" using p(2) by (auto simp: stored_as_def op_cell_def split: option.splits)
  moreover have "(t', r') = (t, r)" using assms(2) p by (simp add: op_cell_def)
  ultimately show "o_value p = JBool True" using assms(3) cv(1) by blast
qed

lemma later_step_buried:
  assumes good: "good C e" "crypto_key C (e_deviceKey e)" and step: "later_step S C K t r e e'"
    and b: "buried (view (e_store e)) t r"
  shows "buried (view (e_store e')) t r"
proof -
  have upd: ?thesis if "json_values vs" "(t', r') = (t, r) \<longrightarrow> (\<forall>v. (TOMBSTONE_COLUMN, v) \<in> set vs \<longrightarrow> v = JBool True)"
    "update_row S C K ds t' r' vs e = (res, e')" for vs t' r' ds res
  proof (rule update_view[OF good that(1,3)])
    fix ps ck assume "view (e_store e') = merge ps ck (view (e_store e))" "\<forall>p \<in> set ps. o_table p = t' \<and> o_row p = r'"
      "list_all2 (stored_as K) vs ps"
    with buried_merge[OF b stored_tombstones[OF _ _ that(2)]] show ?thesis by simp
  qed (use b in simp)
  have silent: ?thesis if "(\<exists>pk d. e' = snd (learnKey C d pk e)) \<or> (\<exists>pt s res. observeRemoteClock S pt s e = (res, e')) \<or>
      (\<exists>peer f res. js_frontier f \<and> recordPeerFrontier S peer f e = (res, e')) \<or>
      (\<exists>gen s'. open_engine S C gen (e_store e) = (Inr e', s'))"
    using silent_view(1)[OF good that] b by (simp add: buried_def)
  from step show ?thesis
  proof cases
    case (l_insert vs date rand ds t' ires)
    have "(t', r') = (t, r) \<longrightarrow> (\<forall>v. (TOMBSTONE_COLUMN, v) \<in> set vs \<longrightarrow> v = JBool True)" for r'
      using l_insert(2) by force
    from upd[OF l_insert(1) this] l_insert(3) b show ?thesis
      by (auto simp: insert_row_update split: sum.splits prod.splits)
  next
    case (l_update vs t' r' ds res)
    then show ?thesis using upd[OF l_update(1) _ l_update(4)] by blast
  next
    case (l_elsewhere vs t' r' ds res)
    then show ?thesis using upd[OF l_elsewhere(1) _ l_elsewhere(3)] by blast
  next
    case (l_delete d t' r' res)
    have "json_values [(TOMBSTONE_COLUMN, JBool True)]" using wf_val_tombstone by (simp only: json_values_def)
    from upd[OF this _ l_delete[unfolded delete_row_update]] show ?thesis by simp
  next
    case (l_remote raw pt nres)
    show ?thesis
    proof (rule remote_view[OF good(1) l_remote(1,3)])
      fix ps ck assume m: "view (e_store e') = merge ps ck (view (e_store e))" "set ps \<subseteq> set (batch_ops raw)"
      then have "keeps_tombstone ps t r" using l_remote(2) by (auto simp: keeps_tombstone_def)
      from buried_merge[OF b this] m(1) show ?thesis by simp
    qed (use b in simp)
  next
    case (l_compact gc dry cres)
    note P = compact_good(5-7)[OF good(1) l_compact(2)]
    show ?thesis by (cases cres; cases dry) (use P b l_compact(1) in \<open>auto simp: buried_def\<close>)
  qed (use silent in blast)+
qed

lemma later_steps_buried:
  assumes "(later_step S C K t r)\<^sup>*\<^sup>* e e'" "good C e" "crypto_key C (e_deviceKey e)" "buried (view (e_store e)) t r"
  shows "good C e' \<and> crypto_key C (e_deviceKey e') \<and> buried (view (e_store e')) t r"
  using assms
proof (induction rule: rtranclp_induct)
  case (step e1 e2)
  then show ?case
    using later_step_buried engine_step_good[OF later_engine_step[OF step.hyps(2)]] by metis
qed simp

end

end
