(* ===== verification/Replicator_Properties.thy ===== *)
theory Replicator_Properties
  imports Replicator_Steps Engine_Later Merge_Properties
begin

text \<open>
  What replication promises (PROTOCOL.md section 6): nothing that arrives can corrupt the
  replica or stop the handler, one lossless exchange of \<open>since\<close>, \<open>keys\<close> and \<open>ops\<close> delivers
  everything above the frontier, and an operation that was skipped is never sent again.
\<close>

section \<open>What a replicator does to its engine\<close>

lemma engine_send [simp]: "rp_engine (snd (send ro b r)) = rp_engine r"
  by (simp add: send_def modify_def)

lemma engine_send_all [simp]: "rp_engine (snd (send_all ro bs r)) = rp_engine r"
  by (simp add: send_all_def modify_def)

lemma send_runs: "send ro b r = (Inr (), r\<lparr>rp_sent := rp_sent r @ [msg ro (rp_engine r) b]\<rparr>)"
  by (simp add: send_def modify_def)

lemma send_all_runs: "send_all ro bs r = (Inr (), r\<lparr>rp_sent := rp_sent r @ map (msg ro (rp_engine r)) bs\<rparr>)"
  by (simp add: send_all_def modify_def)

lemma on_engine_runs:
  "on_engine ro m r = (fst (m (rp_engine r)), snd (on_engine ro m r))"
  "rp_engine (snd (on_engine ro m r)) = snd (m (rp_engine r))"
  "rp_started (snd (on_engine ro m r)) = rp_started r"
  "rp_errors (snd (on_engine ro m r)) = rp_errors r"
  "rp_unsubs (snd (on_engine ro m r)) = rp_unsubs r"
  by (simp_all add: on_engine_def Let_def send_all_def bind_act_eq modify_def lift_res_def split: prod.splits)

text \<open>\<open>ops\<close> messages: the engine takes the batch, and errors are recorded.\<close>

lemma handle_ops:
  assumes "relevant ro r m" "w_body m = Ops to raw" "raw \<noteq> []"
    "applyRemoteOps S C pt raw (rp_engine r) = (Inr n, e')"
  shows "rp_engine (snd (handled S C ro pt m r)) = e' \<and> rp_errors (snd (handled S C ro pt m r)) = rp_errors r \<and>
    rp_started (snd (handled S C ro pt m r)) = rp_started r \<and> rp_unsubs (snd (handled S C ro pt m r)) = rp_unsubs r"
proof -
  define r1 where "r1 = snd (on_engine ro (applyRemoteOps S C pt raw) r)"
  have r1: "on_engine ro (applyRemoteOps S C pt raw) r = (Inr n, r1)" "rp_engine r1 = e'"
    "rp_started r1 = rp_started r" "rp_errors r1 = rp_errors r" "rp_unsubs r1 = rp_unsubs r"
    using on_engine_runs[of ro "applyRemoteOps S C pt raw" r] assms(4) by (simp_all add: r1_def)
  have "handle_body S C ro pt m r = (Inr (), if 0 < n then r1\<lparr>rp_sent := rp_sent r1 @
      [msg ro e' (Ack (w_from m) (engine_frontier S e'))]\<rparr> else r1)"
    by (simp add: handle_body_def assms(2,3) on_ops_def bind_act_eq r1 gets_def send_runs ret_def)
  then show ?thesis using assms(1) r1 by (simp add: handled_def)
qed

lemma handle_keys:
  assumes "relevant ro r m" "w_body m = Keys to ks"
  shows "handled S C ro pt m r = (Inr (), r\<lparr>rp_engine := learn_hex C ks (rp_engine r)\<rparr>)"
  using assms by (simp add: handled_def handle_body_def modify_def)

text \<open>The answer to \<open>since\<close>.\<close>

definition answer :: "'s storage_ops \<Rightarrow> replicator_opts \<Rightarrow> jsstring \<Rightarrow> frontier \<Rightarrow> 's engine \<Rightarrow> wire list" where
  "answer S ro to f e =
     (let missing = engine_opsSince S f e in
      (if missing = [] then [] else [msg ro e (Keys (Some to) (map (\<lambda>(d, k). (d, hex k)) (e_keys e)))]) @
      map (\<lambda>ch. msg ro e (Ops (Some to) (map op_to_js ch))) (chunks missing OPS_PER_MESSAGE))"

lemma handle_since:
  assumes "relevant ro r m" "w_body m = Since to have"
    and rec: "recordPeerFrontier S (w_from m) have (rp_engine r) = (Inr u, e')"
    and ev: "e_events e' = e_events (rp_engine r)"
  shows "rp_engine (snd (handled S C ro pt m r)) = e'"
    "rp_sent (snd (handled S C ro pt m r)) = rp_sent r @ answer S ro (w_from m) have e'"
    "rp_errors (snd (handled S C ro pt m r)) = rp_errors r"
proof -
  have run: "on_engine ro (recordPeerFrontier S (w_from m) have) (r\<lparr>rp_peers := x\<rparr>) =
      (Inr u, r\<lparr>rp_peers := x, rp_engine := e'\<rparr>)" for x
    using rec ev by (simp add: on_engine_def Let_def send_all_def bind_act_eq modify_def lift_res_def)
  have "chunks [] OPS_PER_MESSAGE = ([] :: op list list)" by (simp add: chunks_def chunks_from.simps)
  then have "handle_body S C ro pt m r = (Inr (), r\<lparr>rp_peers := map_set (w_from m) (Some have) (rp_peers r),
      rp_engine := e', rp_sent := rp_sent r @ answer S ro (w_from m) have e'\<rparr>)"
    by (auto simp: handle_body_def assms(2) on_since_def send_missing_def bind_act_eq set_peer_def modify_def run gets_def
        sendKeys_def send_runs send_all_runs ret_def answer_def Let_def comp_def)
  then show "rp_engine (snd (handled S C ro pt m r)) = e'"
    "rp_sent (snd (handled S C ro pt m r)) = rp_sent r @ answer S ro (w_from m) have e'"
    "rp_errors (snd (handled S C ro pt m r)) = rp_errors r"
    using assms(1) by (simp_all add: handled_def)
qed

text \<open>A queue of messages delivered in order.\<close>

definition deliver_all :: "'s storage_ops \<Rightarrow> crypto \<Rightarrow> replicator_opts \<Rightarrow> nat \<Rightarrow> wire list \<Rightarrow> 's replicator \<Rightarrow> 's replicator" where
  "deliver_all S C ro pt ms r = fold (\<lambda>m r. snd (deliver S C ro pt m r)) ms r"

section \<open>Learning the keys of a message\<close>

lemma learn_hex_simps [simp]:
  "e_store (learn_hex C ks e) = e_store e" "e_clock (learn_hex C ks e) = e_clock e"
  "e_deviceKey (learn_hex C ks e) = e_deviceKey e"
proof -
  have "e_store (learn_hex C ks e) = e_store e \<and> e_clock (learn_hex C ks e) = e_clock e \<and>
      e_deviceKey (learn_hex C ks e) = e_deviceKey e"
    unfolding learn_hex_def by (induction ks arbitrary: e) (auto simp: learnKey_def)
  then show "e_store (learn_hex C ks e) = e_store e" "e_clock (learn_hex C ks e) = e_clock e"
    "e_deviceKey (learn_hex C ks e) = e_deviceKey e" by blast+
qed

lemma learn_hex_keys:
  assumes "\<forall>(d, pk) \<in> set ks. deviceIdFromPublicKey C pk = d"
  shows "e_keys (learn_hex C (map (\<lambda>(d, k). (d, hex k)) ks) e) = fold (\<lambda>(d, k). map_set d k) ks (e_keys e)"
  using assms
proof (induction ks arbitrary: e)
  case (Cons dk ks)
  obtain d k where dk: "dk = (d, k)" by fastforce
  have "snd (learnKey C d k e) = e\<lparr>e_keys := map_set d k (e_keys e)\<rparr>"
    using Cons.prems by (simp add: dk learnKey_def)
  then have "learn_hex C (map (\<lambda>(d, k). (d, hex k)) (dk # ks)) e =
      learn_hex C (map (\<lambda>(d, k). (d, hex k)) ks) (e\<lparr>e_keys := map_set d k (e_keys e)\<rparr>)"
    by (simp add: learn_hex_def dk unhex_hex)
  with Cons show ?case by (simp add: dk)
qed (simp add: learn_hex_def)

lemma learn_hex_lookup:
  assumes "keys_ok C ks"
  shows "map_of (e_keys (learn_hex C (map (\<lambda>(d, k). (d, hex k)) ks) e)) = map_of (e_keys e) ++ map_of ks"
  using assms fold_pairs_map[of ks "e_keys e"] learn_hex_keys[of ks C e] by (simp add: keys_ok_def)

section \<open>Delivering the chunks\<close>

text \<open>An operation an engine with clock bound \<open>M\<close> and these keys takes at time \<open>pt\<close>.\<close>

definition takes :: "crypto \<Rightarrow> (jsstring, bytes) jsmap \<Rightarrow> nat \<Rightarrow> nat \<Rightarrow> op \<Rightarrow> bool" where
  "takes C keys pt M p \<longleftrightarrow> (\<exists>pk. map_of keys (o_device p) = Some pk \<and> verifyOp C p pk) \<and>
     (\<exists>h. decodeHlc (o_hlc p) = Inr h \<and> millis h \<le> M \<and> millis h \<le> pt + MAX_DRIFT_MS)"

lemma apply_chunk:
  assumes good: "mem.good C e" and ops: "ch \<noteq> []" "length ch \<le> OPS_PER_MESSAGE"
    "\<forall>p \<in> set ch. validateOp (op_to_js p) = Inr p \<and> is_json (o_value p) \<and> takes C (e_keys e) pt M p"
    and clk: "c_millis (e_clock e) \<le> M + k" "pt \<le> M" "M + k < MAX_MILLIS"
    and inj: "inj_on o_id (ran (r_log (mem_view (e_store e))) \<union> set ch)"
  obtains n e' where "applyRemoteOps memory_adapter C pt (map op_to_js ch) e = (Inr n, e')" "mem.good C e'"
    "ran (r_log (mem_view (e_store e'))) = ran (r_log (mem_view (e_store e))) \<union> set ch"
    "e_keys e' = e_keys e" "e_deviceId e' = e_deviceId e" "c_millis (e_clock e') \<le> M + Suc k"
proof -
  have wf: "\<forall>v \<in> set (map op_to_js ch). wf_val v"
    using ops(3) is_json_wf_val by auto
  have b: "batch_ops (map op_to_js ch) = ch" using ops(3) by (intro batch_ops_own) blast
  have adm: "admitted C (e_keys e) (map op_to_js ch) ch"
    using ops by (auto simp: admitted_def map_res_op_to_js takes_def OPS_PER_MESSAGE_def MAX_BATCH_OPS_def)
  have lim: "c_millis (e_clock e) < MAX_MILLIS" "pt < MAX_MILLIS" using clk by linarith+
  have h: "\<exists>h. decodeHlc (o_hlc p) = Inr h \<and> millis h < MAX_MILLIS \<and> millis h \<le> pt + MAX_DRIFT_MS"
    if "p \<in> set ch" for p
  proof -
    from ops(3) that obtain h where "decodeHlc (o_hlc p) = Inr h" "millis h \<le> M" "millis h \<le> pt + MAX_DRIFT_MS"
      by (auto simp: takes_def)
    with clk(3) show ?thesis by (intro exI[of _ h]) simp
  qed
  obtain n e' where run: "applyRemoteOps memory_adapter C pt (map op_to_js ch) e = (Inr n, e')"
    using memory_accepts.apply_total[OF TrueI adm lim] h by blast
  note L = mem.applyRemoteOps_log[OF good wf run, unfolded b, OF inj]
  note A = mem.applyRemoteOps_spec[OF good wf adm run]
  have "\<exists>m \<in> set ch. max_op ch = Some m" using max_op_spec[of ch] ops(1) by (cases ch) auto
  then obtain m where m: "max_op ch = Some m" "m \<in> set ch" by blast
  obtain g where g: "decodeHlc (o_hlc m) = Inr g" "millis g \<le> M" using ops(3) m(2) by (auto simp: takes_def)
  have "c_millis (e_clock e') \<le> M + Suc k"
    using applyRemoteOps_clock[OF adm m(1) g(1) run] receive_millis[of "time_value pt" g "e_clock e"] clk g(2)
    by (simp add: time_value_def)
  with run L A(2,4) show ?thesis by (intro that) (simp_all add: e_deviceId_def)
qed

lemma relevant_answer:
  assumes "rp_started r" "to = e_deviceId (rp_engine r)" "e_deviceId e \<noteq> to" "addressee b = Some to"
  shows "relevant ro r (msg ro e b)"
  using assms by (simp add: relevant_def msg_def)

lemma deliver_chunks:
  assumes "rp_started r" "OnMessage \<in> set (rp_unsubs r)" "mem.good C (rp_engine r)"
    "to = e_deviceId (rp_engine r)" "e_deviceId e \<noteq> to"
    "\<forall>ch \<in> set chs. ch \<noteq> [] \<and> length ch \<le> OPS_PER_MESSAGE"
    "\<forall>p \<in> set (concat chs). validateOp (op_to_js p) = Inr p \<and> is_json (o_value p) \<and>
       takes C (e_keys (rp_engine r)) pt M p"
    "c_millis (e_clock (rp_engine r)) \<le> M + k" "pt \<le> M" "M + k + length chs < MAX_MILLIS"
    "inj_on o_id (ran (r_log (mem_view (e_store (rp_engine r)))) \<union> set (concat chs))"
  shows "let r' = deliver_all memory_adapter C ro pt (map (\<lambda>ch. msg ro e (Ops (Some to) (map op_to_js ch))) chs) r
    in rp_errors r' = rp_errors r \<and> mem.good C (rp_engine r') \<and>
       ran (r_log (mem_view (e_store (rp_engine r')))) =
         ran (r_log (mem_view (e_store (rp_engine r)))) \<union> set (concat chs)"
  using assms
proof (induction chs arbitrary: r k)
  case Nil
  then show ?case by (simp add: deliver_all_def Let_def)
next
  case (Cons ch chs)
  let ?m = "msg ro e (Ops (Some to) (map op_to_js ch))"
  have inj: "inj_on o_id (ran (r_log (mem_view (e_store (rp_engine r)))) \<union> set ch)"
    using Cons.prems(11) by (rule inj_on_subset) auto
  have len: "ch \<noteq> []" "length ch \<le> OPS_PER_MESSAGE" using Cons.prems(6) by auto
  have ops: "\<forall>p \<in> set ch. validateOp (op_to_js p) = Inr p \<and> is_json (o_value p) \<and>
      takes C (e_keys (rp_engine r)) pt M p" using Cons.prems(7) by auto
  have lim: "M + k < MAX_MILLIS" using Cons.prems(10) by simp
  obtain n e' where run: "applyRemoteOps memory_adapter C pt (map op_to_js ch) (rp_engine r) = (Inr n, e')"
    and good: "mem.good C e'"
    and log: "ran (r_log (mem_view (e_store e'))) = ran (r_log (mem_view (e_store (rp_engine r)))) \<union> set ch"
    and keys: "e_keys e' = e_keys (rp_engine r)" and dev: "e_deviceId e' = e_deviceId (rp_engine r)"
    and clk: "c_millis (e_clock e') \<le> M + Suc k"
    by (rule apply_chunk[OF Cons.prems(3) len ops Cons.prems(8,9) lim inj])
  have rel: "relevant ro r ?m" by (rule relevant_answer[OF Cons.prems(1,4,5)]) simp
  have body: "w_body ?m = Ops (Some to) (map op_to_js ch)" by (simp add: msg_def)
  define r1 where "r1 = snd (deliver memory_adapter C ro pt ?m r)"
  have r1: "rp_engine r1 = e'" "rp_errors r1 = rp_errors r" "rp_started r1" "OnMessage \<in> set (rp_unsubs r1)"
    using handle_ops[OF rel body _ run] len(1) Cons.prems(1,2) by (simp_all add: r1_def deliver_eq)
  have "let r' = deliver_all memory_adapter C ro pt (map (\<lambda>ch. msg ro e (Ops (Some to) (map op_to_js ch))) chs) r1
    in rp_errors r' = rp_errors r1 \<and> mem.good C (rp_engine r') \<and>
       ran (r_log (mem_view (e_store (rp_engine r')))) =
         ran (r_log (mem_view (e_store (rp_engine r1)))) \<union> set (concat chs)"
  proof (rule Cons.IH[where k = "Suc k"])
    show "to = e_deviceId (rp_engine r1)" "mem.good C (rp_engine r1)" using Cons.prems(4) dev good r1 by simp_all
    show "\<forall>p \<in> set (concat chs). validateOp (op_to_js p) = Inr p \<and> is_json (o_value p) \<and>
        takes C (e_keys (rp_engine r1)) pt M p" using Cons.prems(7) keys r1 by auto
    show "inj_on o_id (ran (r_log (mem_view (e_store (rp_engine r1)))) \<union> set (concat chs))"
      using Cons.prems(11) log r1(1) by (simp add: Un_assoc)
  qed (use Cons.prems clk r1 in auto)
  then show ?case using r1 log by (simp add: Let_def deliver_all_def r1_def[symmetric] Un_assoc)
qed

section \<open>The exchange\<close>

lemma mem_recordPeerFrontier:
  "p \<noteq> e_deviceId e \<Longrightarrow> recordPeerFrontier memory_adapter p f e =
     (Inr (), e\<lparr>e_store := (e_store e)\<lparr>peerFrontiers := map_set p f (peerFrontiers (e_store e))\<rparr>\<rparr>)"
  by (simp add: recordPeerFrontier_def on_store_def memory_adapter_def mem_setPeerFrontier_def modify_def)

lemma mem_view_peers [simp]: "r_log (mem_view (m\<lparr>peerFrontiers := x\<rparr>)) = r_log (mem_view m)"
  by (simp add: mem_view_def)

abbreviation rp_log :: "memory replicator \<Rightarrow> op set" where
  "rp_log r \<equiv> ran (r_log (mem_view (e_store (rp_engine r))))"

abbreviation rp_front :: "memory replicator \<Rightarrow> frontier" where
  "rp_front r \<equiv> r_front (mem_view (e_store (rp_engine r)))"

abbreviation mem_replicator :: "crypto \<Rightarrow> cipher option \<Rightarrow> replicator_opts \<Rightarrow> memory replicator \<Rightarrow> bool" where
  "mem_replicator C K ro r \<equiv> replicator_reachable memory_adapter C K ro new_memory r"

lemma mem_replicator_inv:
  assumes "mem_replicator C K ro r"
  obtains k where "replicator_inv (reached memory_adapter C K new_memory k) ro (deviceIdFromPublicKey C (publicKey k)) r"
  using mem.replicator_reachable_inv[OF new_memory_inv new_memory_ok assms] by blast

lemma mem_replicator_engine:
  assumes "mem_replicator C K ro r" shows "mem_reachable C K (rp_engine r)"
  by (rule mem_replicator_inv[OF assms]) (auto simp: replicator_inv_def sound_def reached_def)

lemma mem_replicator_started:
  assumes "mem_replicator C K ro r" "rp_started r" shows "OnMessage \<in> set (rp_unsubs r)"
  by (rule mem_replicator_inv[OF assms(1)]) (use assms(2) in \<open>auto simp: replicator_inv_def sound_def\<close>)

lemma logged_sendable:
  assumes "mem.good C e" "p \<in> ran (r_log (mem_view (e_store e)))"
  shows "validateOp (op_to_js p) = Inr p" "is_json (o_value p)"
proof -
  have ok: "engine_ok C (mem_view (e_store e)) e" using assms(1) by (simp add: mem.good_def)
  show "validateOp (op_to_js p) = Inr p" using engine_okD(4)[OF ok assms(2)] by (simp add: acceptable_def)
  show "is_json (o_value p)"
    using consistent_storable[OF engine_okD(2)[OF ok] assms(2)] by (simp add: storable_def)
qed

lemma length_chunks: "\<forall>ch \<in> set chs. ch \<noteq> [] \<Longrightarrow> length chs \<le> length (concat chs)"
  by (induction chs) (auto simp: Suc_le_eq add_strict_increasing)

text \<open>The reply of \<open>a\<close> to what \<open>b\<close> is missing, and its effect on \<open>b\<close>.\<close>

lemma answer_delivers:
  assumes b: "rp_started rb" "OnMessage \<in> set (rp_unsubs rb)" "mem.good C (rp_engine rb)"
    and a: "mem.good C e" "e_deviceId e \<noteq> e_deviceId (rp_engine rb)"
    and takes: "\<forall>p \<in> ran (r_log (mem_view (e_store e))). aboveFrontier p f \<longrightarrow> takes C (e_keys e) pt M p"
    and clk: "c_millis (e_clock (rp_engine rb)) \<le> M" "pt \<le> M"
      "M + card (ran (r_log (mem_view (e_store e)))) < MAX_MILLIS"
    and inj: "inj_on o_id (ran (r_log (mem_view (e_store e))) \<union> rp_log rb)"
  shows "let rb' = deliver_all memory_adapter C ro pt (answer memory_adapter ro (e_deviceId (rp_engine rb)) f e) rb
    in rp_errors rb' = rp_errors rb \<and>
       rp_log rb' = rp_log rb \<union> {p \<in> ran (r_log (mem_view (e_store e))). aboveFrontier p f}"
proof -
  let ?to = "e_deviceId (rp_engine rb)" and ?log = "ran (r_log (mem_view (e_store e)))"
  define missing where "missing = engine_opsSince memory_adapter f e"
  have inv: "mem_inv (e_store e)" using a(1) by (simp add: mem.good_def)
  have miss: "set missing = {p \<in> ?log. aboveFrontier p f}" "distinct missing"
    using mem.opsSince[OF inv, of f] by (auto simp: missing_def engine_opsSince_def sorted_ops_def)
  have "finite ?log" using mem.allOps[OF inv] by (metis List.finite_set sorted_ops_def)
  then have "card (set missing) \<le> card ?log" by (intro card_mono) (auto simp: miss(1))
  then have len: "length missing \<le> card ?log" using miss(2) by (simp add: distinct_card)
  have n: "0 < OPS_PER_MESSAGE" by (simp add: OPS_PER_MESSAGE_def)
  define chs where "chs = chunks missing OPS_PER_MESSAGE"
  have chs: "\<forall>ch \<in> set chs. ch \<noteq> [] \<and> length ch \<le> OPS_PER_MESSAGE" "concat chs = missing"
    unfolding chs_def using chunks_length[OF n] chunks_concat[OF n] by blast+
  show ?thesis
  proof (cases "missing = []")
    case True
    then have "answer memory_adapter ro ?to f e = []"
      by (simp add: answer_def Let_def missing_def[symmetric] chunks_def chunks_from.simps)
    then show ?thesis using True miss(1) by (auto simp: Let_def deliver_all_def)
  next
    case False
    let ?m = "msg ro e (Keys (Some ?to) (map (\<lambda>(d, k). (d, hex k)) (e_keys e)))"
    have rel: "relevant ro rb ?m" by (rule relevant_answer[OF b(1) refl a(2)]) simp
    define b1 where "b1 = learn_hex C (map (\<lambda>(d, k). (d, hex k)) (e_keys e)) (rp_engine rb)"
    define r1 where "r1 = rb\<lparr>rp_engine := b1\<rparr>"
    have "w_body ?m = Keys (Some ?to) (map (\<lambda>(d, k). (d, hex k)) (e_keys e))" by (simp add: msg_def)
    from handle_keys[OF rel this] have r1: "snd (deliver memory_adapter C ro pt ?m rb) = r1"
      using b(2) by (simp add: deliver_eq r1_def b1_def)
    have ok: "keys_ok C (e_keys e)" using a(1) engine_okD(7) by (auto simp: mem.good_def)
    have keys: "map_of (e_keys b1) d = Some pk" if "map_of (e_keys e) d = Some pk" for d pk
      using learn_hex_lookup[OF ok, of "rp_engine rb"] that by (simp add: b1_def map_add_Some_iff)
    have good1: "mem.good C b1"
      unfolding b1_def by (rule learn_hex_keeps[where R = "mem.good C"]) (use mem.learnKey_good b(3) in blast)+
    have b1: "e_store b1 = e_store (rp_engine rb)" "e_clock b1 = e_clock (rp_engine rb)"
      by (simp_all add: b1_def)
    have "let r' = deliver_all memory_adapter C ro pt (map (\<lambda>ch. msg ro e (Ops (Some ?to) (map op_to_js ch))) chs) r1
      in rp_errors r' = rp_errors r1 \<and> mem.good C (rp_engine r') \<and> rp_log r' = rp_log r1 \<union> set (concat chs)"
    proof (rule deliver_chunks[where k = 0])
      show "\<forall>p \<in> set (concat chs). validateOp (op_to_js p) = Inr p \<and> is_json (o_value p) \<and>
          takes C (e_keys (rp_engine r1)) pt M p"
      proof
        fix p assume "p \<in> set (concat chs)"
        then have p: "p \<in> ?log" "aboveFrontier p f" using miss(1) chs(2) by auto
        then have "takes C (e_keys e) pt M p" using takes by blast
        then have "takes C (e_keys (rp_engine r1)) pt M p"
          using keys unfolding takes_def r1_def by auto
        with logged_sendable[OF a(1) p(1)] show "validateOp (op_to_js p) = Inr p \<and> is_json (o_value p) \<and>
          takes C (e_keys (rp_engine r1)) pt M p" by blast
      qed
      show "inj_on o_id (rp_log r1 \<union> set (concat chs))"
        using inj by (rule inj_on_subset) (auto simp: r1_def b1 chs(2) miss(1))
      show "M + 0 + length chs < MAX_MILLIS" using length_chunks[of chs] chs len clk(3) by auto
    qed (use b a(2) good1 clk chs(1) b1 in \<open>simp_all add: r1_def e_deviceId_def\<close>)
    moreover have "answer memory_adapter ro ?to f e = ?m # map (\<lambda>ch. msg ro e (Ops (Some ?to) (map op_to_js ch))) chs"
      using False by (simp add: answer_def Let_def missing_def[symmetric] chs_def[symmetric])
    ultimately show ?thesis
      using chs(2) miss(1) by (simp add: Let_def deliver_all_def r1) (simp add: r1_def b1)
  qed
qed

text \<open>C13. One exchange heals: when a running replicator \<open>b\<close> asks a running \<open>a\<close> of the same space for
  what it is missing and the answer arrives in order and complete, no handler reports an error
  and the log of \<open>b\<close> becomes its own plus every operation of \<open>a\<close> above its frontier, however many
  messages that takes. This needs \<open>a\<close> to hold the keys of those operations' authors, the
  timestamps to be within the drift allowance, and the clocks to be far from their 48 bits.
\<close>

theorem exchange_delivers:
  assumes a: "mem_replicator C K ro ra" "rp_started ra" and b: "mem_replicator C K' ro rb" "rp_started rb"
    and ids: "e_deviceId (rp_engine ra) \<noteq> e_deviceId (rp_engine rb)" "inj_on o_id (rp_log ra \<union> rp_log rb)"
    and takes: "\<forall>p \<in> rp_log ra. aboveFrontier p (rp_front rb) \<longrightarrow> takes C (e_keys (rp_engine ra)) pt M p"
    and clk: "c_millis (e_clock (rp_engine rb)) \<le> M" "pt \<le> M" "M + card (rp_log ra) < MAX_MILLIS"
  shows "let request = msg ro (rp_engine rb) (Since (e_deviceId (rp_engine ra)) (engine_frontier memory_adapter (rp_engine rb)));
      ra' = snd (deliver memory_adapter C ro pt request ra);
      rb' = deliver_all memory_adapter C ro pt (drop (length (rp_sent ra)) (rp_sent ra')) rb
    in rp_errors ra' = rp_errors ra \<and> rp_errors rb' = rp_errors rb \<and> rp_log ra' = rp_log ra \<and>
       rp_log rb' = rp_log rb \<union> {p \<in> rp_log ra. aboveFrontier p (rp_front rb)}"
proof -
  let ?ea = "rp_engine ra" and ?eb = "rp_engine rb"
  let ?f = "engine_frontier memory_adapter ?eb"
  let ?req = "msg ro ?eb (Since (e_deviceId ?ea) ?f)"
  have ga: "mem.good C ?ea" and gb: "mem.good C ?eb"
    using mem_reachable_good mem_replicator_engine a(1) b(1) by blast+
  have f: "?f = rp_front rb" using gb mem.getFrontier by (simp add: engine_frontier_def mem.good_def)
  define e' where "e' = ?ea\<lparr>e_store := (e_store ?ea)\<lparr>peerFrontiers :=
    map_set (e_deviceId ?eb) ?f (peerFrontiers (e_store ?ea))\<rparr>\<rparr>"
  have rec: "recordPeerFrontier memory_adapter (w_from ?req) ?f ?ea = (Inr (), e')"
    using mem_recordPeerFrontier[of "e_deviceId ?eb" ?ea ?f] ids(1) by (simp add: msg_def e'_def)
  have good': "mem.good C e'" using mem.recordPeerFrontier_good[OF ga rec mem.frontier_js[OF gb]] by blast
  have rel: "relevant ro ra ?req" using a(2) ids(1) by (simp add: relevant_def msg_def)
  have body: "w_body ?req = Since (e_deviceId ?ea) ?f" "w_from ?req = e_deviceId ?eb" by (simp_all add: msg_def)
  have ev: "e_events e' = e_events ?ea" by (simp add: e'_def)
  note H = handle_since[OF rel body(1) rec ev]
  have on: "OnMessage \<in> set (rp_unsubs ra)" "OnMessage \<in> set (rp_unsubs rb)"
    using mem_replicator_started a b by blast+
  have e': "e_deviceId e' = e_deviceId ?ea" "e_keys e' = e_keys ?ea" "r_log (mem_view (e_store e')) = r_log (mem_view (e_store ?ea))"
    by (simp_all add: e'_def e_deviceId_def)
  have "let rb' = deliver_all memory_adapter C ro pt (answer memory_adapter ro (e_deviceId ?eb) ?f e') rb
    in rp_errors rb' = rp_errors rb \<and>
       rp_log rb' = rp_log rb \<union> {p \<in> ran (r_log (mem_view (e_store e'))). aboveFrontier p ?f}"
    by (rule answer_delivers[OF b(2) on(2) gb good']) (use ids takes clk in \<open>simp_all add: e' f\<close>)
  moreover have "drop (length (rp_sent ra)) (rp_sent (snd (deliver memory_adapter C ro pt ?req ra))) =
      answer memory_adapter ro (e_deviceId ?eb) ?f e'"
    using H(2) on(1) body(2) by (simp add: deliver_eq)
  moreover have "rp_errors (snd (deliver memory_adapter C ro pt ?req ra)) = rp_errors ra"
    "rp_log (snd (deliver memory_adapter C ro pt ?req ra)) = rp_log ra"
    using H(1,3) on(1) e' by (simp_all add: deliver_eq)
  ultimately show ?thesis by (simp add: Let_def f e')
qed

text \<open>A sample: an engine that holds one operation of device 5, and one that has met nobody.\<close>

definition sample_opts :: replicator_opts where
  "sample_opts = \<lparr>ro_space = js ''s'', ro_links = False\<rparr>"

definition started :: "memory engine \<Rightarrow> memory replicator" where
  "started e = snd (start memory_adapter sample_opts (new_replicator e))"

lemma started_simps [simp]: "rp_engine (started e) = e" "rp_started (started e)" "rp_errors (started e) = []"
  by (simp_all add: started_def start_def rp_subscribe_def new_replicator_def sendHello_def send_hello_def Let_def send_def modify_def)

lemma started_reachable: "mem_reachable C K e \<Longrightarrow> mem_replicator C K sample_opts (started e)"
  unfolding started_def
  by (rule replicator_reachable.r_step[OF replicator_reachable.r_new replicator_step.starts])

lemma sample_takes:
  assumes "p \<in> {op_one, op_two}"
    "map_of keys (deviceIdFromPublicKey sample_crypto (publicKey (sample_key 5))) = Some (publicKey (sample_key 5))"
  shows "takes sample_crypto keys 1000 1000000 p"
proof -
  obtain h where "decodeHlc (o_hlc p) = Inr h" "millis h \<le> 2"
    using assms(1) sample_op_facts(4)[of 1 "js ''x''" 5] sample_op_facts(4)[of 2 "js ''y''" 5]
    by (auto simp: op_one_def op_two_def)
  then show ?thesis using sample_ops assms by (auto simp: takes_def)
qed

lemma sample_front_empty: "r_front (mem_view (e_store (sample_engine b))) = []"
  by (simp add: sample_engine_view new_memory_view)

theorem exchange_delivers_witness:
  "\<exists>ra rb ra'. mem_replicator sample_crypto None sample_opts ra \<and> mem_replicator sample_crypto None sample_opts rb \<and>
     rp_log rb = {} \<and>
     ra' = snd (deliver memory_adapter sample_crypto sample_opts 1000
       (msg sample_opts (rp_engine rb) (Since (e_deviceId (rp_engine ra)) (engine_frontier memory_adapter (rp_engine rb)))) ra) \<and>
     rp_log (deliver_all memory_adapter sample_crypto sample_opts 1000
       (drop (length (rp_sent ra)) (rp_sent ra')) rb) = {op_one}"
proof -
  obtain a where a: "mem_reachable sample_crypto None a" "ran (r_log (mem_view (e_store a))) = {op_one}"
    "e_keys a = e_keys (meeting 7 5)" "e_deviceId a = e_deviceId (meeting 7 5)"
    by (rule sample_apply_single[of op_one 7 None]) auto
  let ?b = "sample_engine 9"
  have ra: "mem_replicator sample_crypto None sample_opts (started a)" by (rule started_reachable[OF a(1)])
  have rb: "mem_replicator sample_crypto None sample_opts (started ?b)"
    by (rule started_reachable[OF sample_engine_reachable])
  have ids: "e_deviceId (rp_engine (started a)) \<noteq> e_deviceId (rp_engine (started ?b))"
    using sample_devices_differ[of 7 9] by (simp add: a(4) sample_device)
  have log: "rp_log (started a) = {op_one}" "rp_log (started ?b) = {}"
    by (simp_all add: a(2) sample_log_empty)
  have takes: "\<forall>p \<in> rp_log (started a). aboveFrontier p (rp_front (started ?b)) \<longrightarrow>
      takes sample_crypto (e_keys (rp_engine (started a))) 1000 1000000 p"
    unfolding log using sample_takes[of op_one "e_keys a"] a(3) meeting_simps(3)[of 7 5] by simp
  have clk: "c_millis (e_clock (rp_engine (started ?b))) \<le> 1000000" "(1000 :: nat) \<le> 1000000"
    "1000000 + card (rp_log (started a)) < MAX_MILLIS"
    unfolding log by (simp_all add: sample_clock_zero MAX_MILLIS_def)
  have inj: "inj_on o_id (rp_log (started a) \<union> rp_log (started ?b))" unfolding log by simp
  have "aboveFrontier op_one (rp_front (started ?b))" by (simp add: sample_front_empty aboveFrontier_def)
  then have "{p \<in> rp_log (started a). aboveFrontier p (rp_front (started ?b))} = {op_one}" unfolding log by auto
  with exchange_delivers[OF ra started_simps(2) rb started_simps(2) ids inj takes clk] log
  have "rp_log (deliver_all memory_adapter sample_crypto sample_opts 1000 (drop (length (rp_sent (started a)))
    (rp_sent (snd (deliver memory_adapter sample_crypto sample_opts 1000
       (msg sample_opts (rp_engine (started ?b)) (Since (e_deviceId (rp_engine (started a)))
          (engine_frontier memory_adapter (rp_engine (started ?b))))) (started a))))) (started ?b)) = {op_one}"
    by (simp only: Let_def) simp
  note result = this
  show ?thesis
    by (rule exI[of _ "started a"], rule exI[of _ "started ?b"], rule exI, intro conjI)
      (rule ra rb log(2) refl result)+
qed

section \<open>What is never sent again\<close>

lemma answer_ops:
  assumes "w \<in> set (answer S ro to f e)" "w_body w = Ops x raw" "v \<in> set raw"
  shows "\<exists>q \<in> set (engine_opsSince S f e). v = op_to_js q"
proof -
  have n: "0 < OPS_PER_MESSAGE" by (simp add: OPS_PER_MESSAGE_def)
  from assms obtain ch where ch: "ch \<in> set (chunks (engine_opsSince S f e) OPS_PER_MESSAGE)" "v \<in> op_to_js ` set ch"
    by (auto simp: answer_def Let_def msg_def split: if_splits)
  from ch(2) obtain q where "q \<in> set ch" "v = op_to_js q" by blast
  with chunk_mem[OF n ch(1)] show ?thesis by blast
qed

lemma op_to_js_id: "op_to_js p = op_to_js q \<Longrightarrow> o_id p = o_id q"
  by (simp add: op_to_js_def)

lemma since_answer:
  assumes r: "mem.good C (rp_engine r)" and m: "w_body m = Since to have" and f: "js_frontier have"
    and w: "w \<in> set (drop (length (rp_sent r)) (rp_sent (snd (deliver memory_adapter C ro pt m r))))"
      "w_body w = Ops x raw" "v \<in> set raw"
  shows "\<exists>p' \<in> rp_log r. aboveFrontier p' have \<and> v = op_to_js p'"
proof (cases "OnMessage \<in> set (rp_unsubs r) \<and> relevant ro r m")
  case True
  define e' where "e' = (rp_engine r)\<lparr>e_store := (e_store (rp_engine r))\<lparr>peerFrontiers :=
    map_set (w_from m) have (peerFrontiers (e_store (rp_engine r)))\<rparr>\<rparr>"
  have rec: "recordPeerFrontier memory_adapter (w_from m) have (rp_engine r) = (Inr (), e')"
    using True by (simp add: mem_recordPeerFrontier relevant_def e'_def)
  have ev: "e_events e' = e_events (rp_engine r)" by (simp add: e'_def)
  have "w \<in> set (answer memory_adapter ro (w_from m) have e')"
    using w(1) handle_since(2)[OF conjunct2[OF True] m rec ev] True by (simp add: deliver_eq)
  from answer_ops[OF this w(2,3)] obtain p' where p': "p' \<in> set (engine_opsSince memory_adapter have e')" "v = op_to_js p'" by blast
  have "mem_inv (e_store e')"
    using mem.recordPeerFrontier_good(1)[OF r rec f] by (simp add: mem.good_def)
  from mem.opsSince[OF this] p' show ?thesis by (auto simp: engine_opsSince_def sorted_ops_def e'_def)
next
  case False
  then show ?thesis using w(1) by (auto simp: deliver_eq handled_def)
qed

text \<open>C15. A lost message is not always repaired. Once \<open>b\<close> has accepted a later operation of the same
device, an operation \<open>p\<close> that it missed is below the frontier it reports, for good: whatever
\<open>b\<close> does afterwards, whenever it asks with \<open>since\<close> and whichever replicator that holds \<open>p\<close> is asked,
what that replicator sends on the request does not contain \<open>p\<close>.\<close>

theorem gap_is_permanent:
  assumes b: "mem_reachable C K b" "\<forall>v \<in> set raw. wf_val v"
    "applyRemoteOps memory_adapter C pt raw b = (Inr n, b')" "(engine_step memory_adapter C K)\<^sup>*\<^sup>* b' b''"
    and q: "q \<in> set (batch_ops raw)" "o_device q = o_device p" "o_hlc p < o_hlc q"
    and inj: "inj_on o_id (ran (r_log (mem_view (e_store b))) \<union> set (batch_ops raw))"
    and a: "mem_replicator C K' ro ra" "p \<in> rp_log ra"
    and w: "w \<in> set (drop (length (rp_sent ra)) (rp_sent (snd (deliver memory_adapter C ro pt'
        (msg ro b'' (Since to (engine_frontier memory_adapter b''))) ra))))" "w_body w = Ops x sent"
  shows "op_to_js p \<notin> set sent"
proof
  assume sent: "op_to_js p \<in> set sent"
  have ga: "mem.good C (rp_engine ra)" using mem_reachable_good mem_replicator_engine[OF a(1)] by blast
  have gb: "mem.good C b" using mem_reachable_good b(1) by blast
  have "mem_reachable C K b'" by (rule reachable.step[OF b(1) engine_step.remote[OF b(2,3)]])
  then have b': "mem.good C b'" "crypto_key C (e_deviceKey b')" using mem_reachable_good by blast+
  have b'': "mem.good C b''" using mem.engine_steps_good[OF b(4) b'] by blast
  have f: "engine_frontier memory_adapter b'' = r_front (mem_view (e_store b''))"
    using b'' mem.getFrontier by (simp add: engine_frontier_def mem.good_def)
  have "w_body (msg ro b'' (Since to (engine_frontier memory_adapter b''))) = Since to (engine_frontier memory_adapter b'')"
    by (simp add: msg_def)
  from since_answer[OF ga this mem.frontier_js[OF b''] w sent] obtain p' where
    p': "p' \<in> rp_log ra" "aboveFrontier p' (r_front (mem_view (e_store b'')))" "op_to_js p = op_to_js p'" unfolding f by blast
  have wf: "wf_log (r_log (mem_view (e_store (rp_engine ra))))" by (rule mem.good_wf_log[OF ga])
  have ids: "r_log (mem_view (e_store (rp_engine ra))) (o_id r) = Some r" if "r \<in> rp_log ra" for r
    using that wf_log_ran[OF wf, of r] wf_logD[OF wf, of "o_hlc r" r] by simp
  have "p' = p" using op_to_js_id[OF p'(3)] ids[OF p'(1)] ids[OF a(2)] by simp
  have "q \<in> ran (r_log (mem_view (e_store b')))" using mem.applyRemoteOps_log[OF gb b(2,3) inj] q(1) by auto
  moreover have "consistent (mem_view (e_store b'))" using b'(1) engine_okD(2) by (auto simp: mem.good_def)
  ultimately have "passed (map_of (r_front (mem_view (e_store b')))) q" by (simp add: consistent_def)
  from mem.passed_later[OF b(4) b' this] have "passed (map_of (r_front (mem_view (e_store b'')))) p"
    using q(2,3) by (auto simp: passed_def)
  then show False using p'(2) \<open>p' = p\<close> by (simp add: passed_iff_not_above)
qed

theorem gap_is_permanent_witness:
  "\<exists>ra b'. op_one \<in> rp_log ra \<and> rp_started ra \<and> r_log (mem_view (e_store b')) (o_id op_one) = None \<and>
     (\<forall>w \<in> set (drop (length (rp_sent ra)) (rp_sent (snd (deliver memory_adapter sample_crypto sample_opts 1000
        (msg sample_opts b' (Since (e_deviceId (rp_engine ra)) (engine_frontier memory_adapter b'))) ra)))).
        \<forall>x sent. w_body w = Ops x sent \<longrightarrow> op_to_js op_one \<notin> set sent)"
proof -
  obtain a where a: "mem_reachable sample_crypto None a" "ran (r_log (mem_view (e_store a))) = {op_one}"
    by (rule sample_apply_single[of op_one 7 None]) auto
  obtain b' where b': "applyRemoteOps memory_adapter sample_crypto 1000 (map op_to_js [op_two]) (meeting 9 5) = (Inr 1, b')"
    "mem_reachable sample_crypto None b'" "ran (r_log (mem_view (e_store b'))) = {op_two}"
    by (rule sample_apply_single[of op_two 9 None]) auto
  have wf: "\<forall>v \<in> set (map op_to_js [op_two]). wf_val v" by (rule sample_wf) simp
  have ops: "batch_ops (map op_to_js [op_two]) = [op_two]" by (rule sample_batch_ops) simp
  have dev: "o_device op_two = o_device op_one" using sample_ops by simp
  have q: "op_two \<in> set (batch_ops (map op_to_js [op_two]))" unfolding ops by simp
  have inj: "inj_on o_id (ran (r_log (mem_view (e_store (meeting 9 5)))) \<union> set (batch_ops (map op_to_js [op_two])))"
    unfolding ops by (simp add: sample_log_empty)
  have ra: "mem_replicator sample_crypto None sample_opts (started a)" by (rule started_reachable[OF a(1)])
  have p: "op_one \<in> rp_log (started a)" by (simp add: a(2))
  have now: "(engine_step memory_adapter sample_crypto None)\<^sup>*\<^sup>* b' b'" by simp
  note gap = gap_is_permanent[OF meeting_reachable wf b'(1) now q dev op_one_two(1) inj ra p]
  have none: "r_log (mem_view (e_store b')) (o_id op_one) = None"
  proof (rule ccontr)
    assume "r_log (mem_view (e_store b')) (o_id op_one) \<noteq> None"
    then obtain r where r: "r_log (mem_view (e_store b')) (o_id op_one) = Some r" by blast
    then have "r = op_two" using b'(3) by (auto simp: ran_def)
    moreover have "wf_log (r_log (mem_view (e_store b')))" using mem.good_wf_log mem_reachable_good[OF b'(2)] by blast
    ultimately show False using wf_logD[of "r_log (mem_view (e_store b'))" _ r] r op_one_two(2) by simp
  qed
  show ?thesis
    by (rule exI[of _ "started a"], rule exI[of _ b']) (use p none gap in \<open>simp add: a(2)\<close>)
qed

end
