(* ===== verification/Replicator_Tasks.thy ===== *)
theory Replicator_Tasks
  imports Replicator_Properties
begin

text \<open>
  The replicator with its asynchronous functions in flight. A session is a replicator with the functions
  that wait at an \<^verbatim>\<open>await\<close>; messages, calls, \<open>start\<close>, \<open>stop\<close> and the turns of the engine's lock come in
  any order between them. What holds in every interleaving is stated here, and what only holds
  when a handler runs undisturbed is not.
\<close>

section \<open>Sessions\<close>

text \<open>
  A waiting function has its point and, once the engine has answered, the reply it will go on with.
  \<open>ss_inbox\<close> is what the transport has handed over, \<open>ss_rejected\<close> the promises nobody catches.
\<close>

type_synonym waiting = "point \<times> reply result option"

record 's session =
  ss_rep :: "'s replicator"
  ss_tasks :: "waiting list"
  ss_inbox :: "inbound list"
  ss_rejected :: "js_error list"

definition new_session :: "'s engine \<Rightarrow> 's session" where
  "new_session e = \<lparr>ss_rep = new_replicator e, ss_tasks = [], ss_inbox = [], ss_rejected = []\<rparr>"

text \<open>The outcome of a stretch of code: it waits again, it has returned, or its promise rejects.\<close>

definition outcome :: "point option result \<times> 's replicator \<Rightarrow> 's session \<Rightarrow> 's session" where
  "outcome x s = (case x of
     (Inl err, r) \<Rightarrow> s\<lparr>ss_rep := r, ss_rejected := ss_rejected s @ [err]\<rparr>
   | (Inr None, r) \<Rightarrow> s\<lparr>ss_rep := r\<rparr>
   | (Inr (Some p), r) \<Rightarrow> s\<lparr>ss_rep := r, ss_tasks := ss_tasks s @ [(p, None)]\<rparr>)"

definition session_start :: "replicator_opts \<Rightarrow> 's session \<Rightarrow> 's session" where
  "session_start ro s = (if rp_started (ss_rep s) then s
     else outcome (Inr (Some Greeting), rp_subscribe ro (ss_rep s)) s)"

definition session_stop :: "'s session \<Rightarrow> 's session" where
  "session_stop s = s\<lparr>ss_rep := snd (stop (ss_rep s))\<rparr>"

definition session_link :: "'s session \<Rightarrow> 's session" where
  "session_link s = (if OnPeerConnect \<in> set (rp_unsubs (ss_rep s))
     then outcome (Inr (Some Greeting), ss_rep s) s else s)"

definition session_receive :: "crypto \<Rightarrow> replicator_opts \<Rightarrow> inbound \<Rightarrow> 's session \<Rightarrow> 's session" where
  "session_receive C ro x s = (if OnMessage \<in> set (rp_unsubs (ss_rep s))
     then outcome (handle C ro x (ss_rep s)) (s\<lparr>ss_inbox := ss_inbox s @ [x]\<rparr>) else s)"

definition session_call :: "replicator_opts \<Rightarrow> ('s engine, unit) act \<Rightarrow> 's session \<Rightarrow> 's session" where
  "session_call ro m s = s\<lparr>ss_rep := snd (on_engine ro m (ss_rep s))\<rparr>"

text \<open>The engine takes the turn the \<open>i\<close>-th function waits for.\<close>

definition session_turn :: "'s storage_ops \<Rightarrow> crypto \<Rightarrow> replicator_opts \<Rightarrow> nat \<Rightarrow> nat \<Rightarrow> 's session \<Rightarrow> 's session" where
  "session_turn S C ro pt i s = (if i < length (ss_tasks s) then (case ss_tasks s ! i of
       (p, None) \<Rightarrow> (let (res, r) = on_engine ro (ask S C pt p) (ss_rep s) in
          s\<lparr>ss_rep := r, ss_tasks := (ss_tasks s)[i := (p, Some res)]\<rparr>)
     | (p, Some res) \<Rightarrow> s) else s)"

text \<open>The \<open>i\<close>-th function goes on with its reply.\<close>

definition without :: "nat \<Rightarrow> 'a list \<Rightarrow> 'a list" where
  "without i xs = take i xs @ drop (Suc i) xs"

definition session_resume :: "replicator_opts \<Rightarrow> nat \<Rightarrow> 's session \<Rightarrow> 's session" where
  "session_resume ro i s = (if i < length (ss_tasks s) then (case ss_tasks s ! i of
       (p, Some res) \<Rightarrow> outcome (settle ro p res (ss_rep s)) (s\<lparr>ss_tasks := without i (ss_tasks s)\<rparr>)
     | (p, None) \<Rightarrow> s) else s)"

definition wf_inbound :: "inbound \<Rightarrow> bool" where
  "wf_inbound x = (case x of NullMsg \<Rightarrow> True | Msg m \<Rightarrow> wf_wire m)"

inductive session_step :: "'s storage_ops \<Rightarrow> crypto \<Rightarrow> cipher option \<Rightarrow> replicator_opts \<Rightarrow> 's session \<Rightarrow> 's session \<Rightarrow> bool"
  for S C K ro where
  s_start: "session_step S C K ro s (session_start ro s)"
| s_stop: "session_step S C K ro s (session_stop s)"
| s_link: "session_step S C K ro s (session_link s)"
| s_receive: "wf_inbound x \<Longrightarrow> session_step S C K ro s (session_receive C ro x s)"
| s_call: "local_call S C K m \<Longrightarrow> session_step S C K ro s (session_call ro m s)"
| s_turn: "session_step S C K ro s (session_turn S C ro pt i s)"
| s_resume: "session_step S C K ro s (session_resume ro i s)"

inductive session_reachable :: "'s storage_ops \<Rightarrow> crypto \<Rightarrow> cipher option \<Rightarrow> replicator_opts \<Rightarrow> 's \<Rightarrow> 's session \<Rightarrow> bool"
  for S C K ro s0 where
  s_new: "reachable S C K s0 e \<Longrightarrow> session_reachable S C K ro s0 (new_session e)"
| s_step: "session_reachable S C K ro s0 s \<Longrightarrow> session_step S C K ro s s' \<Longrightarrow> session_reachable S C K ro s0 s'"

section \<open>The invariant\<close>

text \<open>What a waiting function still carries is another device's and well formed.\<close>

fun point_ok :: "jsstring \<Rightarrow> point \<Rightarrow> bool" where
  "point_ok d Greeting \<longleftrightarrow> True"
| "point_ok d (Since_Record from have) \<longleftrightarrow> from \<noteq> d \<and> js_frontier have"
| "point_ok d (Ops_Apply from raw) \<longleftrightarrow> from \<noteq> d \<and> (\<forall>v \<in> set raw. wf_val v)"
| "point_ok d (Ack_Record from f) \<longleftrightarrow> from \<noteq> d \<and> js_frontier f"
| "point_ok d p \<longleftrightarrow> point_from p \<noteq> Some d"

text \<open>A reply belongs to its point: only a function with a message to catch for can have failed.\<close>

fun reply_ok :: "waiting \<Rightarrow> bool" where
  "reply_ok (p, Some (Inl err)) \<longleftrightarrow> point_from p \<noteq> None"
| "reply_ok (p, _) \<longleftrightarrow> True"

definition session_inv :: "('s engine \<Rightarrow> bool) \<Rightarrow> replicator_opts \<Rightarrow> jsstring \<Rightarrow> 's session \<Rightarrow> bool" where
  "session_inv R ro d s \<longleftrightarrow>
     sound (rp_started (ss_rep s)) R ro d (ss_rep s) \<and>
     (\<forall>w \<in> set (ss_tasks s). point_ok d (fst w) \<and> reply_ok w) \<and>
     length (ss_rejected s) = length (filter (\<lambda>x. x = NullMsg) (ss_inbox s))"

lemma sound_started: "sound on R ro d r \<Longrightarrow> rp_started r = on"
  by (simp add: sound_def)

lemma keeps_ask:
  assumes R: "remote_closed S C R" and p: "point_ok d p"
  shows "keeps R (ask S C pt p)"
proof -
  have obs: "keeps R (observeRemoteClock S pt s)" and rec: "js_frontier f \<Longrightarrow> keeps R (recordPeerFrontier S q f)"
    and app: "\<forall>v \<in> set raw. wf_val v \<Longrightarrow> keeps R (applyRemoteOps S C pt raw)" for s q f raw
    using R by (auto simp: remote_closed_def)
  show ?thesis using p by (cases p) (auto simp: unit_reply_def intro!: keeps_rules obs rec app)
qed

lemma ask_fails: "fst (ask S C pt p e) = Inl err \<Longrightarrow> point_from p \<noteq> None"
  by (cases p) (simp_all add: gets_def)

lemma ask_reply:
  assumes "res = fst (ask S C pt p e)" shows "reply_ok (p, Some res)"
proof (cases "res")
  case (Inl err)
  then show ?thesis using ask_fails[of S C pt p e err] assms by simp
next
  case (Inr x)
  then show ?thesis by (simp only: reply_ok.simps)
qed

lemma keeps_send_missing: "keeps (sound on R ro d) (send_missing ro from missing)"
  unfolding send_missing_def by (intro keeps_rules small_chunks)

lemma keeps_resume:
  assumes "point_ok d p" shows "keeps (sound on R ro d) (proceed ro p x)"
  using assms
  by (induction ro p x rule: proceed.induct) (auto simp: small_body_def intro!: keeps_rules keeps_send_missing)

lemma resume_next: "point_ok d p \<Longrightarrow> proceed ro p x r = (Inr (Some q), r') \<Longrightarrow> point_ok d q"
  by (induction ro p x rule: proceed.induct)
    (auto simp: bind_act_def ret_def gets_def peers_change_def modify_def set_peer_def sendKeys_def send_def
      split: if_splits prod.splits sum.splits)

lemma resume_returns: "\<exists>q r'. proceed ro p x r = (Inr q, r')"
  by (induction ro p x rule: proceed.induct)
    (auto simp: bind_act_def ret_def gets_def peers_change_def modify_def set_peer_def sendKeys_def send_hello_def send_missing_def
      send_all_def send_def Let_def)

lemma settle_keeps:
  assumes r: "sound on R ro d r" and p: "point_ok d p" and ok: "reply_ok (p, Some res)"
  obtains q r' where "settle ro p res r = (Inr q, r')" "sound on R ro d r'" "\<forall>q'. q = Some q' \<longrightarrow> point_ok d q'"
proof (cases res)
  case (Inl err)
  then obtain from' where "point_from p = Some from'" using ok by auto
  moreover have "sound on R ro d (r\<lparr>rp_errors := rp_errors r @ [(err, from')]\<rparr>)" using r by (simp add: sound_def)
  ultimately show ?thesis by (intro that) (auto simp: settle_def Inl)
next
  case (Inr x)
  obtain q r' where q: "proceed ro p x r = (Inr q, r')" using resume_returns by blast
  show ?thesis
    by (rule that[of q r'])
      (use q keepsD[OF keeps_resume[OF p] r q] resume_next[OF p] in \<open>auto simp: settle_def Inr\<close>)
qed

lemma keeps_handle_msg:
  assumes R: "remote_closed S C R" and r: "sound on R ro d r" and m: "wf_wire m"
  obtains q r' where "handle C ro (Msg m) r = (Inr q, r')" "sound on R ro d r'" "\<forall>q'. q = Some q' \<longrightarrow> point_ok d q'"
proof (cases "relevant ro r m")
  case False
  then show ?thesis using r by (intro that) (auto simp: handle_def)
next
  case True
  then have d: "w_from m \<noteq> d" and on: "rp_started r" using r by (auto simp: relevant_def sound_def)
  have learn: "\<forall>e d pk. R e \<longrightarrow> R (snd (learnKey C d pk e))" using R unfolding remote_closed_def by (rule conjunct1)
  have e: "R (rp_engine r)" using r unfolding sound_def by (rule conjunct1)
  have set: "sound on R ro d (r\<lparr>rp_peers := map_set (w_from m) f (rp_peers r)\<rparr>)" for f
    using keeps_set_peer[OF d, of on R ro f] r by (simp add: keeps_def set_peer_def modify_def)
  show ?thesis
  proof (cases "w_body m")
    case (Hello clock key)
    have "sound on R ro d (r\<lparr>rp_engine := snd (learnKey C (w_from m) (unhex k) (rp_engine r))\<rparr>)" for k
      using sound_engine[OF r] learn e by blast
    with Hello True on d r show ?thesis by (cases key) (auto intro: that simp: handle_def)
  next
    case (Keys to ks)
    have "sound on R ro d (r\<lparr>rp_engine := learn_hex C ks (rp_engine r)\<rparr>)"
      by (rule sound_engine[OF r learn_hex_keeps[OF learn e]])
    with Keys True on show ?thesis by (intro that) (auto simp: handle_def)
  next
    case (Since to have')
    then show ?thesis using True on d m set
      by (intro that) (auto simp: handle_def bind_act_eq set_peer_def modify_def ret_def wf_wire_def)
  next
    case (Ops to raw)
    then show ?thesis using True on d m r by (intro that) (auto simp: handle_def wf_wire_def split: if_splits)
  next
    case (Ack to f)
    then show ?thesis using True on d m set
      by (intro that) (auto simp: handle_def bind_act_eq set_peer_def modify_def ret_def wf_wire_def)
  qed
qed

lemma in_without: "x \<in> set (without i xs) \<Longrightarrow> x \<in> set xs"
  by (auto simp: without_def dest: in_set_takeD in_set_dropD)

lemma session_step_inv:
  assumes step: "session_step S C K ro s s'" and inv: "session_inv R ro d s"
    and R: "remote_closed S C R" and calls: "\<And>m. local_call S C K m \<Longrightarrow> keeps R m"
  shows "session_inv R ro d s'"
proof -
  let ?r = "ss_rep s"
  have r: "sound (rp_started ?r) R ro d ?r" and tasks: "\<forall>w \<in> set (ss_tasks s). point_ok d (fst w) \<and> reply_ok w"
    and rej: "length (ss_rejected s) = length (filter (\<lambda>x. x = NullMsg) (ss_inbox s))"
    using inv by (simp_all add: session_inv_def)
  have engine: "sound (rp_started ?r) R ro d (snd (on_engine ro m ?r))" if "keeps R m" for m :: "('a engine, 'b) act"
    using keeps_on_engine[OF that, of "rp_started ?r" ro d] r by (simp add: keeps_def)
  from step show ?thesis
  proof cases
    case s_start
    have "rp_started ?r \<or> sound True R ro d (rp_subscribe ro ?r)"
      using r by (simp add: sound_def rp_subscribe_def)
    then show ?thesis
      using inv tasks rej by (auto simp: s_start session_start_def outcome_def session_inv_def rp_subscribe_def)
  next
    case s_stop
    have "sound False R ro d (snd (stop ?r))" using r by (auto simp: stop_def bind_act_eq modify_def peers_change_def sound_def)
    then show ?thesis
      using tasks rej sound_started by (fastforce simp: s_stop session_stop_def session_inv_def)
  next
    case s_link
    then show ?thesis using inv tasks by (auto simp: session_link_def outcome_def session_inv_def)
  next
    case (s_receive x)
    show ?thesis
    proof (cases "OnMessage \<in> set (rp_unsubs ?r)")
      case False
      then show ?thesis using inv s_receive by (simp add: session_receive_def)
    next
      case True
      then have on: "rp_started ?r" using r by (auto simp: sound_def split: if_splits)
      show ?thesis
      proof (cases x)
        case NullMsg
        then show ?thesis using True on inv by (simp add: s_receive session_receive_def handle_def outcome_def session_inv_def)
      next
        case (Msg m)
        then have "wf_wire m" using s_receive(2) by (simp add: wf_inbound_def)
        from keeps_handle_msg[OF R r this] obtain q r' where
          q: "handle C ro (Msg m) ?r = (Inr q, r')" "sound (rp_started ?r) R ro d r'" "\<forall>q'. q = Some q' \<longrightarrow> point_ok d q'" .
        have "sound (rp_started r') R ro d r'" using q(2) sound_started[OF q(2)] by simp
        with q True tasks rej show ?thesis
          by (cases q) (auto simp: s_receive Msg session_receive_def outcome_def session_inv_def)
      qed
    qed
  next
    case (s_call m)
    have "sound (rp_started ?r) R ro d (snd (on_engine ro m ?r))" by (rule engine[OF calls[OF s_call(2)]])
    then show ?thesis using tasks rej sound_started by (fastforce simp: s_call session_call_def session_inv_def)
  next
    case (s_turn pt i)
    show ?thesis
    proof (cases "i < length (ss_tasks s) \<and> snd (ss_tasks s ! i) = None")
      case True
      then obtain p where p: "ss_tasks s ! i = (p, None)" "i < length (ss_tasks s)" by (metis prod.collapse)
      then have pok: "point_ok d p" using tasks by (metis fst_conv nth_mem)
      obtain res r' where run: "on_engine ro (ask S C pt p) ?r = (res, r')" by fastforce
      then have r': "sound (rp_started ?r) R ro d r'" using engine[OF keeps_ask[OF R pok, of pt]] by simp
      have "res = fst (ask S C pt p (rp_engine ?r))" using run on_engine_runs(1)[of ro "ask S C pt p" ?r] by simp
      then have "reply_ok (p, Some res)" by (rule ask_reply)
      then have "\<forall>w \<in> set ((ss_tasks s)[i := (p, Some res)]). point_ok d (fst w) \<and> reply_ok w"
        using tasks pok set_update_subset_insert[of "ss_tasks s" i "(p, Some res)"] by auto
      with r' rej sound_started[OF r'] p run show ?thesis
        by (simp add: s_turn session_turn_def session_inv_def)
    next
      case False
      then have "session_turn S C ro pt i s = s" by (auto simp: session_turn_def split: option.split prod.split)
      with inv s_turn show ?thesis by simp
    qed
  next
    case (s_resume i)
    show ?thesis
    proof (cases "i < length (ss_tasks s) \<and> snd (ss_tasks s ! i) \<noteq> None")
      case True
      then obtain p res where p: "ss_tasks s ! i = (p, Some res)" "i < length (ss_tasks s)" by (metis option.exhaust prod.collapse)
      then have pok: "point_ok d p" "reply_ok (p, Some res)" using tasks nth_mem[OF p(2)] by auto
      from settle_keeps[OF r pok] obtain q r' where
        q: "settle ro p res ?r = (Inr q, r')" "sound (rp_started ?r) R ro d r'" "\<forall>q'. q = Some q' \<longrightarrow> point_ok d q'" .
      have "\<forall>w \<in> set (without i (ss_tasks s)). point_ok d (fst w) \<and> reply_ok w" using tasks in_without by fast
      with q rej sound_started[OF q(2)] p show ?thesis
        by (cases q) (auto simp: s_resume session_resume_def outcome_def session_inv_def)
    next
      case False
      then have "session_resume ro i s = s" by (auto simp: session_resume_def split: option.split prod.split)
      with inv s_resume show ?thesis by simp
    qed
  qed
qed

context storage_adapter
begin

lemma session_reachable_inv:
  assumes s0: "inv s0" "replica_ok C (view s0)" and s: "session_reachable S C K ro s0 s"
  shows "\<exists>k. session_inv (reached S C K s0 k) ro (deviceIdFromPublicKey C (publicKey k)) s"
  using s
proof (induction rule: session_reachable.induct)
  case (s_new e)
  then show ?case using reached_device[OF s0]
    by (intro exI[of _ "e_deviceKey e"])
      (auto simp: session_inv_def new_session_def new_replicator_def sound_def reached_def)
next
  case (s_step s s')
  then show ?case
    using session_step_inv[OF s_step.hyps(2) _ reached_remote[OF s0] reached_local[OF s0]] by blast
qed

end

section \<open>Silence\<close>







section \<open>Undisturbed runs\<close>

text \<open>Running a function with nothing in between, as \<open>deliver\<close> does, is one of the interleavings.\<close>

lemma undisturbed_run:
  "run_task S C ro pt p r = (res, r') \<Longrightarrow> ss_rep s = r \<Longrightarrow> ss_tasks s = [(p, None)] \<Longrightarrow>
    (session_step S C K ro)\<^sup>*\<^sup>* s (s\<lparr>ss_tasks := [], ss_rep := r', ss_rejected := ss_rejected s @ (case res of Inl err \<Rightarrow> [err] | Inr u \<Rightarrow> [])\<rparr>)"
proof (induction S C ro pt p r arbitrary: s rule: run_task.induct)
  case (1 S C ro pt p r)
  obtain rep r1 where turn: "on_engine ro (ask S C pt p) r = (rep, r1)" by fastforce
  obtain q r2 where set: "settle ro p rep r1 = (q, r2)" by fastforce
  let ?s1 = "s\<lparr>ss_rep := r1, ss_tasks := [(p, Some rep)]\<rparr>"
  have "session_turn S C ro pt 0 s = ?s1" using 1(3,4) turn by (simp add: session_turn_def)
  then have step1: "session_step S C K ro s ?s1" using session_step.s_turn[of S C K ro s pt 0] by simp
  have res1: "session_resume ro 0 ?s1 = outcome (q, r2) (?s1\<lparr>ss_tasks := []\<rparr>)"
    by (simp add: session_resume_def set without_def)
  have step2: "session_step S C K ro ?s1 (outcome (q, r2) (?s1\<lparr>ss_tasks := []\<rparr>))"
    using session_step.s_resume[of S C K ro ?s1 0] by (simp only: res1)
  have first: "(session_step S C K ro)\<^sup>*\<^sup>* s (outcome (q, r2) (?s1\<lparr>ss_tasks := []\<rparr>))"
    using step1 step2 by (metis (no_types) rtranclp.rtrancl_refl rtranclp.rtrancl_into_rtrancl)
  show ?case
  proof (cases q)
    case (Inl err)
    then have "res = Inl err" "r' = r2" using 1(2) turn set by (simp_all add: run_task.simps[of S C ro pt p r])
    with first Inl show ?thesis by (simp add: outcome_def)
  next
    case (Inr next')
    show ?thesis
    proof (cases next')
      case None
      then have "res = Inr ()" "r' = r2" using 1(2) turn set Inr by (simp_all add: run_task.simps[of S C ro pt p r])
      with first Inr None show ?thesis by (simp add: outcome_def)
    next
      case (Some p')
      have run: "run_task S C ro pt p' r2 = (res, r')" using 1(2) turn set Inr Some by (simp add: run_task.simps[of S C ro pt p r])
      let ?s2 = "s\<lparr>ss_tasks := [(p', None)], ss_rep := r2\<rparr>"
      have "(session_step S C K ro)\<^sup>*\<^sup>* ?s2 (?s2\<lparr>ss_tasks := [], ss_rep := r',
          ss_rejected := ss_rejected ?s2 @ (case res of Inl err \<Rightarrow> [err] | Inr u \<Rightarrow> [])\<rparr>)"
        using turn set Inr Some by (intro 1(1)[OF refl turn[symmetric] set[symmetric] Inr Some run]) simp_all
      moreover have "(session_step S C K ro)\<^sup>*\<^sup>* s ?s2" using first Inr Some by (cases s) (simp add: outcome_def)
      ultimately have "(session_step S C K ro)\<^sup>*\<^sup>* s (?s2\<lparr>ss_tasks := [], ss_rep := r',
          ss_rejected := ss_rejected ?s2 @ (case res of Inl err \<Rightarrow> [err] | Inr u \<Rightarrow> [])\<rparr>)" by (rule rtranclp_trans[rotated])
      then show ?thesis by (cases s) simp
    qed
  qed
qed








section \<open>Peers that are not announced\<close>

text \<open>
  \<open>since\<close> and \<open>ack\<close> record their sender without \<open>onPeersChange\<close>. A greeting whose handler still waits
  for the clock is overtaken by the \<open>since\<close> that follows it: the peer is recorded, and when the greeting
  goes on it is no longer new, so that \<open>onPeersChange\<close> is never called for it and it is not greeted back.
\<close>

lemma since_records_silently:
  assumes "relevant ro r m" "w_body m = Since to have"
  shows "w_from m \<in> set (peerIds (snd (handle C ro (Msg m) r)))"
    "rp_peersChanges (snd (handle C ro (Msg m) r)) = rp_peersChanges r"
proof -
  have "rp_started r" using assms(1) by (simp add: relevant_def)
  then have "snd (handle C ro (Msg m) r) = r\<lparr>rp_peers := map_set (w_from m) (Some have) (rp_peers r)\<rparr>"
    using assms by (simp add: handle_def bind_act_eq set_peer_def modify_def ret_def)
  then show "w_from m \<in> set (peerIds (snd (handle C ro (Msg m) r)))"
    "rp_peersChanges (snd (handle C ro (Msg m) r)) = rp_peersChanges r"
    by (simp_all add: peerIds_def dom_map_of_conv_image_fst[symmetric] domIff)
qed

lemma overtaken_greeting:
  assumes "from \<in> set (peerIds r)"
  shows "rp_peersChanges (snd (proceed ro (Hello_Clock from clock) Returned r)) = rp_peersChanges r"
    "fst (proceed ro (Hello_Clock from clock) Returned r) = Inr (Some (Hello_Keys from))"
proof -
  have "map_of (rp_peers r) from \<noteq> None"
    using assms by (simp add: peerIds_def dom_map_of_conv_image_fst[symmetric] domIff)
  then show "rp_peersChanges (snd (proceed ro (Hello_Clock from clock) Returned r)) = rp_peersChanges r"
    "fst (proceed ro (Hello_Clock from clock) Returned r) = Inr (Some (Hello_Keys from))"
    by (auto simp: bind_act_eq gets_def sendKeys_def send_def modify_def ret_def)
qed

end
