(* ===== verification/Schema.thy ===== *)
theory Schema
  imports Json
begin

text \<open>
  The schema layer of packages/schema/src: field descriptors and their builders
  (builders.ts), the validation of local writes and of rows read back (validate.ts), and the
  inferred row types (types.ts) as predicates on values. A plain object is the list of its own
  entries; looking a name up in one also finds what it inherits from \<^verbatim>\<open>Object.prototype\<close>.
\<close>

section \<open>Field descriptors\<close>

datatype field_kind = KString | KNumber | KBoolean | KArray | KObject | KEnum

fun kind_str :: "field_kind \<Rightarrow> jsstring" where
  "kind_str KString = js ''string''"
| "kind_str KNumber = js ''number''"
| "kind_str KBoolean = js ''boolean''"
| "kind_str KArray = js ''array''"
| "kind_str KObject = js ''object''"
| "kind_str KEnum = js ''enum''"

datatype field =
  Field (f_kind: field_kind) (isOptional: bool) (isNullable: bool) (hasDefault: bool)
    (defaultValue: jsval) (f_element: "field option") (f_shape: "(jsstring \<times> field) list option")
    (f_values: "jsval list option")

text \<open>What \<open>new Field({ kind })\<close> leaves in the other properties.\<close>

definition new_field :: "field_kind \<Rightarrow> field option \<Rightarrow> (jsstring \<times> field) list option \<Rightarrow>
    jsval list option \<Rightarrow> field" where
  "new_field k el sh vs = Field k False False False JUndef el sh vs"

text \<open>The part of \<open>Partial<FieldInit>\<close> that the three modifiers set.\<close>

record field_patch =
  p_isOptional :: "bool option"
  p_isNullable :: "bool option"
  p_hasDefault :: "bool option"
  p_defaultValue :: "jsval option"

definition no_patch :: field_patch where
  "no_patch = \<lparr>p_isOptional = None, p_isNullable = None, p_hasDefault = None, p_defaultValue = None\<rparr>"

definition or_keep :: "'a option \<Rightarrow> 'a \<Rightarrow> 'a" where
  "or_keep x d = (case x of None \<Rightarrow> d | Some y \<Rightarrow> y)"

definition clone :: "field \<Rightarrow> field_patch \<Rightarrow> field" where
  "clone f p = Field (f_kind f) (or_keep (p_isOptional p) (isOptional f))
     (or_keep (p_isNullable p) (isNullable f)) (or_keep (p_hasDefault p) (hasDefault f))
     (or_keep (p_defaultValue p) (defaultValue f)) (f_element f) (f_shape f) (f_values f)"

definition optional :: "field \<Rightarrow> field" where
  "optional f = clone f (no_patch\<lparr>p_isOptional := Some True\<rparr>)"

definition nullable :: "field \<Rightarrow> field" where
  "nullable f = clone f (no_patch\<lparr>p_isNullable := Some True\<rparr>)"

definition with_default :: "jsval \<Rightarrow> field \<Rightarrow> field" where
  "with_default v f = clone f (no_patch\<lparr>p_hasDefault := Some True, p_defaultValue := Some v\<rparr>)"

definition s_string :: field where "s_string = new_field KString None None None"
definition s_number :: field where "s_number = new_field KNumber None None None"
definition s_boolean :: field where "s_boolean = new_field KBoolean None None None"
definition s_array :: "field \<Rightarrow> field" where "s_array e = new_field KArray (Some e) None None"
definition s_object :: "(jsstring \<times> field) list \<Rightarrow> field" where
  "s_object sh = new_field KObject None (Some sh) None"
definition s_enum :: "jsval list \<Rightarrow> field" where "s_enum vs = new_field KEnum None None (Some vs)"

lemmas field_builders = optional_def nullable_def with_default_def clone_def no_patch_def
  or_keep_def new_field_def s_string_def s_number_def s_boolean_def s_array_def s_object_def s_enum_def

section \<open>Errors\<close>

text \<open>\<open>expected\<close> is \<open>None\<close> where the code reads \<^verbatim>\<open>undefined\<close> from something that is no descriptor.\<close>

record schema_error =
  se_table :: jsstring
  se_column :: "jsstring option"
  se_expected :: "jsstring option"
  se_received :: jsstring
  se_message :: jsstring

definition describe :: "jsval \<Rightarrow> jsstring" where
  "describe v = (case v of JNull \<Rightarrow> js ''null'' | JArr xs \<Rightarrow> js ''array'' | _ \<Rightarrow> typeof v)"

text \<open>A template literal prints \<^verbatim>\<open>undefined\<close> by name.\<close>

definition show_opt :: "jsstring option \<Rightarrow> jsstring" where
  "show_opt x = (case x of None \<Rightarrow> js ''undefined'' | Some s \<Rightarrow> s)"

definition quoted :: "jsstring \<Rightarrow> jsstring" where
  "quoted s = [34] @ s @ [34]"

section \<open>Values against fields\<close>

text \<open>\<open>key in record\<close> and \<open>record[key]\<close> on a plain object.\<close>

definition in_object :: "jsstring \<Rightarrow> (jsstring \<times> 'v) list \<Rightarrow> bool" where
  "in_object k kvs \<longleftrightarrow> k \<in> fst ` set kvs \<or> k \<in> set inherited_names"

definition prop_of :: "(jsstring \<times> jsval) list \<Rightarrow> jsstring \<Rightarrow> jsval" where
  "prop_of kvs k = (case map_of kvs k of
     Some v \<Rightarrow> v
   | None \<Rightarrow> if k = PROTO then JObj [] else if k \<in> set inherited_names then JFun else JUndef)"

definition one_of :: "jsval list \<Rightarrow> jsstring" where
  "one_of vs = js ''one of '' @ js_join (js '', '')
     (map (\<lambda>v. case json_stringify v of None \<Rightarrow> [] | Some s \<Rightarrow> s) vs)"

type_synonym problem = "jsstring \<times> jsstring option"

function checkValue :: "field \<Rightarrow> jsval \<Rightarrow> jsstring \<Rightarrow> problem option" where
  "checkValue f v path =
     (if v = JNull then (if isNullable f then None else Some (path, Some (kind_str (f_kind f))))
      else case f_kind f of
        KEnum \<Rightarrow>
          let allowed = (case f_values f of None \<Rightarrow> [] | Some vs \<Rightarrow> vs)
          in if v \<in> set allowed then None else Some (path, Some (one_of allowed))
      | KArray \<Rightarrow>
          (case v of
             JArr xs \<Rightarrow>
               (case f_element f of
                  None \<Rightarrow> None
                | Some e \<Rightarrow> first_some (\<lambda>(i, x). checkValue e x (path @ js ''['' @ to_base 10 i @ js '']''))
                    (zip [0..<length xs] xs))
           | _ \<Rightarrow> Some (path, Some (js ''array'')))
      | KObject \<Rightarrow>
          (case v of
             JObj kvs \<Rightarrow>
               (case f_shape f of
                  None \<Rightarrow> None
                | Some sh \<Rightarrow>
                    (case first_some (\<lambda>(k, _). if in_object k sh then None
                         else Some (path @ js ''.'' @ k, Some (js ''no such key''))) kvs of
                       Some bad \<Rightarrow> Some bad
                     | None \<Rightarrow> first_some (\<lambda>(k, sub).
                         if \<not> in_object k kvs
                         then (if isOptional sub then None
                               else Some (path @ js ''.'' @ k, Some (kind_str (f_kind sub) @ js '' (missing)'')))
                         else checkValue sub (prop_of kvs k) (path @ js ''.'' @ k)) sh))
           | _ \<Rightarrow> Some (path, Some (js ''object'')))
      | k \<Rightarrow>
          if typeof v \<noteq> kind_str k then Some (path, Some (kind_str k))
          else if k = KNumber \<and> \<not> (case v of JNum n \<Rightarrow> is_finite n | _ \<Rightarrow> True)
            then Some (path, Some (js ''finite number''))
          else None)"
  by pat_completeness auto
termination
proof (relation "measure (\<lambda>(f, v, p). size f)", goal_cases)
  case 1
  show ?case by simp
next
  case (2 f v path)
  then show ?case by (cases f) auto
next
  case (3 f v path kvs sh k k' sub)
  then have "size_prod (\<lambda>x. 0) size (k', sub) \<le> size_list (size_prod (\<lambda>x. 0) size) sh"
    by (intro size_list_estimation') auto
  with 3 show ?case by (cases f) auto
qed

declare checkValue.simps [simp del]

section \<open>Tables and rows\<close>

text \<open>
  \<open>schema[table]\<close> and \<open>shape[column]\<close> find inherited properties too. What they then hold is no
  descriptor but a value of the runtime: \<open>Builtin t\<close> is \<^verbatim>\<open>Object.prototype[t]\<close>, and
  \<open>B t c\<close> says whether its property \<open>c\<close> is there (a truthy value). None of these values has a
  property \<open>kind\<close> or \<open>isNullable\<close>, and none has own enumerable entries.
\<close>

type_synonym shape = "(jsstring \<times> field) list"
type_synonym schema = "(jsstring \<times> shape) list"

datatype shape_ref = Shape shape | Builtin jsstring
datatype field_ref = Declared field | Inherited

fun shape_entries :: "shape_ref \<Rightarrow> shape" where
  "shape_entries (Shape sh) = sh"
| "shape_entries (Builtin t) = []"

fun lookup_field :: "(jsstring \<Rightarrow> jsstring \<Rightarrow> bool) \<Rightarrow> shape_ref \<Rightarrow> jsstring \<Rightarrow> field_ref option" where
  "lookup_field B (Shape sh) c =
     (case map_of sh c of
        Some f \<Rightarrow> Some (Declared f)
      | None \<Rightarrow> if c \<in> set inherited_names then Some Inherited else None)"
| "lookup_field B (Builtin t) c = (if B t c then Some Inherited else None)"

definition tableShape :: "schema \<Rightarrow> jsstring \<Rightarrow> schema_error + shape_ref" where
  "tableShape sch table =
     (case map_of sch table of
        Some sh \<Rightarrow> Inr (Shape sh)
      | None \<Rightarrow>
          if table \<in> set inherited_names then Inr (Builtin table)
          else Inl \<lparr>se_table = table, se_column = None,
                    se_expected = Some (js ''one of '' @ js_join (js '', '') (map fst sch)),
                    se_received = table, se_message = js ''unknown table '' @ quoted table\<rparr>)"

text \<open>\<open>checkValue\<close> on what the lookup returned; an inherited value has no \<open>kind\<close>, so no case applies.\<close>

fun check_ref :: "field_ref \<Rightarrow> jsval \<Rightarrow> jsstring \<Rightarrow> problem option" where
  "check_ref (Declared f) v path = checkValue f v path"
| "check_ref Inherited v path = (if v = JNull then Some (path, None) else None)"

text \<open>
  The object under construction: its own entries, and the prototype an assignment to
  \<^verbatim>\<open>__proto__\<close> has given it (only an object can be one).
\<close>

record out_object =
  own :: "(jsstring, jsval) jsmap"
  proto :: "jsval option"

definition is_object :: "jsval \<Rightarrow> bool" where
  "is_object v \<longleftrightarrow> (case v of JObj _ \<Rightarrow> True | JArr _ \<Rightarrow> True | JFun \<Rightarrow> True | _ \<Rightarrow> False)"

definition assign_prop :: "jsstring \<Rightarrow> jsval \<Rightarrow> out_object \<Rightarrow> out_object" where
  "assign_prop c v out =
     (if c = PROTO then (if is_object v then out\<lparr>proto := Some v\<rparr> else out)
      else out\<lparr>own := map_set c v (own out)\<rparr>)"

text \<open>\<open>P v c\<close> says which names an array or a function used as a prototype answers to.\<close>

definition in_out :: "(jsval \<Rightarrow> jsstring \<Rightarrow> bool) \<Rightarrow> jsstring \<Rightarrow> out_object \<Rightarrow> bool" where
  "in_out P c out \<longleftrightarrow>
     c \<in> fst ` set (own out) \<or> c \<in> set inherited_names \<or>
     (case proto out of
        None \<Rightarrow> False
      | Some (JObj kvs) \<Rightarrow> c \<in> fst ` set kvs
      | Some v \<Rightarrow> P v c)"

record host =
  builtin_prop :: "jsstring \<Rightarrow> jsstring \<Rightarrow> bool"
  proto_prop :: "jsval \<Rightarrow> jsstring \<Rightarrow> bool"

fun check_columns_from :: "host \<Rightarrow> shape_ref \<Rightarrow> jsstring \<Rightarrow> (jsstring \<times> jsval) list \<Rightarrow> out_object \<Rightarrow>
    schema_error + out_object" where
  "check_columns_from H sh table [] out = Inr out"
| "check_columns_from H sh table ((column, v) # rest) out =
     (case lookup_field (builtin_prop H) sh column of
        None \<Rightarrow> Inl \<lparr>se_table = table, se_column = Some column,
           se_expected = Some (js ''one of '' @ js_join (js '', '') (map fst (shape_entries sh))),
           se_received = column,
           se_message = js ''unknown column '' @ quoted column @ js '' on table '' @ quoted table\<rparr>
      | Some f \<Rightarrow>
          (case check_ref f v column of
             Some (path, ex) \<Rightarrow> Inl \<lparr>se_table = table, se_column = Some column, se_expected = ex,
               se_received = describe v,
               se_message = table @ js ''.'' @ path @ js '': expected '' @ show_opt ex @
                 js '', received '' @ describe v\<rparr>
           | None \<Rightarrow> check_columns_from H sh table rest (assign_prop column v out)))"

definition checkColumns :: "host \<Rightarrow> shape_ref \<Rightarrow> jsstring \<Rightarrow> (jsstring \<times> jsval) list \<Rightarrow>
    schema_error + out_object" where
  "checkColumns H sh table values = check_columns_from H sh table values \<lparr>own = [], proto = None\<rparr>"

fun fill_missing :: "host \<Rightarrow> jsstring \<Rightarrow> shape \<Rightarrow> out_object \<Rightarrow> schema_error + out_object" where
  "fill_missing H table [] out = Inr out"
| "fill_missing H table ((column, f) # rest) out =
     (if in_out (proto_prop H) column out then fill_missing H table rest out
      else if hasDefault f then fill_missing H table rest (assign_prop column (defaultValue f) out)
      else if isOptional f then fill_missing H table rest out
      else Inl \<lparr>se_table = table, se_column = Some column, se_expected = Some (kind_str (f_kind f)),
                se_received = js ''undefined'',
                se_message = js ''missing required column '' @ quoted column @ js '' on table '' @ quoted table\<rparr>)"

text \<open>The callers read the own entries of the result.\<close>

definition validateInsert :: "host \<Rightarrow> schema \<Rightarrow> jsstring \<Rightarrow> (jsstring \<times> jsval) list \<Rightarrow>
    schema_error + (jsstring, jsval) jsmap" where
  "validateInsert H sch table values =
     bind_res (tableShape sch table) (\<lambda>sh.
     bind_res (checkColumns H sh table values) (\<lambda>out.
     bind_res (fill_missing H table (shape_entries sh) out) (\<lambda>out. Inr (own out))))"

definition validateUpdate :: "host \<Rightarrow> schema \<Rightarrow> jsstring \<Rightarrow> (jsstring \<times> jsval) list \<Rightarrow>
    schema_error + (jsstring, jsval) jsmap" where
  "validateUpdate H sch table values =
     bind_res (tableShape sch table) (\<lambda>sh.
     bind_res (check (values \<noteq> []) \<lparr>se_table = table, se_column = None,
         se_expected = Some (js ''at least one column''), se_received = js ''{}'',
         se_message = js ''no columns to update on table '' @ quoted table\<rparr>) (\<lambda>_.
     bind_res (checkColumns H sh table values) (\<lambda>out. Inr (own out))))"

section \<open>Reading rows\<close>

record parse_issue =
  pi_path :: jsstring
  pi_expected :: "jsstring option"
  pi_received :: jsstring

definition unknown_issues :: "shape \<Rightarrow> (jsstring \<times> jsval) list \<Rightarrow> parse_issue list" where
  "unknown_issues sh kvs = concat (map (\<lambda>(k, v).
     if k = js ''id'' \<or> in_object k sh then []
     else [\<lparr>pi_path = k, pi_expected = Some (js ''no such column''), pi_received = describe v\<rparr>]) kvs)"

definition column_issues :: "shape \<Rightarrow> (jsstring \<times> jsval) list \<Rightarrow> parse_issue list" where
  "column_issues sh kvs = concat (map (\<lambda>(c, f).
     if \<not> in_object c kvs
     then (if isOptional f then []
           else [\<lparr>pi_path = c, pi_expected = Some (kind_str (f_kind f)), pi_received = js ''undefined''\<rparr>])
     else (case checkValue f (prop_of kvs c) c of
             None \<Rightarrow> []
           | Some (path, ex) \<Rightarrow> [\<lparr>pi_path = path, pi_expected = ex,
               pi_received = describe (prop_of kvs c)\<rparr>])) sh)"

definition parseRow :: "shape \<Rightarrow> jsval \<Rightarrow> parse_issue list + (jsstring, jsval) jsmap" where
  "parseRow sh row =
     (case row of
        JObj kvs \<Rightarrow>
          let issues = unknown_issues sh kvs @ column_issues sh kvs
          in if issues = [] then Inr kvs else Inl issues
      | _ \<Rightarrow> Inl [\<lparr>pi_path = [], pi_expected = Some (js ''object''), pi_received = describe row\<rparr>])"

end
