(* ===== verification/Schema_Types.thy ===== *)
theory Schema_Types
  imports Schema
begin

text \<open>
  What the schema layer promises. The types inferred in packages/schema/src/types.ts are read
  as predicates on values, descriptors as the closure of the builders, and the validators are
  shown to accept exactly the typed inputs.
\<close>

section \<open>Typing of values\<close>

text \<open>
  \<open>typed st f v\<close>: \<open>v\<close> has the type a field reads back as. With \<open>st\<close> it is the static type
  \<open>OutOf\<close>, in which every key of a nested object is required and \<^verbatim>\<open>number\<close> includes the
  non-finite numbers; without, it is what the validation means to accept.
\<close>

inductive typed :: "bool \<Rightarrow> field \<Rightarrow> jsval \<Rightarrow> bool" for st where
  t_null: "isNullable f \<Longrightarrow> typed st f JNull"
| t_string: "f_kind f = KString \<Longrightarrow> typed st f (JStr s)"
| t_boolean: "f_kind f = KBoolean \<Longrightarrow> typed st f (JBool b)"
| t_number: "f_kind f = KNumber \<Longrightarrow> st \<or> is_finite n \<Longrightarrow> typed st f (JNum n)"
| t_enum: "f_kind f = KEnum \<Longrightarrow> f_values f = Some vs \<Longrightarrow> v \<in> set vs \<Longrightarrow> typed st f v"
| t_array: "f_kind f = KArray \<Longrightarrow> f_element f = Some e \<Longrightarrow> \<forall>x \<in> set xs. typed st e x \<Longrightarrow>
    typed st f (JArr xs)"
| t_object: "f_kind f = KObject \<Longrightarrow> f_shape f = Some sh \<Longrightarrow> fst ` set kvs \<subseteq> fst ` set sh \<Longrightarrow>
    \<forall>(k, sub) \<in> set sh. (\<exists>v. map_of kvs k = Some v \<and> typed st sub v) \<or>
      (map_of kvs k = None \<and> \<not> st \<and> isOptional sub) \<Longrightarrow>
    typed st f (JObj kvs)"

inductive_cases typed_strE [elim]: "typed st f (JStr s)"
inductive_cases typed_nullE [elim]: "typed st f JNull"
inductive_cases typed_arrE [elim]: "typed st f (JArr xs)"
inductive_cases typed_objE [elim]: "typed st f (JObj kvs)"

text \<open>Names that are not inherited from \<^verbatim>\<open>Object.prototype\<close>, and values all of whose keys are such.\<close>

definition plain_name :: "jsstring \<Rightarrow> bool" where
  "plain_name k \<longleftrightarrow> k \<notin> set inherited_names"

fun plain :: "jsval \<Rightarrow> bool" where
  "plain (JArr xs) \<longleftrightarrow> (\<forall>x \<in> set xs. plain x)"
| "plain (JObj kvs) \<longleftrightarrow> (\<forall>(k, v) \<in> set kvs. plain_name k \<and> plain v)"
| "plain _ \<longleftrightarrow> True"

text \<open>The descriptors a program can build.\<close>

inductive built :: "field \<Rightarrow> bool" where
  b_string: "built s_string"
| b_number: "built s_number"
| b_boolean: "built s_boolean"
| b_array: "built e \<Longrightarrow> built (s_array e)"
| b_object: "dkeys sh \<Longrightarrow> \<forall>(k, f) \<in> set sh. plain_name k \<and> built f \<Longrightarrow> built (s_object sh)"
| b_enum: "\<forall>v \<in> set vs. \<exists>s n. v = JStr s \<or> v = JNum n \<Longrightarrow> built (s_enum vs)"
| b_optional: "built f \<Longrightarrow> built (optional f)"
| b_nullable: "built f \<Longrightarrow> built (nullable f)"
| b_default: "built f \<Longrightarrow> built (with_default v f)"

lemma built_parts:
  "built f \<Longrightarrow>
     (f_kind f = KArray \<longrightarrow> (\<exists>e. f_element f = Some e \<and> built e)) \<and>
     (f_kind f = KObject \<longrightarrow> (\<exists>sh. f_shape f = Some sh \<and> dkeys sh \<and>
        (\<forall>(k, f) \<in> set sh. plain_name k \<and> built f))) \<and>
     (f_kind f = KEnum \<longrightarrow> (\<exists>vs. f_values f = Some vs \<and> (\<forall>v \<in> set vs. \<exists>s n. v = JStr s \<or> v = JNum n)))"
  by (induction rule: built.induct) (auto simp: field_builders)

lemma built_array: "built f \<Longrightarrow> f_kind f = KArray \<Longrightarrow> \<exists>e. f_element f = Some e \<and> built e"
  using built_parts by blast

lemma built_object: "built f \<Longrightarrow> f_kind f = KObject \<Longrightarrow>
    \<exists>sh. f_shape f = Some sh \<and> dkeys sh \<and> (\<forall>(k, f) \<in> set sh. plain_name k \<and> built f)"
  using built_parts by blast

lemma built_enum: "built f \<Longrightarrow> f_kind f = KEnum \<Longrightarrow>
    \<exists>vs. f_values f = Some vs \<and> (\<forall>v \<in> set vs. \<exists>s n. v = JStr s \<or> v = JNum n)"
  using built_parts by blast

section \<open>Values against fields\<close>

lemma plain_in_object: "plain_name k \<Longrightarrow> in_object k kvs \<longleftrightarrow> k \<in> fst ` set kvs"
  by (simp add: in_object_def plain_name_def)

lemma prop_of_own: "map_of kvs k = Some v \<Longrightarrow> prop_of kvs k = v"
  by (simp add: prop_of_def)

lemma in_keys_map_of: "k \<in> fst ` set kvs \<longleftrightarrow> (\<exists>v. map_of kvs k = Some v)"
  by (metis fst_set_eq_dom domD domI)

lemma typed_kinds:
  "v \<noteq> JNull \<Longrightarrow> f_kind f = KString \<Longrightarrow> typed st f v \<longleftrightarrow> (\<exists>s. v = JStr s)"
  "v \<noteq> JNull \<Longrightarrow> f_kind f = KBoolean \<Longrightarrow> typed st f v \<longleftrightarrow> (\<exists>b. v = JBool b)"
  "v \<noteq> JNull \<Longrightarrow> f_kind f = KNumber \<Longrightarrow> typed st f v \<longleftrightarrow> (\<exists>n. v = JNum n \<and> (st \<or> is_finite n))"
  "v \<noteq> JNull \<Longrightarrow> f_kind f = KEnum \<Longrightarrow> typed st f v \<longleftrightarrow> (\<exists>vs. f_values f = Some vs \<and> v \<in> set vs)"
  "v \<noteq> JNull \<Longrightarrow> f_kind f = KArray \<Longrightarrow> f_element f = Some e \<Longrightarrow>
     typed st f v \<longleftrightarrow> (\<exists>xs. v = JArr xs \<and> (\<forall>x \<in> set xs. typed st e x))"
  "v \<noteq> JNull \<Longrightarrow> f_kind f = KObject \<Longrightarrow> f_shape f = Some sh \<Longrightarrow>
     typed st f v \<longleftrightarrow> (\<exists>kvs. v = JObj kvs \<and> fst ` set kvs \<subseteq> fst ` set sh \<and>
       (\<forall>(k, sub) \<in> set sh. (\<exists>w. map_of kvs k = Some w \<and> typed st sub w) \<or>
          (map_of kvs k = None \<and> \<not> st \<and> isOptional sub)))"
  by (auto simp: typed.simps[of st f v])

lemma typed_null: "built f \<Longrightarrow> typed st f JNull \<longleftrightarrow> isNullable f"
  using built_enum[of f] by (auto simp: typed.simps[of st f JNull])

lemma typeof_simps:
  "typeof v = js ''string'' \<longleftrightarrow> (\<exists>s. v = JStr s)"
  "typeof v = js ''number'' \<longleftrightarrow> (\<exists>n. v = JNum n)"
  "typeof v = js ''boolean'' \<longleftrightarrow> (\<exists>b. v = JBool b)"
  by (cases v; simp)+

text \<open>Unfolding by the kind of the field.\<close>

lemma check_null: "checkValue f JNull p = None \<longleftrightarrow> isNullable f"
  by (simp add: checkValue.simps)

lemma check_scalar:
  assumes "v \<noteq> JNull"
  shows "f_kind f = KString \<Longrightarrow> checkValue f v p = None \<longleftrightarrow> (\<exists>s. v = JStr s)"
    "f_kind f = KBoolean \<Longrightarrow> checkValue f v p = None \<longleftrightarrow> (\<exists>b. v = JBool b)"
    "f_kind f = KNumber \<Longrightarrow> checkValue f v p = None \<longleftrightarrow> (\<exists>n. v = JNum n \<and> is_finite n)"
    "f_kind f = KEnum \<Longrightarrow> f_values f = Some vs \<Longrightarrow> checkValue f v p = None \<longleftrightarrow> v \<in> set vs"
  using assms by (auto simp: checkValue.simps[of f v p] typeof_simps)

lemma check_array:
  assumes "f_kind f = KArray" "f_element f = Some e" "v \<noteq> JNull"
  shows "checkValue f v p = None \<longleftrightarrow> (\<exists>xs. v = JArr xs \<and> (\<forall>(i, x) \<in> set (zip [0..<length xs] xs).
    checkValue e x (p @ js ''['' @ to_base 10 i @ js '']'') = None))"
  using assms by (auto simp: checkValue.simps[of f v p] first_some_None split: jsval.splits)

lemma check_object:
  assumes "f_kind f = KObject" "f_shape f = Some sh" "v \<noteq> JNull"
  shows "checkValue f v p = None \<longleftrightarrow> (\<exists>kvs. v = JObj kvs \<and> (\<forall>k \<in> fst ` set kvs. in_object k sh) \<and>
    (\<forall>(k, sub) \<in> set sh. if in_object k kvs then checkValue sub (prop_of kvs k) (p @ js ''.'' @ k) = None
       else isOptional sub))"
proof -
  have *: "(\<forall>(k, sub) \<in> set sh. (if \<not> in_object k kvs then if isOptional sub then None
          else Some (p @ js ''.'' @ k, Some (kind_str (f_kind sub) @ js '' (missing)''))
        else checkValue sub (prop_of kvs k) (p @ js ''.'' @ k)) = None) \<longleftrightarrow>
      (\<forall>(k, sub) \<in> set sh. if in_object k kvs then checkValue sub (prop_of kvs k) (p @ js ''.'' @ k) = None
        else isOptional sub)" for kvs
    by (intro ball_cong) (auto split: if_splits)
  have **: "(\<forall>(k, w) \<in> set kvs. (if in_object k sh then None
        else Some (p @ js ''.'' @ k, Some (js ''no such key''))) = None) \<longleftrightarrow>
      (\<forall>k \<in> fst ` set kvs. in_object k sh)" for kvs :: "(jsstring \<times> jsval) list"
    by (auto split: if_splits)
  have obj: "checkValue f (JObj kvs) p = None \<longleftrightarrow> (\<forall>k \<in> fst ` set kvs. in_object k sh) \<and>
    (\<forall>(k, sub) \<in> set sh. if in_object k kvs then checkValue sub (prop_of kvs k) (p @ js ''.'' @ k) = None
       else isOptional sub)" for kvs
    unfolding checkValue.simps[of f "JObj kvs" p] *[symmetric] **[symmetric]
    by (simp add: assms(1,2) first_some_then first_some_None case_prod_beta)
  have only: "\<exists>kvs. v = JObj kvs" if "checkValue f v p = None"
    using that assms unfolding checkValue.simps[of f v p] by (cases v) simp_all
  show ?thesis
  proof (cases "\<exists>kvs. v = JObj kvs")
    case True
    then obtain kvs where "v = JObj kvs" by blast
    then show ?thesis using obj[of kvs] by (simp only: jsval.inject ex_simps simp_thms)
  next
    case False
    then show ?thesis using only by blast
  qed
qed

lemma zip_upt_all:
  assumes "\<And>i x. x \<in> set xs \<Longrightarrow> Q i x \<longleftrightarrow> P x"
  shows "(\<forall>(i, x) \<in> set (zip [0..<length xs] xs). Q i x) \<longleftrightarrow> (\<forall>x \<in> set xs. P x)"
proof -
  have "snd ` set (zip [0..<length xs] xs) = set (map snd (zip [0..<length xs] xs))" by (simp only: set_map)
  also have "\<dots> = set xs" by (simp only: map_snd_zip length_upt diff_zero)
  finally have *: "snd ` set (zip [0..<length xs] xs) = set xs" .
  have "(\<forall>(i, x) \<in> set (zip [0..<length xs] xs). Q i x) \<longleftrightarrow>
      (\<forall>y \<in> snd ` set (zip [0..<length xs] xs). P y)"
  proof -
    have "(case z of (i, x) \<Rightarrow> Q i x) \<longleftrightarrow> P (snd z)" if "z \<in> set (zip [0..<length xs] xs)" for z
      using assms[OF set_zip_rightD, of "fst z" "snd z"] that by (cases z) simp
    then show ?thesis by auto
  qed
  then show ?thesis by (simp only: *)
qed

lemma checkValue_typed:
  "built f \<Longrightarrow> plain v \<Longrightarrow> checkValue f v p = None \<longleftrightarrow> typed False f v"
proof (induction "size f" arbitrary: f v p rule: less_induct)
  case less
  show ?case
  proof (cases "v = JNull")
    case True
    then show ?thesis using less.prems by (simp add: check_null typed_null)
  next
    case v: False
    show ?thesis
    proof (cases "f_kind f")
      case KArray
      then obtain e where e: "f_element f = Some e" "built e" using less.prems built_array by blast
      then have "size e < size f" by (cases f) auto
      then have IH: "checkValue e x q = None \<longleftrightarrow> typed False e x" if "plain x" for x q
        using less.hyps e(2) that by blast
      have "(\<forall>(i, x) \<in> set (zip [0..<length xs] xs). checkValue e x (p @ js ''['' @ to_base 10 i @ js '']'') = None)
          \<longleftrightarrow> (\<forall>x \<in> set xs. typed False e x)" if "v = JArr xs" for xs
        using less.prems(2) that by (intro zip_upt_all IH) simp
      then show ?thesis unfolding check_array[OF KArray e(1) v] typed_kinds(5)[OF v KArray e(1)] by blast
    next
      case KObject
      then obtain sh where sh: "f_shape f = Some sh" "\<forall>(k, g) \<in> set sh. plain_name k \<and> built g"
        using less.prems built_object by blast
      have size: "size g < size f" if "(k, g) \<in> set sh" for k g
      proof -
        have "size_prod (\<lambda>x. 0) size (k, g) \<le> size_list (size_prod (\<lambda>x. 0) size) sh"
          using that by (intro size_list_estimation') auto
        with sh(1) show ?thesis by (cases f) auto
      qed
      have IH: "checkValue g w q = None \<longleftrightarrow> typed False g w" if "(k, g) \<in> set sh" "plain w" for k g w q
        using less.hyps[OF size[OF that(1)] _ that(2)] sh(2) that(1) by auto
      show ?thesis
      proof (cases v)
        case (JObj kvs)
        have plain: "plain_name k \<and> plain w" if "(k, w) \<in> set kvs" for k w
          using less.prems(2) that by (auto simp: JObj)
        have "(\<forall>k \<in> fst ` set kvs. in_object k sh) \<longleftrightarrow> fst ` set kvs \<subseteq> fst ` set sh"
        proof -
          have "in_object k sh \<longleftrightarrow> k \<in> fst ` set sh" if "k \<in> fst ` set kvs" for k
          proof -
            from that obtain w where "(k, w) \<in> set kvs" by force
            with plain[of k w] show ?thesis by (simp add: plain_in_object)
          qed
          then show ?thesis by blast
        qed
        moreover have "(if in_object k kvs then checkValue g (prop_of kvs k) q = None else isOptional g) \<longleftrightarrow>
            (\<exists>w. map_of kvs k = Some w \<and> typed False g w) \<or> (map_of kvs k = None \<and> isOptional g)"
          if "(k, g) \<in> set sh" for k g q
        proof (cases "map_of kvs k")
          case None
          then show ?thesis using sh(2) that by (auto simp: plain_in_object in_keys_map_of)
        next
          case (Some w)
          then have "plain w" using plain map_of_SomeD by fast
          then show ?thesis using Some sh(2) that IH[OF that \<open>plain w\<close>]
            by (auto simp: plain_in_object in_keys_map_of prop_of_own)
        qed
        then have "(\<forall>(k, g) \<in> set sh. if in_object k kvs then checkValue g (prop_of kvs k) (p @ js ''.'' @ k) = None
            else isOptional g) \<longleftrightarrow>
          (\<forall>(k, g) \<in> set sh. (\<exists>w. map_of kvs k = Some w \<and> typed False g w) \<or> (map_of kvs k = None \<and> isOptional g))"
          by (intro ball_cong refl) (simp only: split_paired_all case_prod_conv)
        ultimately show ?thesis
          unfolding check_object[OF KObject sh(1) v] typed_kinds(6)[OF v KObject sh(1)] using JObj by simp
      qed (use check_object[OF KObject sh(1) v] typed_kinds(6)[OF v KObject sh(1)] in simp_all)
    next
      case KEnum
      then obtain vs where "f_values f = Some vs" using less.prems built_enum by blast
      then show ?thesis using KEnum v by (simp add: check_scalar typed_kinds)
    qed (simp_all add: v check_scalar typed_kinds)
  qed
qed

section \<open>Rows\<close>

text \<open>
  \<open>InOpt\<close> and \<open>OutOpt\<close>, the two flags of a descriptor's type: whether the key may be omitted
  on insert and whether it may be absent on read.
\<close>

definition in_opt :: "field \<Rightarrow> bool" where "in_opt f \<longleftrightarrow> isOptional f \<or> hasDefault f"
definition out_opt :: "field \<Rightarrow> bool" where "out_opt f \<longleftrightarrow> isOptional f"

definition columns_typed :: "shape \<Rightarrow> (jsstring \<times> jsval) list \<Rightarrow> bool" where
  "columns_typed sh kvs \<longleftrightarrow> (\<forall>(k, v) \<in> set kvs. \<exists>f. map_of sh k = Some f \<and> typed False f v)"

definition insert_input :: "shape \<Rightarrow> (jsstring \<times> jsval) list \<Rightarrow> bool" where
  "insert_input sh kvs \<longleftrightarrow> columns_typed sh kvs \<and> (\<forall>(k, f) \<in> set sh. k \<in> fst ` set kvs \<or> in_opt f)"

definition update_input :: "shape \<Rightarrow> (jsstring \<times> jsval) list \<Rightarrow> bool" where
  "update_input sh kvs \<longleftrightarrow> columns_typed sh kvs"

definition row_columns :: "shape \<Rightarrow> (jsstring \<times> jsval) list \<Rightarrow> bool" where
  "row_columns sh kvs \<longleftrightarrow>
     (\<forall>(k, v) \<in> set kvs. case map_of sh k of Some f \<Rightarrow> typed False f v | None \<Rightarrow> k = js ''id'') \<and>
     (\<forall>(k, f) \<in> set sh. k \<in> fst ` set kvs \<or> out_opt f)"

definition row_of :: "shape \<Rightarrow> (jsstring \<times> jsval) list \<Rightarrow> bool" where
  "row_of sh kvs \<longleftrightarrow> (\<exists>i. map_of kvs (js ''id'') = Some (JStr i)) \<and> row_columns sh kvs"

text \<open>A table shape a program can declare.\<close>

definition built_shape :: "shape \<Rightarrow> bool" where
  "built_shape sh \<longleftrightarrow> dkeys sh \<and> (\<forall>(k, f) \<in> set sh. plain_name k \<and> built f)"

definition plain_entries :: "(jsstring \<times> jsval) list \<Rightarrow> bool" where
  "plain_entries kvs \<longleftrightarrow> dkeys kvs \<and> (\<forall>(k, v) \<in> set kvs. plain_name k \<and> plain v)"

lemma PROTO_inherited: "PROTO \<in> set inherited_names"
  by (simp add: PROTO_def inherited_names_def)

lemma plain_name_not_PROTO: "plain_name k \<Longrightarrow> k \<noteq> PROTO"
  using PROTO_inherited by (auto simp: plain_name_def)

lemma plain_not_inherited: "plain_name k \<Longrightarrow> k \<notin> set inherited_names"
  by (simp add: plain_name_def)

lemma map_of_built: "built_shape sh \<Longrightarrow> map_of sh k = Some f \<Longrightarrow> built f"
  unfolding built_shape_def by (blast dest: map_of_SomeD)

text \<open>The loop over the given columns accepts exactly the typed ones, and copies them.\<close>

lemma check_columns_typed:
  assumes "built_shape sh" "\<forall>(k, v) \<in> set kvs. plain_name k \<and> plain v" "dkeys (own out @ kvs)"
  shows "check_columns_from H (Shape sh) table kvs out = Inr out' \<longleftrightarrow>
    columns_typed sh kvs \<and> out' = out\<lparr>own := own out @ kvs\<rparr>"
  using assms(2,3)
proof (induction kvs arbitrary: out)
  case Nil
  then show ?case by (auto simp: columns_typed_def)
next
  case (Cons kv kvs)
  obtain k v where kv: "kv = (k, v)" by fastforce
  have k: "plain_name k" "plain v" using Cons.prems(1) by (auto simp: kv)
  have fresh: "k \<notin> fst ` set (own out)" using Cons.prems(2) by (auto simp: kv)
  show ?case
  proof (cases "map_of sh k")
    case None
    then show ?thesis using k by (auto simp: kv columns_typed_def plain_name_def)
  next
    case (Some f)
    have check: "checkValue f v k = None \<longleftrightarrow> typed False f v"
      by (rule checkValue_typed[OF map_of_built[OF assms(1) Some] k(2)])
    have out: "assign_prop k v out = out\<lparr>own := own out @ [(k, v)]\<rparr>"
      using plain_name_not_PROTO[OF k(1)] fresh by (simp add: assign_prop_def map_set_fresh)
    have IH: "check_columns_from H (Shape sh) table kvs (assign_prop k v out) = Inr out' \<longleftrightarrow>
        columns_typed sh kvs \<and> out' = out\<lparr>own := own out @ kv # kvs\<rparr>"
      using Cons.prems by (subst Cons.IH) (auto simp: out kv)
    show ?thesis
    proof (cases "typed False f v")
      case True
      then show ?thesis using Some check IH by (simp add: kv columns_typed_def)
    next
      case False
      then show ?thesis using Some check by (auto simp: kv columns_typed_def)
    qed
  qed
qed

text \<open>The columns the defaults add, in the order of the shape.\<close>

definition defaults_for :: "shape \<Rightarrow> jsstring set \<Rightarrow> (jsstring \<times> jsval) list" where
  "defaults_for sh K = map (\<lambda>(k, f). (k, defaultValue f))
     (filter (\<lambda>(k, f). k \<notin> K \<and> hasDefault f) sh)"

lemma defaults_for_insert:
  "k \<notin> fst ` set sh \<Longrightarrow> defaults_for sh (insert k K) = defaults_for sh K"
  unfolding defaults_for_def by (intro arg_cong[where f = "map _"] filter_cong) force+

lemma fill_missing_defaults:
  assumes "\<forall>(k, f) \<in> set sh. plain_name k" "dkeys sh" "proto out = None"
  shows "fill_missing H table sh out = Inr out' \<longleftrightarrow>
    (\<forall>(k, f) \<in> set sh. k \<in> fst ` set (own out) \<or> in_opt f) \<and>
    out' = out\<lparr>own := own out @ defaults_for sh (fst ` set (own out))\<rparr>"
  using assms
proof (induction sh arbitrary: out)
  case Nil
  then show ?case by (auto simp: defaults_for_def)
next
  case (Cons kf sh)
  obtain k f where kf: "kf = (k, f)" by fastforce
  have k: "plain_name k" "k \<notin> fst ` set sh" using Cons.prems by (auto simp: kf)
  have inn: "in_out P k out \<longleftrightarrow> k \<in> fst ` set (own out)" for P
    using plain_not_inherited[OF k(1)] Cons.prems(3) by (simp add: in_out_def)
  have IH: "fill_missing H table sh out = Inr out' \<longleftrightarrow>
      (\<forall>(k, f) \<in> set sh. k \<in> fst ` set (own out) \<or> in_opt f) \<and>
      out' = out\<lparr>own := own out @ defaults_for sh (fst ` set (own out))\<rparr>" if "proto out = None" for out
    using Cons.prems that by (intro Cons.IH) auto
  show ?case
  proof (cases "k \<in> fst ` set (own out)")
    case True
    then show ?thesis using IH[OF Cons.prems(3)] by (simp add: kf inn defaults_for_def)
  next
    case new: False
    show ?thesis
    proof (cases "hasDefault f")
      case True
      let ?o = "assign_prop k (defaultValue f) out"
      have o: "?o = out\<lparr>own := own out @ [(k, defaultValue f)]\<rparr>"
        using plain_name_not_PROTO[OF k(1)] new by (simp add: assign_prop_def map_set_fresh)
      have keys: "fst ` set (own ?o) = insert k (fst ` set (own out))" by (auto simp: o)
      have "(\<forall>(k', g) \<in> set sh. k' \<in> insert k (fst ` set (own out)) \<or> in_opt g) \<longleftrightarrow>
          (\<forall>(k', g) \<in> set sh. k' \<in> fst ` set (own out) \<or> in_opt g)"
        using k(2) by force
      moreover have "defaults_for (kf # sh) (fst ` set (own out)) =
          (k, defaultValue f) # defaults_for sh (fst ` set (own out))"
        using True new by (simp add: kf defaults_for_def)
      ultimately show ?thesis
        using IH[of ?o] Cons.prems(3) True new
        by (simp add: kf inn keys defaults_for_insert[OF k(2)] in_opt_def) (simp add: o)
    next
      case False
      then show ?thesis using IH[OF Cons.prems(3)] new
        by (auto simp: kf inn in_opt_def defaults_for_def)
    qed
  qed
qed

end
