(* ===== verification/Schema_Properties.thy ===== *)
theory Schema_Properties
  imports Schema_Types
begin

text \<open>
  The properties of the schema layer: the validators decide the inferred types, inserts fill
  exactly the missing defaults, accepted rows read back as rows of the schema, errors point at
  the offending column, and the two ways in which undeclared or ill-typed data passes.
\<close>

section \<open>Checking one value\<close>

text \<open>A field inside whose objects nothing is optional.\<close>

inductive dense :: "field \<Rightarrow> bool" where
  "f_kind f \<in> {KString, KNumber, KBoolean, KEnum} \<Longrightarrow> dense f"
| "f_kind f = KArray \<Longrightarrow> f_element f = Some e \<Longrightarrow> dense e \<Longrightarrow> dense f"
| "f_kind f = KObject \<Longrightarrow> f_shape f = Some sh \<Longrightarrow> \<forall>(k, g) \<in> set sh. \<not> isOptional g \<and> dense g \<Longrightarrow> dense f"

lemma typed_static: "typed False f v \<Longrightarrow> dense f \<Longrightarrow> typed True f v"
proof (induction rule: typed.induct)
  case (t_array f e xs)
  from t_array.prems t_array.hyps have "dense e" by (cases rule: dense.cases) auto
  with t_array show ?case by (auto intro: typed.t_array)
next
  case (t_object f sh kvs)
  from t_object.prems t_object.hyps(1,2)
  have d: "\<forall>(k, g) \<in> set sh. \<not> isOptional g \<and> dense g" by (cases rule: dense.cases) auto
  show ?case
    by (rule typed.t_object[OF t_object.hyps(1-3)]) (use t_object.IH d in fastforce)
qed (auto intro: typed.intros)

lemma dense_string: "dense s_string"
  by (rule dense.intros) (simp add: field_builders)

text \<open>C16. The run-time check of a value decides its type: on descriptors the builders can make and
  values without inherited key names, \<open>checkValue\<close> reports no problem exactly when the value
  has the type of the field (null only where nullable, finite numbers, every element of an
  array, every declared key of an object and no other); and unless an optional field is nested
  in an object, such a value has the static type \<open>OutOf\<close> that the compiler infers.
\<close>

theorem schema_check_exact:
  assumes "built f" "plain v"
  shows "(checkValue f v path = None \<longleftrightarrow> typed False f v) \<and>
    (checkValue f v path = None \<and> dense f \<longrightarrow> typed True f v)"
  using checkValue_typed[OF assms] typed_static by blast

theorem schema_check_exact_witness:
  "checkValue (s_array s_string) (JArr [JStr [97]]) [] = None \<and>
   typed True (s_array s_string) (JArr [JStr [97]])"
proof -
  have "typed False (s_array s_string) (JArr [JStr [97]])"
    by (rule typed.t_array[where e = s_string]) (auto simp: field_builders intro: typed.t_string)
  moreover have "dense (s_array s_string)"
    by (rule dense.intros(2)) (use dense_string in \<open>auto simp: field_builders\<close>)
  ultimately show ?thesis
    using schema_check_exact[of "s_array s_string" "JArr [JStr [97]]" "[]"] by (auto intro: built.intros)
qed

section \<open>Writes\<close>

lemma tableShape_declared: "map_of sch t = Some sh \<Longrightarrow> tableShape sch t = Inr (Shape sh)"
  by (simp add: tableShape_def)

lemma tableShape_unknown:
  "map_of sch t = None \<Longrightarrow> plain_name t \<Longrightarrow> \<exists>e. tableShape sch t = Inl e \<and> se_table e = t"
  by (simp add: tableShape_def plain_name_def)

lemma checkColumns_exact:
  assumes "built_shape sh" "plain_entries kvs"
  shows "checkColumns H (Shape sh) t kvs = Inr out \<longleftrightarrow>
    columns_typed sh kvs \<and> out = \<lparr>own = kvs, proto = None\<rparr>"
  using check_columns_typed[OF assms(1), of kvs "\<lparr>own = [], proto = None\<rparr>" H t out] assms(2)
  by (simp add: checkColumns_def plain_entries_def)

lemma insert_declared:
  assumes sch: "map_of sch t = Some sh" "built_shape sh" and vals: "plain_entries vals"
  shows "validateInsert H sch t vals = Inr out \<longleftrightarrow>
    insert_input sh vals \<and> out = vals @ defaults_for sh (fst ` set vals)"
proof -
  have sh: "\<forall>(k, f) \<in> set sh. plain_name k" "dkeys sh" using sch(2) by (auto simp: built_shape_def)
  note fill = fill_missing_defaults[OF sh, of "\<lparr>own = vals, proto = None\<rparr>" H t]
  show ?thesis
    using fill checkColumns_exact[OF sch(2) vals, of H t]
    by (auto simp: validateInsert_def tableShape_declared[OF sch(1)] bind_res_eq_Inr insert_input_def)
qed

lemma update_declared:
  assumes sch: "map_of sch t = Some sh" "built_shape sh" and vals: "plain_entries vals"
  shows "validateUpdate H sch t vals = Inr out \<longleftrightarrow> vals \<noteq> [] \<and> update_input sh vals \<and> out = vals"
  using checkColumns_exact[OF sch(2) vals, of H t]
  by (auto simp: validateUpdate_def tableShape_declared[OF sch(1)] bind_res_eq_Inr check_eq_Inr update_input_def)

text \<open>C18. Inserts are validated against the whole row: on a declared table an insert passes
  exactly when it has the type \<open>InsertInput\<close> (known columns of the right type, every column
  given that is neither optional nor defaulted), and then what is written is the input followed
  by the defaults of the missing columns, nothing else.
\<close>

theorem schema_insert_exact:
  assumes "map_of sch t = Some sh" "built_shape sh" "plain_entries vals"
  shows "validateInsert H sch t vals = Inr out \<longleftrightarrow>
    insert_input sh vals \<and> out = vals @ defaults_for sh (fst ` set vals)"
  using assms by (rule insert_declared)

text \<open>A sample table: a required title and a flag that defaults to false.\<close>

definition todo_shape :: shape where
  "todo_shape = [(js ''title'', s_string), (js ''done'', with_default (JBool False) s_boolean)]"

lemma plain_title: "plain_name (js ''title'')" "plain_name (js ''done'')" "plain_name (js ''id'')"
  by (simp_all add: plain_name_def inherited_names_def)

lemma todo_built: "built_shape todo_shape"
  using plain_title by (auto simp: built_shape_def todo_shape_def intro: built.intros)

lemma todo_vals: "plain_entries [(js ''title'', JStr [97])]"
  using plain_title by (simp add: plain_entries_def)

lemma todo_lookup: "map_of [(js ''todo'', todo_shape)] (js ''todo'') = Some todo_shape"
  by simp

lemma todo_insert_input: "insert_input todo_shape [(js ''title'', JStr [97])]"
  by (auto simp: insert_input_def columns_typed_def todo_shape_def in_opt_def field_builders
    intro: typed.intros)

theorem schema_insert_exact_witness:
  "\<forall>H. validateInsert H [(js ''todo'', todo_shape)] (js ''todo'') [(js ''title'', JStr [97])] =
     Inr [(js ''title'', JStr [97]), (js ''done'', JBool False)]"
  by (intro allI, subst schema_insert_exact[OF todo_lookup todo_built todo_vals])
    (use todo_insert_input in \<open>simp add: defaults_for_def todo_shape_def field_builders\<close>)

text \<open>Updates are validated cell by cell: on a declared table an update passes exactly when
  it names at least one column and every column given is declared and has its type; what is
  written is the input unchanged. In particular an update never invents a default.
\<close>

theorem schema_update_exact:
  assumes "map_of sch t = Some sh" "built_shape sh" "plain_entries vals"
  shows "validateUpdate H sch t vals = Inr out \<longleftrightarrow> vals \<noteq> [] \<and> update_input sh vals \<and> out = vals"
  using assms by (rule update_declared)

lemma todo_columns: "columns_typed todo_shape [(js ''title'', JStr [97])]"
  using todo_insert_input by (simp add: insert_input_def)

theorem schema_update_exact_witness:
  "\<forall>H. validateUpdate H [(js ''todo'', todo_shape)] (js ''todo'') [(js ''title'', JStr [97])] =
     Inr [(js ''title'', JStr [97])]"
  by (intro allI, subst schema_update_exact[OF todo_lookup todo_built todo_vals])
    (use todo_columns in \<open>simp add: update_input_def\<close>)

section \<open>Reads\<close>

lemma unknown_issues_Nil:
  assumes "plain_entries kvs"
  shows "unknown_issues sh kvs = [] \<longleftrightarrow> (\<forall>(k, v) \<in> set kvs. map_of sh k = None \<longrightarrow> k = js ''id'')"
proof -
  have "in_object k sh \<longleftrightarrow> map_of sh k \<noteq> None" if "(k, v) \<in> set kvs" for k v
    using assms that by (auto simp: plain_entries_def plain_in_object in_keys_map_of)
  then show ?thesis by (fastforce simp: unknown_issues_def concat_eq_Nil_conv)
qed

lemma column_issues_Nil:
  assumes "built_shape sh" "plain_entries kvs"
  shows "column_issues sh kvs = [] \<longleftrightarrow> (\<forall>(k, f) \<in> set sh.
    case map_of kvs k of Some v \<Rightarrow> typed False f v | None \<Rightarrow> isOptional f)"
proof -
  have "(if \<not> in_object c kvs then if isOptional f then [] else [i c f]
        else case checkValue f (prop_of kvs c) c of None \<Rightarrow> [] | Some (p, x) \<Rightarrow> [j p x c]) = [] \<longleftrightarrow>
      (case map_of kvs c of Some v \<Rightarrow> typed False f v | None \<Rightarrow> isOptional f)"
    if "(c, f) \<in> set sh" for c f and i :: "jsstring \<Rightarrow> field \<Rightarrow> parse_issue" and j
  proof -
    have c: "plain_name c" "built f" using assms(1) that by (auto simp: built_shape_def)
    show ?thesis
    proof (cases "map_of kvs c")
      case None
      then show ?thesis using c(1) by (simp add: plain_in_object in_keys_map_of)
    next
      case (Some v)
      then have "plain v" using assms(2) map_of_SomeD by (fastforce simp: plain_entries_def)
      from checkValue_typed[OF c(2) this, of c] show ?thesis using Some c(1)
        by (auto simp: plain_in_object in_keys_map_of prop_of_own split: option.splits)
    qed
  qed
  then show ?thesis by (simp add: column_issues_def concat_eq_Nil_conv) fast
qed

lemma row_columns_alt:
  assumes "built_shape sh" "dkeys kvs"
  shows "row_columns sh kvs \<longleftrightarrow>
    (\<forall>(k, v) \<in> set kvs. map_of sh k = None \<longrightarrow> k = js ''id'') \<and>
    (\<forall>(k, f) \<in> set sh. case map_of kvs k of Some v \<Rightarrow> typed False f v | None \<Rightarrow> isOptional f)"
proof -
  have sh: "dkeys sh" using assms(1) by (simp add: built_shape_def)
  have "(\<forall>k v. map_of kvs k = Some v \<longrightarrow> (case map_of sh k of Some f \<Rightarrow> typed False f v | None \<Rightarrow> k = js ''id'')) \<and>
      (\<forall>k f. map_of sh k = Some f \<longrightarrow> (\<exists>v. map_of kvs k = Some v) \<or> isOptional f) \<longleftrightarrow>
    (\<forall>k v. map_of kvs k = Some v \<longrightarrow> map_of sh k = None \<longrightarrow> k = js ''id'') \<and>
    (\<forall>k f. map_of sh k = Some f \<longrightarrow> (case map_of kvs k of Some v \<Rightarrow> typed False f v | None \<Rightarrow> isOptional f))"
    (is "?a \<and> ?b \<longleftrightarrow> ?c \<and> ?d")
  proof safe
    fix k v f assume "?a" "?b" "map_of sh k = Some f"
    then show "case map_of kvs k of Some v \<Rightarrow> typed False f v | None \<Rightarrow> isOptional f"
      by (cases "map_of kvs k") fastforce+
  next
    fix k v assume "?c" "?d" "map_of kvs k = Some v"
    then show "case map_of sh k of Some f \<Rightarrow> typed False f v | None \<Rightarrow> k = js ''id''"
      by (cases "map_of sh k") fastforce+
  next
    fix k v assume "?a" "map_of kvs k = Some v" "map_of sh k = None"
    then show "k = js ''id''" by fastforce
  next
    fix k f assume "?d" "map_of sh k = Some f" "\<not> isOptional f"
    then show "\<exists>v. map_of kvs k = Some v" by (cases "map_of kvs k") fastforce+
  qed
  then show ?thesis
    unfolding row_columns_def out_opt_def in_keys_map_of
    by (simp only: ball_map_of[OF sh] ball_map_of[OF assms(2)])
qed

lemma parseRow_exact:
  assumes "built_shape sh" "plain_entries kvs"
  shows "parseRow sh (JObj kvs) = Inr row \<longleftrightarrow> row_columns sh kvs \<and> row = kvs"
proof -
  have "dkeys kvs" using assms(2) by (simp add: plain_entries_def)
  then show ?thesis
    using unknown_issues_Nil[OF assms(2), of sh] column_issues_Nil[OF assms] row_columns_alt[OF assms(1)]
    by (auto simp: parseRow_def Let_def)
qed

lemma row_of_extend:
  assumes "built_shape sh" "map_of sh (js ''id'') = None" "plain_entries out" "columns_typed sh out"
    "\<forall>(k, f) \<in> set sh. k \<in> fst ` set out \<or> out_opt f"
  shows "row_of sh ((js ''id'', JStr i) # out)"
  using assms by (force simp: row_of_def row_columns_def columns_typed_def split: option.splits)

text \<open>Every default of the shape has the type of its column.\<close>

definition defaults_typed :: "shape \<Rightarrow> bool" where
  "defaults_typed sh \<longleftrightarrow> (\<forall>(k, f) \<in> set sh. hasDefault f \<longrightarrow> plain (defaultValue f) \<and> typed False f (defaultValue f))"

lemma insert_typed:
  assumes sh: "built_shape sh" "defaults_typed sh" and vals: "plain_entries vals" and ok: "insert_input sh vals"
  shows "let out = vals @ defaults_for sh (fst ` set vals) in
    plain_entries out \<and> columns_typed sh out \<and> (\<forall>(k, f) \<in> set sh. k \<in> fst ` set out \<or> out_opt f)"
proof -
  let ?d = "defaults_for sh (fst ` set vals)"
  have mem: "(k, v) \<in> set ?d \<longleftrightarrow> (\<exists>f. (k, f) \<in> set sh \<and> k \<notin> fst ` set vals \<and> hasDefault f \<and> v = defaultValue f)" for k v
    by (auto simp: defaults_for_def)
  have keys: "map fst ?d = map fst (filter (\<lambda>(k, f). k \<notin> fst ` set vals \<and> hasDefault f) sh)"
    by (auto simp: defaults_for_def)
  have dk: "dkeys sh" using sh(1) by (simp add: built_shape_def)
  then have "dkeys ?d" unfolding keys by (rule distinct_map_filter)
  moreover have "fst ` set vals \<inter> fst ` set ?d = {}"
  proof -
    have "fst ` set ?d \<subseteq> - fst ` set vals" by (force simp: defaults_for_def)
    then show ?thesis by blast
  qed
  moreover have "plain_name k \<and> plain v" if "(k, v) \<in> set ?d" for k v
    using that sh by (fastforce simp: mem built_shape_def defaults_typed_def)
  ultimately have 1: "plain_entries (vals @ ?d)" using vals by (auto simp: plain_entries_def)
  have "\<exists>f. map_of sh k = Some f \<and> typed False f v" if "(k, v) \<in> set ?d" for k v
    using that sh(2) map_of_is_SomeI[OF dk] by (fastforce simp: mem defaults_typed_def)
  then have 2: "columns_typed sh (vals @ ?d)" using ok by (auto simp: insert_input_def columns_typed_def)
  have "k \<in> fst ` set (vals @ ?d) \<or> out_opt f" if "(k, f) \<in> set sh" for k f
  proof (cases "k \<in> fst ` set vals \<or> out_opt f")
    case False
    then have "hasDefault f" using ok that by (force simp: insert_input_def in_opt_def out_opt_def)
    then have "(k, defaultValue f) \<in> set ?d" using False that by (auto simp: mem)
    then show ?thesis by force
  qed auto
  with 1 2 show ?thesis by (auto simp: Let_def)
qed

lemma row_of_update:
  assumes sh: "built_shape sh" and row: "row_of sh row" "dkeys row" and c: "columns_typed sh out"
    and id: "map_of sh (js ''id'') = None"
  shows "row_of sh (fold (\<lambda>(k, v). map_set k v) out row)"
  using row c
proof (induction out arbitrary: row)
  case (Cons kv out)
  obtain k v where kv: "kv = (k, v)" by fastforce
  obtain f where f: "map_of sh k = Some f" "typed False f v" using Cons.prems(3) by (auto simp: kv columns_typed_def)
  with id have "k \<noteq> js ''id''" by auto
  have d: "dkeys (map_set k v row)" using Cons.prems(2) by (rule dkeys_map_set)
  have "fst ` set (map_set k v row) = insert k (fst ` set row)"
    by (simp add: dom_map_of_conv_image_fst[symmetric])
  moreover have "case map_of sh k' of Some f \<Rightarrow> typed False f v' | None \<Rightarrow> k' = js ''id''"
    if "(k', v') \<in> set (map_set k v row)" for k' v'
    using set_map_set_subset[of k v row] that Cons.prems(1) f by (fastforce simp: row_of_def row_columns_def)
  ultimately have "row_of sh (map_set k v row)"
    using Cons.prems(1) \<open>k \<noteq> js ''id''\<close> by (fastforce simp: row_of_def row_columns_def)
  with d Cons show ?case by (simp add: kv columns_typed_def)
qed simp

text \<open>C17. Rows are well typed: with defaults of the declared types, whatever an insert writes is,
  under the new row id, a row of the inferred type and passes \<open>parseRow\<close> unchanged, and an
  accepted update of a well-typed row leaves a well-typed row. \<open>parseRow\<close> itself accepts exactly
  the objects whose columns have the inferred types.
\<close>

theorem schema_rows_typed:
  assumes sch: "map_of sch t = Some sh" "built_shape sh" "defaults_typed sh" "map_of sh (js ''id'') = None"
    and vals: "plain_entries vals"
  shows "(validateInsert H sch t vals = Inr out \<longrightarrow> row_of sh ((js ''id'', JStr i) # out) \<and>
      parseRow sh (JObj ((js ''id'', JStr i) # out)) = Inr ((js ''id'', JStr i) # out)) \<and>
    (validateUpdate H sch t vals = Inr out \<and> row_of sh row \<and> dkeys row \<longrightarrow>
      row_of sh (fold (\<lambda>(k, v). map_set k v) out row)) \<and>
    (plain_entries row \<longrightarrow> parseRow sh (JObj row) = (if row_columns sh row then Inr row
      else Inl (unknown_issues sh row @ column_issues sh row)))"
proof (intro conjI impI)
  assume "validateInsert H sch t vals = Inr out"
  then have ok: "insert_input sh vals" "out = vals @ defaults_for sh (fst ` set vals)"
    using insert_declared[OF sch(1,2) vals] by auto
  from insert_typed[OF sch(2,3) vals ok(1)] have o: "plain_entries out" "columns_typed sh out"
    "\<forall>(k, f) \<in> set sh. k \<in> fst ` set out \<or> out_opt f" by (simp_all add: ok(2) Let_def)
  show row: "row_of sh ((js ''id'', JStr i) # out)" by (rule row_of_extend[OF sch(2,4) o])
  have "js ''id'' \<notin> fst ` set out" using o(2) sch(4) by (force simp: columns_typed_def)
  then have "plain_entries ((js ''id'', JStr i) # out)" using o(1) plain_title(3) by (simp add: plain_entries_def)
  then show "parseRow sh (JObj ((js ''id'', JStr i) # out)) = Inr ((js ''id'', JStr i) # out)"
    using parseRow_exact[OF sch(2)] row by (simp add: row_of_def)
next
  assume "validateUpdate H sch t vals = Inr out \<and> row_of sh row \<and> dkeys row"
  then show "row_of sh (fold (\<lambda>(k, v). map_set k v) out row)"
    using update_declared[OF sch(1,2) vals] row_of_update[OF sch(2) _ _ _ sch(4)] by (auto simp: update_input_def)
next
  assume "plain_entries row"
  from parseRow_exact[OF sch(2) this, of row] show "parseRow sh (JObj row) = (if row_columns sh row then Inr row
      else Inl (unknown_issues sh row @ column_issues sh row))"
    by (auto simp: parseRow_def Let_def)
qed

lemma todo_defaults: "defaults_typed todo_shape" "map_of todo_shape (js ''id'') = None"
  by (auto simp: defaults_typed_def todo_shape_def field_builders intro: typed.intros)

theorem schema_rows_typed_witness:
  "row_of todo_shape [(js ''id'', JStr [49]), (js ''title'', JStr [97]), (js ''done'', JBool False)] \<and>
   parseRow todo_shape (JObj [(js ''id'', JStr [49]), (js ''title'', JStr [97]), (js ''done'', JBool False)]) =
     Inr [(js ''id'', JStr [49]), (js ''title'', JStr [97]), (js ''done'', JBool False)]"
proof -
  have "validateInsert H [(js ''todo'', todo_shape)] (js ''todo'') [(js ''title'', JStr [97])] =
     Inr [(js ''title'', JStr [97]), (js ''done'', JBool False)]" for H
    using insert_declared[OF todo_lookup todo_built todo_vals] todo_insert_input
    by (simp add: defaults_for_def todo_shape_def field_builders)
  then show ?thesis
    using schema_rows_typed[OF todo_lookup todo_built todo_defaults todo_vals, of undefined
        "[(js ''title'', JStr [97]), (js ''done'', JBool False)]" "[49]" "[]"] by blast
qed

section \<open>Errors\<close>

lemma check_columns_error:
  assumes sh: "built_shape sh" and vals: "\<forall>(k, v) \<in> set kvs. plain_name k \<and> plain v"
    and err: "check_columns_from H (Shape sh) table kvs out = Inl e"
  shows "se_table e = table \<and> (\<exists>pre c v post. kvs = pre @ (c, v) # post \<and> columns_typed sh pre \<and>
    se_column e = Some c \<and> (\<forall>f. map_of sh c = Some f \<longrightarrow> \<not> typed False f v) \<and>
    se_received e = (if map_of sh c = None then c else describe v))"
  using vals err
proof (induction kvs arbitrary: out)
  case (Cons kv kvs)
  obtain k v where kv: "kv = (k, v)" by fastforce
  have k: "plain_name k" "plain v" using Cons.prems(1) by (auto simp: kv)
  show ?case
  proof (cases "map_of sh k")
    case None
    then have e: "se_table e = table" "se_column e = Some k" "se_received e = k"
      using Cons.prems k by (auto simp: kv plain_name_def)
    show ?thesis
      by (rule conjI[OF e(1)], rule exI[of _ "[]"], rule exI[of _ k], rule exI[of _ v], rule exI[of _ kvs])
        (simp add: kv e None columns_typed_def)
  next
    case (Some f)
    note check = checkValue_typed[OF map_of_built[OF sh Some] k(2), of k]
    show ?thesis
    proof (cases "typed False f v")
      case True
      then have "check_columns_from H (Shape sh) table kvs (assign_prop k v out) = Inl e"
        using Cons.prems(2) Some check by (simp add: kv)
      with Cons.IH Cons.prems(1) obtain pre c w post where "se_table e = table" "kvs = pre @ (c, w) # post"
        "columns_typed sh pre" "se_column e = Some c" "\<forall>f. map_of sh c = Some f \<longrightarrow> \<not> typed False f w"
        "se_received e = (if map_of sh c = None then c else describe w)"
        by (metis list.set_intros(2))
      moreover have "columns_typed sh (kv # pre)" using Some True \<open>columns_typed sh pre\<close> by (simp add: kv columns_typed_def)
      ultimately show ?thesis by (metis append_Cons)
    next
      case False
      then obtain q x where "checkValue f v k = Some (q, x)" using check by (cases "checkValue f v k") auto
      then have e: "se_table e = table" "se_column e = Some k" "se_received e = describe v"
        using Some Cons.prems(2) by (auto simp: kv)
      show ?thesis
        by (rule conjI[OF e(1)], rule exI[of _ "[]"], rule exI[of _ k], rule exI[of _ v], rule exI[of _ kvs])
          (simp add: kv e Some False columns_typed_def)
    qed
  qed
qed simp

text \<open>Schema errors point at the culprit: a refused update of a declared table names the
  table, and names a column exactly when there is one to blame; that column is the first of
  the input that is undeclared or ill-typed, and \<open>received\<close> is its name or the kind of value
  found. Only the empty update is refused without a column.
\<close>

theorem schema_error_blames:
  assumes "map_of sch t = Some sh" "built_shape sh" "plain_entries vals"
    and err: "validateUpdate H sch t vals = Inl e"
  shows "se_table e = t \<and> (se_column e = None \<longleftrightarrow> vals = []) \<and>
    (vals \<noteq> [] \<longrightarrow> (\<exists>pre c v post. vals = pre @ (c, v) # post \<and> columns_typed sh pre \<and>
       se_column e = Some c \<and> (\<forall>f. map_of sh c = Some f \<longrightarrow> \<not> typed False f v) \<and>
       se_received e = (if map_of sh c = None then c else describe v)))"
proof (cases "vals = []")
  case True
  then show ?thesis using err by (auto simp: validateUpdate_def tableShape_declared[OF assms(1)] check_def)
next
  case False
  then have "checkColumns H (Shape sh) t vals = Inl e"
    using err by (cases "checkColumns H (Shape sh) t vals")
      (auto simp: validateUpdate_def tableShape_declared[OF assms(1)] check_def)
  moreover have "\<forall>(k, v) \<in> set vals. plain_name k \<and> plain v" using assms(3) by (simp add: plain_entries_def)
  ultimately have "se_table e = t \<and> (\<exists>pre c v post. vals = pre @ (c, v) # post \<and> columns_typed sh pre \<and>
       se_column e = Some c \<and> (\<forall>f. map_of sh c = Some f \<longrightarrow> \<not> typed False f v) \<and>
       se_received e = (if map_of sh c = None then c else describe v))"
    unfolding checkColumns_def by (intro check_columns_error[OF assms(2)])
  with False show ?thesis by auto
qed

theorem schema_error_blames_witness:
  "\<forall>H. \<exists>e. validateUpdate H [(js ''todo'', todo_shape)] (js ''todo'') [(js ''title'', JBool True)] = Inl e \<and>
     se_table e = js ''todo''"
proof
  fix H
  have vals: "plain_entries [(js ''title'', JBool True)]" using plain_title by (simp add: plain_entries_def)
  have "\<not> columns_typed todo_shape [(js ''title'', JBool True)]"
    by (auto simp: columns_typed_def todo_shape_def field_builders elim: typed.cases)
  then have "\<nexists>out. validateUpdate H [(js ''todo'', todo_shape)] (js ''todo'') [(js ''title'', JBool True)] = Inr out"
    using update_declared[OF todo_lookup todo_built vals] by (simp add: update_input_def)
  then obtain e where "validateUpdate H [(js ''todo'', todo_shape)] (js ''todo'') [(js ''title'', JBool True)] = Inl e"
    by (metis sum.exhaust)
  with schema_error_blames[OF todo_lookup todo_built vals this]
  show "\<exists>e. validateUpdate H [(js ''todo'', todo_shape)] (js ''todo'') [(js ''title'', JBool True)] = Inl e \<and>
    se_table e = js ''todo''" by blast
qed

section \<open>Undeclared data that passes\<close>

text \<open>A name that every object inherits counts as declared: an insert into a table that no
  schema declares but whose name \<^verbatim>\<open>Object.prototype\<close> has (such as \<open>constructor\<close>) is accepted
  rather than refused as unknown, and on a declared table a column of such a name passes with
  any value but null, although it has no descriptor.
\<close>

theorem inherited_names_undeclared:
  assumes "k \<in> set inherited_names" "k \<noteq> PROTO" "v \<noteq> JNull"
  shows "(map_of sch k = None \<longrightarrow> validateInsert H sch k [] = Inr []) \<and>
    (map_of sch t = Some sh \<and> map_of sh k = None \<longrightarrow> validateUpdate H sch t [(k, v)] = Inr [(k, v)])"
  using assms by (simp add: validateInsert_def validateUpdate_def tableShape_def checkColumns_def
    assign_prop_def)

theorem inherited_names_undeclared_witness:
  "\<forall>H. validateInsert H [(js ''todo'', todo_shape)] (js ''constructor'') [] = Inr [] \<and>
   validateUpdate H [(js ''todo'', todo_shape)] (js ''todo'') [(js ''constructor'', JBool True)] =
     Inr [(js ''constructor'', JBool True)]"
proof
  fix H
  have "js ''constructor'' \<in> set inherited_names" "js ''constructor'' \<noteq> PROTO"
    by (simp_all add: inherited_names_def PROTO_def)
  from inherited_names_undeclared[OF this, of "JBool True" "[(js ''todo'', todo_shape)]" H "js ''todo''" todo_shape]
  show "validateInsert H [(js ''todo'', todo_shape)] (js ''constructor'') [] = Inr [] \<and>
    validateUpdate H [(js ''todo'', todo_shape)] (js ''todo'') [(js ''constructor'', JBool True)] =
      Inr [(js ''constructor'', JBool True)]"
    by (simp add: todo_shape_def)
qed

end
