(* ===== verification/Sync.thy ===== *)
theory Sync
  imports Engine_Merge
begin

text \<open>
  The direct exchange of two engines (\<open>syncOnce\<close> of core/src/engine.ts), over any two
  adapters: what each side ends with, and when both end with the same state.
\<close>

section \<open>What an engine sends of its log\<close>

context storage_adapter
begin

abbreviation logged :: "'s engine \<Rightarrow> op set" where
  "logged e \<equiv> ran (r_log (view (e_store e)))"

abbreviation seen :: "'s engine \<Rightarrow> frontier" where
  "seen e \<equiv> r_front (view (e_store e))"

lemma log_sendable:
  assumes "good C e" "p \<in> logged e"
  shows "validateOp (op_to_js p) = Inr p" "is_json (o_value p)"
proof -
  have ok: "engine_ok C (view (e_store e)) e" using assms(1) by (simp add: good_def)
  show "validateOp (op_to_js p) = Inr p" using engine_okD(4)[OF ok assms(2)] by (simp add: acceptable_def)
  show "is_json (o_value p)"
    using consistent_storable[OF engine_okD(2)[OF ok] assms(2)] by (simp add: storable_def)
qed

lemma sent_ops:
  assumes "good C e"
  shows "set (engine_opsSince S f e) = {p \<in> logged e. aboveFrontier p f}"
    and "batch_ops (map op_to_js (engine_opsSince S f e)) = engine_opsSince S f e"
    and "\<forall>v \<in> set (map op_to_js (engine_opsSince S f e)). wf_val v"
proof -
  have "inv (e_store e)" using assms by (simp add: good_def)
  from opsSince[OF this] show s: "set (engine_opsSince S f e) = {p \<in> logged e. aboveFrontier p f}"
    by (simp add: engine_opsSince_def sorted_ops_def)
  show "batch_ops (map op_to_js (engine_opsSince S f e)) = engine_opsSince S f e"
    using log_sendable(1)[OF assms] unfolding s[symmetric] by (intro batch_ops_own) (auto simp: s)
  show "\<forall>v \<in> set (map op_to_js (engine_opsSince S f e)). wf_val v"
    using log_sendable(2)[OF assms] is_json_wf_val by (auto simp: s)
qed

lemma learn_all_good:
  "good C e \<Longrightarrow> good C (learn_all C ks e) \<and> e_store (learn_all C ks e) = e_store e \<and>
     e_clock (learn_all C ks e) = e_clock e"
proof (induction ks arbitrary: e)
  case (Cons k ks)
  obtain d pk where k: "k = (d, pk)" by fastforce
  have "good C (snd (learnKey C d pk e))" using learnKey_good[OF Cons.prems] .
  moreover have "e_store (snd (learnKey C d pk e)) = e_store e" "e_clock (snd (learnKey C d pk e)) = e_clock e"
    by (simp_all add: learnKey_def)
  ultimately show ?case using Cons.IH[of "snd (learnKey C d pk e)"] by (simp add: learn_all_def k)
qed (simp add: learn_all_def)

text \<open>One direction of the exchange: the receiver takes what the other side sent, if anything.\<close>

lemma take_ops:
  assumes good: "good C e" and wf: "\<forall>v \<in> set raw. wf_val v" and inj: "inj_on o_id (logged e \<union> set (batch_ops raw))"
    and run: "(if raw \<noteq> [] then applyRemoteOps S C pt raw else ret 0) e = (Inr n, e')"
  shows "good C e' \<and> logged e' = logged e \<union> set (batch_ops raw)"
proof (cases "raw = []")
  case True
  then show ?thesis using run good by (simp add: ret_def batch_ops_def)
next
  case False
  then show ?thesis using applyRemoteOps_log[OF good wf _ inj] run by simp
qed

lemma recordPeerFrontier_log:
  assumes "good C e" "recordPeerFrontier S d f e = (res, e')" "js_frontier f"
  shows "good C e' \<and> r_log (view (e_store e')) = r_log (view (e_store e))"
  using recordPeerFrontier_good[OF assms] by (cases res) (auto split: if_splits)

end

section \<open>The exchange\<close>

lemma on_fst_eq: "on_fst m (x, y) = (r, ab) \<longleftrightarrow> (\<exists>x'. m x = (r, x') \<and> ab = (x', y))"
  by (auto simp: on_fst_def split: prod.splits)

lemma on_snd_eq: "on_snd m (x, y) = (r, ab) \<longleftrightarrow> (\<exists>y'. m y = (r, y') \<and> ab = (x, y'))"
  by (auto simp: on_snd_def split: prod.splits)

lemma bind_act_ok: "bind_act m k s = (Inr y, s'') \<longleftrightarrow> (\<exists>x s'. m s = (Inr x, s') \<and> k x s' = (Inr y, s''))"
  by (auto simp: bind_act_eq split: prod.splits sum.splits)

lemma if_act: "(if b then m else k) s = (if b then m s else k s)"
  by simp

text \<open>The steps of a \<open>syncOnce\<close> that returns.\<close>

lemma syncOnce_steps:
  assumes "syncOnce S T C pta ptb (a, b) = (Inr u, (a', b'))"
  defines "b0 \<equiv> learn_all C (e_keys a) b"
  defines "a0 \<equiv> learn_all C (e_keys b0) a"
  defines "to_b \<equiv> map op_to_js (engine_opsSince S (engine_frontier T b0) a0)"
  defines "to_a \<equiv> map op_to_js (engine_opsSince T (engine_frontier S a0) b0)"
  obtains n b1 m a1 where
    "(if to_b \<noteq> [] then applyRemoteOps T C ptb to_b else ret 0) b0 = (Inr n, b1)"
    "(if to_a \<noteq> [] then applyRemoteOps S C pta to_a else ret 0) a0 = (Inr m, a1)"
    "recordPeerFrontier S (e_deviceId b1) (engine_frontier T b1) a1 = (Inr (), a')"
    "recordPeerFrontier T (e_deviceId a') (engine_frontier S a') b1 = (Inr (), b')"
proof -
  have meet: "meet_keys C (a, b) = (a0, b0)" by (simp add: meet_keys_def Let_def a0_def b0_def)
  obtain n ab1 m ab2 ab3 where r: 
    "(if to_b \<noteq> [] then on_snd (applyRemoteOps T C ptb to_b) else ret 0) (a0, b0) = (Inr (n :: nat), ab1)"
    "(if to_a \<noteq> [] then on_fst (applyRemoteOps S C pta to_a) else ret 0) ab1 = (Inr (m :: nat), ab2)"
    "on_fst (recordPeerFrontier S (e_deviceId (snd ab2)) (engine_frontier T (snd ab2))) ab2 = (Inr (), ab3)"
    "on_snd (recordPeerFrontier T (e_deviceId (fst ab3)) (engine_frontier S (fst ab3))) ab3 = (Inr u, (a', b'))"
    using assms(1) unfolding syncOnce_def Let_def bind_act_ok
    by (auto simp: modify_def meet to_b_def to_a_def cong: if_cong)
  from r(1) obtain b1 where b1: "ab1 = (a0, b1)"
    "(if to_b \<noteq> [] then applyRemoteOps T C ptb to_b else ret 0) b0 = (Inr n, b1)"
    by (auto simp: on_snd_eq ret_def split: if_splits)
  from r(2) obtain a1 where a1: "ab2 = (a1, b1)"
    "(if to_a \<noteq> [] then applyRemoteOps S C pta to_a else ret 0) a0 = (Inr m, a1)"
    by (auto simp: b1(1) on_fst_eq ret_def split: if_splits)
  from r(3,4) have "recordPeerFrontier S (e_deviceId b1) (engine_frontier T b1) a1 = (Inr (), a')"
    "recordPeerFrontier T (e_deviceId a') (engine_frontier S a') b1 = (Inr (), b')"
    by (auto simp: a1(1) on_fst_eq on_snd_eq)
  with b1(2) a1(2) show ?thesis by (rule that)
qed

context two_adapters
begin

lemma syncOnce_log:
  assumes good: "left.good C a" "right.good C b" and run: "syncOnce S T C pta ptb (a, b) = (Inr u, (a', b'))"
    and inj: "inj_on o_id (left.logged a \<union> right.logged b)"
  shows "left.good C a' \<and> left.logged a' = left.logged a \<union> {p \<in> right.logged b. aboveFrontier p (left.seen a)} \<and>
    right.good C b' \<and> right.logged b' = right.logged b \<union> {p \<in> left.logged a. aboveFrontier p (right.seen b)}"
proof -
  define b0 where "b0 = learn_all C (e_keys a) b"
  define a0 where "a0 = learn_all C (e_keys b0) a"
  define ta where "ta = engine_opsSince T (engine_frontier S a0) b0"
  define tb where "tb = engine_opsSince S (engine_frontier T b0) a0"
  obtain n b1 m a1 where
    r: "(if map op_to_js tb \<noteq> [] then applyRemoteOps T C ptb (map op_to_js tb) else ret 0) b0 = (Inr n, b1)"
      "(if map op_to_js ta \<noteq> [] then applyRemoteOps S C pta (map op_to_js ta) else ret 0) a0 = (Inr m, a1)"
      "recordPeerFrontier S (e_deviceId b1) (engine_frontier T b1) a1 = (Inr (), a')"
      "recordPeerFrontier T (e_deviceId a') (engine_frontier S a') b1 = (Inr (), b')"
    using syncOnce_steps[OF run] unfolding b0_def a0_def ta_def tb_def by metis
  have b0: "right.good C b0" "e_store b0 = e_store b" using right.learn_all_good[OF good(2)] by (simp_all add: b0_def)
  have a0: "left.good C a0" "e_store a0 = e_store a" using left.learn_all_good[OF good(1)] by (simp_all add: a0_def)
  have f: "engine_frontier S a0 = left.seen a" "engine_frontier T b0 = right.seen b"
    using left.getFrontier right.getFrontier a0 b0 by (auto simp: engine_frontier_def left.good_def right.good_def)
  have ta: "set ta = {p \<in> right.logged b. aboveFrontier p (left.seen a)}" "batch_ops (map op_to_js ta) = ta"
    "\<forall>v \<in> set (map op_to_js ta). wf_val v"
    using right.sent_ops[OF b0(1), of "left.seen a"] unfolding ta_def f(1) b0(2) by simp_all
  have tb: "set tb = {p \<in> left.logged a. aboveFrontier p (right.seen b)}" "batch_ops (map op_to_js tb) = tb"
    "\<forall>v \<in> set (map op_to_js tb). wf_val v"
    using left.sent_ops[OF a0(1), of "right.seen b"] unfolding tb_def f(2) a0(2) by simp_all
  have ib: "inj_on o_id (right.logged b0 \<union> set (batch_ops (map op_to_js tb)))"
    using inj unfolding tb(1,2) b0(2) by (rule inj_on_subset) auto
  have ia: "inj_on o_id (left.logged a0 \<union> set (batch_ops (map op_to_js ta)))"
    using inj unfolding ta(1,2) a0(2) by (rule inj_on_subset) auto
  from left.take_ops[OF a0(1) ta(3) ia r(2)] have a1: "left.good C a1" "left.logged a1 = left.logged a \<union> set ta"
    unfolding ta(2) a0(2) by simp_all
  from right.take_ops[OF b0(1) tb(3) ib r(1)] have b1: "right.good C b1" "right.logged b1 = right.logged b \<union> set tb"
    unfolding tb(2) b0(2) by simp_all
  note A = left.recordPeerFrontier_log[OF a1(1) r(3) right.frontier_js[OF b1(1)]]
  then have "js_frontier (engine_frontier S a')" using left.frontier_js by blast
  from A right.recordPeerFrontier_log[OF b1(1) r(4) this] a1(2) b1(2)
  show ?thesis by (simp add: ta(1) tb(1))
qed

text \<open>Replicas without gaps relative to each other leave the exchange with the same log and state.\<close>

lemma syncOnce_same:
  assumes good: "left.good C a" "right.good C b" and run: "syncOnce S T C pta ptb (a, b) = (Inr u, (a', b'))"
    and inj: "inj_on o_id (left.logged a \<union> right.logged b)"
    and gapless: "\<And>p. p \<in> right.logged b \<Longrightarrow> \<not> aboveFrontier p (left.seen a) \<Longrightarrow> p \<in> left.logged a"
      "\<And>p. p \<in> left.logged a \<Longrightarrow> \<not> aboveFrontier p (right.seen b) \<Longrightarrow> p \<in> right.logged b"
  shows "left.logged a' = left.logged a \<union> right.logged b"
    and "r_log (view (e_store a')) = r_log (view' (e_store b'))"
    and "same_result same_state (dump S K a') (dump T K b')"
proof -
  note L = syncOnce_log[OF good run inj]
  show a: "left.logged a' = left.logged a \<union> right.logged b" using L gapless(1) by blast
  have "right.logged b' = left.logged a \<union> right.logged b" using L gapless(2) by blast
  with a have "left.logged a' = right.logged b'" by simp
  then show log: "r_log (view (e_store a')) = r_log (view' (e_store b'))"
    using wf_log_eqI left.good_wf_log right.good_wf_log L by blast
  show "same_result same_state (dump S K a') (dump T K b')"
    using converge(2)[OF _ _ log] L by blast
qed

end

end
