(* ===== verification/Ordered_Store.thy ===== *)
theory Ordered_Store
  imports Prelude
begin

text \<open>
  Stores that keep their records in ascending order of a string key: the object stores of
  IndexedDB and the primary keys of the SQLite tables. A store is an association list with
  strictly ascending keys; a range scan is a filter.
\<close>

section \<open>Operations\<close>

type_synonym ('k, 'v) store = "('k \<times> 'v) list"

abbreviation ordered :: "('k::linorder, 'v) store \<Rightarrow> bool" where
  "ordered s \<equiv> sorted_wrt (<) (map fst s)"

fun store_put :: "'k::linorder \<Rightarrow> 'v \<Rightarrow> ('k, 'v) store \<Rightarrow> ('k, 'v) store" where
  "store_put k v [] = [(k, v)]"
| "store_put k v ((k', v') # s) =
     (if k < k' then (k, v) # (k', v') # s
      else if k = k' then (k, v) # s
      else (k', v') # store_put k v s)"

text \<open>\<^verbatim>\<open>INSERT OR IGNORE\<close>: an existing record stays.\<close>

definition store_insert_new :: "'k::linorder \<Rightarrow> 'v \<Rightarrow> ('k, 'v) store \<Rightarrow> ('k, 'v) store" where
  "store_insert_new k v s = (if map_of s k = None then store_put k v s else s)"

section \<open>Facts\<close>

lemma keys_store_put [simp]: "fst ` set (store_put k v s) = insert k (fst ` set s)"
  by (induction s rule: store_put.induct) (simp_all add: insert_commute)

lemma ordered_put [simp]: "ordered s \<Longrightarrow> ordered (store_put k v s)"
proof (induction s)
  case (Cons x s)
  obtain k' v' where x: "x = (k', v')" by fastforce
  have "\<forall>j \<in> insert k (fst ` set s). k' < j" if "k' < k" using Cons.prems that by (auto simp: x)
  then have "\<forall>j \<in> fst ` set (store_put k v s). k' < j" if "k' < k" using that by simp
  then show ?case using Cons by (auto simp: x)
qed simp

lemma ordered_distinct: "ordered s \<Longrightarrow> dkeys s"
  by (induction s) auto

lemma map_of_put [simp]: "ordered s \<Longrightarrow> map_of (store_put k v s) = (map_of s)(k \<mapsto> v)"
proof (induction s)
  case (Cons x s)
  obtain k' v' where x: "x = (k', v')" by fastforce
  have "map_of s k = None" if "k < k'"
    using Cons.prems that by (force simp: x map_of_eq_None_iff)
  then show ?case using Cons by (auto simp: x fun_eq_iff)
qed simp

lemma ordered_filter [simp]: "ordered s \<Longrightarrow> ordered (filter P s)"
  by (induction s) auto

lemma map_del_filter: "map_del k s = filter (\<lambda>e. fst e \<noteq> k) s"
  by (induction s) auto

lemma ordered_del [simp]: "ordered s \<Longrightarrow> ordered (map_del k s)"
  by (simp add: map_del_filter)

lemma ordered_insert_new [simp]: "ordered s \<Longrightarrow> ordered (store_insert_new k v s)"
  by (simp add: store_insert_new_def)

lemma ordered_fold_put: "ordered s \<Longrightarrow> ordered (fold (\<lambda>x. store_put (f x) (g x)) xs s)"
  by (induction xs arbitrary: s) auto

lemma ordered_fold_del: "ordered s \<Longrightarrow> ordered (fold map_del ks s)"
  by (induction ks arbitrary: s) auto

lemma map_of_fold_put:
  "ordered s \<Longrightarrow> map_of (fold (\<lambda>x. store_put (f x) (g x)) xs s) =
     map_of s ++ map_of (rev (map (\<lambda>x. (f x, g x)) xs))"
  by (induction xs arbitrary: s) (auto simp: map_add_upd_left fun_eq_iff map_add_def split: option.splits)

lemma ordered_values:
  assumes "ordered s" "\<And>k v. map_of s k = Some v \<Longrightarrow> key v = k"
  shows "map key (map snd s) = map fst s"
  unfolding map_map
proof (rule map_cong[OF refl])
  fix x assume "x \<in> set s"
  then have "map_of s (fst x) = Some (snd x)" using ordered_distinct[OF assms(1)] by (simp add: map_of_is_SomeI)
  then show "(key \<circ> snd) x = fst x" using assms(2) by simp
qed

lemma sorted_wrt_less_sorted: "sorted_wrt (<) xs \<Longrightarrow> sorted (xs :: 'a::linorder list) \<and> distinct xs"
  by (induction xs) (auto simp: less_imp_le)

section \<open>Prefix ranges\<close>

text \<open>
  The range from \<open>p\<close> to \<open>p\<close> followed by the greatest code unit holds the keys that start with
  \<open>p\<close>, as long as what follows is ASCII.
\<close>

lemma list_less_append: "(p :: 'a::linorder list) < p @ x # xs"
  by (induction p) auto

lemma prefix_range:
  fixes p k :: jsstring
  assumes "\<And>rest. k = p @ rest \<Longrightarrow> \<forall>c \<in> set rest. c < 0xFFFF"
  shows "p \<le> k \<and> k \<le> p @ [0xFFFF] \<longleftrightarrow> prefix p k"
  using assms
proof (induction p arbitrary: k)
  case Nil
  then show ?case by (cases k) auto
next
  case (Cons c p)
  show ?case
  proof (cases k)
    case Nil
    then show ?thesis by simp
  next
    case k: (Cons d ks)
    show ?thesis
    proof (cases "c = d")
      case True
      have "p \<le> ks \<and> ks \<le> p @ [0xFFFF] \<longleftrightarrow> prefix p ks"
        using Cons.prems by (intro Cons.IH) (auto simp: k True)
      then show ?thesis by (simp add: k True)
    next
      case False
      then show ?thesis by (auto simp: k)
    qed
  qed
qed

lemma fold_map_set_at:
  "map_of (fold (\<lambda>x. map_set (f x) (g x)) xs m) = map_of m ++ map_of (rev (map (\<lambda>x. (f x, g x)) xs))"
  by (induction xs arbitrary: m) (auto simp: fun_eq_iff map_add_def split: option.splits)

lemma dkeys_fold_map_set: "dkeys m \<Longrightarrow> dkeys (fold (\<lambda>x. map_set (f x) (g x)) xs m)"
  by (induction xs arbitrary: m) auto

end
