(* ===== verification/Idb.thy ===== *)
theory Idb
  imports Sync Ordered_Store
begin

text \<open>
  The IndexedDB adapter of packages/adapter-idb/src/index.ts: three object stores, range scans
  by cursor over composite string keys, and one read-write transaction per write, which the
  browser may abort as a whole. It is shown to meet the storage contract.
\<close>

section \<open>The database\<close>

definition HIGH :: code_unit where "HIGH = 0xFFFF"

record cell_record =
  cr_key :: jsstring
  cr_op :: op

text \<open>
  \<open>ops\<close> and \<open>cells\<close> are keyed by a string, whose order is that of the code units. \<open>meta\<close> has
  four keys, each absent until its first write. \<open>verdicts\<close> is what becomes of the coming
  read-write transactions: an error aborts the next one, and beyond the list all commit.
\<close>

record idb =
  i_ops :: "(jsstring, op) store"
  i_cells :: "(jsstring, cell_record) store"
  i_frontier :: "frontier option"
  i_clock :: "clock_pair option"
  i_deviceKey :: "device_key option"
  i_peers :: "(jsstring, frontier) jsmap option"
  verdicts :: "js_error option list"

text \<open>\<open>onupgradeneeded\<close> creates the empty stores.\<close>

definition new_idb :: "js_error option list \<Rightarrow> idb" where
  "new_idb vs = \<lparr>i_ops = [], i_cells = [], i_frontier = None, i_clock = None, i_deviceKey = None,
     i_peers = None, verdicts = vs\<rparr>"

text \<open>The factory holds the databases of an origin by name.\<close>

definition db_name :: "jsstring \<Rightarrow> jsstring" where
  "db_name space = js ''tangentfeed:'' @ space"

definition open_idb :: "js_error option list \<Rightarrow> jsstring \<Rightarrow> (jsstring, idb) jsmap \<Rightarrow> idb \<times> (jsstring, idb) jsmap" where
  "open_idb vs space F = (case map_of F (db_name space) of
     Some db \<Rightarrow> (db, F)
   | None \<Rightarrow> (new_idb vs, map_set (db_name space) (new_idb vs) F))"

definition destroy_idb :: "jsstring \<Rightarrow> (jsstring, idb) jsmap \<Rightarrow> (jsstring, idb) jsmap" where
  "destroy_idb space F = map_del (db_name space) F"

section \<open>Requests and transactions\<close>

text \<open>A cursor calls \<open>fn\<close> on every value, in key order.\<close>

fun cursorEach :: "('v \<Rightarrow> 'b \<Rightarrow> 'b) \<Rightarrow> ('k, 'v) store \<Rightarrow> 'b \<Rightarrow> 'b" where
  "cursorEach fn [] out = out"
| "cursorEach fn ((k, v) # rest) out = cursorEach fn rest (fn v out)"

definition rangeScan :: "idb \<Rightarrow> jsstring \<Rightarrow> cell_record list" where
  "rangeScan db pre =
     (let range = (if pre = [] then i_cells db
          else filter (\<lambda>(k, rec). pre \<le> k \<and> k \<le> pre @ [HIGH]) (i_cells db))
      in cursorEach (\<lambda>rec out. out @ [rec]) range [])"

text \<open>All queued writes take effect, or none does and \<open>txDone\<close> rejects.\<close>

definition transaction :: "(idb \<Rightarrow> idb) \<Rightarrow> (idb, unit) act" where
  "transaction f = (\<lambda>db. case verdicts db of
       Some e # vs \<Rightarrow> (Inl e, db\<lparr>verdicts := vs\<rparr>)
     | None # vs \<Rightarrow> (Inr (), (f db)\<lparr>verdicts := vs\<rparr>)
     | [] \<Rightarrow> (Inr (), f db))"

section \<open>Reads\<close>

text \<open>\<^verbatim>\<open>s.slice(0, s.indexOf(SEP))\<close>; without a separator \<open>indexOf\<close> is -1, which drops the last unit.\<close>

definition before_sep :: "jsstring \<Rightarrow> jsstring" where
  "before_sep s = (if SEP \<in> set s then takeWhile (\<lambda>c. c \<noteq> SEP) s else butlast s)"

definition idb_getRow :: "idb \<Rightarrow> jsstring \<Rightarrow> jsstring \<Rightarrow> (jsstring, op) jsmap option" where
  "idb_getRow db table row =
     (let pre = table @ [SEP] @ row @ [SEP]; entries = rangeScan db pre
      in if entries = [] then None
         else Some (fold (\<lambda>rec out. map_set (drop (length pre) (cr_key rec)) (cr_op rec) out) entries []))"

definition idb_listRows :: "idb \<Rightarrow> jsstring \<Rightarrow> jsstring list" where
  "idb_listRows db table =
     (let pre = table @ [SEP]
      in set_of (map (\<lambda>rec. before_sep (drop (length pre) (cr_key rec))) (rangeScan db pre)))"

definition idb_listTables :: "idb \<Rightarrow> jsstring list" where
  "idb_listTables db = set_of (map (\<lambda>rec. before_sep (cr_key rec)) (rangeScan db []))"

definition idb_hasOp :: "idb \<Rightarrow> jsstring \<Rightarrow> bool" where
  "idb_hasOp db i \<longleftrightarrow> 0 < length (filter (\<lambda>e. fst e = i) (i_ops db))"

definition idb_getWinner :: "idb \<Rightarrow> jsstring \<Rightarrow> jsstring \<Rightarrow> jsstring \<Rightarrow> op option" where
  "idb_getWinner db t r c = map_option cr_op (map_of (i_cells db) (cellKey t r c))"

definition idb_opsSince :: "idb \<Rightarrow> frontier \<Rightarrow> op list" where
  "idb_opsSince db f = cursorEach (\<lambda>p out. if aboveFrontier p f then out @ [p] else out) (i_ops db) []"

definition idb_getFrontier :: "idb \<Rightarrow> frontier" where
  "idb_getFrontier db = or_empty (i_frontier db)"

definition idb_opCount :: "idb \<Rightarrow> nat" where
  "idb_opCount db = length (i_ops db)"

definition idb_allOps :: "idb \<Rightarrow> op list" where
  "idb_allOps db = cursorEach (\<lambda>p out. out @ [p]) (i_ops db) []"

definition idb_getPeerFrontiers :: "idb \<Rightarrow> (jsstring, frontier) jsmap" where
  "idb_getPeerFrontiers db = or_empty (i_peers db)"

section \<open>Writes\<close>

definition idb_setDeviceKey :: "device_key \<Rightarrow> (idb, unit) act" where
  "idb_setDeviceKey key = transaction (\<lambda>db. db\<lparr>i_deviceKey := Some key\<rparr>)"

text \<open>The second half of \<open>setPeerFrontier\<close>, after the record was read.\<close>

definition write_peer :: "jsstring \<Rightarrow> frontier \<Rightarrow> (jsstring, frontier) jsmap \<Rightarrow> (idb, unit) act" where
  "write_peer peer f current = transaction (\<lambda>db. db\<lparr>i_peers := Some (map_set peer f current)\<rparr>)"

definition idb_setPeerFrontier :: "jsstring \<Rightarrow> frontier \<Rightarrow> (idb, unit) act" where
  "idb_setPeerFrontier peer f = bind_act (gets idb_getPeerFrontiers) (write_peer peer f)"

definition idb_compact :: "compaction_write \<Rightarrow> (idb, unit) act" where
  "idb_compact w = transaction (\<lambda>db. db\<lparr>i_ops := fold map_del (w_opIds w) (i_ops db),
     i_cells := fold map_del (w_cellKeys w) (i_cells db)\<rparr>)"

definition idb_applyBatch :: "batch \<Rightarrow> (idb, unit) act" where
  "idb_applyBatch b = transaction (\<lambda>db. db\<lparr>
     i_ops := fold (\<lambda>p. store_put (o_id p) p) (b_ops b) (i_ops db),
     i_cells := fold (\<lambda>w. store_put (fst w) \<lparr>cr_key = fst w, cr_op = snd w\<rparr>) (b_winners b) (i_cells db),
     i_frontier := Some (b_frontier b), i_clock := Some (b_clock b)\<rparr>)"

definition idb_adapter :: "idb storage_ops" where
  "idb_adapter = \<lparr>
     getRow = idb_getRow, listRows = idb_listRows, listTables = idb_listTables,
     hasOp = idb_hasOp, getWinner = idb_getWinner, opsSince = idb_opsSince,
     getFrontier = idb_getFrontier, getClock = i_clock, getDeviceKey = i_deviceKey,
     setDeviceKey = idb_setDeviceKey, applyBatch = idb_applyBatch,
     opCount = idb_opCount, allOps = idb_allOps,
     getPeerFrontiers = idb_getPeerFrontiers, setPeerFrontier = idb_setPeerFrontier,
     compact_store = idb_compact\<rparr>"

section \<open>The contract\<close>

definition idb_inv :: "idb \<Rightarrow> bool" where
  "idb_inv db \<longleftrightarrow> ordered (i_ops db) \<and> ordered (i_cells db) \<and>
     (\<forall>i p. map_of (i_ops db) i = Some p \<longrightarrow> o_id p = i \<and> storable p) \<and>
     (\<forall>k rec. map_of (i_cells db) k = Some rec \<longrightarrow>
        cr_key rec = k \<and> storable (cr_op rec) \<and> k = op_key (cr_op rec)) \<and>
     dkeys (idb_getPeerFrontiers db)"

definition idb_view :: "idb \<Rightarrow> replica" where
  "idb_view db = \<lparr>r_log = map_of (i_ops db),
     r_cells = (\<lambda>(t, r, c). map_option cr_op (map_of (i_cells db) (cellKey t r c))),
     r_front = idb_getFrontier db, r_clock = i_clock db, r_key = i_deviceKey db,
     r_peers = map_of (idb_getPeerFrontiers db)\<rparr>"

lemma cursor_all: "cursorEach (\<lambda>p out. out @ [p]) s out = out @ map snd s"
  by (induction s arbitrary: out) auto

lemma cursor_filter: "cursorEach (\<lambda>p out. if P p then out @ [p] else out) s out = out @ filter P (map snd s)"
  by (induction s arbitrary: out) auto

subsection \<open>Keys of cells\<close>

lemma op_key_cell: "op_cell p = (t, r, c) \<Longrightarrow> op_key p = cellKey t r c"
  by (simp add: op_cell_def op_key_def)

lemma prefix_sep:
  "no_sep t \<Longrightarrow> no_sep t' \<Longrightarrow> prefix (t @ SEP # x) (t' @ SEP # y) \<longleftrightarrow> t = t' \<and> prefix x y"
proof (induction t arbitrary: t')
  case Nil
  then show ?case by (cases t') (auto simp: no_sep_def)
next
  case (Cons a t)
  then show ?case by (cases t') (auto simp: no_sep_def)
qed

lemma prefix_count: "prefix p k \<Longrightarrow> count_list p x \<le> count_list k x"
  by (auto simp: prefix_def)

lemma count_list_sep: "count_list s SEP = 0 \<longleftrightarrow> no_sep s"
  by (simp add: no_sep_def count_list_0_iff)

lemma prefix_row:
  assumes "no_sep t'" "no_sep r'" "no_sep c'"
  shows "prefix (t @ [SEP] @ r @ [SEP]) (cellKey t' r' c') \<longleftrightarrow> t = t' \<and> r = r'"
proof
  assume p: "prefix (t @ [SEP] @ r @ [SEP]) (cellKey t' r' c')"
  from prefix_count[OF p, of SEP] assms have "count_list t SEP = 0" "count_list r SEP = 0"
    by (auto simp: cellKey_def count_list_0_iff no_sep_def)
  then have "no_sep t" "no_sep r" by (simp_all add: count_list_sep)
  with p assms show "t = t' \<and> r = r'"
    using prefix_sep[of t t' "r @ [SEP]" "r' @ SEP # c'"] prefix_sep[of r r' "[]" c'] by (simp add: cellKey_def)
qed (simp add: cellKey_def)

lemma prefix_table: "no_sep t \<Longrightarrow> no_sep t' \<Longrightarrow> prefix (t @ [SEP]) (cellKey t' r' c') \<longleftrightarrow> t = t'"
  using prefix_sep[of t t' "[]" "r' @ SEP # c'"] by (simp add: cellKey_def)

lemma before_sep_append [simp]: "no_sep t \<Longrightarrow> before_sep (t @ SEP # x) = t"
  by (induction t) (auto simp: before_sep_def no_sep_def)

lemma drop_row_prefix: "drop (length (t @ [SEP] @ r @ [SEP])) (cellKey t r c) = c"
  by (simp add: cellKey_def)

text \<open>What a stored cell is.\<close>

lemma stored_cell:
  assumes "idb_inv db" "(k, rec) \<in> set (i_cells db)"
  obtains t r c where "k = cellKey t r c" "cr_key rec = k" "op_cell (cr_op rec) = (t, r, c)"
    "no_sep t" "no_sep r" "no_sep c" "ascii k"
proof -
  have "map_of (i_cells db) k = Some rec"
    using assms ordered_distinct by (auto simp: idb_inv_def intro: map_of_is_SomeI)
  then have rec: "cr_key rec = k" "storable (cr_op rec)" "k = op_key (cr_op rec)" using assms(1) by (auto simp: idb_inv_def)
  obtain t r c where x: "op_cell (cr_op rec) = (t, r, c)" by (cases "op_cell (cr_op rec)")
  then have "no_sep t" "no_sep r" "no_sep c" "ascii t" "ascii r" "ascii c"
    using rec(2) by (auto simp: op_cell_def storable_def)
  with rec x op_key_cell[OF x] show ?thesis by (intro that[of t r c]) (auto simp: ascii_def cellKey_def)
qed

lemma rangeScan_prefix:
  assumes "idb_inv db"
  shows "rangeScan db pre = map snd (filter (\<lambda>(k, rec). prefix pre k) (i_cells db))"
proof -
  have "(case e of (k, rec) \<Rightarrow> pre \<le> k \<and> k \<le> pre @ [HIGH]) \<longleftrightarrow> (case e of (k, rec) \<Rightarrow> prefix pre k)"
    if "e \<in> set (i_cells db)" for e
  proof -
    obtain k rec where e: "e = (k, rec)" by fastforce
    with that obtain t r c where "ascii k" using stored_cell[OF assms] by blast
    then have "pre \<le> k \<and> k \<le> pre @ [0xFFFF] \<longleftrightarrow> prefix pre k"
    proof (intro prefix_range ballI)
      fix rest c assume "k = pre @ rest" "c \<in> set rest"
      then have "c < 128" using \<open>ascii k\<close> by (auto simp: ascii_def)
      then show "c < 0xFFFF" by (simp add: word_less_nat_alt)
    qed
    then show ?thesis by (simp add: e HIGH_def)
  qed
  then have "filter (\<lambda>(k, rec). pre \<le> k \<and> k \<le> pre @ [HIGH]) (i_cells db) =
      filter (\<lambda>(k, rec). prefix pre k) (i_cells db)" by (rule filter_cong[OF refl])
  then show ?thesis by (simp add: rangeScan_def Let_def cursor_all)
qed

lemma mem_rangeScan:
  assumes "idb_inv db"
  shows "rec \<in> set (rangeScan db pre) \<longleftrightarrow> (\<exists>k. map_of (i_cells db) k = Some rec \<and> prefix pre k)"
proof -
  have d: "dkeys (i_cells db)" using assms ordered_distinct by (auto simp: idb_inv_def)
  have "(k, rec) \<in> set (i_cells db) \<longleftrightarrow> map_of (i_cells db) k = Some rec" for k
    using d by (auto intro: map_of_is_SomeI dest: map_of_SomeD)
  then show ?thesis unfolding rangeScan_prefix[OF assms] by force
qed

text \<open>The stored cells of the view.\<close>

lemma view_cell:
  assumes "idb_inv db"
  shows "r_cells (idb_view db) (t, r, c) = Some p \<longleftrightarrow>
    (\<exists>rec. map_of (i_cells db) (cellKey t r c) = Some rec \<and> cr_op rec = p)"
  by (auto simp: idb_view_def)

lemma stored_view:
  assumes "idb_inv db" "map_of (i_cells db) k = Some rec"
  obtains t r c where "k = cellKey t r c" "cr_key rec = k" "no_sep t" "no_sep r" "no_sep c"
    "r_cells (idb_view db) (t, r, c) = Some (cr_op rec)"
proof -
  from assms(2) have "(k, rec) \<in> set (i_cells db)" by (rule map_of_SomeD)
  from stored_cell[OF assms(1) this] obtain t r c where "k = cellKey t r c" "cr_key rec = k" "no_sep t" "no_sep r" "no_sep c"
    by metis
  with assms show ?thesis by (intro that[of t r c]) (auto simp: view_cell)
qed

lemma view_named:
  assumes "idb_inv db" "r_cells (idb_view db) (t, r, c) = Some p"
  shows "no_sep t \<and> no_sep r \<and> no_sep c"
proof -
  from assms obtain rec where rec: "map_of (i_cells db) (cellKey t r c) = Some rec" by (auto simp: view_cell)
  from stored_view[OF assms(1) rec] obtain t' r' c' where
    k: "cellKey t r c = cellKey t' r' c'" "no_sep t'" "no_sep r'" "no_sep c'" by metis
  have "count_list (cellKey t r c) SEP = 2" unfolding k(1) using k by (simp add: cellKey_def no_sep_def)
  then show ?thesis by (auto simp: cellKey_def no_sep_def count_list_0_iff)
qed

subsection \<open>Reads\<close>

lemma idb_row_entries:
  assumes "idb_inv db"
  shows "rec \<in> set (rangeScan db (t @ [SEP] @ r @ [SEP])) \<longleftrightarrow>
    (\<exists>c. cr_key rec = cellKey t r c \<and> r_cells (idb_view db) (t, r, c) = Some (cr_op rec) \<and>
       map_of (i_cells db) (cellKey t r c) = Some rec)"
proof
  assume "rec \<in> set (rangeScan db (t @ [SEP] @ r @ [SEP]))"
  then obtain k where k: "map_of (i_cells db) k = Some rec" "prefix (t @ [SEP] @ r @ [SEP]) k"
    by (auto simp: mem_rangeScan[OF assms])
  from stored_view[OF assms k(1)] obtain t' r' c where
    s: "k = cellKey t' r' c" "cr_key rec = k" "no_sep t'" "no_sep r'" "no_sep c"
      "r_cells (idb_view db) (t', r', c) = Some (cr_op rec)" by metis
  then have "t = t' \<and> r = r'" using k(2) prefix_row by simp
  with s k show "\<exists>c. cr_key rec = cellKey t r c \<and> r_cells (idb_view db) (t, r, c) = Some (cr_op rec) \<and>
      map_of (i_cells db) (cellKey t r c) = Some rec" by blast
next
  assume "\<exists>c. cr_key rec = cellKey t r c \<and> r_cells (idb_view db) (t, r, c) = Some (cr_op rec) \<and>
      map_of (i_cells db) (cellKey t r c) = Some rec"
  then show "rec \<in> set (rangeScan db (t @ [SEP] @ r @ [SEP]))"
    by (auto simp: mem_rangeScan[OF assms] cellKey_def)
qed

lemma idb_getRow_spec:
  assumes "idb_inv db"
  shows "idb_getRow db t r = None \<longleftrightarrow> (\<forall>c. r_cells (idb_view db) (t, r, c) = None)"
    and "idb_getRow db t r = Some m \<Longrightarrow> dkeys m \<and> map_of m = (\<lambda>c. r_cells (idb_view db) (t, r, c))"
proof -
  let ?pre = "t @ [SEP] @ r @ [SEP]" and ?es = "rangeScan db (t @ [SEP] @ r @ [SEP])"
  note E = idb_row_entries[OF assms, of _ t r]
  have "?es = [] \<longleftrightarrow> (\<forall>rec. rec \<notin> set ?es)" by (cases ?es) auto
  also have "\<dots> \<longleftrightarrow> (\<forall>c. r_cells (idb_view db) (t, r, c) = None)"
  proof safe
    fix c assume none: "\<forall>rec. rec \<notin> set ?es"
    show "r_cells (idb_view db) (t, r, c) = None"
    proof (rule ccontr)
      assume "r_cells (idb_view db) (t, r, c) \<noteq> None"
      then obtain rec where rec: "map_of (i_cells db) (cellKey t r c) = Some rec" by (auto simp: view_cell[OF assms])
      then have "cr_key rec = cellKey t r c" using assms by (auto simp: idb_inv_def)
      with rec have "rec \<in> set ?es" unfolding E by (auto simp: view_cell[OF assms])
      with none show False by blast
    qed
  next
    fix rec assume "\<forall>c. r_cells (idb_view db) (t, r, c) = None" "rec \<in> set ?es"
    then show False unfolding E by auto
  qed
  finally show "idb_getRow db t r = None \<longleftrightarrow> (\<forall>c. r_cells (idb_view db) (t, r, c) = None)"
    by (simp add: idb_getRow_def Let_def)
  assume some: "idb_getRow db t r = Some m"
  define ys where "ys = map (\<lambda>rec. (drop (length ?pre) (cr_key rec), cr_op rec)) ?es"
  have m: "m = fold (\<lambda>rec. map_set (drop (length ?pre) (cr_key rec)) (cr_op rec)) ?es []"
    using some by (auto simp: idb_getRow_def Let_def split: if_splits)
  have key: "cr_key rec = ?pre @ drop (length ?pre) (cr_key rec)" if "rec \<in> set ?es" for rec
    using that unfolding E by (auto simp: cellKey_def)
  have "distinct (map cr_key ?es)"
  proof -
    have o: "ordered (i_cells db)" and k: "\<And>k rec. map_of (i_cells db) k = Some rec \<Longrightarrow> cr_key rec = k"
      using assms by (auto simp: idb_inv_def)
    let ?f = "filter (\<lambda>(k, rec). prefix ?pre k) (i_cells db)"
    have "map cr_key (map snd ?f) = map fst ?f"
      unfolding map_map
    proof (rule map_cong[OF refl])
      fix e assume "e \<in> set ?f"
      then have "map_of (i_cells db) (fst e) = Some (snd e)"
        using ordered_distinct[OF o] by (auto intro: map_of_is_SomeI)
      then show "(cr_key \<circ> snd) e = fst e" using k by simp
    qed
    moreover have "dkeys ?f" using ordered_distinct ordered_filter[OF o] by blast
    ultimately show ?thesis unfolding rangeScan_prefix[OF assms] by (simp only:)
  qed
  then have "distinct (map fst ys)"
    unfolding ys_def map_map comp_def fst_conv distinct_map
    using key by (auto simp: inj_on_def) metis
  then have "map_of m = map_of ys"
    unfolding m fold_map_set_at ys_def[symmetric] by (simp add: map_of_rev_distinct)
  moreover have "map_of ys c = r_cells (idb_view db) (t, r, c)" for c
  proof -
    have "map_of ys c = Some p \<longleftrightarrow> r_cells (idb_view db) (t, r, c) = Some p" for p
    proof -
      have "map_of ys c = Some p \<longleftrightarrow> (c, p) \<in> set ys"
        using \<open>distinct (map fst ys)\<close> by (auto intro: map_of_is_SomeI dest: map_of_SomeD)
      also have "\<dots> \<longleftrightarrow> (\<exists>rec \<in> set ?es. drop (length ?pre) (cr_key rec) = c \<and> cr_op rec = p)"
        by (auto simp: ys_def)
      also have "\<dots> \<longleftrightarrow> r_cells (idb_view db) (t, r, c) = Some p"
      proof
        assume "\<exists>rec \<in> set ?es. drop (length ?pre) (cr_key rec) = c \<and> cr_op rec = p"
        then show "r_cells (idb_view db) (t, r, c) = Some p" unfolding Bex_def E by (auto simp: drop_row_prefix cellKey_def)
      next
        assume "r_cells (idb_view db) (t, r, c) = Some p"
        then obtain rec where "map_of (i_cells db) (cellKey t r c) = Some rec" "cr_op rec = p"
          by (auto simp: view_cell[OF assms])
        moreover from this have "cr_key rec = cellKey t r c" using assms by (auto simp: idb_inv_def)
        ultimately show "\<exists>rec \<in> set ?es. drop (length ?pre) (cr_key rec) = c \<and> cr_op rec = p"
          unfolding Bex_def E by (intro exI[of _ rec]) (auto simp: cellKey_def view_cell[OF assms])
      qed
      finally show ?thesis .
    qed
    then show ?thesis by (metis option.exhaust)
  qed
  ultimately show "dkeys m \<and> map_of m = (\<lambda>c. r_cells (idb_view db) (t, r, c))"
    using dkeys_fold_map_set[of "[]"] by (auto simp: m)
qed

lemma idb_listRows_spec:
  assumes "idb_inv db" "no_sep t"
  shows "set (idb_listRows db t) = {r. \<exists>c. r_cells (idb_view db) (t, r, c) \<noteq> None}"
proof -
  have "r \<in> set (idb_listRows db t) \<longleftrightarrow> (\<exists>c. r_cells (idb_view db) (t, r, c) \<noteq> None)" for r
  proof
    assume "r \<in> set (idb_listRows db t)"
    then obtain rec k where k: "map_of (i_cells db) k = Some rec" "prefix (t @ [SEP]) k"
      "r = before_sep (drop (length (t @ [SEP])) (cr_key rec))"
      by (auto simp: idb_listRows_def Let_def mem_rangeScan[OF assms(1)])
    from stored_view[OF assms(1) k(1)] obtain t' r' c where
      s: "k = cellKey t' r' c" "cr_key rec = k" "no_sep t'" "no_sep r'" "no_sep c"
        "r_cells (idb_view db) (t', r', c) = Some (cr_op rec)" by metis
    then have "t = t'" using k(2) prefix_table[OF assms(2)] by simp
    then have "r = r'" using k(3) s by (simp add: cellKey_def)
    with s \<open>t = t'\<close> show "\<exists>c. r_cells (idb_view db) (t, r, c) \<noteq> None" by blast
  next
    assume "\<exists>c. r_cells (idb_view db) (t, r, c) \<noteq> None"
    then obtain c p where c: "r_cells (idb_view db) (t, r, c) = Some p" by blast
    then obtain rec where rec: "map_of (i_cells db) (cellKey t r c) = Some rec" by (auto simp: view_cell[OF assms(1)])
    then have "cr_key rec = cellKey t r c" using assms(1) by (auto simp: idb_inv_def)
    moreover have "no_sep r" using view_named[OF assms(1) c] by blast
    ultimately have "before_sep (drop (length (t @ [SEP])) (cr_key rec)) = r" by (simp add: cellKey_def)
    moreover have "rec \<in> set (rangeScan db (t @ [SEP]))"
      using rec by (auto simp: mem_rangeScan[OF assms(1)] cellKey_def)
    ultimately show "r \<in> set (idb_listRows db t)" by (force simp: idb_listRows_def Let_def)
  qed
  then show ?thesis by blast
qed

lemma idb_listTables_spec:
  assumes "idb_inv db"
  shows "set (idb_listTables db) = {t. \<exists>r c. r_cells (idb_view db) (t, r, c) \<noteq> None}"
proof -
  have "t \<in> set (idb_listTables db) \<longleftrightarrow> (\<exists>r c. r_cells (idb_view db) (t, r, c) \<noteq> None)" for t
  proof
    assume "t \<in> set (idb_listTables db)"
    then obtain rec k where k: "map_of (i_cells db) k = Some rec" "t = before_sep (cr_key rec)"
      by (auto simp: idb_listTables_def mem_rangeScan[OF assms])
    from stored_view[OF assms k(1)] obtain t' r' c where
      s: "k = cellKey t' r' c" "cr_key rec = k" "no_sep t'" "r_cells (idb_view db) (t', r', c) = Some (cr_op rec)"
      by metis
    then have "t = t'" using k(2) by (simp add: cellKey_def)
    with s show "\<exists>r c. r_cells (idb_view db) (t, r, c) \<noteq> None" by blast
  next
    assume "\<exists>r c. r_cells (idb_view db) (t, r, c) \<noteq> None"
    then obtain r c p where c: "r_cells (idb_view db) (t, r, c) = Some p" by blast
    then obtain rec where rec: "map_of (i_cells db) (cellKey t r c) = Some rec" by (auto simp: view_cell[OF assms])
    then have "cr_key rec = cellKey t r c" using assms by (auto simp: idb_inv_def)
    moreover have "no_sep t" using view_named[OF assms c] by blast
    ultimately have "before_sep (cr_key rec) = t" by (simp add: cellKey_def)
    moreover have "rec \<in> set (rangeScan db [])" using rec by (auto simp: mem_rangeScan[OF assms])
    ultimately show "t \<in> set (idb_listTables db)" by (force simp: idb_listTables_def)
  qed
  then show ?thesis by blast
qed

lemma idb_values:
  assumes "idb_inv db"
  shows "sorted_ops (filter P (map snd (i_ops db))) {p \<in> ran (map_of (i_ops db)). P p}"
proof -
  have o: "ordered (i_ops db)" using assms by (simp add: idb_inv_def)
  have k: "o_hlc p = i" if "map_of (i_ops db) i = Some p" for i p
  proof -
    from that assms have "o_id p = i" "storable p" by (simp_all add: idb_inv_def)
    then show ?thesis by (simp add: storable_def)
  qed
  have "map o_hlc (map snd (i_ops db)) = map fst (i_ops db)" by (rule ordered_values[OF o k])
  then have "sorted_wrt (<) (map o_hlc (map snd (i_ops db)))" using o by (simp only:)
  then have "sorted_wrt (<) (map o_hlc (filter P (map snd (i_ops db))))"
    by (simp only: sorted_wrt_map sorted_wrt_filter)
  then have "sorted (map o_hlc (filter P (map snd (i_ops db)))) \<and> distinct (map o_hlc (filter P (map snd (i_ops db))))"
    by (rule sorted_wrt_less_sorted)
  then have "sorted (map o_hlc (filter P (map snd (i_ops db))))" "distinct (filter P (map snd (i_ops db)))"
    using distinct_map by blast+
  moreover have "set (map snd (i_ops db)) = ran (map_of (i_ops db))"
    using map_of_ran_set[OF ordered_distinct[OF o]] by simp
  ultimately show ?thesis by (simp add: sorted_ops_def del: set_map)
qed

subsection \<open>Writes\<close>

lemma transaction_cases:
  assumes "transaction f db = (res, db')"
  shows "(\<exists>u. res = Inr u) \<and> (\<exists>vs. db' = (f db)\<lparr>verdicts := vs\<rparr>) \<or>
    (\<exists>e. res = Inl e) \<and> (\<exists>vs. db' = db\<lparr>verdicts := vs\<rparr>)"
proof -
  have "\<exists>vs. f db = (f db)\<lparr>verdicts := vs\<rparr>" by (rule exI[of _ "verdicts (f db)"]) simp
  with assms show ?thesis
    unfolding transaction_def by (cases "verdicts db") (force split: option.splits)+
qed

lemma verdicts_inv [simp]: "idb_inv (db\<lparr>verdicts := vs\<rparr>) = idb_inv db" "idb_view (db\<lparr>verdicts := vs\<rparr>) = idb_view db"
  by (simp_all add: idb_inv_def idb_view_def idb_getPeerFrontiers_def idb_getFrontier_def)

lemma transaction_ok:
  assumes "transaction f db = (Inr u, db')" "idb_inv (f db) \<and> idb_view (f db) = v"
  shows "idb_inv db' \<and> idb_view db' = v"
  using transaction_cases[OF assms(1)] assms(2) by auto

lemma transaction_err:
  assumes "transaction f db = (Inl e, db')" "idb_inv db"
  shows "idb_inv db' \<and> idb_view db' = idb_view db"
  using transaction_cases[OF assms(1)] assms(2) by auto

lemma idb_inv_write:
  assumes "idb_inv db" "ordered ops" "ordered cells"
    "\<And>i p. map_of ops i = Some p \<Longrightarrow> o_id p = i \<and> storable p"
    "\<And>k rec. map_of cells k = Some rec \<Longrightarrow> cr_key rec = k \<and> storable (cr_op rec) \<and> k = op_key (cr_op rec)"
  shows "idb_inv (db\<lparr>i_ops := ops, i_cells := cells, i_frontier := f, i_clock := c\<rparr>)"
proof -
  have "dkeys (or_empty (i_peers db))" using assms(1) by (simp add: idb_inv_def idb_getPeerFrontiers_def)
  with assms(2-) show ?thesis by (simp (no_asm_simp) add: idb_inv_def idb_getPeerFrontiers_def)
qed

lemma idb_applyBatch_spec:
  assumes inv: "idb_inv db" and ok: "batch_ok (idb_view db) b" and run: "idb_applyBatch b db = (Inr u, db')"
  shows "idb_inv db' \<and> idb_view db' = apply_spec b (idb_view db)"
proof (rule transaction_ok[OF run[unfolded idb_applyBatch_def]])
  let ?ops = "fold (\<lambda>p. store_put (o_id p) p) (b_ops b) (i_ops db)"
  let ?cells = "fold (\<lambda>w. store_put (fst w) \<lparr>cr_key = fst w, cr_op = snd w\<rparr>) (b_winners b) (i_cells db)"
  have o: "ordered (i_ops db)" "ordered (i_cells db)" using inv by (simp_all add: idb_inv_def)
  have keys: "\<forall>(k, p) \<in> set (b_winners b). storable p \<and> k = op_key p" and d: "dkeys (b_winners b)"
    and ids: "distinct (map o_id (b_ops b))" and st: "\<forall>p \<in> set (b_ops b). storable p"
    using ok by (auto simp: batch_ok_def)
  have log: "map_of ?ops = map_of (i_ops db) ++ ops_map (b_ops b)"
    unfolding map_of_fold_put[OF o(1)] ops_map_def by (simp add: map_of_rev_distinct comp_def ids)
  define ws where "ws = map (\<lambda>w. (fst w, \<lparr>cr_key = fst w, cr_op = snd w\<rparr>)) (b_winners b)"
  have ws: "dkeys ws" using d by (simp add: ws_def comp_def)
  have cells: "map_of ?cells = map_of (i_cells db) ++ map_of ws"
    unfolding map_of_fold_put[OF o(2)] ws_def[symmetric] by (simp add: map_of_rev_distinct ws)
  have logged: "o_id p = i \<and> storable p" if "map_of ?ops i = Some p" for i p
  proof (cases "ops_map (b_ops b) i = Some p")
    case True
    then have "p \<in> set (b_ops b) \<and> o_id p = i" by (auto simp: ops_map_def dest: map_of_SomeD)
    with st show ?thesis by blast
  next
    case False
    then show ?thesis using that inv unfolding log by (auto simp: map_add_Some_iff idb_inv_def)
  qed
  have won: "map_of ws k = Some rec \<longleftrightarrow> (\<exists>p. (k, p) \<in> set (b_winners b) \<and> rec = \<lparr>cr_key = k, cr_op = p\<rparr>)" for k rec
  proof -
    have "map_of ws k = Some rec \<longleftrightarrow> (k, rec) \<in> set ws" using ws by (rule map_of_eq_Some_iff)
    also have "\<dots> \<longleftrightarrow> (\<exists>p. (k, p) \<in> set (b_winners b) \<and> rec = \<lparr>cr_key = k, cr_op = p\<rparr>)"
      unfolding ws_def by force
    finally show ?thesis .
  qed
  have celled: "cr_key rec = k \<and> storable (cr_op rec) \<and> k = op_key (cr_op rec)" if "map_of ?cells k = Some rec" for k rec
  proof (cases "map_of ws k")
    case None
    then show ?thesis using that inv unfolding cells by (auto simp: map_add_Some_iff idb_inv_def)
  next
    case (Some rec')
    then have "rec' = rec" using that unfolding cells by simp
    with Some keys show ?thesis by (auto simp: won)
  qed
  have view: "map_option cr_op (map_of ?cells (cellKey t r c)) = (r_cells (idb_view db) ++ winners_map (b_winners b)) (t, r, c)" for t r c
  proof (cases "map_of ws (cellKey t r c)")
    case (Some rec)
    then obtain p where p: "(cellKey t r c, p) \<in> set (b_winners b)" "rec = \<lparr>cr_key = cellKey t r c, cr_op = p\<rparr>"
      by (auto simp: won)
    then have sp: "storable p" "op_key p = cellKey t r c" using keys by auto
    obtain t' r' c' where x: "op_cell p = (t', r', c')" by (cases "op_cell p")
    then have n: "no_sep t'" "no_sep r'" "no_sep c'" using sp(1) by (auto simp: op_cell_def storable_def)
    have eq: "cellKey t r c = cellKey t' r' c'" using sp(2) op_key_cell[OF x] by simp
    have "count_list (cellKey t r c) SEP = 2" unfolding eq using n by (simp add: cellKey_def no_sep_def)
    then have "no_sep t" "no_sep r" "no_sep c" by (auto simp: cellKey_def no_sep_def count_list_0_iff)
    with eq n have cell: "op_cell p = (t, r, c)" using x cellKey_inject by simp
    have "winners_map (b_winners b) (op_cell p) = Some p"
    proof -
      have "dkeys (map (\<lambda>(k, p). (op_cell p, p)) (b_winners b))"
        using d keys op_key_inject by (auto simp: distinct_map inj_on_def case_prod_beta) (metis+)?
      moreover have "(op_cell p, p) \<in> set (map (\<lambda>(k, p). (op_cell p, p)) (b_winners b))" using p(1) by force
      ultimately show ?thesis unfolding winners_map_def by (rule map_of_is_SomeI)
    qed
    then show ?thesis using Some p(2) by (simp add: cells cell)
  next
    case None
    have "winners_map (b_winners b) (t, r, c) = None"
    proof (rule ccontr)
      assume "winners_map (b_winners b) (t, r, c) \<noteq> None"
      then obtain p where "winners_map (b_winners b) (t, r, c) = Some p" by blast
      then obtain k where k: "(k, p) \<in> set (b_winners b)" "op_cell p = (t, r, c)"
        by (auto simp: winners_map_def dest!: map_of_SomeD)
      then have "k = cellKey t r c" using keys op_key_cell by auto
      with k(1) have "map_of ws (cellKey t r c) \<noteq> None" using won by blast
      with None show False by simp
    qed
    with None show ?thesis by (simp add: cells map_add_def idb_view_def)
  qed
  have "ordered ?ops" "ordered ?cells" by (rule ordered_fold_put[OF o(1)], rule ordered_fold_put[OF o(2)])
  then have "idb_inv (db\<lparr>i_ops := ?ops, i_cells := ?cells, i_frontier := Some (b_frontier b), i_clock := Some (b_clock b)\<rparr>)"
    by (rule idb_inv_write[OF inv]) (fact logged, fact celled)
  moreover have "(\<lambda>(t, r, c). map_option cr_op (map_of ?cells (cellKey t r c))) =
      r_cells (idb_view db) ++ winners_map (b_winners b)"
    using view by (simp add: fun_eq_iff)
  then have "idb_view (db\<lparr>i_ops := ?ops, i_cells := ?cells, i_frontier := Some (b_frontier b), i_clock := Some (b_clock b)\<rparr>) =
      apply_spec b (idb_view db)"
    by (simp add: idb_view_def apply_spec_def idb_getFrontier_def idb_getPeerFrontiers_def log)
  ultimately show "idb_inv (db\<lparr>i_ops := ?ops, i_cells := ?cells, i_frontier := Some (b_frontier b), i_clock := Some (b_clock b)\<rparr>) \<and>
      idb_view (db\<lparr>i_ops := ?ops, i_cells := ?cells, i_frontier := Some (b_frontier b), i_clock := Some (b_clock b)\<rparr>) =
        apply_spec b (idb_view db)" by (rule conjI)
qed

lemma idb_compact_spec:
  assumes inv: "idb_inv db" and ok: "compact_ok w" and run: "idb_compact w db = (Inr u, db')"
  shows "idb_inv db' \<and> idb_view db' = compact_spec w (idb_view db)"
proof (rule transaction_ok[OF run[unfolded idb_compact_def]])
  have o: "ordered (i_ops db)" "ordered (i_cells db)" using inv by (simp_all add: idb_inv_def)
  have cell: "map_option cr_op (map_of (fold map_del (w_cellKeys w) (i_cells db)) (cellKey t r c)) =
      (if Some (t, r, c) \<in> split_key ` set (w_cellKeys w) then None else r_cells (idb_view db) (t, r, c))" for t r c
  proof (cases "cellKey t r c \<in> set (w_cellKeys w)")
    case True
    then obtain t' r' c' where k: "cellKey t r c = cellKey t' r' c'" "no_sep t'" "no_sep r'" "no_sep c'"
      using ok by (auto simp: compact_ok_def)
    have "count_list (cellKey t r c) SEP = 2" unfolding k(1) using k by (simp add: cellKey_def no_sep_def)
    then have "no_sep t" "no_sep r" "no_sep c" by (auto simp: cellKey_def no_sep_def count_list_0_iff)
    then have "split_key (cellKey t r c) = Some (t, r, c)" by (rule split_cellKey)
    with True have "Some (t, r, c) \<in> split_key ` set (w_cellKeys w)" by force
    with True show ?thesis by (simp add: fold_map_del)
  next
    case False
    have "Some (t, r, c) \<notin> split_key ` set (w_cellKeys w)"
    proof
      assume "Some (t, r, c) \<in> split_key ` set (w_cellKeys w)"
      then obtain k where k: "k \<in> set (w_cellKeys w)" "split_key k = Some (t, r, c)" by force
      then obtain t' r' c' where "k = cellKey t' r' c'" "no_sep t'" "no_sep r'" "no_sep c'"
        using ok by (auto simp: compact_ok_def)
      with k split_cellKey[of t' r' c'] False show False by simp
    qed
    with False show ?thesis by (simp add: fold_map_del idb_view_def)
  qed
  let ?db = "db\<lparr>i_ops := fold map_del (w_opIds w) (i_ops db), i_cells := fold map_del (w_cellKeys w) (i_cells db)\<rparr>"
  have "ordered (i_ops ?db)" "ordered (i_cells ?db)" using ordered_fold_del o by simp_all
  then have "idb_inv ?db"
    using inv by (simp add: idb_inv_def idb_getPeerFrontiers_def fold_map_del restrict_map_def)
  moreover have "(\<lambda>(t, r, c). map_option cr_op (map_of (i_cells ?db) (cellKey t r c))) =
      (\<lambda>x. if Some x \<in> split_key ` set (w_cellKeys w) then None else r_cells (idb_view db) x)"
    using cell by (simp add: fun_eq_iff)
  then have "r_cells (idb_view ?db) = r_cells (compact_spec w (idb_view db))"
    by (simp add: idb_view_def[of ?db] compact_spec_def)
  then have "idb_view ?db = compact_spec w (idb_view db)"
    by (simp add: idb_view_def compact_spec_def idb_getFrontier_def idb_getPeerFrontiers_def fold_map_del)
  ultimately show "idb_inv ?db \<and> idb_view ?db = compact_spec w (idb_view db)" by (rule conjI)
qed

interpretation idb: storage_adapter idb_adapter idb_inv idb_view
proof (unfold_locales, goal_cases)
  case (1 s t r)
  then show ?case using idb_getRow_spec(1) by (simp add: idb_adapter_def)
next
  case (2 s t r m)
  then show ?case using idb_getRow_spec(2) by (simp add: idb_adapter_def)
next
  case (3 s t)
  then show ?case using idb_listRows_spec by (simp add: idb_adapter_def idb_listRows_def Let_def)
next
  case (4 s)
  then show ?case using idb_listTables_spec by (simp add: idb_adapter_def idb_listTables_def)
next
  case (5 s i)
  then have "0 < length (filter (\<lambda>e. fst e = i) (i_ops s)) \<longleftrightarrow> map_of (i_ops s) i \<noteq> None"
    by (auto simp: filter_empty_conv map_of_eq_None_iff)
  then show ?case by (simp add: idb_adapter_def idb_hasOp_def idb_view_def)
next
  case (7 s f)
  then show ?case using idb_values[of s "\<lambda>p. aboveFrontier p f"]
    by (simp add: idb_adapter_def idb_opsSince_def cursor_filter idb_view_def)
next
  case (8 s)
  then show ?case using idb_values[of s "\<lambda>p. True"]
    by (simp add: idb_adapter_def idb_allOps_def cursor_all idb_view_def)
next
  case (9 s)
  then have "dkeys (i_ops s)" using ordered_distinct by (auto simp: idb_inv_def)
  then show ?case by (simp add: idb_adapter_def idb_opCount_def idb_view_def card_dom_map_of)
next
  case (15 s b u s')
  then have "idb_applyBatch b s = (Inr u, s')" by (simp add: idb_adapter_def)
  with 15(1,2) show ?case by (rule idb_applyBatch_spec)
next
  case (16 s b e s')
  show ?case by (rule transaction_err[OF _ 16(1)])
      (use 16(2) in \<open>simp add: idb_adapter_def idb_applyBatch_def\<close>)
next
  case (17 s w u s')
  then have "idb_compact w s = (Inr u, s')" by (simp add: idb_adapter_def)
  with 17(1,2) show ?case by (rule idb_compact_spec)
next
  case (18 s w e s')
  show ?case by (rule transaction_err[OF _ 18(1)])
      (use 18(2) in \<open>simp add: idb_adapter_def idb_compact_def\<close>)
next
  case (19 s f d u s')
  then have "transaction (\<lambda>db. db\<lparr>i_peers := Some (map_set d f (idb_getPeerFrontiers s))\<rparr>) s = (Inr u, s')"
    by (simp add: idb_adapter_def idb_setPeerFrontier_def write_peer_def bind_act_eq gets_def)
  then show ?case by (rule transaction_ok)
      (use 19(1) in \<open>simp add: idb_inv_def idb_view_def idb_getPeerFrontiers_def idb_getFrontier_def\<close>)
next
  case (20 s d f e s')
  show ?case by (rule transaction_err[OF _ 20(1)])
      (use 20(2) in \<open>simp add: idb_adapter_def idb_setPeerFrontier_def write_peer_def bind_act_eq gets_def\<close>)
next
  case (21 s k u s')
  then have "transaction (\<lambda>db. db\<lparr>i_deviceKey := Some k\<rparr>) s = (Inr u, s')"
    by (simp add: idb_adapter_def idb_setDeviceKey_def)
  then show ?case by (rule transaction_ok)
      (use 21(1) in \<open>simp add: idb_inv_def idb_view_def idb_getPeerFrontiers_def idb_getFrontier_def\<close>)
next
  case (22 s k e s')
  show ?case by (rule transaction_err[OF _ 22(1)])
      (use 22(2) in \<open>simp add: idb_adapter_def idb_setDeviceKey_def\<close>)
qed (auto simp: idb_adapter_def idb_view_def idb_getWinner_def idb_inv_def)

end
