(* ===== verification/Idb_Properties.thy ===== *)
theory Idb_Properties
  imports Idb Merge_Properties
begin

text \<open>
  What the IndexedDB adapter promises: its writes refine the abstract replica and are all or
  nothing, its scans answer like the memory adapter, engines over the two adapters converge;
  and the one write that is not atomic, the record of a peer's frontier.
\<close>

interpretation idb_accepts: accepting idb_adapter "\<lambda>db. verdicts db = []"
  by unfold_locales (simp add: idb_adapter_def idb_applyBatch_def transaction_def)

interpretation mem_idb: two_adapters memory_adapter mem_inv mem_view idb_adapter idb_inv idb_view
  by unfold_locales

section \<open>Writes\<close>

text \<open>Whether the coming read-write transaction commits.\<close>

definition commits :: "idb \<Rightarrow> bool" where
  "commits db = (case verdicts db of Some e # vs \<Rightarrow> False | _ \<Rightarrow> True)"

lemma transaction_result: "fst (transaction f db) = Inr () \<longleftrightarrow> commits db"
  by (simp add: transaction_def commits_def split: list.splits option.splits)

text \<open>
  A write on \<open>db\<close> refines the change to \<open>v\<close>: a commit makes exactly that change, an abort is thrown
  and makes none.
\<close>

definition refines :: "unit result \<times> idb \<Rightarrow> idb \<Rightarrow> replica \<Rightarrow> bool" where
  "refines run db v \<longleftrightarrow> idb_inv (snd run) \<and> idb_view (snd run) = (if commits db then v else idb_view db) \<and>
     (fst run = Inr () \<longleftrightarrow> commits db)"

lemma refinesI:
  assumes "\<And>u db'. run = (Inr u, db') \<Longrightarrow> idb_inv db' \<and> idb_view db' = v"
    "\<And>e db'. run = (Inl e, db') \<Longrightarrow> idb_inv db' \<and> idb_view db' = idb_view db"
    "fst run = Inr () \<longleftrightarrow> commits db"
  shows "refines run db v"
proof (cases run)
  case (Pair r db')
  then show ?thesis using assms by (cases r) (auto simp: refines_def)
qed

text \<open>C19. Every write of the IndexedDB adapter is one transaction that refines the abstract replica:
when it commits, the stored operations, cells, frontier, clock, key and peer records change
exactly as the storage contract says; when the browser aborts it, the call throws and nothing
has changed.\<close>

theorem idb_writes_refine:
  assumes "idb_inv db" "batch_ok (idb_view db) b" "compact_ok w" "js_frontier f"
  shows "refines (idb_applyBatch b db) db (apply_spec b (idb_view db)) \<and>
    refines (idb_compact w db) db (compact_spec w (idb_view db)) \<and>
    refines (idb_setPeerFrontier d f db) db ((idb_view db)\<lparr>r_peers := (r_peers (idb_view db))(d \<mapsto> f)\<rparr>) \<and>
    refines (idb_setDeviceKey k db) db ((idb_view db)\<lparr>r_key := Some k\<rparr>)"
proof -
  have S: "applyBatch idb_adapter = idb_applyBatch" "compact_store idb_adapter = idb_compact"
    "setPeerFrontier idb_adapter = idb_setPeerFrontier" "setDeviceKey idb_adapter = idb_setDeviceKey"
    by (simp_all add: idb_adapter_def)
  note inv = assms(1) and res = transaction_result
  have "refines (idb_applyBatch b db) db (apply_spec b (idb_view db))"
    by (rule refinesI[OF idb.applyBatch_ok[OF inv assms(2), unfolded S] idb.applyBatch_err[OF inv, unfolded S]])
      (simp_all add: idb_applyBatch_def res)
  moreover have "refines (idb_compact w db) db (compact_spec w (idb_view db))"
    by (rule refinesI[OF idb.compact_ok[OF inv assms(3), unfolded S] idb.compact_err[OF inv, unfolded S]])
      (simp_all add: idb_compact_def res)
  moreover have "refines (idb_setPeerFrontier d f db) db ((idb_view db)\<lparr>r_peers := (r_peers (idb_view db))(d \<mapsto> f)\<rparr>)"
    by (rule refinesI[OF idb.setPeerFrontier_ok[OF inv assms(4), unfolded S] idb.setPeerFrontier_err[OF inv, unfolded S]])
      (simp_all add: idb_setPeerFrontier_def write_peer_def bind_act_eq gets_def res)
  moreover have "refines (idb_setDeviceKey k db) db ((idb_view db)\<lparr>r_key := Some k\<rparr>)"
    by (rule refinesI[OF idb.setDeviceKey_ok[OF inv, unfolded S] idb.setDeviceKey_err[OF inv, unfolded S]])
      (simp_all add: idb_setDeviceKey_def res)
  ultimately show ?thesis by blast
qed

text \<open>A batch with one operation.\<close>

definition sample_write :: "op \<Rightarrow> batch" where
  "sample_write p = \<lparr>b_ops = [p], b_winners = [(op_key p, p)], b_frontier = advanceFrontier [] p,
     b_clock = \<lparr>cs_millis = 1, cs_counter = 0\<rparr>\<rparr>"

lemma new_idb_inv: "idb_inv (new_idb vs)"
  by (simp add: idb_inv_def new_idb_def idb_getPeerFrontiers_def)

lemma new_idb_view: "idb_view (new_idb vs) = mem_view new_memory"
  by (simp add: idb_view_def new_idb_def idb_getFrontier_def idb_getPeerFrontiers_def new_memory_view fun_eq_iff)

lemma sample_write_ok: "batch_ok (mem_view new_memory) (sample_write op_one)"
proof -
  have "valid_op op_one" using sample_ops by blast
  moreover have "is_json (o_value op_one)" by (simp add: op_one_def sample_op_def)
  moreover have "ascii (o_sig op_one)" using sample_ops verified_ascii by blast
  ultimately have sto: "storable op_one" by (rule valid_storable)
  then have "js_frontier (advanceFrontier [] op_one)"
    by (intro plain_js_frontier plain_advance) (simp_all add: storable_def)
  with sto show ?thesis by (simp add: batch_ok_def sample_write_def new_memory_view safe_clock_def)
qed

theorem idb_writes_refine_witness:
  "r_log (idb_view (snd (idb_applyBatch (sample_write op_one) (new_idb [])))) (o_id op_one) = Some op_one \<and>
   r_log (idb_view (snd (idb_applyBatch (sample_write op_one) (new_idb [Some (Error (js ''QuotaExceededError''))])))) (o_id op_one) = None"
proof -
  have ok: "batch_ok (idb_view (new_idb vs)) (sample_write op_one)" for vs
    using sample_write_ok by (simp add: new_idb_view)
  have w: "compact_ok \<lparr>w_opIds = [], w_cellKeys = []\<rparr>" by (simp add: compact_ok_def)
  note R = idb_writes_refine[OF new_idb_inv ok w plain_js_frontier[OF plain_frontier_Nil]]
  have "refines (idb_applyBatch (sample_write op_one) (new_idb vs)) (new_idb vs)
      (apply_spec (sample_write op_one) (idb_view (new_idb vs)))" for vs
    using R by blast
  then have "r_log (idb_view (snd (idb_applyBatch (sample_write op_one) (new_idb vs)))) (o_id op_one) =
      (if commits (new_idb vs) then Some op_one else None)" for vs
    by (simp add: refines_def new_idb_view new_memory_view apply_spec_def sample_write_def ops_map_def)
  moreover have "commits (new_idb [])" "\<not> commits (new_idb [Some e])" for e
    by (simp_all add: commits_def new_idb_def)
  ultimately show ?thesis by simp
qed

section \<open>Reads\<close>

lemma sorted_ops_unique:
  assumes "sorted_ops ps A" "sorted_ops qs A" "inj_on o_hlc A"
  shows "ps = qs"
proof -
  have "distinct (map o_hlc ps)" "distinct (map o_hlc qs)" "set (map o_hlc ps) = set (map o_hlc qs)"
    using assms by (auto simp: sorted_ops_def distinct_map)
  then have "map o_hlc ps = map o_hlc qs"
    using assms(1,2) by (intro sorted_distinct_set_unique) (auto simp: sorted_ops_def)
  then show ?thesis using assms by (intro map_inj_on[of o_hlc]) (auto simp: sorted_ops_def)
qed

lemma mem_log_hlc_inj:
  assumes "mem_inv m" shows "inj_on o_hlc (ran (r_log (mem_view m)))"
proof (rule inj_onI)
  fix p q assume pq: "p \<in> ran (r_log (mem_view m))" "q \<in> ran (r_log (mem_view m))" "o_hlc p = o_hlc q"
  then obtain i j where "r_log (mem_view m) i = Some p" "r_log (mem_view m) j = Some q" by (auto simp: ran_def)
  moreover from this have "o_hlc p = i" "o_hlc q = j"
    using mem.log_storable[OF assms] unfolding storable_def by metis+
  ultimately show "p = q" using pq(3) by simp
qed

text \<open>C20. The two layouts answer alike. An IndexedDB database and a memory store that hold the same
replica give the same result of every read: the same operations in the same order, the same
winners and rows, though one finds them by cursors over composite string keys and the other in
nested maps.\<close>

theorem idb_reads_agree:
  assumes inv: "idb_inv db" "mem_inv m" and same: "idb_view db = mem_view m"
  shows "idb_hasOp db i = mem_hasOp m i \<and> idb_getWinner db t r c = mem_getWinner m t r c \<and>
    idb_opsSince db f = mem_opsSince m f \<and> idb_allOps db = mem_allOps m \<and> idb_opCount db = length (opsById m) \<and>
    rel_option (\<lambda>x y. map_of x = map_of y) (idb_getRow db t r) (mem_getRow m t r) \<and>
    (no_sep t \<longrightarrow> set (idb_listRows db t) = set (mem_listRows m t)) \<and>
    set (idb_listTables db) = set (mem_listTables m)"
proof -
  note wf = mem_log_hlc_inj[OF inv(2)]
  note I = idb_adapter_def memory_adapter_def
  have "idb_hasOp db i = mem_hasOp m i" "idb_getWinner db t r c = mem_getWinner m t r c"
    "idb_opCount db = length (opsById m)"
    using idb.hasOp[OF inv(1)] mem.hasOp[OF inv(2)] idb.getWinner[OF inv(1)] mem.getWinner[OF inv(2)]
      idb.opCount[OF inv(1)] mem.opCount[OF inv(2)] by (simp_all add: I same)
  moreover have "idb_opsSince db f = mem_opsSince m f"
    using idb.opsSince[OF inv(1), of f] mem.opsSince[OF inv(2), of f]
    by (intro sorted_ops_unique[OF _ _ inj_on_subset[OF wf]]) (auto simp: I same)
  moreover have "idb_allOps db = mem_allOps m"
    using idb.allOps[OF inv(1)] mem.allOps[OF inv(2)] by (intro sorted_ops_unique[OF _ _ wf]) (simp_all add: I same)
  moreover have "rel_option (\<lambda>x y. map_of x = map_of y) (idb_getRow db t r) (mem_getRow m t r)"
    using idb.getRow_None[OF inv(1), of t r] mem.getRow_None[OF inv(2), of t r]
      idb.getRow_Some[OF inv(1), of t r] mem.getRow_Some[OF inv(2), of t r]
    by (cases "idb_getRow db t r"; cases "mem_getRow m t r") (simp_all add: I same)
  moreover have "no_sep t \<longrightarrow> set (idb_listRows db t) = set (mem_listRows m t)"
    using idb.listRows[OF inv(1)] mem.listRows[OF inv(2)] by (simp add: I same)
  moreover have "set (idb_listTables db) = set (mem_listTables m)"
    using idb.listTables[OF inv(1)] mem.listTables[OF inv(2)] by (simp add: I same)
  ultimately show ?thesis by blast
qed

theorem idb_reads_agree_witness:
  "idb_getWinner (snd (idb_applyBatch (sample_write op_one) (new_idb []))) (js ''t'') (replicate 26 48) (js ''a'') =
     mem_getWinner (snd (mem_applyBatch (sample_write op_one) new_memory)) (js ''t'') (replicate 26 48) (js ''a'')"
proof -
  have ok: "batch_ok (idb_view (new_idb [])) (sample_write op_one)" using sample_write_ok by (simp add: new_idb_view)
  have run: "idb_applyBatch (sample_write op_one) (new_idb []) = (Inr (), snd (idb_applyBatch (sample_write op_one) (new_idb [])))"
    by (simp add: idb_applyBatch_def transaction_def new_idb_def)
  note L = idb_applyBatch_spec[OF new_idb_inv ok run]
  note R = mem_applyBatch_spec[OF new_memory_inv sample_write_ok]
  show ?thesis using idb_reads_agree[of "snd (idb_applyBatch (sample_write op_one) (new_idb []))"
      "snd (mem_applyBatch (sample_write op_one) new_memory)"] L R by (simp add: new_idb_view)
qed

section \<open>Engines over the two adapters\<close>

abbreviation idb_reachable :: "crypto \<Rightarrow> cipher option \<Rightarrow> idb engine \<Rightarrow> bool" where
  "idb_reachable C K e \<equiv> \<exists>vs. reachable idb_adapter C K (new_idb vs) e"

lemma idb_reachable_good: "idb_reachable C K e \<Longrightarrow> idb.good C e"
  using idb.reachable_good[OF _ new_idb_inv] new_memory_ok by (auto simp: new_idb_view)

text \<open>C23. Replicas over different storage converge. When an engine over the memory adapter and an
engine over IndexedDB run \<open>syncOnce\<close> to its end, and neither has a gap below its frontier that
the other could fill, then both hold the operations of both and show the same state.\<close>

theorem sync_across_adapters:
  assumes "mem_reachable C K a" "idb_reachable C K b"
    and run: "syncOnce memory_adapter idb_adapter C pta ptb (a, b) = (Inr u, (a', b'))"
    and inj: "inj_on o_id (mem.logged a \<union> idb.logged b)"
    and gapless: "\<forall>p \<in> idb.logged b. aboveFrontier p (mem.seen a) \<or> p \<in> mem.logged a"
      "\<forall>p \<in> mem.logged a. aboveFrontier p (idb.seen b) \<or> p \<in> idb.logged b"
  shows "mem.logged a' = mem.logged a \<union> idb.logged b \<and> r_log (mem_view (e_store a')) = r_log (idb_view (e_store b')) \<and>
    same_result same_state (dump memory_adapter K a') (dump idb_adapter K b')"
proof -
  have good: "mem.good C a" "idb.good C b"
    using mem_reachable_good[OF assms(1)] idb_reachable_good[OF assms(2)] by blast+
  from mem_idb.syncOnce_same[OF good run inj] gapless show ?thesis by blast
qed

text \<open>A fresh engine over IndexedDB.\<close>

definition idb_engine :: "byte \<Rightarrow> idb engine" where
  "idb_engine b = \<lparr>e_store = (new_idb [])\<lparr>i_deviceKey := Some (sample_key b)\<rparr>, e_clock = e_clock (sample_engine b),
     e_keys = e_keys (sample_engine b), e_deviceKey = sample_key b, e_events = []\<rparr>"

lemma idb_engine_reachable: "reachable idb_adapter sample_crypto K (new_idb []) (idb_engine b)"
proof (rule reachable.start)
  have "isValidDeviceId (deviceIdFromPublicKey sample_crypto (publicKey (sample_key b)))"
    using deviceId_shape[of sample_crypto] sample_crypto_key[of b]
    by (simp add: isValidDeviceId_def crypto_key_def)
  then show "open_engine idb_adapter sample_crypto (sample_key b) (new_idb []) =
      (Inr (idb_engine b), (new_idb [])\<lparr>i_deviceKey := Some (sample_key b)\<rparr>)"
    by (simp add: open_engine_def idb_adapter_def new_idb_def idb_setDeviceKey_def bind_act_eq transaction_def
        open_with_def new_clock_def checkBounds_def Let_def sample_engine_def idb_engine_def)
qed (simp add: idb_engine_def sample_crypto_key)

lemma idb_engine_view: "r_log (idb_view (e_store (idb_engine b))) = Map.empty" "r_front (idb_view (e_store (idb_engine b))) = []"
  by (simp_all add: idb_engine_def idb_view_def new_idb_def idb_getFrontier_def fun_eq_iff)

lemma mem_record_total: "\<exists>e'. recordPeerFrontier memory_adapter d f e = (Inr (), e')"
  by (simp add: recordPeerFrontier_def on_store_def memory_adapter_def mem_setPeerFrontier_def modify_def)

lemma idb_record_total:
  assumes "verdicts (e_store e) = []"
  shows "\<exists>e'. recordPeerFrontier idb_adapter d f e = (Inr (), e')"
  using assms
  by (simp add: recordPeerFrontier_def on_store_def idb_adapter_def idb_setPeerFrontier_def write_peer_def
      bind_act_eq gets_def transaction_def)

lemma syncOnce_runs:
  assumes "meet_keys C (a, b) = (a0, b0)"
    "engine_opsSince S (engine_frontier T b0) a0 = p # ps" "engine_opsSince T (engine_frontier S a0) b0 = []"
    "applyRemoteOps T C ptb (map op_to_js (p # ps)) b0 = (Inr n, b1)"
    "recordPeerFrontier S (e_deviceId b1) (engine_frontier T b1) a0 = (Inr (), a')"
    "recordPeerFrontier T (e_deviceId a') (engine_frontier S a') b1 = (Inr (), b')"
  shows "syncOnce S T C pta ptb (a, b) = (Inr (), (a', b'))"
  using assms by (simp add: syncOnce_def bind_act_eq modify_def on_fst_def on_snd_def ret_def)

lemma singleton_list: "set xs = {x} \<Longrightarrow> distinct xs \<Longrightarrow> xs = [x]"
  by (cases xs; cases "tl xs") auto

text \<open>A memory engine that holds one operation meets a fresh engine over IndexedDB.\<close>

lemma sample_sync:
  obtains a a' b' where "mem_reachable sample_crypto None a" "mem.logged a = {op_one}"
    "syncOnce memory_adapter idb_adapter sample_crypto 1000 1000 (a, idb_engine 9) = (Inr (), (a', b'))"
proof -
  let ?d = "\<lambda>b. deviceIdFromPublicKey sample_crypto (publicKey (sample_key b))"
  obtain a where a: "mem_reachable sample_crypto None a" "mem.logged a = {op_one}"
    "e_keys a = e_keys (meeting 7 5)" by (rule sample_apply_single[of op_one 7]) auto
  obtain a0 b0 where m: "meet_keys sample_crypto (a, idb_engine 9) = (a0, b0)" by fastforce
  then have b0: "b0 = learn_all sample_crypto (e_keys a) (idb_engine 9)" and a0: "a0 = learn_all sample_crypto (e_keys b0) a"
    by (auto simp: meet_keys_def Let_def)
  have ga: "mem.good sample_crypto a" using mem_reachable_good[OF a(1)] by blast
  have gb: "idb.good sample_crypto (idb_engine 9)" using idb_reachable_good idb_engine_reachable by blast
  have A: "mem.good sample_crypto a0" "e_store a0 = e_store a" using mem.learn_all_good[OF ga] by (simp_all add: a0)
  have B: "idb.good sample_crypto b0" "e_store b0 = e_store (idb_engine 9)" "e_clock b0 = e_clock (idb_engine 9)"
    using idb.learn_all_good[OF gb] by (simp_all add: b0)
  have fb: "engine_frontier idb_adapter b0 = []"
    by (simp add: engine_frontier_def B(2) idb_engine_def idb_adapter_def idb_getFrontier_def new_idb_def)
  have inv: "mem_inv (e_store a0)" "idb_inv (e_store b0)" using A(1) B(1) by (simp_all add: mem.good_def idb.good_def)
  have ops: "engine_opsSince memory_adapter [] a0 = [op_one]"
    using mem.opsSince[OF inv(1), of "[]"] a(2)
    by (intro singleton_list) (auto simp: engine_opsSince_def sorted_ops_def A(2) aboveFrontier_def)
  have none: "engine_opsSince idb_adapter f b0 = []" for f
    using idb.opsSince[OF inv(2), of f] by (simp add: engine_opsSince_def sorted_ops_def B(2) idb_engine_view)
  have keys: "map_of (e_keys b0) (?d 5) = Some (publicKey (sample_key 5))"
    using sample_devices_differ[of 7 5]
    by (simp add: b0 a(3) learn_all_def meeting_def learnKey_def sample_engine_def Let_def)
  have sub: "set [op_one] \<subseteq> {op_one, op_two}" by simp
  have clk: "c_millis (e_clock b0) \<le> 1000000" by (simp add: B(3) idb_engine_def sample_clock_zero)
  have v: "verdicts (e_store b0) = []" by (simp add: B(2) idb_engine_def new_idb_def)
  have dec: "\<forall>p \<in> set [op_one]. \<exists>h. decodeHlc (o_hlc p) = Inr h \<and> millis h < MAX_MILLIS \<and> millis h \<le> 1000 + MAX_DRIFT_MS"
    using sample_ops by simp
  obtain n b1 where b1: "applyRemoteOps idb_adapter sample_crypto 1000 (map op_to_js [op_one]) b0 = (Inr n, b1)"
    "verdicts (e_store b1) = []"
    using idb_accepts.apply_total[OF v sample_admitted[OF sub _ keys] MAX_MILLIS_large[OF clk] MAX_MILLIS_large dec] by auto
  obtain a' where a': "recordPeerFrontier memory_adapter (e_deviceId b1) (engine_frontier idb_adapter b1) a0 = (Inr (), a')"
    using mem_record_total by blast
  obtain b' where b': "recordPeerFrontier idb_adapter (e_deviceId a') (engine_frontier memory_adapter a') b1 = (Inr (), b')"
    using idb_record_total[OF b1(2)] by blast
  have "syncOnce memory_adapter idb_adapter sample_crypto 1000 1000 (a, idb_engine 9) = (Inr (), (a', b'))"
    by (rule syncOnce_runs[OF m _ none b1(1) a' b']) (simp add: fb ops)
  with a show ?thesis by (intro that)
qed

theorem sync_across_adapters_witness:
  "\<exists>a a' b'. syncOnce memory_adapter idb_adapter sample_crypto 1000 1000 (a, idb_engine 9) = (Inr (), (a', b')) \<and>
     mem.logged a' = {op_one} \<and> same_result same_state (dump memory_adapter None a') (dump idb_adapter None b')"
proof -
  obtain a a' b' where a: "mem_reachable sample_crypto None a" "mem.logged a = {op_one}"
    "syncOnce memory_adapter idb_adapter sample_crypto 1000 1000 (a, idb_engine 9) = (Inr (), (a', b'))"
    by (rule sample_sync)
  have b: "idb_reachable sample_crypto None (idb_engine 9)" using idb_engine_reachable by blast
  have "idb.logged (idb_engine 9) = {}" "idb.seen (idb_engine 9) = []" by (simp_all add: idb_engine_view)
  with a(2) sync_across_adapters[OF a(1) b a(3)] a(3) show ?thesis by (force simp: aboveFrontier_def)
qed

section \<open>The record of a peer's frontier\<close>

text \<open>C24. \<open>setPeerFrontier\<close> reads the record in one transaction and writes it in another. When the
records of two peers interleave, the later write restores what the earlier one replaced: the
record of the other peer is lost although its call returned, and a peer without a record no
longer holds compaction back.\<close>

theorem peer_record_lost:
  assumes "idb_inv db" "verdicts db = []" "p \<noteq> q" "map_of (idb_getPeerFrontiers db) q = None"
    and other: "idb_setPeerFrontier q g db = (Inr (), db1)"
    and late: "write_peer p f (idb_getPeerFrontiers db) db1 = (Inr (), db2)"
  shows "map_of (idb_getPeerFrontiers db1) q = Some g \<and> map_of (idb_getPeerFrontiers db2) q = None \<and>
    map_of (idb_getPeerFrontiers db2) p = Some f \<and>
    q \<notin> set (blockingPeers (idb_getFrontier db2) (idb_getPeerFrontiers db2))"
proof -
  have v: "verdicts db1 = []" and 1: "map_of (idb_getPeerFrontiers db1) q = Some g"
    using other assms(2)
    by (auto simp: idb_setPeerFrontier_def write_peer_def bind_act_eq gets_def transaction_def idb_getPeerFrontiers_def)
  have peers: "idb_getPeerFrontiers db2 = map_set p f (idb_getPeerFrontiers db)"
    using late v by (auto simp: write_peer_def transaction_def idb_getPeerFrontiers_def)
  have none: "map_of (idb_getPeerFrontiers db2) q = None" using assms(3,4) by (simp add: peers)
  then have "q \<notin> fst ` set (idb_getPeerFrontiers db2)" by (simp add: map_of_eq_None_iff)
  then have "q \<notin> set (blockingPeers (idb_getFrontier db2) (idb_getPeerFrontiers db2))"
    by (auto simp: blockingPeers_def)
  with 1 none show ?thesis by (simp add: peers)
qed

theorem peer_record_lost_witness:
  "map_of (idb_getPeerFrontiers (snd (write_peer [1] [] (idb_getPeerFrontiers (new_idb []))
     (snd (idb_setPeerFrontier [2] [] (new_idb [])))))) [2] = None"
proof -
  obtain db1 where 1: "idb_setPeerFrontier [2] [] (new_idb []) = (Inr (), db1)"
    and v: "verdicts db1 = []"
    by (simp add: idb_setPeerFrontier_def write_peer_def bind_act_eq gets_def transaction_def new_idb_def)
  obtain db2 where 2: "write_peer [1] [] (idb_getPeerFrontiers (new_idb [])) db1 = (Inr (), db2)"
    using v by (simp add: write_peer_def transaction_def)
  have "map_of (idb_getPeerFrontiers (new_idb [])) [2] = None" "verdicts (new_idb []) = []"
    by (simp_all add: new_idb_def idb_getPeerFrontiers_def)
  from peer_record_lost[OF new_idb_inv this(2) _ this(1) 1 2] 1 2 show ?thesis by simp
qed

end
