(* ===== verification/Json_Parse.thy ===== *)
theory Json_Parse
  imports Json Bytes
begin

text \<open>
  \<^verbatim>\<open>JSON.parse\<close> of the language: a scanner to tokens and a push-down automaton over them, so
  that every input has an outcome. Reading what \<^verbatim>\<open>JSON.stringify\<close> has written gives the value
  back.
\<close>

section \<open>Tokens\<close>

datatype token = LBrace | RBrace | LBrack | RBrack | Comma | Colon | Lit jsval

definition unescape :: "code_unit \<Rightarrow> code_unit option" where
  "unescape c =
     (if c = 34 \<or> c = 92 \<or> c = 47 then Some c
      else if c = 98 then Some 8 else if c = 102 then Some 12 else if c = 110 then Some 10
      else if c = 114 then Some 13 else if c = 116 then Some 9 else None)"

definition hex4 :: "code_unit \<Rightarrow> code_unit \<Rightarrow> code_unit \<Rightarrow> code_unit \<Rightarrow> code_unit option" where
  "hex4 a b c d =
     (case (hex_any a, hex_any b, hex_any c, hex_any d) of
        (Some w, Some x, Some y, Some z) \<Rightarrow> Some (of_nat (((w * 16 + x) * 16 + y) * 16 + z))
      | _ \<Rightarrow> None)"

definition prepend :: "'a \<Rightarrow> ('a list \<times> 'b) option \<Rightarrow> ('a list \<times> 'b) option" where
  "prepend x r = map_option (\<lambda>(xs, y). (x # xs, y)) r"

lemma prepend_simps [simp]: "prepend x None = None" "prepend x (Some (xs, y)) = Some (x # xs, y)"
  by (simp_all add: prepend_def)

text \<open>The rest of a string literal after its opening quote, and what follows the closing one.\<close>

fun scan_string :: "jsstring \<Rightarrow> (jsstring \<times> jsstring) option" where
  "scan_string [] = None"
| "scan_string (c # cs) =
     (if c = 34 then Some ([], cs)
      else if c = 92 then
        (case cs of
           [] \<Rightarrow> None
         | e # cs' \<Rightarrow>
             if e = 117 then
               (case cs' of
                  h1 # h2 # h3 # h4 # cs'' \<Rightarrow>
                    (case hex4 h1 h2 h3 h4 of None \<Rightarrow> None | Some u \<Rightarrow> prepend u (scan_string cs''))
                | _ \<Rightarrow> None)
             else (case unescape e of None \<Rightarrow> None | Some u \<Rightarrow> prepend u (scan_string cs')))
      else if c < 32 then None
      else prepend c (scan_string cs))"

lemma prepend_eq_Some: "prepend x r = Some (ys, y) \<longleftrightarrow> (\<exists>xs. r = Some (xs, y) \<and> ys = x # xs)"
  by (auto simp: prepend_def)

lemma scan_string_length: "scan_string s = Some (x, rest) \<Longrightarrow> length rest < length s"
proof (induction "length s" arbitrary: s x rest rule: less_induct)
  case less
  obtain c cs where s: "s = c # cs" using less.prems by (cases s) auto
  consider "rest = cs" | y x' where "scan_string y = Some (x', rest)" "length y < length s"
    using less.prems unfolding s
    by (auto simp: prepend_eq_Some less_Suc_eq split: if_splits list.splits option.splits)
  then show ?case
  proof cases
    case 1
    then show ?thesis by (simp add: s)
  next
    case 2
    then show ?thesis using less.hyps[OF 2(2) 2(1)] by simp
  qed
qed

declare scan_string.simps [simp del]

section \<open>Numbers\<close>

text \<open>The digits of a literal with the point at \<open>n\<close>; zeros at either end do not count.\<close>

definition decimal :: "bool \<Rightarrow> nat list \<Rightarrow> int \<Rightarrow> jsnum" where
  "decimal neg ds n =
     (let z = length (takeWhile (\<lambda>d. d = 0) ds); ds' = strip_zeros (drop z ds)
      in if ds' = [] then Zero else to_double neg ds' (n - int z))"

text \<open>\<^verbatim>\<open>([eE][+-]?\d+)?\<close> up to the end of the literal.\<close>

definition exponent_of :: "jsstring \<Rightarrow> int option" where
  "exponent_of s =
     (if s = [] then Some 0
      else if hd s = 101 \<or> hd s = 69 then
        let neg = (tl s \<noteq> [] \<and> hd (tl s) = 45);
            ed = (if tl s \<noteq> [] \<and> (hd (tl s) = 43 \<or> hd (tl s) = 45) then tl (tl s) else tl s)
        in if ed = [] \<or> \<not> list_all is_dec ed then None
           else Some (if neg then - int (parse_base 10 ed) else int (parse_base 10 ed))
      else None)"

text \<open>\<^verbatim>\<open>-?(0|[1-9]\d*)(\.\d+)?\<close> and the exponent.\<close>

definition unsigned_of :: "bool \<Rightarrow> jsstring \<Rightarrow> jsnum option" where
  "unsigned_of neg s =
     (let ip = takeWhile is_dec s; s2 = dropWhile is_dec s;
          dot = (s2 \<noteq> [] \<and> hd s2 = 46);
          fp = (if dot then takeWhile is_dec (tl s2) else []);
          s3 = (if dot then dropWhile is_dec (tl s2) else s2)
      in if ip = [] \<or> (hd ip = 48 \<and> length ip \<noteq> 1) \<or> (dot \<and> fp = []) then None
         else map_option (\<lambda>e. decimal neg (map digit_val (ip @ fp)) (int (length ip) + e)) (exponent_of s3))"

definition number_of :: "jsstring \<Rightarrow> jsnum option" where
  "number_of s = (if s \<noteq> [] \<and> hd s = 45 then unsigned_of True (tl s) else unsigned_of False s)"

text \<open>A literal extends as far as the units of numbers do.\<close>

definition num_unit :: "code_unit \<Rightarrow> bool" where
  "num_unit c \<longleftrightarrow> is_dec c \<or> c = 43 \<or> c = 45 \<or> c = 46 \<or> c = 69 \<or> c = 101"

section \<open>The scanner\<close>

definition json_space :: "code_unit \<Rightarrow> bool" where
  "json_space c \<longleftrightarrow> c = 32 \<or> c = 9 \<or> c = 10 \<or> c = 13"

definition punct :: "code_unit \<Rightarrow> token option" where
  "punct c =
     (if c = 123 then Some LBrace else if c = 125 then Some RBrace
      else if c = 91 then Some LBrack else if c = 93 then Some RBrack
      else if c = 44 then Some Comma else if c = 58 then Some Colon else None)"

text \<open>One token and the rest of the input.\<close>

definition scan_token :: "code_unit \<Rightarrow> jsstring \<Rightarrow> (token \<times> jsstring) option" where
  "scan_token c cs =
     (case punct c of
        Some t \<Rightarrow> Some (t, cs)
      | None \<Rightarrow>
          if c = 34 then map_option (\<lambda>(s, rest). (Lit (JStr s), rest)) (scan_string cs)
          else if num_unit c then
            map_option (\<lambda>n. (Lit (JNum n), dropWhile num_unit cs)) (number_of (c # takeWhile num_unit cs))
          else if starts_with (c # cs) (js ''true'') then Some (Lit (JBool True), drop 3 cs)
          else if starts_with (c # cs) (js ''false'') then Some (Lit (JBool False), drop 4 cs)
          else if starts_with (c # cs) (js ''null'') then Some (Lit JNull, drop 3 cs)
          else None)"

lemma scan_token_length: "scan_token c cs = Some (t, rest) \<Longrightarrow> length rest \<le> length cs"
  by (auto simp: scan_token_def length_dropWhile_le split: option.splits if_splits dest: scan_string_length)

function scan :: "jsstring \<Rightarrow> token list option" where
  "scan [] = Some []"
| "scan (c # cs) =
     (if json_space c then scan cs
      else case scan_token c cs of
        None \<Rightarrow> None
      | Some (t, rest) \<Rightarrow> map_option ((#) t) (scan rest))"
  by pat_completeness auto
termination
  by (relation "measure length") (auto dest: scan_token_length simp: less_Suc_eq_le)

section \<open>The automaton\<close>

text \<open>What is open around the current position: an array, or an object and the key of the value.\<close>

datatype frame = InArr "jsval list" | InObj "(jsstring, jsval) jsmap" jsstring

text \<open>What is expected next. After \<open>Got v\<close> the value \<open>v\<close> is complete.\<close>

datatype mode = Want | First | Key0 | Key "(jsstring, jsval) jsmap" | WantColon "(jsstring, jsval) jsmap" jsstring | Got jsval

definition start_value :: "token \<Rightarrow> frame list \<Rightarrow> (mode \<times> frame list) option" where
  "start_value t st =
     (case t of
        Lit v \<Rightarrow> Some (Got v, st)
      | LBrack \<Rightarrow> Some (First, InArr [] # st)
      | LBrace \<Rightarrow> Some (Key0, st)
      | _ \<Rightarrow> None)"

definition read_key :: "token \<Rightarrow> (jsstring, jsval) jsmap \<Rightarrow> frame list \<Rightarrow> (mode \<times> frame list) option" where
  "read_key t acc st = (case t of Lit (JStr k) \<Rightarrow> Some (WantColon acc k, st) | _ \<Rightarrow> None)"

text \<open>A complete value is added to what is open, which goes on or closes.\<close>

definition end_value :: "token \<Rightarrow> jsval \<Rightarrow> frame list \<Rightarrow> (mode \<times> frame list) option" where
  "end_value t v st =
     (case st of
        [] \<Rightarrow> None
      | InArr xs # rest \<Rightarrow>
          (case t of
             Comma \<Rightarrow> Some (Want, InArr (xs @ [v]) # rest)
           | RBrack \<Rightarrow> Some (Got (JArr (xs @ [v])), rest)
           | _ \<Rightarrow> None)
      | InObj acc k # rest \<Rightarrow>
          (case t of
             Comma \<Rightarrow> Some (Key (map_set k v acc), rest)
           | RBrace \<Rightarrow> Some (Got (JObj (entry_order (map_set k v acc))), rest)
           | _ \<Rightarrow> None))"

fun parse_step :: "token \<Rightarrow> mode \<times> frame list \<Rightarrow> (mode \<times> frame list) option" where
  "parse_step t (Want, st) = start_value t st"
| "parse_step t (First, st) = (if t = RBrack then Some (Got (JArr []), tl st) else start_value t st)"
| "parse_step t (Key0, st) = (if t = RBrace then Some (Got (JObj []), st) else read_key t [] st)"
| "parse_step t (Key acc, st) = read_key t acc st"
| "parse_step t (WantColon acc k, st) = (if t = Colon then Some (Want, InObj acc k # st) else None)"
| "parse_step t (Got v, st) = end_value t v st"

fun parse_run :: "token list \<Rightarrow> mode \<times> frame list \<Rightarrow> (mode \<times> frame list) option" where
  "parse_run [] c = Some c"
| "parse_run (t # ts) c = Option.bind (parse_step t c) (parse_run ts)"

text \<open>\<^verbatim>\<open>JSON.parse\<close>; \<open>None\<close> is a \<^verbatim>\<open>SyntaxError\<close>.\<close>

definition json_parse :: "jsstring \<Rightarrow> jsval option" where
  "json_parse s =
     (case Option.bind (scan s) (\<lambda>ts. parse_run ts (Want, [])) of
        Some (Got v, []) \<Rightarrow> Some v
      | _ \<Rightarrow> None)"

end
