(* ===== verification/Json_Roundtrip.thy ===== *)
theory Json_Roundtrip
  imports Json_Parse
begin

text \<open>
  \<^verbatim>\<open>JSON.parse\<close> after \<^verbatim>\<open>JSON.stringify\<close>: the scanner reads back the tokens a value is written
  as, and the automaton reads the tokens back to the value, whatever is open around it.
\<close>

section \<open>Strings\<close>

lemma hex4_digits:
  "hex4 (digit_char a) (digit_char b) (digit_char c) (digit_char d) =
     Some (of_nat (((a * 16 + b) * 16 + c) * 16 + d))"
  if "a < 16" "b < 16" "c < 16" "d < 16"
  using that by (simp add: hex4_def hex_any_digit_char)

lemma digits_four: "digits 16 4 m = [m div 4096 mod 16, m div 256 mod 16, m div 16 mod 16, m mod 16]"
proof -
  have "digits 16 4 m = digits 16 (Suc (Suc (Suc (Suc 0)))) m"
    using arg_cong[where f = "\<lambda>k. digits 16 k m", of 4 "Suc (Suc (Suc (Suc 0)))"] by simp
  also have "\<dots> = [m div 16 ^ 3 mod 16, m div 16 ^ 2 mod 16, m div 16 mod 16, m mod 16]"
    by (simp only: digits_top digits.simps(1)) simp
  finally show ?thesis by simp
qed

lemma hex4_pad:
  "\<exists>a b c d. pad_start 4 48 (to_base 16 (unat u)) = [a, b, c, d] \<and> hex4 a b c d = Some (u :: code_unit)"
proof -
  define m where "m = unat u"
  have m: "m < 16 ^ 4" using unsigned_less[of u, where ?'a = nat] by (simp add: m_def)
  have p: "pad_start 4 48 (to_base 16 m) = map digit_char (digits 16 4 m)"
    using m by (intro pad_start_to_base) auto
  have "undigits 16 (digits 16 4 m) = m" using m by (simp only: undigits_digits mod_less)
  then have "((m div 4096 mod 16 * 16 + m div 256 mod 16) * 16 + m div 16 mod 16) * 16 + m mod 16 = m"
    by (simp only: digits_four undigits_def foldl.simps mult_0 add_0)
  moreover have "of_nat m = u" by (simp add: m_def)
  ultimately have "of_nat (((m div 4096 mod 16 * 16 + m div 256 mod 16) * 16 + m div 16 mod 16) * 16 + m mod 16) = u"
    by (simp only:)
  then have "hex4 (digit_char (m div 4096 mod 16)) (digit_char (m div 256 mod 16)) (digit_char (m div 16 mod 16))
      (digit_char (m mod 16)) = Some u"
    using hex4_digits[of "m div 4096 mod 16" "m div 256 mod 16" "m div 16 mod 16" "m mod 16"] by (simp only: mod_less_divisor zero_less_numeral)
  then show ?thesis using p unfolding digits_four m_def[symmetric] by simp
qed

lemma scan_string_special [simp]:
  "scan_string (34 # cs) = Some ([], cs)"
  "e \<noteq> 117 \<Longrightarrow> scan_string (92 # e # cs) = (case unescape e of None \<Rightarrow> None | Some u \<Rightarrow> prepend u (scan_string cs))"
  by (simp_all add: scan_string.simps(2))

lemma scan_string_plain: "c \<noteq> 34 \<Longrightarrow> c \<noteq> 92 \<Longrightarrow> \<not> c < 32 \<Longrightarrow> scan_string (c # cs) = prepend c (scan_string cs)"
  by (simp add: scan_string.simps(2))

lemma scan_string_u:
  assumes "pad_start 4 48 (to_base 16 (unat (c :: code_unit))) = [h1, h2, h3, h4]" "hex4 h1 h2 h3 h4 = Some c"
  shows "scan_string (92 # 117 # h1 # h2 # h3 # h4 # cs) = prepend c (scan_string cs)"
  using assms by (simp add: scan_string.simps(2))

lemma scan_esc: "scan_string (esc_unit c @ cs) = prepend c (scan_string cs)"
proof -
  consider "c \<in> {8, 9, 10, 12, 13, 34, 92}" | "c \<notin> {8, 9, 10, 12, 13, 34, 92}" "c < 32 \<or> is_high c \<or> is_low c"
    | "c \<notin> {8, 9, 10, 12, 13, 34, 92}" "\<not> (c < 32 \<or> is_high c \<or> is_low c)" by blast
  then show ?thesis
  proof cases
    case 1
    then show ?thesis by (auto simp: esc_unit_def unescape_def)
  next
    case 2
    obtain h1 h2 h3 h4 where h: "pad_start 4 48 (to_base 16 (unat c)) = [h1, h2, h3, h4]" "hex4 h1 h2 h3 h4 = Some c"
      using hex4_pad[of c] by blast
    have "esc_unit c = [92, 117, h1, h2, h3, h4]" using 2 h(1) by (auto simp: esc_unit_def)
    then show ?thesis using scan_string_u[OF h] by simp
  next
    case 3
    then show ?thesis by (simp add: esc_unit_def scan_string_plain)
  qed
qed

lemma scan_quote: "scan_string (quote_body s @ 34 # rest) = Some (s, rest)"
proof (induction s rule: quote_body.induct)
  case (2 c)
  then show ?case by (simp add: scan_esc)
next
  case (3 c d cs)
  show ?case
  proof (cases "is_high c \<and> is_low d")
    case True
    have "scan_string (c # x) = prepend c (scan_string x)" "scan_string (d # x) = prepend d (scan_string x)" for x
      using True by (auto simp: is_high_def is_low_def word_less_nat_alt word_le_nat_alt intro!: scan_string_plain)
    with True 3 show ?thesis by simp
  next
    case False
    then have "quote_body (c # d # cs) = esc_unit c @ quote_body (d # cs)" by auto
    then show ?thesis using 3(2)[OF False] by (simp add: scan_esc del: quote_body.simps)
  qed
qed simp

section \<open>Numbers\<close>

lemma is_dec_digit [simp]: "d < 10 \<Longrightarrow> is_dec (digit_char d)"
  using unat_digit_char[of d] by (simp add: is_dec_def word_le_nat_alt)

lemma digit_zero: "d < 10 \<Longrightarrow> digit_char d = 48 \<longleftrightarrow> d = 0"
  using digit_char_inject[of d 0] by (simp add: digit_char_def[of 0])

lemma takeWhile_dec: "list_all (\<lambda>d. d < 10) ds \<Longrightarrow> (\<And>c r. rest = c # r \<Longrightarrow> \<not> is_dec c) \<Longrightarrow>
    takeWhile is_dec (map digit_char ds @ rest) = map digit_char ds \<and>
    dropWhile is_dec (map digit_char ds @ rest) = rest"
  by (induction ds) (cases rest; auto)+

lemma digit_vals: "list_all (\<lambda>d. d < 10) ds \<Longrightarrow> map digit_val (map digit_char ds) = ds"
  by (induction ds) auto

lemma strip_zeros_id: "ds \<noteq> [] \<Longrightarrow> last ds \<noteq> 0 \<Longrightarrow> strip_zeros (ds @ replicate k 0) = ds"
proof -
  assume ds: "ds \<noteq> []" "last ds \<noteq> 0"
  then have "dropWhile (\<lambda>c. c = 0) (rev ds) = rev ds" by (cases ds rule: rev_cases) auto
  moreover have "dropWhile (\<lambda>c. c = 0) (replicate k 0 @ xs) = dropWhile (\<lambda>c. c = 0) xs" for xs :: "nat list"
    by (induction k) auto
  ultimately show ?thesis by (simp add: strip_zeros_def)
qed

lemma decimal_padded:
  assumes "ds \<noteq> []" "hd ds \<noteq> 0" "last ds \<noteq> 0"
  shows "decimal neg (replicate j 0 @ ds @ replicate k 0) n = to_double neg ds (n - int j)"
proof -
  have "takeWhile (\<lambda>d. d = 0) (replicate j 0 @ ds @ replicate k 0) = replicate j 0"
    using assms(1,2) by (induction j) (cases ds; auto)+
  then show ?thesis using strip_zeros_id[OF assms(1,3), of k] assms(1) by (simp add: decimal_def Let_def)
qed

text \<open>The shape of a literal: integer part, fraction and exponent.\<close>

definition literal :: "bool \<Rightarrow> nat list \<Rightarrow> nat list \<Rightarrow> (bool \<times> nat) option \<Rightarrow> jsstring" where
  "literal neg ip fp ex = (if neg then [45] else []) @ map digit_char ip @
     (if fp = [] then [] else 46 # map digit_char fp) @
     (case ex of None \<Rightarrow> [] | Some (eneg, e) \<Rightarrow> 101 # (if eneg then 45 else 43) # to_base 10 e)"

lemma to_base_dec: "\<exists>ks. to_base 10 e = map digit_char ks \<and> ks \<noteq> [] \<and> list_all (\<lambda>d. d < 10) ks \<and> parse_base 10 (to_base 10 e) = e"
proof (cases "e = 0")
  case True
  have "to_base 10 0 = map digit_char [0]" by (simp add: to_base.simps[of 10 0])
  moreover have "parse_base 10 (map digit_char [0]) = 0" by (simp add: parse_base_def)
  ultimately show ?thesis unfolding True by (intro exI[of _ "[0]"]) simp
next
  case False
  then obtain k where k: "to_base 10 e = map digit_char (digits 10 k e)" "e < 10 ^ k" "0 < k"
    using to_base_digits[of 10 e] by auto
  have d: "\<forall>d \<in> set (digits 10 k e). d < 10" using digits_bound[of 10 _ k e] by auto
  have "parse_base 10 (to_base 10 e) = undigits 10 (digits 10 k e)"
    unfolding k(1) using d by (intro parse_base_map_digit_char) auto
  also have "\<dots> = e" using k(2) by (simp add: undigits_digits)
  finally have "parse_base 10 (to_base 10 e) = e" .
  moreover have "digits 10 k e \<noteq> []" using k(3) by (metis length_digits length_greater_0_conv)
  ultimately show ?thesis using k(1) d by (intro exI[of _ "digits 10 k e"]) (auto simp: list_all_iff)
qed

lemma number_of_literal:
  assumes ip: "ip \<noteq> []" "hd ip = 0 \<longrightarrow> length ip = 1" "list_all (\<lambda>d. d < 10) (ip @ fp)"
  shows "number_of (literal neg ip fp ex) = Some (decimal neg (ip @ fp)
     (int (length ip) + (case ex of None \<Rightarrow> 0 | Some (eneg, e) \<Rightarrow> if eneg then - int e else int e)))"
proof -
  define s3 where "s3 = (case ex of None \<Rightarrow> [] | Some (eneg, e) \<Rightarrow> 101 # (if eneg then 45 else 43) # to_base 10 e)"
  define s2 where "s2 = (if fp = [] then s3 else 46 # map digit_char fp @ s3)"
  define s1 where "s1 = map digit_char ip @ s2"
  have lit: "literal neg ip fp ex = (if neg then 45 # s1 else s1)"
    by (simp add: literal_def s1_def s2_def s3_def)
  have nd: "\<not> is_dec 45" "\<not> is_dec 46" "\<not> is_dec 101" by (simp_all add: is_dec_def word_le_nat_alt)
  have s3: "\<And>c r. s3 = c # r \<Longrightarrow> \<not> is_dec c" using nd by (auto simp: s3_def split: option.splits)
  have s2: "\<And>c r. s2 = c # r \<Longrightarrow> \<not> is_dec c" using nd s3 by (auto simp: s2_def split: if_splits)
  have dec: "list_all (\<lambda>d. d < 10) ip" "list_all (\<lambda>d. d < 10) fp" using ip(3) by simp_all
  obtain d ds where d: "ip = d # ds" "d < 10" using ip(1) dec(1) by (cases ip) auto
  have s1: "s1 \<noteq> []" "hd s1 \<noteq> 45" using is_dec_digit[OF d(2)] nd(1) by (auto simp: s1_def d(1))
  have I: "takeWhile is_dec s1 = map digit_char ip" "dropWhile is_dec s1 = s2"
    using takeWhile_dec[OF dec(1) s2] by (simp_all add: s1_def)
  have dot: "s2 \<noteq> [] \<and> hd s2 = 46 \<longleftrightarrow> fp \<noteq> []"
    by (auto simp: s2_def s3_def split: option.splits)
  have F: "takeWhile is_dec (tl s2) = map digit_char fp" "dropWhile is_dec (tl s2) = s3" if "fp \<noteq> []"
    using takeWhile_dec[OF dec(2) s3] that by (simp_all add: s2_def)
  have F': "fp = [] \<Longrightarrow> s2 = s3" by (simp add: s2_def)
  have vals: "map digit_val (map digit_char ip @ map digit_char fp) = ip @ fp"
    using digit_vals[OF ip(3)] by (simp only: map_append)
  have hd48: "hd (map digit_char ip) = 48 \<longleftrightarrow> hd ip = 0" using d digit_zero by simp
  have s3_eq: "(if fp \<noteq> [] then dropWhile is_dec (tl s2) else s2) = s3" using F F' by simp
  have fp_eq: "(if fp \<noteq> [] then takeWhile is_dec (tl s2) else []) = map digit_char fp" using F by simp
  have "unsigned_of neg s1 = map_option (\<lambda>e. decimal neg (ip @ fp) (int (length ip) + e)) (exponent_of s3)"
    unfolding unsigned_of_def Let_def I dot s3_eq fp_eq map_append vals[unfolded map_append] using ip(1,2) hd48 by (auto simp del: map_map)
  then have E: "number_of (literal neg ip fp ex) =
      map_option (\<lambda>e. decimal neg (ip @ fp) (int (length ip) + e)) (exponent_of s3)"
    unfolding number_of_def lit using s1 by (cases neg) simp_all
  show ?thesis
  proof (cases ex)
    case None
    then show ?thesis unfolding E by (simp add: s3_def exponent_of_def)
  next
    case (Some x)
    obtain eneg e where x: "x = (eneg, e)" by fastforce
    obtain ks where ks: "to_base 10 e = map digit_char ks" "ks \<noteq> []" "list_all (\<lambda>d. d < 10) ks"
      "parse_base 10 (to_base 10 e) = e" using to_base_dec by blast
    have "list_all is_dec (to_base 10 e)" using ks(3) by (simp add: ks(1) list_all_iff)
    moreover have "to_base 10 e \<noteq> []" using ks(1,2) by simp
    ultimately show ?thesis unfolding E using ks(4) by (simp add: s3_def Some x exponent_of_def Let_def)
  qed
qed

text \<open>What \<^verbatim>\<open>Number::toString\<close> writes is a literal, in each of its four forms.\<close>

lemma num_str_literal:
  assumes "wf_num (Dec neg ds n)"
  obtains ip fp ex where "num_str (Dec neg ds n) = literal neg ip fp ex" "ip \<noteq> []" "hd ip = 0 \<longrightarrow> length ip = 1"
    "list_all (\<lambda>d. d < 10) (ip @ fp)"
    "decimal neg (ip @ fp) (int (length ip) + (case ex of None \<Rightarrow> 0 | Some (eneg, e) \<Rightarrow> if eneg then - int e else int e)) =
       Dec neg ds n"
proof -
  let ?k = "int (length ds)"
  have ds: "ds \<noteq> []" "list_all (\<lambda>d. d < 10) ds" "hd ds \<noteq> 0" "last ds \<noteq> 0" "to_double neg ds n = Dec neg ds n"
    using assms by simp_all
  obtain d ds' where d: "ds = d # ds'" using ds(1) by (cases ds) auto
  have plain: "decimal neg ds m = to_double neg ds m" for m
    using decimal_padded[OF ds(1,3,4), of neg 0 0] by simp
  have zero: "map digit_char (replicate j 0) = replicate j 48" for j by (simp add: digit_char_def)
  consider (a) "?k \<le> n" "n \<le> 21" | (b) "\<not> ?k \<le> n" "0 < n" "n \<le> 21" | (c) "- 6 < n" "n \<le> 0"
    | (d) "\<not> (?k \<le> n \<and> n \<le> 21)" "\<not> (0 < n \<and> n \<le> 21)" "\<not> (- 6 < n \<and> n \<le> 0)" by linarith
  then show ?thesis
  proof cases
    case a
    let ?z = "nat (n - ?k)"
    show ?thesis
    proof (rule that[of "ds @ replicate ?z 0" "[]" None])
      show "num_str (Dec neg ds n) = literal neg (ds @ replicate ?z 0) [] None"
        using a by (simp add: literal_def dec_str_def zero[symmetric] Let_def del: map_replicate)
      show "decimal neg ((ds @ replicate ?z 0) @ []) (int (length (ds @ replicate ?z 0)) +
          (case None of None \<Rightarrow> 0 | Some (eneg, e) \<Rightarrow> if eneg then - int e else int e)) = Dec neg ds n"
        using decimal_padded[OF ds(1,3,4), of neg 0 ?z n] a ds(5) by simp
    qed (use ds in \<open>auto simp: list_all_iff\<close>)
  next
    case b
    then have len: "int (length (take (nat n) ds)) = n" "take (nat n) ds \<noteq> []" "drop (nat n) ds \<noteq> []" using ds(1) by auto
    show ?thesis
    proof (rule that[of "take (nat n) ds" "drop (nat n) ds" None])
      show "num_str (Dec neg ds n) = literal neg (take (nat n) ds) (drop (nat n) ds) None"
        using b len by (simp add: literal_def dec_str_def Let_def take_map drop_map)
      show "hd (take (nat n) ds) = 0 \<longrightarrow> length (take (nat n) ds) = 1" using ds(3) b by (simp add: hd_take)
      show "decimal neg (take (nat n) ds @ drop (nat n) ds) (int (length (take (nat n) ds)) +
          (case None of None \<Rightarrow> 0 | Some (eneg, e) \<Rightarrow> if eneg then - int e else int e)) = Dec neg ds n"
        unfolding append_take_drop_id len(1) using plain ds(5) by simp
    qed (use ds len in simp_all)
  next
    case c
    let ?z = "nat (- n)"
    have k: "\<not> ?k \<le> n" using c(2) ds(1) by (simp add: not_le) (metis length_greater_0_conv of_nat_0_less_iff order_le_less_trans)
    show ?thesis
    proof (rule that[of "[0]" "replicate ?z 0 @ ds" None])
      show "num_str (Dec neg ds n) = literal neg [0] (replicate ?z 0 @ ds) None"
        using c ds(1) k by (auto simp: literal_def dec_str_def Let_def zero digit_char_def[of 0])
      show "decimal neg ([0] @ replicate ?z 0 @ ds) (int (length [0 :: nat]) +
          (case None of None \<Rightarrow> 0 | Some (eneg, e) \<Rightarrow> if eneg then - int e else int e)) = Dec neg ds n"
        using decimal_padded[OF ds(1,3,4), of neg "Suc ?z" 0 1] c ds(5) by simp
    qed (use ds in \<open>auto simp: list_all_iff\<close>)
  next
    case d': d
    show ?thesis
    proof (rule that[of "[d]" ds' "Some (n - 1 < 0, nat \<bar>n - 1\<bar>)"])
      show "num_str (Dec neg ds n) = literal neg [d] ds' (Some (n - 1 < 0, nat \<bar>n - 1\<bar>))"
        using d' by (auto simp: literal_def dec_str_def Let_def d)
      show "decimal neg ([d] @ ds') (int (length [d]) + (case Some (n - 1 < 0, nat \<bar>n - 1\<bar>) of None \<Rightarrow> 0
          | Some (eneg, e) \<Rightarrow> if eneg then - int e else int e)) = Dec neg ds n"
        using plain ds(5) by (simp add: d)
    qed (use ds in \<open>auto simp: d\<close>)
  qed
qed

lemma number_of_num_str: "wf_num n \<Longrightarrow> is_finite n \<Longrightarrow> number_of (num_str n) = Some n"
proof (cases n)
  case Zero
  have "is_dec 48" by (simp add: is_dec_def)
  then show ?thesis
    by (simp add: Zero number_of_def unsigned_of_def Let_def exponent_of_def decimal_def strip_zeros_def digit_val_def word_le_nat_alt)
next
  case (Dec neg ds x)
  assume "wf_num n"
  then obtain ip fp ex where l: "num_str n = literal neg ip fp ex" "ip \<noteq> []" "hd ip = 0 \<longrightarrow> length ip = 1"
    "list_all (\<lambda>d. d < 10) (ip @ fp)"
    "decimal neg (ip @ fp) (int (length ip) + (case ex of None \<Rightarrow> 0 | Some (eneg, e) \<Rightarrow> if eneg then - int e else int e)) = n"
    unfolding Dec by (rule num_str_literal)
  show ?thesis unfolding l(1) number_of_literal[OF l(2-4)] l(5) ..
qed simp_all

lemma num_units: "is_finite n \<Longrightarrow> wf_num n \<Longrightarrow> num_str n \<noteq> [] \<and> list_all num_unit (num_str n)"
proof (cases n)
  case (Dec neg ds x)
  assume "wf_num n"
  then obtain ip fp ex where l: "num_str n = literal neg ip fp ex" "ip \<noteq> []" "list_all (\<lambda>d. d < 10) (ip @ fp)"
    unfolding Dec by (rule num_str_literal) blast
  have "list_all num_unit (to_base 10 e)" for e
    using to_base_dec[of e] by (auto simp: list_all_iff num_unit_def)
  then show ?thesis using l(2,3) by (auto simp: l(1) literal_def list_all_iff num_unit_def split: option.splits)
qed (simp_all add: num_unit_def is_dec_def)

section \<open>The tokens of a value\<close>

text \<open>The trees \<^verbatim>\<open>JSON.stringify\<close> writes without loss; the keys may be in any order.\<close>

fun json_tree :: "jsval \<Rightarrow> bool" where
  "json_tree (JNum n) \<longleftrightarrow> is_finite n \<and> wf_num n"
| "json_tree (JArr xs) \<longleftrightarrow> (\<forall>x \<in> set xs. json_tree x)"
| "json_tree (JObj kvs) \<longleftrightarrow> distinct (map fst kvs) \<and> (\<forall>(k, v) \<in> set kvs. json_tree v)"
| "json_tree JUndef \<longleftrightarrow> False"
| "json_tree JFun \<longleftrightarrow> False"
| "json_tree _ \<longleftrightarrow> True"

lemma is_json_tree: "is_json v \<Longrightarrow> json_tree v"
  by (induction v) auto

text \<open>The value such a text denotes: the entries of every object in the language's order.\<close>

fun in_order :: "jsval \<Rightarrow> jsval" where
  "in_order (JArr xs) = JArr (map in_order xs)"
| "in_order (JObj kvs) = JObj (entry_order (map (\<lambda>(k, v). (k, in_order v)) kvs))"
| "in_order v = v"

lemma in_order_json: "is_json v \<Longrightarrow> in_order v = v"
proof (induction v)
  case (JArr xs)
  then show ?case by (simp add: map_idI)
next
  case (JObj kvs)
  have "map (\<lambda>(k, v). (k, in_order v)) kvs = kvs" using JObj by (intro map_idI) (auto 0 4)
  then show ?case using JObj.prems by simp
qed simp_all

fun commas :: "token list list \<Rightarrow> token list" where
  "commas [] = []"
| "commas [x] = x"
| "commas (x # y # xs) = x @ Comma # commas (y # xs)"

fun tokens :: "jsval \<Rightarrow> token list" where
  "tokens (JArr xs) = LBrack # commas (map tokens xs) @ [RBrack]"
| "tokens (JObj kvs) = LBrace # commas (map (\<lambda>(k, v). Lit (JStr k) # Colon # tokens v) kvs) @ [RBrace]"
| "tokens v = [Lit v]"

section \<open>Scanning\<close>

text \<open>A text is read as these tokens wherever a number may end after it.\<close>

definition boundary :: "jsstring \<Rightarrow> bool" where
  "boundary s \<longleftrightarrow> s = [] \<or> \<not> num_unit (hd s)"

definition reads :: "jsstring \<Rightarrow> token list \<Rightarrow> bool" where
  "reads t ts \<longleftrightarrow> (\<forall>rest. boundary rest \<longrightarrow> scan (t @ rest) = map_option ((@) ts) (scan rest))"

lemma readsD: "reads t ts \<Longrightarrow> boundary rest \<Longrightarrow> scan (t @ rest) = map_option ((@) ts) (scan rest)"
  by (simp add: reads_def)

lemma boundary_punct [simp]: "punct c \<noteq> None \<Longrightarrow> boundary (c # s)"
  by (auto simp: boundary_def punct_def num_unit_def is_dec_def split: if_splits)

lemma punct_values [simp]:
  "punct 123 = Some LBrace" "punct 125 = Some RBrace" "punct 91 = Some LBrack" "punct 93 = Some RBrack"
  "punct 44 = Some Comma" "punct 58 = Some Colon" "punct 34 = None"
  by (simp_all add: punct_def)

lemma scan_punct: "punct c = Some t \<Longrightarrow> scan (c # s) = map_option ((#) t) (scan s)"
proof -
  assume c: "punct c = Some t"
  then have "\<not> json_space c" by (auto simp: punct_def json_space_def split: if_splits)
  with c show ?thesis by (simp add: scan_token_def)
qed

lemma option_map_append: "map_option ((#) x) (map_option ((@) xs) r) = map_option ((@) (x # xs)) r"
  "map_option ((@) xs) (map_option ((@) ys) r) = map_option ((@) (xs @ ys)) r"
  "map_option ((@) xs) (map_option ((#) x) r) = map_option ((@) (xs @ [x])) r"
  by (cases r; simp)+

lemma option_map_single [simp]: "map_option ((@) [x]) r = map_option ((#) x) r" "map_option ((@) []) r = r"
  by (cases r; simp)+

lemma scan_quoted: "scan (json_quote s @ rest) = map_option ((#) (Lit (JStr s))) (scan rest)"
  by (simp add: json_quote_def scan_token_def scan_quote json_space_def)

lemma reads_num:
  assumes "is_finite n" "wf_num n"
  shows "reads (num_str n) [Lit (JNum n)]"
  unfolding reads_def
proof (intro allI impI)
  fix rest assume rest: "boundary rest"
  obtain c cs where s: "num_str n = c # cs" "num_unit c" "list_all num_unit cs"
    using num_units[OF assms] by (cases "num_str n") auto
  have c: "punct c = None" "c \<noteq> 34" "\<not> json_space c"
    using s(2) by (auto simp: num_unit_def is_dec_def punct_def json_space_def)
  have "takeWhile num_unit (cs @ rest) = cs \<and> dropWhile num_unit (cs @ rest) = rest"
    using s(3) rest by (induction cs) (cases rest; auto simp: boundary_def)+
  moreover have "number_of (c # cs) = Some n" using number_of_num_str[OF assms(2,1)] s(1) by simp
  ultimately have "scan_token c (cs @ rest) = Some (Lit (JNum n), rest)" using c s(2) by (simp add: scan_token_def)
  then show "scan (num_str n @ rest) = map_option ((@) [Lit (JNum n)]) (scan rest)" using c by (simp add: s(1))
qed

lemma starts_with_append [simp]: "starts_with (p @ s) p"
  by (simp add: starts_with_def)

lemma reads_words:
  "reads (js ''null'') [Lit JNull]" "reads (js ''true'') [Lit (JBool True)]" "reads (js ''false'') [Lit (JBool False)]"
  by (simp_all add: reads_def scan_token_def json_space_def num_unit_def is_dec_def punct_def starts_with_def js_def)

lemma reads_join:
  assumes "list_all2 reads texts tss"
  shows "reads (js_join [44] texts) (commas tss)"
  using assms
proof (induction texts tss rule: list_all2_induct)
  case Nil
  then show ?case by (simp add: reads_def)
next
  case (Cons x xs y ys)
  show ?case
  proof (cases xs)
    case Nil
    with Cons have "ys = []" by simp
    with Nil Cons(1) show ?thesis by simp
  next
    case (Cons x' xs')
    then obtain y' ys' where ys: "ys = y' # ys'" using \<open>list_all2 reads xs ys\<close> by (auto simp: list_all2_Cons1)
    show ?thesis
      unfolding reads_def
    proof (intro allI impI)
      fix rest assume "boundary rest"
      then have "scan (js_join [44] xs @ rest) = map_option ((@) (commas ys)) (scan rest)"
        using Cons.IH readsD by blast
      then show "scan (js_join [44] (x # xs) @ rest) = map_option ((@) (commas (y # ys))) (scan rest)"
        using readsD[OF \<open>reads x y\<close>, of "44 # js_join [44] xs @ rest"]
        by (simp add: Cons ys scan_punct option_map_append del: scan.simps)
    qed
  qed
qed

lemma json_stringify_tree: "json_tree v \<Longrightarrow> \<exists>t. json_stringify v = Some t"
  by (cases v) auto

lemma reads_stringify: "json_tree v \<Longrightarrow> reads (the (json_stringify v)) (tokens v)"
proof (induction v)
  case (JNum n)
  then show ?case by (simp add: reads_num)
next
  case (JStr s)
  then show ?case by (simp add: reads_def scan_quoted)
next
  case (JBool b)
  then show ?case by (cases b) (simp_all add: reads_words)
next
  case (JArr xs)
  have el: "(case json_stringify x of None \<Rightarrow> js ''null'' | Some t \<Rightarrow> t) = the (json_stringify x)" if "x \<in> set xs" for x
    using JArr.prems that json_stringify_tree[of x] by auto
  have "list_all2 reads (map (\<lambda>x. the (json_stringify x)) xs) (map tokens xs)"
    using JArr by (auto simp: list_all2_conv_all_nth)
  from readsD[OF reads_join[OF this]] show ?case
    by (simp add: reads_def el scan_punct option_map_append del: scan.simps cong: map_cong)
next
  case (JObj kvs)
  have el: "(case json_stringify x of None \<Rightarrow> [] | Some t \<Rightarrow> [json_quote k @ [58] @ t]) =
      [json_quote k @ 58 # the (json_stringify x)]" if "(k, x) \<in> set kvs" for k x
  proof -
    have "json_tree x" using JObj.prems that by auto
    then show ?thesis using json_stringify_tree[of x] by auto
  qed
  have m: "reads (json_quote k @ 58 # the (json_stringify x)) (Lit (JStr k) # Colon # tokens x)" if "(k, x) \<in> set kvs" for k x
  proof -
    have "reads (the (json_stringify x)) (tokens x)" using JObj that by auto
    then show ?thesis by (simp add: reads_def scan_quoted scan_punct option_map_append del: scan.simps)
  qed
  have c: "concat (map (\<lambda>(k, x). case json_stringify x of None \<Rightarrow> [] | Some t \<Rightarrow> [json_quote k @ [58] @ t]) kvs) =
      map (\<lambda>(k, x). json_quote k @ 58 # the (json_stringify x)) kvs"
    using el by (induction kvs) auto
  have "list_all2 reads (map (\<lambda>(k, x). json_quote k @ 58 # the (json_stringify x)) kvs)
      (map (\<lambda>(k, v). Lit (JStr k) # Colon # tokens v) kvs)"
    using m by (simp add: list_all2_conv_all_nth case_prod_beta)
  from readsD[OF reads_join[OF this]] show ?case
    unfolding json_stringify.simps c option.sel tokens.simps
    by (simp add: reads_def scan_punct option_map_append del: scan.simps)
qed (simp_all add: reads_words)

section \<open>Reading the tokens\<close>

lemma parse_elements:
  assumes "\<And>x st ts. x \<in> set xs \<Longrightarrow> parse_run (tokens x @ ts) (Want, st) = parse_run ts (Got (in_order x), st)" "xs \<noteq> []"
  shows "parse_run (commas (map tokens xs) @ RBrack # ts) (Want, InArr acc # st) =
    parse_run ts (Got (JArr (acc @ map in_order xs)), st)"
  using assms
proof (induction xs arbitrary: acc)
  case (Cons x xs)
  have x: "parse_run (tokens x @ ts) (Want, st) = parse_run ts (Got (in_order x), st)" for ts st
    using Cons.prems(1) by simp
  show ?case
  proof (cases xs)
    case Nil
    then show ?thesis by (simp add: x end_value_def)
  next
    case (Cons y ys)
    have "parse_run (commas (map tokens xs) @ RBrack # ts) (Want, InArr (acc @ [in_order x]) # st) =
        parse_run ts (Got (JArr ((acc @ [in_order x]) @ map in_order xs)), st)"
      using Cons.IH Cons.prems(1) by (simp add: Cons)
    then show ?thesis by (simp add: Cons x end_value_def)
  qed
qed simp

lemma parse_members:
  assumes "\<And>k x st ts. (k, x) \<in> set kvs \<Longrightarrow> parse_run (tokens x @ ts) (Want, st) = parse_run ts (Got (in_order x), st)"
    "kvs \<noteq> []" "distinct (map fst (acc @ kvs))"
  shows "parse_run (commas (map (\<lambda>(k, v). Lit (JStr k) # Colon # tokens v) kvs) @ RBrace # ts) (Key acc, st) =
    parse_run ts (Got (JObj (entry_order (acc @ map (\<lambda>(k, v). (k, in_order v)) kvs))), st)"
  using assms
proof (induction kvs arbitrary: acc)
  case (Cons e kvs)
  obtain k x where e: "e = (k, x)" by fastforce
  have x: "parse_run (tokens x @ ts) (Want, st) = parse_run ts (Got (in_order x), st)" for ts st
    using Cons.prems(1)[of k x] by (simp add: e)
  have fresh: "map_set k (in_order x) acc = acc @ [(k, in_order x)]"
    using Cons.prems(3) by (intro map_set_fresh) (auto simp: e)
  show ?case
  proof (cases kvs)
    case Nil
    then show ?thesis by (simp add: e x end_value_def read_key_def fresh)
  next
    case (Cons y ys)
    have "parse_run (commas (map (\<lambda>(k, v). Lit (JStr k) # Colon # tokens v) kvs) @ RBrace # ts) (Key (acc @ [(k, in_order x)]), st) =
        parse_run ts (Got (JObj (entry_order ((acc @ [(k, in_order x)]) @ map (\<lambda>(k, v). (k, in_order v)) kvs))), st)"
      using Cons.prems by (intro Cons.IH) (auto simp: Cons e)
    then show ?thesis by (simp add: Cons e x end_value_def read_key_def fresh)
  qed
qed simp

lemma parse_first: "tokens v = t # ts \<Longrightarrow> t \<noteq> RBrack \<and> parse_step t (First, st) = parse_step t (Want, st)"
  by (cases v) auto

lemma parse_tokens: "json_tree v \<Longrightarrow> parse_run (tokens v @ ts) (Want, st) = parse_run ts (Got (in_order v), st)"
proof (induction v arbitrary: ts st)
  case (JArr xs)
  show ?case
  proof (cases xs)
    case Nil
    then show ?thesis by (simp add: start_value_def)
  next
    case (Cons x ys)
    obtain t us where t: "commas (map tokens xs) = t # us" "t \<noteq> RBrack" "\<And>st. parse_step t (First, st) = parse_step t (Want, st)"
    proof -
      obtain t us where "tokens x = t # us" by (cases x) auto
      moreover obtain vs where "commas (map tokens xs) = tokens x @ vs" by (cases ys) (auto simp: Cons)
      ultimately show ?thesis using parse_first[of x t us] by (intro that[of t "us @ vs"]) (auto simp del: parse_step.simps)
    qed
    have "parse_run (commas (map tokens xs) @ RBrack # ts) (Want, InArr [] # st) = parse_run ts (Got (JArr ([] @ map in_order xs)), st)"
      using JArr Cons by (intro parse_elements) auto
    moreover have "parse_run (commas (map tokens xs) @ RBrack # ts) (First, InArr [] # st) =
        parse_run (commas (map tokens xs) @ RBrack # ts) (Want, InArr [] # st)"
      unfolding t(1) using t(3) by (simp del: parse_step.simps)
    ultimately show ?thesis by (simp add: start_value_def)
  qed
next
  case (JObj kvs)
  show ?case
  proof (cases kvs)
    case Nil
    then show ?thesis by (simp add: start_value_def entry_order_def)
  next
    case (Cons e ys)
    let ?m = "commas (map (\<lambda>(k, v). Lit (JStr k) # Colon # tokens v) kvs)"
    obtain k us where k: "?m = Lit (JStr k) # us" by (cases e; cases ys) (auto simp: Cons)
    have "parse_run (?m @ RBrace # ts) (Key [], st) =
        parse_run ts (Got (JObj (entry_order ([] @ map (\<lambda>(k, v). (k, in_order v)) kvs))), st)"
    proof (rule parse_members)
      fix k x st ts assume k: "(k, x) \<in> set kvs"
      then have "json_tree x" using JObj.prems by auto
      then show "parse_run (tokens x @ ts) (Want, st) = parse_run ts (Got (in_order x), st)"
        using JObj.IH[OF k, of x] by simp
    qed (use JObj.prems Cons in simp_all)
    moreover have "parse_run (?m @ RBrace # ts) (Key0, st) = parse_run (?m @ RBrace # ts) (Key [], st)"
      unfolding k by simp
    ultimately show ?thesis by (simp add: start_value_def)
  qed
qed (simp_all add: start_value_def)

text \<open>Reading back what was written.\<close>

lemma parse_stringify:
  assumes "json_tree v"
  shows "json_parse (the (json_stringify v)) = Some (in_order v)"
proof -
  have "scan (the (json_stringify v)) = Some (tokens v)"
    using readsD[OF reads_stringify[OF assms], of "[]"] by (simp add: boundary_def)
  then show ?thesis using parse_tokens[OF assms, of "[]" "[]"] by (simp add: json_parse_def)
qed

lemma parse_stringify_json: "is_json v \<Longrightarrow> json_stringify v = Some t \<Longrightarrow> json_parse t = Some v"
  using parse_stringify[OF is_json_tree] in_order_json by fastforce

section \<open>Canonical JSON\<close>

text \<open>The canonical form is \<^verbatim>\<open>JSON.stringify\<close> of the value with sorted keys.\<close>

fun sort_keys :: "jsval \<Rightarrow> jsval" where
  "sort_keys (JArr xs) = JArr (map sort_keys xs)"
| "sort_keys (JObj kvs) = JObj (sort_key fst (map (\<lambda>(k, v). (k, sort_keys v)) kvs))"
| "sort_keys v = v"

lemma dkeys_sort_key: "dkeys (sort_key f xs) = dkeys xs"
  by (metis distinct_map mset_eq_imp_distinct_iff mset_map mset_sort)

lemma sort_keys_tree: "is_json v \<Longrightarrow> json_tree (sort_keys v)"
proof (induction v)
  case (JObj kvs)
  have "map fst (map (\<lambda>(k, v). (k, sort_keys v)) kvs) = map fst kvs" by auto
  then have "distinct (map fst (sort_key fst (map (\<lambda>(k, v). (k, sort_keys v)) kvs)))"
    using JObj.prems unfolding dkeys_sort_key by (simp only: is_json.simps)
  moreover have "json_tree (sort_keys w)" if "(k, w) \<in> set kvs" for k w
    using that JObj by auto
  ultimately show ?case by auto
qed auto

lemma sort_key_map_fst: "sort_key fst (map (\<lambda>(k, v). (k, f v)) kvs) = map (\<lambda>(k, v). (k, f v)) (sort_key fst kvs)"
proof -
  have ins: "insort_key fst (k, f v) (map (\<lambda>(k, v). (k, f v)) xs) = map (\<lambda>(k, v). (k, f v)) (insort_key fst (k, v) xs)" for k v xs
    by (induction xs) auto
  show ?thesis by (induction kvs) (auto simp: sort_key_def ins)
qed

lemma canonical_stringify: "is_json v \<Longrightarrow> canonicalJson v = json_stringify (sort_keys v)"
proof (induction v)
  case (JArr xs)
  have "(case canonicalJson x of None \<Rightarrow> [] | Some t \<Rightarrow> t) =
      (case json_stringify (sort_keys x) of None \<Rightarrow> js ''null'' | Some t \<Rightarrow> t)" if "x \<in> set xs" for x
    using JArr that json_stringify_tree[OF sort_keys_tree[of x]] by auto
  then show ?case by (simp add: comp_def cong: map_cong)
next
  case (JObj kvs)
  have el: "json_quote k @ [58] @ (case canonicalJson x of None \<Rightarrow> js ''undefined'' | Some u \<Rightarrow> u) =
      json_quote k @ [58] @ the (json_stringify (sort_keys x))"
    "(case json_stringify (sort_keys x) of None \<Rightarrow> [] | Some t \<Rightarrow> [json_quote k @ [58] @ t]) =
      [json_quote k @ [58] @ the (json_stringify (sort_keys x))]" if "(k, x) \<in> set (sort_key fst kvs)" for k x
  proof -
    have "(k, x) \<in> set kvs" using that by simp
    then have x: "is_json x" "canonicalJson x = json_stringify (sort_keys x)" using JObj by auto
    with json_stringify_tree[OF sort_keys_tree[OF x(1)]]
    show "json_quote k @ [58] @ (case canonicalJson x of None \<Rightarrow> js ''undefined'' | Some u \<Rightarrow> u) =
        json_quote k @ [58] @ the (json_stringify (sort_keys x))"
      "(case json_stringify (sort_keys x) of None \<Rightarrow> [] | Some t \<Rightarrow> [json_quote k @ [58] @ t]) =
        [json_quote k @ [58] @ the (json_stringify (sort_keys x))]" by auto
  qed
  have "concat (map (\<lambda>e. case json_stringify (sort_keys (snd e)) of None \<Rightarrow> [] | Some t \<Rightarrow> [json_quote (fst e) @ [58] @ t]) xs) =
      map (\<lambda>e. json_quote (fst e) @ [58] @ (case canonicalJson (snd e) of None \<Rightarrow> js ''undefined'' | Some u \<Rightarrow> u)) xs"
    if "set xs \<subseteq> set (sort_key fst kvs)" for xs
    using that el by (induction xs) (auto simp del: set_sort)
  from this[OF order.refl] show ?case
    by (simp add: sort_key_map_fst comp_def case_prod_beta cong: option.case_cong)
qed simp_all

text \<open>Reading a canonical form gives the value with its keys in the order the reader gives them.\<close>

lemma parse_canonical: "is_json v \<Longrightarrow> canonicalJson v = Some t \<Longrightarrow> json_parse t = Some (in_order (sort_keys v))"
  using parse_stringify[OF sort_keys_tree] canonical_stringify by fastforce

end
