(* ===== verification/Utf8.thy ===== *)
theory Utf8
  imports Bytes
begin

text \<open>
  \<^verbatim>\<open>TextDecoder\<close>: the UTF-8 decoder of the Encoding Standard with replacement of malformed
  input, and its inverse relation to the encoder on well-formed strings.
\<close>

section \<open>The decoder\<close>

text \<open>
  The state is the number of continuation bytes still needed, the bits read so far and the range
  of the next byte. A byte out of range ends the sequence with U+FFFD and is read again.
\<close>

definition start_byte :: "nat \<Rightarrow> nat \<times> nat \<times> nat \<times> nat" where
  "start_byte b =
     (if 0xC2 \<le> b \<and> b \<le> 0xDF then (1, b - 0xC0, 0x80, 0xBF)
      else if 0xE0 \<le> b \<and> b \<le> 0xEF
        then (2, b - 0xE0, if b = 0xE0 then 0xA0 else 0x80, if b = 0xED then 0x9F else 0xBF)
      else (3, b - 0xF0, if b = 0xF0 then 0x90 else 0x80, if b = 0xF4 then 0x8F else 0xBF))"

definition starts_sequence :: "nat \<Rightarrow> bool" where
  "starts_sequence b \<longleftrightarrow> 0xC2 \<le> b \<and> b \<le> 0xF4"

fun decode_run :: "nat \<times> nat \<times> nat \<times> nat \<Rightarrow> bytes \<Rightarrow> nat list" where
  "decode_run (needed, cp, lo, hi) [] = (if needed = 0 then [] else [0xFFFD])"
| "decode_run (needed, cp, lo, hi) (b # bs) =
     (let n = unat b;
          fresh = (if n < 0x80 then n # decode_run (0, 0, 0x80, 0xBF) bs
                   else if starts_sequence n then decode_run (start_byte n) bs
                   else 0xFFFD # decode_run (0, 0, 0x80, 0xBF) bs)
      in if needed = 0 then fresh
         else if lo \<le> n \<and> n \<le> hi then
           if needed = 1 then (cp * 64 + (n - 0x80)) # decode_run (0, 0, 0x80, 0xBF) bs
           else decode_run (needed - 1, cp * 64 + (n - 0x80), 0x80, 0xBF) bs
         else 0xFFFD # fresh)"

definition utf8_points :: "bytes \<Rightarrow> nat list" where
  "utf8_points bs = decode_run (0, 0, 0x80, 0xBF) bs"

text \<open>A code point as code units.\<close>

definition units_of :: "nat \<Rightarrow> jsstring" where
  "units_of n =
     (if n < 0x10000 then [of_nat n]
      else [of_nat (0xD800 + (n - 0x10000) div 0x400), of_nat (0xDC00 + (n - 0x10000) mod 0x400)])"

text \<open>\<^verbatim>\<open>new TextDecoder().decode(bs)\<close>, which drops a byte order mark at the start.\<close>

definition utf8_decode :: "bytes \<Rightarrow> jsstring" where
  "utf8_decode bs =
     concat (map units_of (utf8_points (if prefix [0xEF, 0xBB, 0xBF] bs then drop 3 bs else bs)))"

section \<open>Decoding what was encoded\<close>

definition scalar :: "nat \<Rightarrow> bool" where
  "scalar n \<longleftrightarrow> n < 0xD800 \<or> 0xE000 \<le> n \<and> n < 0x110000"

lemma unat_of_nat_byte: "n < 256 \<Longrightarrow> unat (of_nat n :: byte) = n"
  by (simp add: unat_of_nat take_bit_eq_mod)

text \<open>The first byte of a sequence, and a continuation byte.\<close>

lemma decode_first:
  "m < 256 \<Longrightarrow> starts_sequence m \<Longrightarrow>
     decode_run (0, cp, lo, hi) (of_nat m # bs) = decode_run (start_byte m) bs"
  by (simp add: unat_of_nat_byte starts_sequence_def)

lemma decode_more:
  "0 < needed \<Longrightarrow> lo \<le> m \<Longrightarrow> m \<le> hi \<Longrightarrow> hi < 256 \<Longrightarrow>
     decode_run (needed, cp, lo, hi) (of_nat m # bs) =
       (if needed = 1 then (cp * 64 + (m - 0x80)) # decode_run (0, 0, 0x80, 0xBF) bs
        else decode_run (needed - 1, cp * 64 + (m - 0x80), 0x80, 0xBF) bs)"
  by (simp add: unat_of_nat_byte)

lemmas decode_byte = decode_first decode_more starts_sequence_def start_byte_def

lemma decode_cp:
  assumes "scalar n"
  shows "utf8_points (utf8_cp n @ bs) = n # utf8_points bs"
proof -
  consider "n < 0x80" | "0x80 \<le> n" "n < 0x800" | "0x800 \<le> n" "n < 0x10000" | "0x10000 \<le> n" "n < 0x110000"
  proof -
    have "n < 0x110000" using assms by (auto simp: scalar_def)
    then show thesis using that by linarith
  qed
  then show ?thesis
  proof cases
    case 1
    then show ?thesis by (simp add: utf8_points_def utf8_cp_def unat_of_nat_byte)
  next
    case 2
    define x y where "x = n div 64" and "y = n mod 64"
    have n: "x * 64 + y = n" and y: "y < 64" unfolding x_def y_def by presburger+
    then have x: "2 \<le> x" "x < 32" using 2 by linarith+
    show ?thesis using 2 x y n unfolding utf8_cp_def x_def[symmetric] y_def[symmetric]
      by (simp add: utf8_points_def decode_byte del: of_nat_add decode_run.simps(2))
  next
    case 3
    define x y z where "x = n div 4096" and "y = n div 64 mod 64" and "z = n mod 64"
    have "n div 4096 = n div 64 div 64" by (simp add: div_mult2_eq[symmetric])
    then have n: "(x * 64 + y) * 64 + z = n" unfolding x_def y_def z_def by (simp only: div_mult_mod_eq)
    have b: "y < 64" "z < 64" unfolding y_def z_def by simp_all
    have e: "x * 4096 + y * 64 + z = n" using n by (simp add: algebra_simps)
    have x: "x < 16" using 3(2) e by linarith
    have lo: "x = 0 \<Longrightarrow> 0x20 \<le> y" using e 3(1) b by linarith
    have hi: "x = 13 \<Longrightarrow> y \<le> 0x1F" using e b assms 3 by (auto simp: scalar_def)
    show ?thesis using 3 b x lo hi n unfolding utf8_cp_def x_def[symmetric] y_def[symmetric] z_def[symmetric]
      by (simp add: utf8_points_def decode_byte del: of_nat_add decode_run.simps(2))
  next
    case 4
    define w x y z where "w = n div 262144" and "x = n div 4096 mod 64" and "y = n div 64 mod 64" and "z = n mod 64"
    have "n div 262144 = n div 4096 div 64" "n div 4096 = n div 64 div 64" by (simp_all add: div_mult2_eq[symmetric])
    then have n: "((w * 64 + x) * 64 + y) * 64 + z = n"
      unfolding w_def x_def y_def z_def by (simp only: div_mult_mod_eq)
    have b: "x < 64" "y < 64" "z < 64" unfolding x_def y_def z_def by simp_all
    have e: "w * 262144 + x * 4096 + y * 64 + z = n" using n by (simp add: algebra_simps)
    have w: "w < 5" using 4(2) e by linarith
    have lo: "w = 0 \<Longrightarrow> 0x10 \<le> x" using e 4(1) b by linarith
    have hi: "w = 4 \<Longrightarrow> x \<le> 0xF" using e 4(2) b by linarith
    show ?thesis using 4 b w lo hi n unfolding utf8_cp_def w_def[symmetric] x_def[symmetric] y_def[symmetric] z_def[symmetric]
      by (simp add: utf8_points_def decode_byte del: of_nat_add decode_run.simps(2))
  qed
qed

lemma decode_cps: "list_all scalar ns \<Longrightarrow> utf8_points (concat (map utf8_cp ns)) = ns"
  by (induction ns) (simp_all add: decode_cp, simp add: utf8_points_def)

text \<open>A string is well formed when its surrogates come in pairs.\<close>

fun well_formed :: "jsstring \<Rightarrow> bool" where
  "well_formed [] \<longleftrightarrow> True"
| "well_formed [c] \<longleftrightarrow> \<not> is_surrogate c"
| "well_formed (c # d # cs) \<longleftrightarrow>
     (if 0xD800 \<le> c \<and> c \<le> 0xDBFF \<and> 0xDC00 \<le> d \<and> d \<le> 0xDFFF then well_formed cs
      else \<not> is_surrogate c \<and> well_formed (d # cs))"

lemma scalar_unit: "\<not> is_surrogate c \<Longrightarrow> scalar (unat c)"
proof -
  have "unat c < 0x10000" using unsigned_less[of c, where ?'a = nat] by simp
  then show "\<not> is_surrogate c \<Longrightarrow> scalar (unat c)"
    by (auto simp: is_surrogate_def scalar_def word_le_nat_alt)
qed

lemma units_unit: "units_of (unat c) = [c]"
proof -
  have "unat c < 0x10000" using unsigned_less[of c, where ?'a = nat] by simp
  then show ?thesis by (simp add: units_of_def)
qed

lemma pair_units:
  assumes "0xD800 \<le> c" "c \<le> 0xDBFF" "0xDC00 \<le> d" "d \<le> 0xDFFF"
  shows "units_of (pair_code_point c d) = [c, d]" "scalar (pair_code_point c d)"
proof -
  have b: "0xD800 \<le> unat c" "unat c \<le> 0xDBFF" "0xDC00 \<le> unat d" "unat d \<le> 0xDFFF"
    using assms by (simp_all add: word_le_nat_alt)
  define x y where "x = unat c - 0xD800" and "y = unat d - 0xDC00"
  have xy: "x < 0x400" "y < 0x400" "unat c = 0xD800 + x" "unat d = 0xDC00 + y" using b by (auto simp: x_def y_def)
  have p: "pair_code_point c d = 0x10000 + (x * 0x400 + y)" by (simp add: pair_code_point_def x_def y_def)
  have "(of_nat (0xD800 + x) :: code_unit) = c" "(of_nat (0xDC00 + y) :: code_unit) = d"
    unfolding xy(3,4)[symmetric] by simp_all
  moreover have "(x * 0x400 + y) div 0x400 = x" "(x * 0x400 + y) mod 0x400 = y" using xy(2) by simp_all
  ultimately show "units_of (pair_code_point c d) = [c, d]" by (simp add: units_of_def p)
  show "scalar (pair_code_point c d)" using xy(1,2) by (simp add: p scalar_def)
qed

lemma points_scalar: "well_formed s \<Longrightarrow> list_all scalar (code_points s)"
  by (induction s rule: code_points.induct) (auto simp: scalar_unit pair_units split: if_splits)

lemma units_points: "well_formed s \<Longrightarrow> concat (map units_of (code_points s)) = s"
  by (induction s rule: code_points.induct) (auto simp: units_unit pair_units split: if_splits)

lemma utf8_no_mark:
  assumes "s \<noteq> []" "hd s < 0x80"
  shows "\<not> prefix [0xEF, 0xBB, 0xBF] (utf8_encode s)"
proof -
  obtain c cs where s: "s = c # cs" using assms(1) by (cases s) auto
  have c: "unat c < 0x80" using assms(2) by (simp add: s word_less_nat_alt)
  then have ns: "\<not> is_surrogate c" "\<not> 0xD800 \<le> c" by (auto simp: is_surrogate_def word_le_nat_alt)
  obtain ps where "code_points s = unat c # ps" using ns by (cases cs) (auto simp: s)
  then have "utf8_encode s = of_nat (unat c) # concat (map utf8_cp ps)" using c by (simp add: utf8_encode_def utf8_cp_def)
  moreover have "(of_nat (unat c) :: byte) \<noteq> 0xEF"
  proof
    assume "(of_nat (unat c) :: byte) = 0xEF"
    moreover have "unat (of_nat (unat c) :: byte) = unat c" using c by (intro unat_of_nat_byte) linarith
    ultimately have "unat c = 0xEF" by simp
    with c show False by simp
  qed
  ultimately show ?thesis by simp
qed

text \<open>Text that starts with an ASCII character survives the round trip.\<close>

lemma utf8_roundtrip:
  assumes "well_formed s" "s \<noteq> []" "hd s < 0x80"
  shows "utf8_decode (utf8_encode s) = s"
  using utf8_no_mark[OF assms(2,3)] decode_cps[OF points_scalar[OF assms(1)]] units_points[OF assms(1)]
  by (simp add: utf8_decode_def utf8_encode_def)

lemma utf8_encode_inject: "well_formed s \<Longrightarrow> well_formed t \<Longrightarrow> utf8_encode s = utf8_encode t \<longleftrightarrow> s = t"
  using decode_cps[OF points_scalar] units_points by (metis utf8_encode_def)

lemma ascii_well_formed: "\<forall>c \<in> set s. c < 0x80 \<Longrightarrow> well_formed s"
  by (induction s rule: well_formed.induct) (auto simp: is_surrogate_def word_less_nat_alt word_le_nat_alt)

end
