(* ===== verification/Json_Text.thy ===== *)
theory Json_Text
  imports Json_Roundtrip Utf8
begin

text \<open>
  The text \<^verbatim>\<open>JSON.stringify\<close> writes, as bytes: it is well-formed text, so that whatever stores it as
  UTF-8 (an encryption, a database) reads it back; and the entries of an object are not changed by the
  order in which the language lists them.
\<close>

section \<open>JSON text is well-formed text\<close>

text \<open>Lone surrogates are escaped, so the text survives the encoding to UTF-8.\<close>

lemma well_formed_Cons: "\<not> is_surrogate c \<Longrightarrow> well_formed (c # cs) = well_formed cs"
  by (cases cs) (auto simp: is_surrogate_def word_le_nat_alt)

lemma well_formed_punct [simp]: "well_formed (44 # cs) = well_formed cs" "well_formed (58 # cs) = well_formed cs"
  by (simp_all add: well_formed_Cons is_surrogate_def del: well_formed.simps)

lemma no_surrogates: "\<forall>c \<in> set s. \<not> is_surrogate c \<Longrightarrow> well_formed s"
  by (induction s) (simp_all add: well_formed_Cons del: well_formed.simps(2,3))

lemma well_formed_append: "well_formed a \<Longrightarrow> well_formed b \<Longrightarrow> well_formed (a @ b)"
  by (induction a rule: well_formed.induct) (auto simp: well_formed_Cons split: if_splits)

lemma surrogate_high_low: "is_surrogate c \<longleftrightarrow> is_high c \<or> is_low c"
  by (auto simp: is_surrogate_def is_high_def is_low_def word_le_nat_alt)

lemma well_formed_esc: "well_formed (esc_unit c)"
proof (cases "is_high c \<or> is_low c \<or> c < 32")
  case True
  have "\<exists>a b e f. pad_start 4 48 (to_base 16 (unat c)) = [a, b, e, f] \<and> hex4 a b e f = Some c" by (rule hex4_pad)
  then obtain a b e f where h: "pad_start 4 48 (to_base 16 (unat c)) = [a, b, e, f]" "hex4 a b e f = Some c" by blast
  have "\<not> is_surrogate x" if "hex_any x \<noteq> None" for x
    using that by (auto simp: hex_any_def is_surrogate_def word_le_nat_alt split: if_splits)
  then have "\<not> is_surrogate a" "\<not> is_surrogate b" "\<not> is_surrogate e" "\<not> is_surrogate f"
    using h(2) by (auto simp: hex4_def split: option.splits)
  moreover have e: "\<not> is_surrogate 92" "\<not> is_surrogate 117" "\<not> is_surrogate 98" "\<not> is_surrogate 116"
    "\<not> is_surrogate 110" "\<not> is_surrogate 102" "\<not> is_surrogate 114" "\<not> is_surrogate 34"
    by (simp_all add: is_surrogate_def)
  ultimately show ?thesis using True by (intro no_surrogates) (auto simp: esc_unit_def h(1))
next
  case False
  then have "\<not> is_surrogate c" by (simp add: surrogate_high_low)
  with False show ?thesis by (simp add: esc_unit_def is_surrogate_def)
qed

lemma well_formed_quote_body: "well_formed (quote_body s)"
proof (induction s rule: quote_body.induct)
  case (3 c d cs)
  then show ?case by (auto simp: is_high_def is_low_def well_formed_esc intro!: well_formed_append)
qed (simp_all add: well_formed_esc)

lemma well_formed_quote: "well_formed (json_quote s)"
  unfolding json_quote_def by (intro well_formed_append well_formed_quote_body) (simp_all add: is_surrogate_def)

lemma well_formed_join: "\<forall>x \<in> set xs. well_formed x \<Longrightarrow> well_formed (js_join [44] xs)"
proof (induction "[44] :: jsstring" xs rule: js_join.induct)
  case (3 x y xs)
  then show ?case by (auto intro!: well_formed_append simp: is_surrogate_def)
qed simp_all

definition plain_text :: "jsstring \<Rightarrow> bool" where
  "plain_text t \<longleftrightarrow> well_formed t \<and> t \<noteq> [] \<and> hd t < 0x80"

lemma plain_num:
  assumes "is_finite n" "wf_num n"
  shows "plain_text (num_str n)"
proof -
  have u: "num_str n \<noteq> []" "list_all num_unit (num_str n)" using num_units[OF assms] by simp_all
  have "c < 0x80" if "num_unit c" for c
    using that by (auto simp: num_unit_def is_dec_def word_le_nat_alt word_less_nat_alt)
  with u have a: "\<forall>c \<in> set (num_str n). c < 0x80" by (auto simp: list_all_iff)
  with u(1) show ?thesis by (simp add: plain_text_def ascii_well_formed)
qed

lemma plain_enclosed: "c < 0x80 \<Longrightarrow> well_formed t \<Longrightarrow> \<not> is_surrogate d \<Longrightarrow> plain_text ([c] @ t @ [d])"
  using well_formed_append[of "[c]" "t @ [d]"] well_formed_append[of t "[d]"] ascii_well_formed[of "[c]"]
  by (simp add: plain_text_def)

text \<open>The text of a value, with its keys in any order.\<close>

lemma plain_stringify: "json_tree v \<Longrightarrow> plain_text (the (json_stringify v))"
proof (induction v)
  case (JNum n)
  then show ?case by (simp add: plain_num)
next
  case (JArr xs)
  have "well_formed (case json_stringify x of None \<Rightarrow> js ''null'' | Some t \<Rightarrow> t)" if "x \<in> set xs" for x
    using JArr.IH[OF that] JArr.prems that json_stringify_tree[of x] by (auto simp: plain_text_def)
  then show ?case
    using plain_enclosed[of 91 _ 93] by (simp add: well_formed_join is_surrogate_def)
next
  case (JObj kvs)
  have "well_formed u" if "(k, x) \<in> set kvs"
    "u \<in> set (case json_stringify x of None \<Rightarrow> [] | Some t \<Rightarrow> [json_quote k @ [58] @ t])" for k x u
  proof -
    have x: "json_tree x" using JObj.prems that(1) by auto
    obtain t where t: "json_stringify x = Some t" using json_stringify_tree[OF x] by blast
    have "well_formed t" using JObj.IH[of "(k, x)" x] that(1) x t by (auto simp: plain_text_def)
    then show ?thesis
      using that(2) t by (auto intro!: well_formed_append well_formed_quote simp: is_surrogate_def)
  qed
  then have "\<forall>u \<in> set (concat (map (\<lambda>(k, x). case json_stringify x of None \<Rightarrow> []
      | Some t \<Rightarrow> [json_quote k @ [58] @ t]) kvs)). well_formed u" by fastforce
  from plain_enclosed[OF _ well_formed_join[OF this], of 123 125] show ?case by (simp add: is_surrogate_def)
next
  case (JStr s)
  have "hd (json_quote s) < 0x80" "json_quote s \<noteq> []" by (simp_all add: json_quote_def)
  then show ?case by (simp add: plain_text_def well_formed_quote)
qed (simp_all add: plain_text_def js_def is_surrogate_def)

lemma text_roundtrip: "plain_text t \<Longrightarrow> utf8_decode (utf8_encode t) = t"
  by (simp add: plain_text_def utf8_roundtrip)

lemma mset_entry_order: "mset (entry_order kvs) = mset kvs"
proof -
  have "mset (filter P kvs) + mset (filter (\<lambda>e. \<not> P e) kvs) = mset kvs" for P
    by (simp add: multiset_partition[symmetric])
  from this[of "\<lambda>e. array_index (fst e) \<noteq> None"] show ?thesis by (simp add: entry_order_def)
qed

lemma map_of_entry_order: "dkeys kvs \<Longrightarrow> map_of (entry_order kvs) = map_of kvs"
proof -
  assume d: "dkeys kvs"
  have m: "mset (map fst (entry_order kvs)) = mset (map fst kvs)" by (simp add: mset_entry_order)
  then have "dkeys (entry_order kvs)" using d mset_eq_imp_distinct_iff by blast
  moreover have "set (entry_order kvs) = set kvs" using mset_entry_order by (rule mset_eq_setD)
  ultimately show ?thesis using d by (simp add: map_of_inject_set)
qed

lemma dkeys_entry_order: "dkeys kvs \<Longrightarrow> dkeys (entry_order kvs)"
proof -
  have "mset (map fst (entry_order kvs)) = mset (map fst kvs)" by (simp add: mset_entry_order)
  then show "dkeys kvs \<Longrightarrow> dkeys (entry_order kvs)" using mset_eq_imp_distinct_iff by blast
qed

section \<open>Base64 text\<close>

text \<open>\<^verbatim>\<open>atob\<close> on any string: it drops ASCII white space before it decodes.\<close>

definition ascii_space :: "code_unit \<Rightarrow> bool" where
  "ascii_space c \<longleftrightarrow> c \<in> {9, 10, 12, 13, 32}"

definition atob_text :: "jsstring \<Rightarrow> bytes option" where
  "atob_text s = atob (filter (\<lambda>c. \<not> ascii_space c) s)"

lemma b64_char_not_space: "n < 64 \<Longrightarrow> \<not> ascii_space (b64_char n)"
  by (auto simp: ascii_space_def word_unat_eq_iff unat_b64_char split: if_splits)

lemma btoa_no_space: "filter (\<lambda>c. \<not> ascii_space c) (btoa bs) = btoa bs"
proof (rule filter_id_conv[THEN iffD2], rule ballI)
  fix c assume "c \<in> set (btoa bs)"
  then have "c \<in> b64_char ` set (sextets_of bs) \<or> c = 61" by (auto simp: btoa_sextets)
  then show "\<not> ascii_space c"
    using b64_char_not_space sextets_of_bound by (auto simp: ascii_space_def)
qed

lemma atob_text_btoa: "atob_text (btoa bs) = Some bs"
  by (simp add: atob_text_def btoa_no_space atob_btoa)

end
