(* ===== verification/Safe_Integers.thy ===== *)
theory Safe_Integers
  imports Json
begin

text \<open>
  Integers as numbers of the language: up to \<open>2^53\<close> every natural number is a double, its shortest
  digits are its own decimal digits, and it is read back as itself.
\<close>

section \<open>Decimal digits\<close>

definition num_of_nat :: "nat \<Rightarrow> jsnum" where
  "num_of_nat n = (if n = 0 then Zero
     else Dec False (strip_zeros (dec_digits n)) (int (length (dec_digits n))))"

fun nat_of_num :: "jsnum \<Rightarrow> nat option" where
  "nat_of_num Zero = Some 0"
| "nat_of_num (Dec False ds k) =
     (if int (length ds) \<le> k then Some (undec ds * 10 ^ (nat k - length ds)) else None)"
| "nat_of_num _ = None"

lemma dec_digits_rec: "dec_digits n = (if n < 10 then [n] else dec_digits (n div 10) @ [n mod 10])"
  by (rule dec_digits.simps)

lemma dec_digits_not_Nil [simp]: "dec_digits n \<noteq> []"
  by (subst dec_digits_rec) simp

lemma undec_append: "undec (ds @ [d]) = 10 * undec ds + d"
  by (simp add: undec_def)

lemma undec_dec_digits [simp]: "undec (dec_digits n) = n"
proof (induction n rule: dec_digits.induct)
  case (1 n)
  show ?case
    by (subst dec_digits_rec) (simp add: 1 undec_append, simp add: undec_def)
qed

lemma dec_digits_lt: "list_all (\<lambda>d. d < 10) (dec_digits n)"
proof (induction n rule: dec_digits.induct)
  case (1 n)
  then show ?case by (subst dec_digits_rec) simp
qed

lemma hd_dec_digits: "0 < n \<Longrightarrow> hd (dec_digits n) \<noteq> 0"
proof (induction n rule: dec_digits.induct)
  case (1 n)
  show ?case
  proof (cases "n < 10")
    case False
    then have "0 < n div 10" by simp
    with 1 False show ?thesis by (subst dec_digits_rec) simp
  qed (use 1 in \<open>subst dec_digits_rec, simp\<close>)
qed

lemma length_dec_digits: "0 < n \<Longrightarrow> 10 ^ (length (dec_digits n) - 1) \<le> n \<and> n < 10 ^ length (dec_digits n)"
proof (induction n rule: dec_digits.induct)
  case (1 n)
  show ?case
  proof (cases "n < 10")
    case True
    with 1 show ?thesis by (subst (1 2) dec_digits_rec) simp
  next
    case False
    then have p: "0 < n div 10" by simp
    define k where "k = length (dec_digits (n div 10))"
    have k: "10 ^ (k - 1) \<le> n div 10" "n div 10 < 10 ^ k" using 1(1)[OF False p] by (simp_all add: k_def)
    have "0 < k" by (simp add: k_def)
    then have "10 ^ k = 10 * (10 ^ (k - 1) :: nat)" by (cases k) simp_all
    with k have "10 ^ k \<le> n" "n < 10 * 10 ^ k" by linarith+
    then show ?thesis using False by (subst (1 2) dec_digits_rec) (simp add: k_def)
  qed
qed

lemma dec_digits_shift: "0 < n \<Longrightarrow> dec_digits (n * 10 ^ x) = dec_digits n @ replicate x 0"
proof (induction x)
  case (Suc x)
  then have "10 \<le> n * 10 ^ Suc x" by (simp add: Suc_le_eq)
  then have "dec_digits (n * 10 ^ Suc x) = dec_digits (n * 10 ^ Suc x div 10) @ [n * 10 ^ Suc x mod 10]"
    by (subst dec_digits_rec) simp
  also have "n * 10 ^ Suc x div 10 = n * 10 ^ x" by simp
  finally show ?case using Suc by (simp add: replicate_append_same)
qed simp

lemma strip_zeros_append: "strip_zeros (ds @ replicate k 0) = strip_zeros ds"
proof -
  have "dropWhile (\<lambda>c. c = 0) (replicate k 0 @ xs) = dropWhile (\<lambda>c. c = 0) xs" for xs :: "nat list"
    by (induction k) auto
  then show ?thesis by (simp add: strip_zeros_def)
qed

lemma strip_zeros_split: "\<exists>k. ds = strip_zeros ds @ replicate k 0"
proof -
  have "rev ds = takeWhile (\<lambda>c. c = 0) (rev ds) @ dropWhile (\<lambda>c. c = 0) (rev ds)" by simp
  moreover have "takeWhile (\<lambda>c. c = 0) (rev ds) = replicate (length (takeWhile (\<lambda>c. c = 0) (rev ds))) 0"
    by (rule replicate_length_same[symmetric]) (auto dest: set_takeWhileD)
  ultimately have "rev ds = replicate (length (takeWhile (\<lambda>c. c = 0) (rev ds))) 0 @ dropWhile (\<lambda>c. c = 0) (rev ds)"
    by simp
  then have "rev (rev ds) = rev (replicate (length (takeWhile (\<lambda>c. c = 0) (rev ds))) 0 @ dropWhile (\<lambda>c. c = 0) (rev ds))"
    by simp
  then show ?thesis by (auto simp: strip_zeros_def)
qed

lemma last_strip_zeros: "strip_zeros ds \<noteq> [] \<Longrightarrow> last (strip_zeros ds) \<noteq> 0"
  using hd_dropWhile[of "\<lambda>c. c = 0" "rev ds"] by (auto simp: strip_zeros_def last_rev)

lemma undec_zeros: "undec (ds @ replicate k 0) = undec ds * 10 ^ k"
proof (induction k)
  case (Suc k)
  have "ds @ replicate (Suc k) 0 = (ds @ replicate k 0) @ [0]" by (simp add: replicate_append_same)
  then show ?case by (simp only: undec_append Suc) simp
qed simp

text \<open>The stripped digits of a number and the number of zeros taken off.\<close>

lemma stripped:
  assumes "0 < n"
  obtains k where "dec_digits n = strip_zeros (dec_digits n) @ replicate k 0"
    "undec (strip_zeros (dec_digits n)) * 10 ^ k = n" "strip_zeros (dec_digits n) \<noteq> []"
proof -
  obtain k where k: "dec_digits n = strip_zeros (dec_digits n) @ replicate k 0" using strip_zeros_split by blast
  then have u: "undec (strip_zeros (dec_digits n)) * 10 ^ k = n" using undec_zeros undec_dec_digits by metis
  moreover have "strip_zeros (dec_digits n) \<noteq> []" using u assms by (auto simp: undec_def)
  ultimately show ?thesis using k that by blast
qed

lemma nat_of_num_of_nat: "nat_of_num (num_of_nat n) = Some n"
proof (cases "n = 0")
  case False
  then obtain k where k: "dec_digits n = strip_zeros (dec_digits n) @ replicate k 0"
    "undec (strip_zeros (dec_digits n)) * 10 ^ k = n" using stripped[of n] by auto
  have "length (dec_digits n) = length (strip_zeros (dec_digits n)) + k" by (subst k(1)) simp
  with k(2) False show ?thesis by (simp add: num_of_nat_def nat_int_add)
qed (simp add: num_of_nat_def)

section \<open>Integers below \<open>2^53\<close> are doubles\<close>

lemma bit_length_bounds: "0 < n \<Longrightarrow> 2 ^ (bit_length n - 1) \<le> n \<and> n < 2 ^ bit_length n \<and> 0 < bit_length n"
proof (induction n rule: bit_length.induct)
  case (1 n)
  show ?case
  proof (cases "n = 1")
    case True
    then show ?thesis by (subst (1 2 3) bit_length.simps) (simp add: bit_length.simps[of 0])
  next
    case False
    then have p: "0 < n div 2" using 1(2) by simp
    define k where "k = bit_length (n div 2)"
    have k: "2 ^ (k - 1) \<le> n div 2" "n div 2 < 2 ^ k" "0 < k" using 1 p by (simp_all add: k_def)
    then have "2 ^ k = 2 * (2 ^ (k - 1) :: nat)" by (cases k) simp_all
    with k have "2 ^ k \<le> n" "n < 2 * 2 ^ k" by linarith+
    then show ?thesis using 1(2) by (subst (1 2 3) bit_length.simps) (simp add: k_def)
  qed
qed

lemma log2_int: "0 < n \<Longrightarrow> log2_quot n 1 = int (bit_length n) - 1"
  by (simp add: log2_quot_def Suc_le_eq)

lemma round_even_1 [simp]: "round_even a 1 = a" "round_even a (Suc 0) = a"
  by (simp_all add: round_even_def Let_def)

text \<open>The mantissa of an integer that needs no rounding.\<close>

definition lead :: "nat \<Rightarrow> nat" where
  "lead n = 53 - bit_length n"

lemma bit_length_53: "0 < n \<Longrightarrow> n < 2 ^ 53 \<Longrightarrow> bit_length n \<le> 53"
proof (rule ccontr)
  assume n: "0 < n" "n < 2 ^ 53" "\<not> bit_length n \<le> 53"
  then have "(2 :: nat) ^ 53 \<le> 2 ^ (bit_length n - 1)" by (intro power_increasing) auto
  with bit_length_bounds[OF n(1)] n(2) show False by linarith
qed

text \<open>The double of an integer.\<close>

definition int_double :: "nat \<Rightarrow> nat \<times> int" where
  "int_double n = nearest n 1"

lemma nearest_safe:
  assumes "0 < n" "n < 2 ^ 53"
  shows "int_double n = (n * 2 ^ lead n, - int (lead n))"
proof -
  note b = bit_length_bounds[OF assms(1)] and l = bit_length_53[OF assms]
  have e: "max (- 1074) (log2_quot n 1 - 52) = - int (lead n)"
    using b l unfolding log2_int[OF assms(1)] lead_def by (simp add: max_def)
  have pf: "pow_frac 2 (- int (lead n)) = (1, 2 ^ lead n)" by (simp add: pow_frac_def)
  have "n * 2 ^ lead n < 2 ^ bit_length n * 2 ^ lead n" using b by simp
  also have "\<dots> = 2 ^ 53" using l by (simp add: lead_def flip: power_add)
  finally show ?thesis unfolding int_double_def nearest_def Let_def e pf by simp
qed

lemma nearest_large: "2 ^ 53 \<le> n \<Longrightarrow> 0 < snd (int_double n)"
proof -
  assume n: "2 ^ 53 \<le> n"
  then have "0 < n" by (rule less_le_trans[rotated]) simp
  note b = bit_length_bounds[OF this]
  have "53 < bit_length n"
  proof (rule ccontr)
    assume "\<not> 53 < bit_length n"
    then have "(2 :: nat) ^ bit_length n \<le> 2 ^ 53" by (intro power_increasing) auto
    with b n show False by linarith
  qed
  define e where "e = max (- 1074) (log2_quot n 1 - 52)"
  have "0 < e" using \<open>53 < bit_length n\<close> unfolding e_def log2_int[OF \<open>0 < n\<close>] by (simp add: max_def)
  then show ?thesis unfolding int_double_def nearest_def Let_def e_def[symmetric] by (simp add: case_prod_beta)
qed

lemma nearest_eq_safe:
  assumes "0 < n" "n < 2 ^ 53" "0 < m"
  shows "int_double m = int_double n \<longleftrightarrow> m = n"
proof (cases "m < 2 ^ 53")
  case True
  then show ?thesis using nearest_safe[OF assms(1,2)] nearest_safe[OF assms(3) True] by auto
next
  case False
  then have "0 < snd (int_double m)" by (intro nearest_large) simp
  then have "int_double m \<noteq> int_double n" using nearest_safe[OF assms(1,2)] by auto
  with False assms(2) show ?thesis by auto
qed

lemma reads_as_safe:
  assumes "0 < n" "n < 2 ^ 53"
  shows "reads_as (int_double n) s (int x) \<longleftrightarrow> s * 10 ^ x = n"
  using nearest_eq_safe[OF assms, of "s * 10 ^ x"] assms(1)
  unfolding int_double_def by (auto simp: reads_as_def dec_frac_def pow_frac_def Let_def)

lemma candidate_safe:
  assumes "0 < n" "n < 2 ^ 53" "k \<le> N"
  shows "candidate_digits (int_double n) (int N) k = (if n mod 10 ^ (N - k) = 0 then Some (n div 10 ^ (N - k)) else None)"
proof -
  let ?x = "N - k"
  have x: "int N - int k = int ?x" using assms(3) by simp
  have pf: "pow_frac 2 (- int (lead n)) = (1, 2 ^ lead n)" "pow_frac 10 (int ?x) = (10 ^ ?x, 1)"
    by (simp_all add: pow_frac_def)
  have num: "n * 2 ^ lead n * 1 * 1 div (2 ^ lead n * 10 ^ ?x) = n div 10 ^ ?x" by (simp add: div_mult2_eq)
  have "(n div 10 ^ ?x + 1) * 10 ^ ?x \<noteq> n"
    using dividend_less_times_div[of "10 ^ ?x" n] by (simp add: algebra_simps)
  moreover have "n div 10 ^ ?x * 10 ^ ?x = n \<longleftrightarrow> n mod 10 ^ ?x = 0"
    using div_mult_mod_eq[of n "10 ^ ?x"] by linarith
  ultimately show ?thesis
    unfolding candidate_digits_def Let_def x
    by (simp only: nearest_safe[OF assms(1,2)] fst_conv snd_conv pf case_prod_conv num reads_as_safe[OF assms(1,2), unfolded nearest_safe[OF assms(1,2)]]) auto
qed

text \<open>The position of the point is the number of digits; the estimate is checked for every binade.\<close>

lemma point_from_reaches:
  assumes "\<And>i. n0 \<le> i \<Longrightarrow> i < K \<Longrightarrow> (let (a, b) = pow_frac 10 i in \<not> fst pq * b < a * snd pq)"
    "let (a, b) = pow_frac 10 K in fst pq * b < a * snd pq" "n0 \<le> K" "K \<le> n0 + int f"
  shows "point_from pq f n0 = K"
  using assms
proof (induction f arbitrary: n0)
  case (Suc f)
  obtain a b where ab: "pow_frac 10 n0 = (a, b)" by fastforce
  show ?case
  proof (cases "n0 = K")
    case True
    then show ?thesis using Suc.prems(2) ab by simp
  next
    case False
    then have "n0 < K" using Suc.prems(3) by simp
    then have "\<not> fst pq * b < a * snd pq" using Suc.prems(1)[of n0] ab by simp
    moreover have "point_from pq f (n0 + 1) = K"
      using Suc.prems \<open>n0 < K\<close> by (intro Suc.IH) auto
    ultimately show ?thesis by (simp add: ab)
  qed
qed simp

definition estimate :: "nat \<Rightarrow> int" where
  "estimate l = (int l * 30103) div 100000 - 1"

definition estimate_ok :: "nat \<Rightarrow> bool" where
  "estimate_ok l \<longleftrightarrow> - 1 \<le> estimate l \<and> 10 ^ nat (estimate l + 1) \<le> (10 :: nat) * 2 ^ l \<and>
     (2 :: nat) ^ (l + 1) \<le> 10 ^ nat (estimate l + 4)"

lemma estimates: "l < 53 \<Longrightarrow> estimate_ok l"
proof -
  have "list_all estimate_ok [2..<53]" by (simp add: estimate_ok_def estimate_def upt_rec_numeral)
  moreover have "estimate_ok 0" "estimate_ok 1" by (simp_all add: estimate_ok_def estimate_def)
  moreover assume "l < 53"
  then have "l = 0 \<or> l = 1 \<or> l \<in> set [2..<53]" unfolding set_upt atLeastLessThan_iff by linarith
  ultimately show ?thesis unfolding list_all_iff by blast
qed

lemma decimal_point_safe:
  assumes "0 < n" "n < 2 ^ 53"
  shows "decimal_point (int_double n) = int (length (dec_digits n))"
proof -
  let ?k = "length (dec_digits n)" and ?l = "bit_length n - 1" and ?g = "2 ^ lead n :: nat"
  note b = bit_length_bounds[OF assms(1)] and d = length_dec_digits[OF assms(1)]
  have l: "?l < 53" using bit_length_53[OF assms] b by linarith
  then have "estimate_ok ?l" by (rule estimates)
  then have e: "- 1 \<le> estimate ?l" "10 ^ nat (estimate ?l + 1) \<le> (10 :: nat) * 2 ^ ?l"
    "(2 :: nat) ^ (?l + 1) \<le> 10 ^ nat (estimate ?l + 4)" unfolding estimate_ok_def by blast+
  have fr: "frac_of (int_double n) = (n * ?g, ?g)"
    by (simp add: nearest_safe[OF assms] frac_of_def pow_frac_def)
  have lq: "log2_quot (n * ?g) ?g = int ?l"
    using assms(1) b by (simp add: log2_quot_def)
  have cond: "(case pow_frac 10 i of (a, c) \<Rightarrow> fst (n * ?g, ?g) * c < a * snd (n * ?g, ?g)) \<longleftrightarrow>
      0 \<le> i \<and> n < 10 ^ nat i" for i
    using assms(1) by (auto simp: pow_frac_def)
  have "n < 10 ^ nat (estimate ?l + 4)" using b e(3) by (cases "bit_length n") auto
  with d have "10 ^ (?k - 1) < (10 :: nat) ^ nat (estimate ?l + 4)" by linarith
  then have "?k - 1 < nat (estimate ?l + 4)" by (rule power_less_imp_less_exp[rotated]) simp
  then have up: "int ?k \<le> estimate ?l + 4" using e(1) by linarith
  have "10 ^ nat (estimate ?l + 1) < 10 * (10 :: nat) ^ ?k" using e(2) b d by linarith
  then have "(10 :: nat) ^ nat (estimate ?l + 1) < 10 ^ Suc ?k" by simp
  then have "nat (estimate ?l + 1) < Suc ?k" by (rule power_less_imp_less_exp[rotated]) simp
  then have lo: "estimate ?l \<le> int ?k" by linarith
  have "point_from (n * ?g, ?g) 4 (estimate ?l) = int ?k"
  proof (rule point_from_reaches)
    fix i assume "i < int ?k"
    have "\<not> n < 10 ^ nat i" if "0 \<le> i"
    proof -
      have "nat i \<le> ?k - 1" using that \<open>i < int ?k\<close> by linarith
      then have "(10 :: nat) ^ nat i \<le> 10 ^ (?k - 1)" by (intro power_increasing) auto
      with d show ?thesis by linarith
    qed
    then show "let (a, c) = pow_frac 10 i in \<not> fst (n * ?g, ?g) * c < a * snd (n * ?g, ?g)"
      using cond[of i] by (auto simp: Let_def split: prod.splits)
  next
    show "let (a, c) = pow_frac 10 (int ?k) in fst (n * ?g, ?g) * c < a * snd (n * ?g, ?g)"
      using cond[of "int ?k"] d by (auto simp: Let_def split: prod.splits)
  qed (use lo up in simp_all)
  then show ?thesis by (simp add: decimal_point_def fr lq Let_def estimate_def)
qed

lemma shortest_safe:
  assumes "0 < n" "n < 2 ^ 53"
  shows "shortest False (int_double n) = num_of_nat n"
proof -
  let ?d = "int_double n" and ?N = "length (dec_digits n)"
  note dp = decimal_point_safe[OF assms] and nd = length_dec_digits[OF assms(1)]
  have N: "?N < 18"
  proof (rule ccontr)
    assume "\<not> ?N < 18"
    then have "(10 :: nat) ^ 17 \<le> 10 ^ (?N - 1)" by (intro power_increasing) auto
    with nd assms(2) show False by simp
  qed
  let ?P = "\<lambda>k. candidate_digits ?d (int ?N) k \<noteq> None"
  have "?P ?N" using candidate_safe[OF assms, of ?N ?N] by simp
  moreover have "?N \<in> set [1..<18]" using N by (simp add: Suc_le_eq)
  ultimately obtain k where k: "find ?P [1..<18] = Some k" by (cases "find ?P [1..<18]") (auto simp: find_None_iff)
  then have "?P k" by (auto simp: find_Some_iff)
  have kN: "k \<le> ?N"
  proof (rule ccontr)
    assume "\<not> k \<le> ?N"
    obtain i where i: "i < 17" "k = [1..<18] ! i" "\<forall>j<i. \<not> ?P ([1..<18] ! j)" using k by (auto simp: find_Some_iff)
    then have "k = Suc i" by simp
    then have "?N - 1 < i" "[1..<18] ! (?N - 1) = ?N" using \<open>\<not> k \<le> ?N\<close> N by (simp_all add: Suc_le_eq) (cases ?N; simp)
    with i(3) \<open>?P ?N\<close> show False by metis
  qed
  let ?x = "?N - k"
  have c: "n mod 10 ^ ?x = 0" "candidate_digits ?d (int ?N) k = Some (n div 10 ^ ?x)"
    using \<open>?P k\<close> candidate_safe[OF assms kN] by (auto split: if_splits)
  define s where "s = n div 10 ^ ?x"
  have s: "s * 10 ^ ?x = n" using c(1) div_mult_mod_eq[of n "10 ^ ?x"] by (simp add: s_def)
  then have "0 < s" using assms(1) by (cases s) auto
  then have dd: "dec_digits n = dec_digits s @ replicate ?x 0" using dec_digits_shift[of s ?x] s by simp
  have "length (dec_digits n) = length (dec_digits s) + ?x" by (subst dd) simp
  then have "int ?N + int (length (dec_digits s)) - int k = int ?N" using kN by linarith
  moreover have "strip_zeros (dec_digits s) = strip_zeros (dec_digits n)" by (subst dd) (simp add: strip_zeros_append)
  moreover have "fst ?d \<noteq> 0" "\<not> overflows ?d" using assms(1) by (simp_all add: nearest_safe[OF assms] overflows_def)
  ultimately show ?thesis
    using assms(1) k c(2) by (simp add: shortest_def dp Let_def num_of_nat_def s_def)
qed

text \<open>The limit itself, which is where the clock's counter saturates.\<close>

lemma bit_length_eqI:
  assumes "2 ^ k \<le> n" "n < 2 ^ Suc k"
  shows "bit_length n = Suc k"
proof -
  have "0 < n" using assms(1) by (rule less_le_trans[rotated]) simp
  note b = bit_length_bounds[OF this]
  have "(2 :: nat) ^ (bit_length n - 1) < 2 ^ Suc k" "(2 :: nat) ^ k < 2 ^ bit_length n" using b assms by linarith+
  then have "bit_length n - 1 < Suc k" "k < bit_length n" by (simp_all only: power_strict_increasing_iff one_less_numeral_iff semiring_norm)
  then show ?thesis using b by linarith
qed

lemma limit_double: "int_double (2 ^ 53) = (2 ^ 52, 1)"
proof -
  have "bit_length (2 ^ 53) = Suc 53" by (rule bit_length_eqI) simp_all
  then have "log2_quot (2 ^ 53) 1 = 53" using log2_int[of "2 ^ 53"] by simp
  then show ?thesis unfolding int_double_def nearest_def by (simp add: pow_frac_def round_even_def)
qed

lemma reads_as_limit:
  assumes "reads_as (2 ^ 52, 1) s (int x)"
  shows "s * 10 ^ x = 2 ^ 53 \<or> s * 10 ^ x = 2 ^ 53 + 1"
proof -
  let ?m = "s * 10 ^ x"
  have m: "0 < ?m" "int_double ?m = (2 ^ 52, 1)"
    using assms by (simp_all add: reads_as_def dec_frac_def pow_frac_def int_double_def)
  have ge: "2 ^ 53 \<le> ?m"
  proof (rule ccontr)
    assume "\<not> 2 ^ 53 \<le> ?m"
    then show False using nearest_safe[OF m(1)] m(2) by simp
  qed
  define e where "e = max (- 1074) (log2_quot ?m 1 - 52)"
  obtain u v where uv: "pow_frac 2 e = (u, v)" by fastforce
  have sn: "int_double ?m = (let r = round_even (?m * v) (1 * u) in if r = 2 ^ 53 then (2 ^ 52, e + 1) else (r, e))"
    unfolding int_double_def nearest_def Let_def e_def[symmetric] uv by simp
  have "53 < bit_length ?m"
  proof (rule ccontr)
    assume "\<not> 53 < bit_length ?m"
    then have "(2 :: nat) ^ bit_length ?m \<le> 2 ^ 53" by (intro power_increasing) auto
    with bit_length_bounds[OF m(1)] ge show False by linarith
  qed
  then have "1 \<le> e" unfolding e_def log2_int[OF m(1)] by (simp add: max_def)
  with sn m(2) have e: "e = 1" and r: "round_even (?m * v) (1 * u) = 2 ^ 52" by (auto simp: Let_def split: if_splits)
  have "u = 2" "v = 1" using uv by (simp_all add: e pow_frac_def)
  with r have "?m div 2 = 2 ^ 52 \<or> ?m div 2 + 1 = 2 ^ 52" by (auto simp: round_even_def Let_def split: if_splits)
  moreover have "m div 2 = 2 ^ 52 \<or> m div 2 + 1 = 2 ^ 52 \<Longrightarrow> 2 ^ 53 \<le> m \<Longrightarrow> m = 2 ^ 53 \<or> m = 2 ^ 53 + 1" for m :: nat
    by simp presburger
  ultimately show ?thesis using ge by blast
qed

lemma candidate_limit:
  assumes "k \<le> 16"
  shows "candidate_digits (2 ^ 52, 1) 16 k = (if k = 16 then Some (2 ^ 53) else None)"
proof (cases "k = 16")
  case True
  have "reads_as (2 ^ 52, 1) (2 ^ 53) 0"
    using limit_double by (simp add: reads_as_def dec_frac_def pow_frac_def int_double_def)
  with True show ?thesis by (simp add: candidate_digits_def pow_frac_def Let_def)
next
  case False
  then obtain x where x: "16 - int k = int (Suc x)" using assms by (intro that[of "15 - k"]) auto
  have "\<not> reads_as (2 ^ 52, 1) s (int (Suc x))" for s
  proof
    assume "reads_as (2 ^ 52, 1) s (int (Suc x))"
    from reads_as_limit[OF this] have "10 * (s * 10 ^ x) = 2 ^ 53 \<or> 10 * (s * 10 ^ x) = 2 ^ 53 + 1" by (simp only: power_Suc mult.left_commute)
    moreover have "10 * m = 2 ^ 53 \<or> 10 * m = 2 ^ 53 + 1 \<Longrightarrow> False" for m :: nat by simp presburger
    ultimately show False by blast
  qed
  with False show ?thesis unfolding candidate_digits_def x Let_def by (simp split: prod.split)
qed

lemma upt_18: "[1..<18 :: nat] = [1, 2, 3, 4, 5, 6, 7, 8, 9, 10, 11, 12, 13, 14, 15, 16, 17]"
  by code_simp

lemma wf_num_limit: "wf_num (num_of_nat (2 ^ 53))"
proof -
  have ds: "dec_digits (2 ^ 53) = [9, 0, 0, 7, 1, 9, 9, 2, 5, 4, 7, 4, 0, 9, 9, 2]" by (simp add: dec_digits.simps)
  have bl: "bit_length (2 ^ 53) = Suc 53" by (rule bit_length_eqI) simp_all
  have lq: "log2_quot (2 ^ 53) 1 = 53" using log2_int[of "2 ^ 53"] bl by simp
  have "frac_of (2 ^ 52, 1) = (2 ^ 53, 1)" by (simp add: frac_of_def pow_frac_def)
  then have "decimal_point (2 ^ 52, 1) = point_from (2 ^ 53, 1) 4 14"
    unfolding decimal_point_def Let_def using lq by simp
  also have "\<dots> = 16"
  proof (rule point_from_reaches)
    fix i :: int assume "14 \<le> i" "i < 16"
    then have "i = 14 \<or> i = 15" by linarith
    then show "let (a, b) = pow_frac 10 i in \<not> fst (2 ^ 53, 1) * b < a * snd (2 ^ 53, 1)"
      by (auto simp: pow_frac_def)
  qed (simp_all add: pow_frac_def)
  finally have dp: "decimal_point (2 ^ 52, 1) = 16" .
  have "find (\<lambda>k. candidate_digits (2 ^ 52, 1) 16 k \<noteq> None) [1..<18] = Some 16"
    unfolding upt_18 by (simp add: candidate_limit[simplified])
  then have "shortest False (2 ^ 52, 1) = num_of_nat (2 ^ 53)"
    unfolding shortest_def Let_def dp using ds by (simp add: overflows_def candidate_limit[simplified] num_of_nat_def)
  moreover have "num_of_nat (2 ^ 53) = Dec False [9, 0, 0, 7, 1, 9, 9, 2, 5, 4, 7, 4, 0, 9, 9, 2] 16"
    using ds by (simp add: num_of_nat_def strip_zeros_def)
  ultimately show ?thesis
    using limit_double by (simp add: to_double_def undec_def dec_frac_def pow_frac_def int_double_def)
qed

lemma wf_num_of_nat: "n \<le> 2 ^ 53 \<Longrightarrow> wf_num (num_of_nat n)"
proof -
  assume n: "n \<le> 2 ^ 53"
  consider "n = 0" | "n = 2 ^ 53" | "0 < n" "n < 2 ^ 53" using n by linarith
  then show ?thesis
  proof cases
    case 1
    then show ?thesis by (simp add: num_of_nat_def)
  next
    case 2
    then show ?thesis using wf_num_limit by simp
  next
    case 3
    let ?ds = "strip_zeros (dec_digits n)"
    from stripped[OF 3(1)] obtain k where k: "dec_digits n = ?ds @ replicate k 0" "undec ?ds * 10 ^ k = n" "?ds \<noteq> []" .
    have len: "length (dec_digits n) = length ?ds + k" by (subst k(1)) simp
    have "hd (dec_digits n) = hd ?ds" using k(3) by (subst k(1)) simp
    then have hd: "hd ?ds \<noteq> 0" using hd_dec_digits[OF 3(1)] by simp
    have "list_all (\<lambda>d. d < 10) (?ds @ replicate k 0)" using dec_digits_lt[of n] k(1) by simp
    then have lt: "list_all (\<lambda>d. d < 10) ?ds" by simp
    have "dec_frac (undec ?ds) (int (length (dec_digits n)) - int (length ?ds)) = (n, 1)"
      using k(2) by (simp add: len dec_frac_def pow_frac_def)
    then have "to_double False ?ds (int (length (dec_digits n))) = num_of_nat n"
      using 3(1) shortest_safe[OF 3] by (simp add: to_double_def Let_def int_double_def)
    then show ?thesis using 3(1) k(3) hd lt last_strip_zeros[OF k(3)] by (simp add: num_of_nat_def)
  qed
qed

lemma finite_num_of_nat [simp]: "is_finite (num_of_nat n)"
  by (simp add: num_of_nat_def)

end
