(* ===== verification/Sqlite.thy ===== *)
theory Sqlite
  imports Sync Ordered_Store Json_Text Safe_Integers "HOL-Library.Product_Lexorder"
begin

text \<open>
  The SQLite adapter of packages/adapter-sqlite/src/index.ts: three tables, one definition per
  prepared statement, JSON text in the columns that hold values, and one immediate transaction per
  batch, which is rolled back when a statement fails. Reads parse what they find, so they are
  fallible here; the contract theory shows that on a database the adapter has written they never
  fail.
\<close>

section \<open>Texts\<close>

text \<open>
  A string bound to a parameter is stored as UTF-8 and compared by its bytes; a column read gives a
  string back. A lone surrogate is replaced on the way in.
\<close>

definition bind_text :: "jsstring \<Rightarrow> bytes" where
  "bind_text s = utf8_encode s"

definition column_text :: "bytes \<Rightarrow> jsstring" where
  "column_text b = concat (map units_of (utf8_points b))"

text \<open>The drivers refuse to bind \<^verbatim>\<open>undefined\<close>.\<close>

definition unsupported_bind :: js_error where
  "unsupported_bind = Error (js ''TypeError'')"

section \<open>The database\<close>

record op_row =
  c_id :: bytes
  c_table_name :: bytes
  c_row_id :: bytes
  c_column_name :: bytes
  c_value :: bytes
  c_hlc :: bytes
  c_device :: bytes
  c_sig :: bytes

record sql_tables =
  t_ops :: "(bytes, op_row) store"
  t_cells :: "(bytes \<times> bytes \<times> bytes, bytes) store"
  t_meta :: "(bytes, bytes) store"

text \<open>\<^verbatim>\<open>CREATE TABLE IF NOT EXISTS\<close> on a file that may already hold the tables.\<close>

definition schema_tables :: "sql_tables option \<Rightarrow> sql_tables" where
  "schema_tables file = (case file of Some T \<Rightarrow> T | None \<Rightarrow> \<lparr>t_ops = [], t_cells = [], t_meta = []\<rparr>)"

text \<open>
  A connection: the tables as it sees them, the tables as they were when the open transaction began,
  and what becomes of the coming statements. A statement that fails inside a transaction changes
  nothing; for some errors (a full disk, say) SQLite also rolls the whole transaction back by itself.
\<close>

datatype sql_fault = Fault js_error (rolls_back: bool)

record sqlite =
  q_tables :: sql_tables
  q_saved :: "sql_tables option"
  q_faults :: "sql_fault option list"

definition open_sqlite :: "sql_fault option list \<Rightarrow> sql_tables option \<Rightarrow> sqlite" where
  "open_sqlite fs file = \<lparr>q_tables = schema_tables file, q_saved = None, q_faults = fs\<rparr>"

definition roll_back :: "sqlite \<Rightarrow> sqlite" where
  "roll_back db = (case q_saved db of None \<Rightarrow> db | Some T \<Rightarrow> db\<lparr>q_tables := T, q_saved := None\<rparr>)"

text \<open>Executing one statement whose effect, when it succeeds, is \<open>f\<close>.\<close>

definition sql_exec :: "(sqlite \<Rightarrow> sqlite) \<Rightarrow> (sqlite, unit) act" where
  "sql_exec f = (\<lambda>db. case q_faults db of
       Some (Fault e rb) # fs \<Rightarrow>
         (Inl e, let db' = db\<lparr>q_faults := fs\<rparr> in if rb then roll_back db' else db')
     | None # fs \<Rightarrow> (Inr (), f (db\<lparr>q_faults := fs\<rparr>))
     | [] \<Rightarrow> (Inr (), f db))"

definition sql_run :: "(sql_tables \<Rightarrow> sql_tables) \<Rightarrow> (sqlite, unit) act" where
  "sql_run f = sql_exec (\<lambda>db. db\<lparr>q_tables := f (q_tables db)\<rparr>)"

definition begin_immediate :: "(sqlite, unit) act" where
  "begin_immediate = (\<lambda>db.
     if q_saved db \<noteq> None then (Inl (Error (js ''cannot start a transaction within a transaction'')), db)
     else sql_exec (\<lambda>db. db\<lparr>q_saved := Some (q_tables db)\<rparr>) db)"

definition commit_transaction :: "(sqlite, unit) act" where
  "commit_transaction = (\<lambda>db.
     if q_saved db = None then (Inl (Error (js ''cannot commit - no transaction is active'')), db)
     else sql_exec (\<lambda>db. db\<lparr>q_saved := None\<rparr>) db)"

text \<open>A rollback fails only when no transaction is open.\<close>

definition rollback_transaction :: "(sqlite, unit) act" where
  "rollback_transaction = (\<lambda>db.
     if q_saved db = None then (Inl (Error (js ''cannot rollback - no transaction is active'')), db)
     else (Inr (), roll_back db))"

section \<open>Statements\<close>

subsection \<open>Writes\<close>

definition new_row :: "op \<Rightarrow> jsstring \<Rightarrow> op_row" where
  "new_row p v = \<lparr>c_id = bind_text (o_id p), c_table_name = bind_text (o_table p), c_row_id = bind_text (o_row p),
     c_column_name = bind_text (o_column p), c_value = bind_text v, c_hlc = bind_text (o_hlc p),
     c_device = bind_text (o_device p), c_sig = bind_text (o_sig p)\<rparr>"

definition sql_insertOp :: "op_row \<Rightarrow> (sqlite, unit) act" where
  "sql_insertOp r = sql_run (\<lambda>T. T\<lparr>t_ops := store_insert_new (c_id r) r (t_ops T)\<rparr>)"

definition sql_deleteOp :: "jsstring \<Rightarrow> (sqlite, unit) act" where
  "sql_deleteOp i = sql_run (\<lambda>T. T\<lparr>t_ops := map_del (bind_text i) (t_ops T)\<rparr>)"

definition cell_bind :: "cell \<Rightarrow> bytes \<times> bytes \<times> bytes" where
  "cell_bind x = (case x of (t, r, c) \<Rightarrow> (bind_text t, bind_text r, bind_text c))"

definition sql_upsertCell :: "cell \<Rightarrow> jsstring \<Rightarrow> (sqlite, unit) act" where
  "sql_upsertCell x json = sql_run (\<lambda>T. T\<lparr>t_cells := store_put (cell_bind x) (bind_text json) (t_cells T)\<rparr>)"

definition sql_deleteCell :: "cell \<Rightarrow> (sqlite, unit) act" where
  "sql_deleteCell x = sql_run (\<lambda>T. T\<lparr>t_cells := map_del (cell_bind x) (t_cells T)\<rparr>)"

definition sql_setMeta :: "jsstring \<Rightarrow> jsstring \<Rightarrow> (sqlite, unit) act" where
  "sql_setMeta key json = sql_run (\<lambda>T. T\<lparr>t_meta := store_put (bind_text key) (bind_text json) (t_meta T)\<rparr>)"

subsection \<open>Queries\<close>

definition sql_getCell :: "sql_tables \<Rightarrow> jsstring \<Rightarrow> jsstring \<Rightarrow> jsstring \<Rightarrow> bytes option" where
  "sql_getCell T t r c = map_of (t_cells T) (cell_bind (t, r, c))"

definition sql_rowCells :: "sql_tables \<Rightarrow> jsstring \<Rightarrow> jsstring \<Rightarrow> (bytes \<times> bytes) list" where
  "sql_rowCells T t r =
     map (\<lambda>((_, _, c), json). (c, json)) (filter (\<lambda>((t', r', _), _). t' = bind_text t \<and> r' = bind_text r) (t_cells T))"

definition sql_tableRows :: "sql_tables \<Rightarrow> jsstring \<Rightarrow> bytes list" where
  "sql_tableRows T t = set_of (map (\<lambda>((_, r, _), _). r) (filter (\<lambda>((t', _, _), _). t' = bind_text t) (t_cells T)))"

definition sql_tables_named :: "sql_tables \<Rightarrow> bytes list" where
  "sql_tables_named T = set_of (map (\<lambda>((t, _, _), _). t) (t_cells T))"

definition sql_countOp :: "sql_tables \<Rightarrow> jsstring \<Rightarrow> nat option" where
  "sql_countOp T i = map_option (\<lambda>_. 1) (map_of (t_ops T) (bind_text i))"

definition sql_countOps :: "sql_tables \<Rightarrow> nat" where
  "sql_countOps T = length (t_ops T)"

definition sql_allOps :: "sql_tables \<Rightarrow> op_row list" where
  "sql_allOps T = sort_key c_id (map snd (t_ops T))"

definition sql_opsAboveFor :: "sql_tables \<Rightarrow> jsstring \<Rightarrow> jsstring \<Rightarrow> op_row list" where
  "sql_opsAboveFor T d h =
     sort_key c_hlc (filter (\<lambda>r. c_device r = bind_text d \<and> bind_text h < c_hlc r) (map snd (t_ops T)))"

definition sql_getMeta :: "sql_tables \<Rightarrow> jsstring \<Rightarrow> bytes option" where
  "sql_getMeta T key = map_of (t_meta T) (bind_text key)"

section \<open>JSON in the columns\<close>

definition parse_json :: "bytes \<Rightarrow> jsval result" where
  "parse_json b = (case json_parse (column_text b) of None \<Rightarrow> Inl (Error (js ''SyntaxError'')) | Some v \<Rightarrow> Inr v)"

text \<open>
  The types the code asserts of what it parsed (\<^verbatim>\<open>JSON.parse(..) as Op\<close>) are checked by nobody; a
  value of another shape has no counterpart in the typed model and is an error here.
\<close>

definition ill_typed :: js_error where
  "ill_typed = Error (js ''not of the asserted type'')"

definition str_of_js :: "jsval \<Rightarrow> jsstring result" where
  "str_of_js v = (case v of JStr s \<Rightarrow> Inr s | _ \<Rightarrow> Inl ill_typed)"

definition obj_of_js :: "jsval \<Rightarrow> (jsstring, jsval) jsmap result" where
  "obj_of_js v = (case v of JObj kvs \<Rightarrow> Inr kvs | _ \<Rightarrow> Inl ill_typed)"

definition str_prop :: "(jsstring, jsval) jsmap \<Rightarrow> jsstring \<Rightarrow> jsstring result" where
  "str_prop ob k = str_of_js (get_prop ob k)"

definition op_of_js :: "jsval \<Rightarrow> op result" where
  "op_of_js v =
     bind_res (obj_of_js v) (\<lambda>ob.
     bind_res (map_res (str_prop ob) (map js [''id'', ''table'', ''row'', ''column'', ''hlc'', ''device'', ''sig''])) (\<lambda>ss.
     Inr \<lparr>o_id = ss ! 0, o_table = ss ! 1, o_row = ss ! 2, o_column = ss ! 3, o_value = get_prop ob (js ''value''),
          o_hlc = ss ! 4, o_sig = ss ! 6, o_device = ss ! 5\<rparr>))"

text \<open>The objects of the \<^verbatim>\<open>meta\<close> table.\<close>

definition frontier_js :: "frontier \<Rightarrow> jsval" where
  "frontier_js f = JObj (map (\<lambda>(d, h). (d, JStr h)) f)"

definition frontier_of_js :: "jsval \<Rightarrow> frontier result" where
  "frontier_of_js v = bind_res (obj_of_js v) (\<lambda>kvs.
     map_res (\<lambda>(d, h). bind_res (str_of_js h) (\<lambda>s. Inr (d, s))) kvs)"

definition clock_js :: "clock_pair \<Rightarrow> jsval" where
  "clock_js ck = JObj [(js ''millis'', JNum (num_of_nat (cs_millis ck))), (js ''counter'', JNum (num_of_nat (cs_counter ck)))]"

definition nat_of_js :: "jsval \<Rightarrow> nat result" where
  "nat_of_js v = (case v of JNum n \<Rightarrow> (case nat_of_num n of Some k \<Rightarrow> Inr k | None \<Rightarrow> Inl ill_typed) | _ \<Rightarrow> Inl ill_typed)"

definition clock_of_js :: "jsval \<Rightarrow> clock_pair result" where
  "clock_of_js v = bind_res (obj_of_js v) (\<lambda>ob.
     bind_res (nat_of_js (get_prop ob (js ''millis''))) (\<lambda>m.
     bind_res (nat_of_js (get_prop ob (js ''counter''))) (\<lambda>c. Inr \<lparr>cs_millis = m, cs_counter = c\<rparr>)))"

definition key_js :: "device_key \<Rightarrow> jsval" where
  "key_js k = JObj [(js ''publicKey'', JStr (hex (publicKey k))), (js ''privateKey'', JStr (hex (privateKey k)))]"

definition key_of_js :: "jsval \<Rightarrow> device_key result" where
  "key_of_js v = bind_res (obj_of_js v) (\<lambda>ob.
     bind_res (str_prop ob (js ''publicKey'')) (\<lambda>p.
     bind_res (str_prop ob (js ''privateKey'')) (\<lambda>s. Inr \<lparr>publicKey = unhex p, privateKey = unhex s\<rparr>)))"

definition peers_js :: "(jsstring, frontier) jsmap \<Rightarrow> jsval" where
  "peers_js ps = JObj (map (\<lambda>(d, f). (d, frontier_js f)) ps)"

definition peers_of_js :: "jsval \<Rightarrow> (jsstring, frontier) jsmap result" where
  "peers_of_js v = bind_res (obj_of_js v) (\<lambda>kvs.
     map_res (\<lambda>(d, w). bind_res (frontier_of_js w) (\<lambda>f. Inr (d, f))) kvs)"

section \<open>Methods\<close>

text \<open>\<^verbatim>\<open>readMeta(key)\<close>; \<^verbatim>\<open>undefined\<close> is \<open>None\<close>.\<close>

definition readMeta :: "sql_tables \<Rightarrow> jsstring \<Rightarrow> jsval option result" where
  "readMeta T key = (case sql_getMeta T key of
     None \<Rightarrow> Inr None
   | Some b \<Rightarrow> bind_res (parse_json b) (\<lambda>v. Inr (Some v)))"

definition writeMeta :: "jsstring \<Rightarrow> jsval \<Rightarrow> (sqlite, unit) act" where
  "writeMeta key v = (case json_stringify v of None \<Rightarrow> throw unsupported_bind | Some t \<Rightarrow> sql_setMeta key t)"

text \<open>\<^verbatim>\<open>x ?? {}\<close> and \<^verbatim>\<open>if (!x) return undefined\<close> over a parsed value.\<close>

definition nullish :: "jsval option \<Rightarrow> jsval option" where
  "nullish x = (if x = Some JNull then None else x)"

definition falsy :: "jsval option \<Rightarrow> jsval option" where
  "falsy x = (if x \<in> Some ` {JNull, JBool False, JNum Zero, JStr []} then None else x)"

definition read_as :: "(jsval \<Rightarrow> 'a result) \<Rightarrow> jsval option \<Rightarrow> 'a option result" where
  "read_as f x = (case x of None \<Rightarrow> Inr None | Some v \<Rightarrow> bind_res (f v) (\<lambda>y. Inr (Some y)))"

definition toOp :: "op_row \<Rightarrow> op result" where
  "toOp r = bind_res (parse_json (c_value r)) (\<lambda>v.
     Inr \<lparr>o_id = column_text (c_id r), o_table = column_text (c_table_name r), o_row = column_text (c_row_id r),
          o_column = column_text (c_column_name r), o_value = v, o_hlc = column_text (c_hlc r),
          o_sig = column_text (c_sig r), o_device = column_text (c_device r)\<rparr>)"

definition parse_op :: "bytes \<Rightarrow> op result" where
  "parse_op b = bind_res (parse_json b) op_of_js"

definition sqlite_getRow :: "sql_tables \<Rightarrow> jsstring \<Rightarrow> jsstring \<Rightarrow> (jsstring, op) jsmap option result" where
  "sqlite_getRow T t r =
     (let rows = sql_rowCells T t r
      in if rows = [] then Inr None
         else bind_res (map_res (\<lambda>(c, json). bind_res (parse_op json) (\<lambda>p. Inr (column_text c, p))) rows)
                (\<lambda>entries. Inr (Some (fold (\<lambda>(c, p). map_set c p) entries []))))"

definition sqlite_listRows :: "sql_tables \<Rightarrow> jsstring \<Rightarrow> jsstring list" where
  "sqlite_listRows T t = map column_text (sql_tableRows T t)"

definition sqlite_listTables :: "sql_tables \<Rightarrow> jsstring list" where
  "sqlite_listTables T = map column_text (sql_tables_named T)"

definition sqlite_hasOp :: "sql_tables \<Rightarrow> jsstring \<Rightarrow> bool" where
  "sqlite_hasOp T i = (sql_countOp T i \<noteq> None)"

definition sqlite_getWinner :: "sql_tables \<Rightarrow> jsstring \<Rightarrow> jsstring \<Rightarrow> jsstring \<Rightarrow> op option result" where
  "sqlite_getWinner T t r c = (case sql_getCell T t r c of
     None \<Rightarrow> Inr None
   | Some json \<Rightarrow> bind_res (parse_op json) (\<lambda>p. Inr (Some p)))"

text \<open>\<^verbatim>\<open>Object.keys\<close>: every own key once.\<close>

definition object_keys :: "('k, 'v) jsmap \<Rightarrow> 'k list" where
  "object_keys m = set_of (map fst m)"

definition sqlite_opsSince :: "sql_tables \<Rightarrow> frontier \<Rightarrow> op list result" where
  "sqlite_opsSince T f =
     (let devices = object_keys f
      in if devices = [] then map_res toOp (sql_allOps T)
         else
           let known = concat (map (\<lambda>d. sql_opsAboveFor T d (the (map_of f d))) devices);
               seen = set_of (map (\<lambda>r. column_text (c_id r)) known);
               unknown = filter (\<lambda>r. map_of f (column_text (c_device r)) = None \<and> column_text (c_id r) \<notin> set seen) (sql_allOps T)
           in bind_res (map_res toOp (known @ unknown)) (\<lambda>out. Inr (sort_key o_hlc out)))"

definition sqlite_getFrontier :: "sql_tables \<Rightarrow> frontier result" where
  "sqlite_getFrontier T = bind_res (readMeta T (js ''frontier'')) (\<lambda>x.
     bind_res (read_as frontier_of_js (nullish x)) (\<lambda>f. Inr (or_empty f)))"

definition sqlite_getClock :: "sql_tables \<Rightarrow> clock_pair option result" where
  "sqlite_getClock T = bind_res (readMeta T (js ''clock'')) (read_as clock_of_js)"

definition sqlite_getDeviceKey :: "sql_tables \<Rightarrow> device_key option result" where
  "sqlite_getDeviceKey T = bind_res (readMeta T (js ''deviceKey'')) (\<lambda>x. read_as key_of_js (falsy x))"

definition sqlite_setDeviceKey :: "device_key \<Rightarrow> (sqlite, unit) act" where
  "sqlite_setDeviceKey k = writeMeta (js ''deviceKey'') (key_js k)"

definition sqlite_opCount :: "sql_tables \<Rightarrow> nat" where
  "sqlite_opCount T = sql_countOps T"

definition sqlite_allOps :: "sql_tables \<Rightarrow> op list result" where
  "sqlite_allOps T = map_res toOp (sql_allOps T)"

definition sqlite_getPeerFrontiers :: "sql_tables \<Rightarrow> (jsstring, frontier) jsmap result" where
  "sqlite_getPeerFrontiers T = bind_res (readMeta T (js ''peers'')) (\<lambda>x.
     bind_res (read_as peers_of_js (nullish x)) (\<lambda>ps. Inr (or_empty ps)))"

text \<open>\<^verbatim>\<open>{ ...current, [peer]: frontier }\<close> lists its keys in the language's order.\<close>

definition sqlite_write_peer :: "jsstring \<Rightarrow> frontier \<Rightarrow> (jsstring, frontier) jsmap \<Rightarrow> (sqlite, unit) act" where
  "sqlite_write_peer peer f current = writeMeta (js ''peers'') (peers_js (entry_order (map_set peer f current)))"

definition sqlite_setPeerFrontier :: "jsstring \<Rightarrow> frontier \<Rightarrow> (sqlite, unit) act" where
  "sqlite_setPeerFrontier peer f = bind_act (\<lambda>db. (sqlite_getPeerFrontiers (q_tables db), db)) (sqlite_write_peer peer f)"

section \<open>The write path\<close>

text \<open>
  \<^verbatim>\<open>transaction(fn)\<close>. The error of the body or of the commit is rethrown; that of a rollback after
  SQLite has already rolled back is swallowed.
\<close>

definition sql_transaction :: "(sqlite, unit) act \<Rightarrow> (sqlite, unit) act" where
  "sql_transaction fn = bind_act begin_immediate (\<lambda>_ db.
     case bind_act fn (\<lambda>_. commit_transaction) db of
       (Inr u, db') \<Rightarrow> (Inr u, db')
     | (Inl e, db') \<Rightarrow> (Inl e, snd (rollback_transaction db')))"

fun each_act :: "('a \<Rightarrow> ('s, unit) act) \<Rightarrow> 'a list \<Rightarrow> ('s, unit) act" where
  "each_act f [] = ret ()"
| "each_act f (x # xs) = bind_act (f x) (\<lambda>_. each_act f xs)"

definition insert_op :: "op \<Rightarrow> (sqlite, unit) act" where
  "insert_op p = (case json_stringify (o_value p) of
     None \<Rightarrow> throw unsupported_bind
   | Some v \<Rightarrow> sql_insertOp (new_row p v))"

text \<open>A key with fewer than three parts leaves a parameter \<^verbatim>\<open>undefined\<close>.\<close>

definition upsert_winner :: "jsstring \<times> op \<Rightarrow> (sqlite, unit) act" where
  "upsert_winner w = (case (split_key (fst w), json_stringify (op_to_js (snd w))) of
     (Some x, Some t) \<Rightarrow> sql_upsertCell x t
   | _ \<Rightarrow> throw unsupported_bind)"

definition delete_cell :: "jsstring \<Rightarrow> (sqlite, unit) act" where
  "delete_cell k = (case split_key k of Some x \<Rightarrow> sql_deleteCell x | None \<Rightarrow> throw unsupported_bind)"

definition sqlite_applyBatch :: "batch \<Rightarrow> (sqlite, unit) act" where
  "sqlite_applyBatch b = sql_transaction
     (bind_act (each_act insert_op (b_ops b)) (\<lambda>_.
      bind_act (each_act upsert_winner (b_winners b)) (\<lambda>_.
      bind_act (writeMeta (js ''frontier'') (frontier_js (b_frontier b))) (\<lambda>_.
      writeMeta (js ''clock'') (clock_js (b_clock b))))))"

definition sqlite_compact :: "compaction_write \<Rightarrow> (sqlite, unit) act" where
  "sqlite_compact w = sql_transaction
     (bind_act (each_act sql_deleteOp (w_opIds w)) (\<lambda>_. each_act delete_cell (w_cellKeys w)))"

text \<open>
  The adapter as the engine sees it. The interface has total reads: a read that would throw, on a
  database with foreign contents, is given a default.
\<close>

definition ok_or :: "'a \<Rightarrow> 'a result \<Rightarrow> 'a" where
  "ok_or d r = (case r of Inl _ \<Rightarrow> d | Inr x \<Rightarrow> x)"

definition sqlite_adapter :: "sqlite storage_ops" where
  "sqlite_adapter = \<lparr>
     getRow = (\<lambda>db t r. ok_or None (sqlite_getRow (q_tables db) t r)),
     listRows = sqlite_listRows \<circ> q_tables, listTables = sqlite_listTables \<circ> q_tables,
     hasOp = sqlite_hasOp \<circ> q_tables, getWinner = (\<lambda>db t r c. ok_or None (sqlite_getWinner (q_tables db) t r c)),
     opsSince = (\<lambda>db f. ok_or [] (sqlite_opsSince (q_tables db) f)),
     getFrontier = ok_or [] \<circ> sqlite_getFrontier \<circ> q_tables, getClock = ok_or None \<circ> sqlite_getClock \<circ> q_tables,
     getDeviceKey = ok_or None \<circ> sqlite_getDeviceKey \<circ> q_tables, setDeviceKey = sqlite_setDeviceKey,
     applyBatch = sqlite_applyBatch, opCount = sqlite_opCount \<circ> q_tables, allOps = ok_or [] \<circ> sqlite_allOps \<circ> q_tables,
     getPeerFrontiers = ok_or [] \<circ> sqlite_getPeerFrontiers \<circ> q_tables, setPeerFrontier = sqlite_setPeerFrontier,
     compact_store = sqlite_compact\<rparr>"

end
