(* ===== verification/Sqlite_Contract.thy ===== *)
theory Sqlite_Contract
  imports Sqlite
begin

text \<open>
  The SQLite adapter meets the storage contract: what the columns hold is the text of the replica,
  every read of it succeeds and gives the value that was written, and a transaction applies all of
  its statements or none.
\<close>

section \<open>Bound texts\<close>

lemma column_bind: "well_formed s \<Longrightarrow> column_text (bind_text s) = s"
  by (simp add: column_text_def bind_text_def utf8_encode_def decode_cps points_scalar units_points)

lemma ascii_column: "ascii s \<Longrightarrow> column_text (bind_text s) = s"
  by (intro column_bind ascii_well_formed) (simp add: ascii_def)

lemma utf8_cp_large:
  assumes "0x80 \<le> n" "n < 0x110000"
  shows "\<exists>b bs. utf8_cp n = b # bs \<and> 0x80 \<le> b"
proof -
  have b: "0x80 \<le> (of_nat m :: byte)" if "0x80 \<le> m" "m < 256" for m
    using that by (simp add: word_le_nat_alt unat_of_nat_byte)
  consider "n < 0x800" | "0x800 \<le> n" "n < 0x10000" | "0x10000 \<le> n" by linarith
  then show ?thesis
  proof cases
    case 1
    then have "n div 64 < 32" by linarith
    with 1 assms(1) b[of "0xC0 + n div 64"] show ?thesis by (simp add: utf8_cp_def del: of_nat_add)
  next
    case 2
    then have "n div 4096 < 16" by linarith
    with 2 assms(1) b[of "0xE0 + n div 4096"] show ?thesis by (simp add: utf8_cp_def del: of_nat_add)
  next
    case 3
    then have "n div 262144 < 16" using assms(2) by linarith
    with 3 assms(1) b[of "0xF0 + n div 262144"] show ?thesis by (simp add: utf8_cp_def del: of_nat_add)
  qed
qed

text \<open>The first byte of an encoded string tells whether its first unit is ASCII.\<close>

lemma encode_ascii: "c < 0x80 \<Longrightarrow> utf8_encode (c # s) = of_nat (unat c) # utf8_encode s"
  by (cases s) (auto simp: utf8_encode_def utf8_cp_def is_surrogate_def word_less_nat_alt word_le_nat_alt)

lemma encode_large:
  assumes "\<not> c < 0x80"
  shows "\<exists>b bs. utf8_encode (c # s) = b # bs \<and> 0x80 \<le> b"
proof -
  have u: "unat c < 0x10000" "0x80 \<le> unat c"
    using unsigned_less[of c, where ?'a = nat] assms by (auto simp: word_less_nat_alt)
  obtain n ns where n: "code_points (c # s) = n # ns" "0x80 \<le> n" "n < 0x110000"
  proof (cases s)
    case Nil
    then show thesis using that u by (cases "is_surrogate c") simp_all
  next
    case (Cons d cs)
    show thesis
    proof (cases "0xD800 \<le> c \<and> c \<le> 0xDBFF \<and> 0xDC00 \<le> d \<and> d \<le> 0xDFFF")
      case True
      then have "scalar (pair_code_point c d)" using pair_units(2) by blast
      then have "pair_code_point c d < 0x110000" by (auto simp: scalar_def)
      moreover have "0x80 \<le> pair_code_point c d" by (simp add: pair_code_point_def)
      ultimately show thesis using that True Cons by simp
    next
      case False
      then show thesis using that u Cons by (cases "is_surrogate c") auto
    qed
  qed
  obtain b bs where "utf8_cp n = b # bs" "0x80 \<le> b" using utf8_cp_large[OF n(2,3)] by blast
  then show ?thesis by (simp add: utf8_encode_def n(1))
qed

text \<open>Against an ASCII text, the order of the bytes is the order of the code units.\<close>

lemma byte_of_unit: "c < (0x80 :: code_unit) \<Longrightarrow> unat (of_nat (unat c) :: byte) = unat c"
  by (intro unat_of_nat_byte) (simp add: word_less_nat_alt)

lemma encode_less_ascii: "ascii a \<Longrightarrow> utf8_encode s < utf8_encode a \<longleftrightarrow> s < a"
proof (induction s arbitrary: a)
  case Nil
  then show ?case by (cases a) (auto simp: utf8_encode_def encode_ascii[unfolded utf8_encode_def] ascii_def)
next
  case (Cons c s)
  show ?case
  proof (cases a)
    case Nil
    then show ?thesis by (simp add: utf8_encode_def)
  next
    case a: (Cons d t)
    have d: "d < 0x80" "ascii t" using Cons.prems by (simp_all add: a ascii_def)
    show ?thesis
    proof (cases "c < 0x80")
      case True
      have "(of_nat (unat c) :: byte) < of_nat (unat d) \<longleftrightarrow> c < d" "(of_nat (unat c) :: byte) = of_nat (unat d) \<longleftrightarrow> c = d"
        using byte_of_unit[OF True] byte_of_unit[OF d(1)] by (simp_all add: word_less_nat_alt word_unat_eq_iff)
      then show ?thesis using Cons.IH[OF d(2)] by (simp add: a encode_ascii True d(1))
    next
      case False
      obtain b bs where b: "utf8_encode (c # s) = b # bs" "0x80 \<le> b" using encode_large[OF False] by blast
      have "(of_nat (unat d) :: byte) < b"
        using b(2) byte_of_unit[OF d(1)] d(1) by (simp add: word_less_nat_alt word_le_nat_alt)
      moreover have "d < c" using False d(1) by (simp add: word_less_nat_alt)
      ultimately show ?thesis by (auto simp: a encode_ascii d(1) b(1))
    qed
  qed
qed

lemma encode_eq_ascii: "ascii a \<Longrightarrow> utf8_encode s = utf8_encode a \<longleftrightarrow> s = a"
proof (induction s arbitrary: a)
  case Nil
  then show ?case by (cases a) (auto simp: utf8_encode_def encode_ascii[unfolded utf8_encode_def] ascii_def)
next
  case (Cons c s)
  show ?case
  proof (cases a)
    case Nil
    then show ?thesis using encode_large[of c s] by (cases "c < 0x80") (auto simp: encode_ascii, auto simp: utf8_encode_def)
  next
    case a: (Cons d t)
    have d: "d < 0x80" "ascii t" using Cons.prems by (simp_all add: a ascii_def)
    show ?thesis
    proof (cases "c < 0x80")
      case True
      have "(of_nat (unat c) :: byte) = of_nat (unat d) \<longleftrightarrow> c = d"
        using byte_of_unit[OF True] byte_of_unit[OF d(1)] by (simp add: word_unat_eq_iff)
      then show ?thesis using Cons.IH[OF d(2)] by (simp add: a encode_ascii True d(1))
    next
      case False
      obtain b bs where b: "utf8_encode (c # s) = b # bs" "0x80 \<le> b" using encode_large[OF False] by blast
      have "(of_nat (unat d) :: byte) < b"
        using b(2) byte_of_unit[OF d(1)] d(1) by (simp add: word_less_nat_alt word_le_nat_alt)
      then show ?thesis using False d(1) by (auto simp: a encode_ascii b(1))
    qed
  qed
qed

lemma bind_less: "ascii a \<Longrightarrow> bind_text s < bind_text a \<longleftrightarrow> s < a"
  by (simp add: bind_text_def encode_less_ascii)

lemma bind_eq: "ascii a \<Longrightarrow> bind_text s = bind_text a \<longleftrightarrow> s = a"
  by (simp add: bind_text_def encode_eq_ascii)

lemma bind_eq': "ascii a \<Longrightarrow> bind_text a = bind_text s \<longleftrightarrow> s = a"
  using bind_eq by metis

section \<open>What the columns hold reads back\<close>

definition json_bytes :: "jsval \<Rightarrow> bytes" where
  "json_bytes v = bind_text (the (json_stringify v))"

lemma parse_json_bytes: "is_json v \<Longrightarrow> parse_json (json_bytes v) = Inr v"
  using plain_stringify[OF is_json_tree, of v] json_stringify_tree[OF is_json_tree, of v] parse_stringify_json[of v]
  by (auto simp: parse_json_def json_bytes_def plain_text_def column_bind)

lemma bind_stringify: "is_json v \<Longrightarrow> \<exists>t. json_stringify v = Some t \<and> bind_text t = json_bytes v"
  using json_stringify_tree[OF is_json_tree, of v] by (auto simp: json_bytes_def)

lemma op_of_js_op: "op_of_js (op_to_js p) = Inr p"
  by (simp add: op_of_js_def op_to_js_def obj_of_js_def str_prop_def str_of_js_def get_prop_def)

lemma parse_op_bytes: "storable p \<Longrightarrow> parse_op (json_bytes (op_to_js p)) = Inr p"
  by (simp add: parse_op_def parse_json_bytes op_of_js_op storable_def)

definition op_bytes :: "op \<Rightarrow> op_row" where
  "op_bytes p = new_row p (the (json_stringify (o_value p)))"

lemma toOp_bytes: "storable p \<Longrightarrow> toOp (op_bytes p) = Inr p"
  using parse_json_bytes[of "o_value p", unfolded json_bytes_def]
  by (simp add: toOp_def op_bytes_def new_row_def storable_def ascii_column)

lemma insort_key_map: "insort_key k (g x) (map g xs) = map g (insort_key (\<lambda>y. k (g y)) x xs)"
  by (induction xs) auto

lemma sort_key_map: "sort_key k (map g xs) = map g (sort_key (\<lambda>y. k (g y)) xs)"
  by (induction xs) (auto simp: insort_key_map)

lemma entry_order_map: "entry_order (map (\<lambda>(k, v). (k, g v)) kvs) = map (\<lambda>(k, v). (k, g v)) (entry_order kvs)"
  by (simp add: entry_order_def filter_map sort_key_map comp_def case_prod_beta)

lemma map_res_map_Inr: "(\<And>x. x \<in> set xs \<Longrightarrow> f (g x) = Inr x) \<Longrightarrow> map_res f (map g xs) = Inr xs"
  by (induction xs) auto

lemma frontier_codec:
  "js_frontier f \<Longrightarrow> is_json (frontier_js f)" "frontier_of_js (frontier_js f) = Inr f"
proof -
  show "js_frontier f \<Longrightarrow> is_json (frontier_js f)"
    by (auto simp: js_frontier_def frontier_js_def entry_order_map comp_def case_prod_beta)
  show "frontier_of_js (frontier_js f) = Inr f"
    by (simp add: frontier_of_js_def frontier_js_def obj_of_js_def) (rule map_res_map_Inr, auto simp: str_of_js_def)
qed

lemma clock_codec:
  assumes "safe_clock ck"
  shows "is_json (clock_js ck)" "clock_of_js (clock_js ck) = Inr ck"
proof -
  have "entry_order [(js ''millis'', a), (js ''counter'', b)] = [(js ''millis'', a), (js ''counter'', b)]" for a b :: jsval
    by (rule entry_order_names) (simp add: array_index_def is_dec_def js_def)
  then show "is_json (clock_js ck)"
    using assms by (simp add: clock_js_def safe_clock_def wf_num_of_nat finite_num_of_nat)
  show "clock_of_js (clock_js ck) = Inr ck"
    by (simp add: clock_of_js_def clock_js_def obj_of_js_def nat_of_js_def get_prop_def nat_of_num_of_nat)
qed

lemma key_codec: "is_json (key_js k)" "key_of_js (key_js k) = Inr k"
proof -
  have "entry_order [(js ''publicKey'', a), (js ''privateKey'', b)] = [(js ''publicKey'', a), (js ''privateKey'', b)]" for a b :: jsval
    by (rule entry_order_names) (simp add: array_index_def is_dec_def js_def)
  then show "is_json (key_js k)" by (simp add: key_js_def)
  show "key_of_js (key_js k) = Inr k"
    by (simp add: key_of_js_def key_js_def obj_of_js_def str_prop_def str_of_js_def get_prop_def unhex_hex)
qed

text \<open>The peers record: an object of frontiers.\<close>

definition js_peers :: "(jsstring, frontier) jsmap \<Rightarrow> bool" where
  "js_peers ps \<longleftrightarrow> dkeys ps \<and> entry_order ps = ps \<and> (\<forall>f \<in> snd ` set ps. js_frontier f)"

lemma peers_codec:
  "js_peers ps \<Longrightarrow> is_json (peers_js ps)" "peers_of_js (peers_js ps) = Inr ps"
proof -
  show "js_peers ps \<Longrightarrow> is_json (peers_js ps)"
    using frontier_codec(1)
    by (force simp: js_peers_def peers_js_def entry_order_map comp_def case_prod_beta)
  show "peers_of_js (peers_js ps) = Inr ps"
    by (simp add: peers_of_js_def peers_js_def obj_of_js_def) (rule map_res_map_Inr, auto simp: frontier_codec(2))
qed

lemma entry_order_idem: "entry_order (entry_order kvs) = entry_order kvs"
proof -
  let ?i = "\<lambda>e. array_index (fst e) \<noteq> None"
  let ?k = "\<lambda>e. the (array_index (fst e))"
  have "filter ?i (sort_key ?k (filter ?i kvs)) = sort_key ?k (filter ?i kvs)"
    by (simp add: filter_id_conv)
  moreover have "filter (\<lambda>e. array_index (fst e) = None) (sort_key ?k (filter ?i kvs)) = []"
    by (simp add: filter_empty_conv)
  moreover have "filter ?i (filter (\<lambda>e. array_index (fst e) = None) kvs) = []" by (auto simp: filter_empty_conv)
  moreover have "sort_key ?k (sort_key ?k xs) = sort_key ?k xs" for xs :: "(jsstring \<times> 'a) list"
    by (rule sort_key_id_if_sorted) simp
  ultimately show ?thesis unfolding entry_order_def filter_append by simp
qed

lemma js_peers_set:
  assumes "js_peers ps" "js_frontier f"
  shows "js_peers (entry_order (map_set d f ps))" "map_of (entry_order (map_set d f ps)) = (map_of ps)(d \<mapsto> f)"
proof -
  have d: "dkeys (map_set d f ps)" using assms(1) by (simp add: js_peers_def)
  have "set (entry_order (map_set d f ps)) = set (map_set d f ps)" using mset_entry_order by (rule mset_eq_setD)
  then have "\<forall>g \<in> snd ` set (entry_order (map_set d f ps)). js_frontier g"
    using assms set_map_set_subset[of d f ps] by (auto simp: js_peers_def)
  then show "js_peers (entry_order (map_set d f ps))"
    using d by (simp add: js_peers_def entry_order_idem dkeys_entry_order)
  show "map_of (entry_order (map_set d f ps)) = (map_of ps)(d \<mapsto> f)" using d by (simp add: map_of_entry_order)
qed

section \<open>The invariant and the replica\<close>

definition tables_inv :: "sql_tables \<Rightarrow> bool" where
  "tables_inv T \<longleftrightarrow> ordered (t_ops T) \<and> ordered (t_cells T) \<and> ordered (t_meta T) \<and>
     (\<forall>k r. map_of (t_ops T) k = Some r \<longrightarrow> (\<exists>p. storable p \<and> k = bind_text (o_id p) \<and> r = op_bytes p)) \<and>
     (\<forall>k b. map_of (t_cells T) k = Some b \<longrightarrow>
        (\<exists>p. storable p \<and> k = cell_bind (op_cell p) \<and> b = json_bytes (op_to_js p))) \<and>
     (\<forall>b. sql_getMeta T (js ''frontier'') = Some b \<longrightarrow> (\<exists>f. js_frontier f \<and> b = json_bytes (frontier_js f))) \<and>
     (\<forall>b. sql_getMeta T (js ''clock'') = Some b \<longrightarrow> (\<exists>ck. safe_clock ck \<and> b = json_bytes (clock_js ck))) \<and>
     (\<forall>b. sql_getMeta T (js ''deviceKey'') = Some b \<longrightarrow> (\<exists>k. b = json_bytes (key_js k))) \<and>
     (\<forall>b. sql_getMeta T (js ''peers'') = Some b \<longrightarrow> (\<exists>ps. js_peers ps \<and> b = json_bytes (peers_js ps)))"

definition opt_of :: "'a result \<Rightarrow> 'a option" where
  "opt_of r = (case r of Inl _ \<Rightarrow> None | Inr x \<Rightarrow> Some x)"

lemma opt_of_simps [simp]: "opt_of (Inr x) = Some x" "opt_of (Inl e) = None" "ok_or d (Inr x) = x"
  by (simp_all add: opt_of_def ok_or_def)

lemma opt_of_Some [simp]: "opt_of r = Some x \<longleftrightarrow> r = Inr x"
  by (cases r) simp_all

definition tables_view :: "sql_tables \<Rightarrow> replica" where
  "tables_view T = \<lparr>
     r_log = (\<lambda>i. Option.bind (map_of (t_ops T) (bind_text i)) (opt_of \<circ> toOp)),
     r_cells = (\<lambda>x. Option.bind (map_of (t_cells T) (cell_bind x)) (opt_of \<circ> parse_op)),
     r_front = ok_or [] (sqlite_getFrontier T), r_clock = ok_or None (sqlite_getClock T),
     r_key = ok_or None (sqlite_getDeviceKey T), r_peers = map_of (ok_or [] (sqlite_getPeerFrontiers T))\<rparr>"

definition sqlite_inv :: "sqlite \<Rightarrow> bool" where
  "sqlite_inv db \<longleftrightarrow> tables_inv (q_tables db) \<and> q_saved db = None"

definition sqlite_view :: "sqlite \<Rightarrow> replica" where
  "sqlite_view db = tables_view (q_tables db)"

lemma tables_invD:
  assumes "tables_inv T"
  shows "ordered (t_ops T)" "ordered (t_cells T)" "ordered (t_meta T)"
    "map_of (t_ops T) k = Some r \<Longrightarrow> \<exists>p. storable p \<and> k = bind_text (o_id p) \<and> r = op_bytes p"
    "map_of (t_cells T) x = Some b \<Longrightarrow> \<exists>p. storable p \<and> x = cell_bind (op_cell p) \<and> b = json_bytes (op_to_js p)"
  using assms unfolding tables_inv_def by blast+

lemma storable_ascii:
  "storable p \<Longrightarrow> ascii (o_id p) \<and> ascii (o_hlc p) \<and> ascii (o_device p) \<and> ascii (o_table p) \<and> ascii (o_row p) \<and> ascii (o_column p)"
  by (simp add: storable_def)

lemma cell_bind_op: "storable p \<Longrightarrow> cell_bind x = cell_bind (op_cell p) \<longleftrightarrow> x = op_cell p"
  by (cases x) (auto simp: cell_bind_def op_cell_def bind_eq dest!: storable_ascii)

subsection \<open>The log\<close>

lemma log_at:
  assumes "tables_inv T"
  shows "r_log (tables_view T) i = Some p \<longleftrightarrow> storable p \<and> o_id p = i \<and> map_of (t_ops T) (bind_text i) = Some (op_bytes p)"
proof
  assume "r_log (tables_view T) i = Some p"
  then obtain r where r: "map_of (t_ops T) (bind_text i) = Some r" "toOp r = Inr p"
    by (auto simp: tables_view_def bind_eq_Some_conv)
  from tables_invD(4)[OF assms r(1)] obtain q where q: "storable q" "bind_text i = bind_text (o_id q)" "r = op_bytes q" by blast
  with r(2) toOp_bytes have "q = p" by simp
  with q r(1) show "storable p \<and> o_id p = i \<and> map_of (t_ops T) (bind_text i) = Some (op_bytes p)"
    using bind_eq storable_ascii by auto
next
  assume "storable p \<and> o_id p = i \<and> map_of (t_ops T) (bind_text i) = Some (op_bytes p)"
  then show "r_log (tables_view T) i = Some p" by (simp add: tables_view_def toOp_bytes)
qed

text \<open>The rows of the table are those of the logged operations.\<close>

definition op_of_row :: "op_row \<Rightarrow> op" where
  "op_of_row r = the (opt_of (toOp r))"

lemma stored_row:
  assumes "tables_inv T" "r \<in> snd ` set (t_ops T)"
  shows "toOp r = Inr (op_of_row r)" "r = op_bytes (op_of_row r)" "storable (op_of_row r)"
    "op_of_row r \<in> ran (r_log (tables_view T))"
proof -
  obtain k where k: "map_of (t_ops T) k = Some r"
    using assms ordered_distinct[OF tables_invD(1)[OF assms(1)]] by (force intro: map_of_is_SomeI)
  from tables_invD(4)[OF assms(1) this] obtain p where p: "storable p" "k = bind_text (o_id p)" "r = op_bytes p" by blast
  then have o: "op_of_row r = p" by (simp add: op_of_row_def toOp_bytes)
  from p o show "toOp r = Inr (op_of_row r)" "r = op_bytes (op_of_row r)" "storable (op_of_row r)"
    by (simp_all add: toOp_bytes)
  have "r_log (tables_view T) (o_id p) = Some p" using log_at[OF assms(1)] p k by simp
  then show "op_of_row r \<in> ran (r_log (tables_view T))" unfolding o by (rule ranI)
qed

lemma logged_row: "tables_inv T \<Longrightarrow> p \<in> ran (r_log (tables_view T)) \<Longrightarrow> op_bytes p \<in> snd ` set (t_ops T) \<and> op_of_row (op_bytes p) = p"
  by (force simp: ran_def log_at op_of_row_def toOp_bytes dest: map_of_SomeD)

lemma map_res_rows:
  assumes "tables_inv T" "set rs \<subseteq> snd ` set (t_ops T)"
  shows "map_res toOp rs = Inr (map op_of_row rs)"
  using assms(2) by (induction rs) (auto simp: stored_row(1)[OF assms(1)])

lemma row_columns:
  assumes "tables_inv T" "r \<in> snd ` set (t_ops T)"
  shows "c_id r = bind_text (o_id (op_of_row r))" "c_hlc r = bind_text (o_hlc (op_of_row r))"
    "c_device r = bind_text (o_device (op_of_row r))" "o_id (op_of_row r) = o_hlc (op_of_row r)"
  using stored_row(2,3)[OF assms] by (metis op_bytes_def new_row_def op_row.simps, metis op_bytes_def new_row_def op_row.simps,
    metis op_bytes_def new_row_def op_row.simps, simp add: storable_def)

lemma row_keys: "tables_inv T \<Longrightarrow> map c_id (map snd (t_ops T)) = map fst (t_ops T)"
  by (rule ordered_values[OF tables_invD(1)]) (auto simp: op_bytes_def new_row_def dest!: tables_invD(4))

lemma rows_distinct:
  assumes "tables_inv T"
  shows "distinct (map snd (t_ops T))" "sorted (map c_id (map snd (t_ops T)))" "inj_on op_of_row (snd ` set (t_ops T))"
    "inj_on c_id (snd ` set (t_ops T))"
proof -
  have i: "distinct (map c_id (map snd (t_ops T)))" "sorted (map c_id (map snd (t_ops T)))"
    using sorted_wrt_less_sorted[OF tables_invD(1)[OF assms]] unfolding row_keys[OF assms] by blast+
  from i(1) show "distinct (map snd (t_ops T))" "inj_on c_id (snd ` set (t_ops T))"
    unfolding distinct_map set_map by blast+
  show "sorted (map c_id (map snd (t_ops T)))" by (rule i(2))
  show "inj_on op_of_row (snd ` set (t_ops T))" by (rule inj_onI) (metis stored_row(2)[OF assms])
qed

lemma sql_allOps_rows: "tables_inv T \<Longrightarrow> sql_allOps T = map snd (t_ops T)"
  using rows_distinct(2) by (simp add: sql_allOps_def sort_key_id_if_sorted)

text \<open>A list of stored rows, each once, in the order of their timestamps.\<close>

lemma rows_sorted_ops:
  assumes inv: "tables_inv T" and rs: "distinct rs" "set rs = {r \<in> snd ` set (t_ops T). P (op_of_row r)}"
    and ps: "mset ps = mset (map op_of_row rs)" "sorted (map o_hlc ps)"
  shows "sorted_ops ps {p \<in> ran (r_log (tables_view T)). P p}"
proof -
  have "set ps = set (map op_of_row rs)" using ps(1) by (rule mset_eq_setD)
  also have "\<dots> = {p \<in> ran (r_log (tables_view T)). P p}"
  proof (intro equalityI subsetI)
    fix p assume "p \<in> set (map op_of_row rs)"
    then show "p \<in> {p \<in> ran (r_log (tables_view T)). P p}" using rs(2) stored_row(4)[OF inv] by auto
  next
    fix p assume p: "p \<in> {p \<in> ran (r_log (tables_view T)). P p}"
    then have "op_bytes p \<in> snd ` set (t_ops T)" "op_of_row (op_bytes p) = p" using logged_row[OF inv] by auto
    with p rs(2) show "p \<in> set (map op_of_row rs)" by (force intro: image_eqI[of _ _ "op_bytes p"])
  qed
  finally have "set ps = {p \<in> ran (r_log (tables_view T)). P p}" .
  moreover have "distinct (map op_of_row rs)"
    using rs rows_distinct(3)[OF inv] by (auto simp: distinct_map intro: inj_on_subset)
  then have "distinct ps" using mset_eq_imp_distinct_iff[OF ps(1)] by simp
  ultimately show ?thesis using ps(2) by (simp add: sorted_ops_def)
qed

lemma op_rows_sorted:
  assumes inv: "tables_inv T" and "set rs \<subseteq> snd ` set (t_ops T)" "sorted (map c_id rs)"
  shows "sorted (map o_hlc (map op_of_row rs))"
proof -
  have "sorted_wrt (\<lambda>x y. c_id x \<le> c_id y) rs" using assms(3) by (simp add: sorted_wrt_map)
  then have "sorted_wrt (\<lambda>x y. o_hlc (op_of_row x) \<le> o_hlc (op_of_row y)) rs"
  proof (rule sorted_wrt_mono_rel[rotated])
    fix x y assume "x \<in> set rs" "y \<in> set rs" "c_id x \<le> c_id y"
    then have r: "x \<in> snd ` set (t_ops T)" "y \<in> snd ` set (t_ops T)" using assms(2) by auto
    have "\<not> bind_text (o_id (op_of_row y)) < bind_text (o_id (op_of_row x))"
      using \<open>c_id x \<le> c_id y\<close> row_columns(1)[OF inv r(1)] row_columns(1)[OF inv r(2)] by simp
    then have "\<not> o_id (op_of_row y) < o_id (op_of_row x)"
      using bind_less storable_ascii[OF stored_row(3)[OF inv r(1)]] by blast
    then show "o_hlc (op_of_row x) \<le> o_hlc (op_of_row y)"
      using row_columns(4)[OF inv r(1)] row_columns(4)[OF inv r(2)] by simp
  qed
  then show ?thesis by (simp add: sorted_wrt_map)
qed

lemma sqlite_allOps_spec:
  assumes "tables_inv T"
  shows "sqlite_allOps T = Inr (map op_of_row (map snd (t_ops T)))"
    "sorted_ops (map op_of_row (map snd (t_ops T))) (ran (r_log (tables_view T)))"
proof -
  show "sqlite_allOps T = Inr (map op_of_row (map snd (t_ops T)))"
    using map_res_rows[OF assms, of "map snd (t_ops T)"] by (simp add: sqlite_allOps_def sql_allOps_rows[OF assms])
  have "sorted_ops (map op_of_row (map snd (t_ops T))) {p \<in> ran (r_log (tables_view T)). True}"
    by (rule rows_sorted_ops[OF assms rows_distinct(1)[OF assms] _ refl op_rows_sorted[OF assms _ rows_distinct(2)[OF assms]]]) simp_all
  then show "sorted_ops (map op_of_row (map snd (t_ops T))) (ran (r_log (tables_view T)))" by simp
qed

text \<open>Rows by device: the loops of \<open>opsSince\<close> collect every row above the frontier once.\<close>

lemma distinct_concat_keys:
  "distinct ds \<Longrightarrow> (\<And>d. d \<in> set ds \<Longrightarrow> distinct (g d)) \<Longrightarrow> (\<And>d r. d \<in> set ds \<Longrightarrow> r \<in> set (g d) \<Longrightarrow> k r = d) \<Longrightarrow>
     distinct (concat (map g ds))"
  by (induction ds) (auto, metis)

lemma above_row:
  assumes inv: "tables_inv T" and r: "r \<in> snd ` set (t_ops T)"
  shows "r \<in> set (sql_opsAboveFor T d h) \<longleftrightarrow> o_device (op_of_row r) = d \<and> h < o_hlc (op_of_row r)"
  using storable_ascii[OF stored_row(3)[OF assms]] r row_columns(2,3)[OF assms]
  by (auto simp: sql_opsAboveFor_def bind_less bind_eq')

lemma sqlite_opsSince_spec:
  assumes inv: "tables_inv T"
  shows "\<exists>ps. sqlite_opsSince T f = Inr ps \<and> sorted_ops ps {p \<in> ran (r_log (tables_view T)). aboveFrontier p f}"
proof (cases "object_keys f = []")
  case True
  have "set (object_keys f) = fst ` set f" by (simp add: object_keys_def)
  with True have "f = []" by simp
  then show ?thesis using sqlite_allOps_spec[OF inv] True by (simp add: sqlite_opsSince_def sqlite_allOps_def aboveFrontier_def)
next
  case False
  define rows where "rows = snd ` set (t_ops T)"
  define known where "known = concat (map (\<lambda>d. sql_opsAboveFor T d (the (map_of f d))) (object_keys f))"
  define unknown where "unknown = filter (\<lambda>r. map_of f (column_text (c_device r)) = None \<and>
    column_text (c_id r) \<notin> set (set_of (map (\<lambda>r. column_text (c_id r)) known))) (sql_allOps T)"
  have keys: "set (object_keys f) = dom (map_of f)" "distinct (object_keys f)"
    by (simp_all add: object_keys_def fst_set_eq_dom)
  have all: "sql_allOps T = map snd (t_ops T)" by (rule sql_allOps_rows[OF inv])
  have sub: "set (sql_opsAboveFor T d h) \<subseteq> rows" for d h by (auto simp: sql_opsAboveFor_def rows_def)
  have known_sub: "set known \<subseteq> rows" using sub by (auto simp: known_def)
  have known: "r \<in> set known \<longleftrightarrow> (\<exists>h. map_of f (o_device (op_of_row r)) = Some h \<and> h < o_hlc (op_of_row r))"
    if "r \<in> rows" for r
    using above_row[OF inv that[unfolded rows_def]] by (auto simp: known_def keys(1))
  have cols: "column_text (c_device r) = o_device (op_of_row r)" "column_text (c_id r) = o_id (op_of_row r)" if "r \<in> rows" for r
    using row_columns(1,3)[OF inv that[unfolded rows_def]] storable_ascii[OF stored_row(3)[OF inv that[unfolded rows_def]]]
    by (simp_all add: ascii_column)
  have id_row: "x = y" if "x \<in> rows" "y \<in> rows" "o_id (op_of_row x) = o_id (op_of_row y)" for x y
  proof -
    have xy: "x \<in> snd ` set (t_ops T)" "y \<in> snd ` set (t_ops T)" using that by (simp_all add: rows_def)
    note rows_distinct(4)[OF inv]
    moreover have "c_id x = c_id y" using row_columns(1)[OF inv xy(1)] row_columns(1)[OF inv xy(2)] that(3) by simp
    ultimately show ?thesis using xy by (auto dest: inj_onD)
  qed
  have unknown: "r \<in> set unknown \<longleftrightarrow> map_of f (o_device (op_of_row r)) = None" if r: "r \<in> rows" for r
  proof -
    have "column_text (c_id r) \<notin> set (set_of (map (\<lambda>r. column_text (c_id r)) known))"
      if n: "map_of f (o_device (op_of_row r)) = None"
    proof
      assume "column_text (c_id r) \<in> set (set_of (map (\<lambda>r. column_text (c_id r)) known))"
      then obtain y where y: "y \<in> set known" "column_text (c_id r) = column_text (c_id y)" by auto
      then have "y \<in> rows" using known_sub by blast
      then have "r = y" using id_row[OF r] y(2) cols(2)[OF r] cols(2)[of y] by simp
      with known[OF r] y(1) n show False by auto
    qed
    then show ?thesis using r by (auto simp: unknown_def all cols rows_def[symmetric])
  qed
  have unknown_sub: "set unknown \<subseteq> rows" by (auto simp: unknown_def all rows_def)
  have rows_of: "set (known @ unknown) = {r \<in> snd ` set (t_ops T). aboveFrontier (op_of_row r) f}"
    using known_sub unknown_sub known unknown
    by (auto simp: aboveFrontier_def rows_def[symmetric] split: option.splits)
  have "distinct known" unfolding known_def
  proof (rule distinct_concat_keys[OF keys(2)])
    show "distinct (sql_opsAboveFor T d (the (map_of f d)))" for d
      using rows_distinct(1)[OF inv] by (simp add: sql_opsAboveFor_def)
    show "o_device (op_of_row r) = d" if "r \<in> set (sql_opsAboveFor T d (the (map_of f d)))" for d r
      using above_row[OF inv subsetD[OF sub that, unfolded rows_def]] that by blast
  qed
  moreover have "distinct unknown" using rows_distinct(1)[OF inv] by (simp add: unknown_def all)
  moreover have "set known \<inter> set unknown = {}" using known unknown known_sub by auto
  ultimately have dist: "distinct (known @ unknown)" by simp
  have run: "sqlite_opsSince T f = Inr (sort_key o_hlc (map op_of_row (known @ unknown)))"
    using False map_res_rows[OF inv, of "known @ unknown"] known_sub unknown_sub
    unfolding sqlite_opsSince_def Let_def known_def[symmetric] unknown_def[symmetric] by (simp add: rows_def)
  have "sorted_ops (sort_key o_hlc (map op_of_row (known @ unknown))) {p \<in> ran (r_log (tables_view T)). aboveFrontier p f}"
    by (rule rows_sorted_ops[OF inv dist rows_of]) simp_all
  with run show ?thesis by blast
qed

subsection \<open>The cells\<close>

lemma cell_at:
  assumes "tables_inv T"
  shows "r_cells (tables_view T) x = Some p \<longleftrightarrow>
    storable p \<and> op_cell p = x \<and> map_of (t_cells T) (cell_bind x) = Some (json_bytes (op_to_js p))"
proof
  assume "r_cells (tables_view T) x = Some p"
  then obtain b where b: "map_of (t_cells T) (cell_bind x) = Some b" "parse_op b = Inr p"
    by (auto simp: tables_view_def bind_eq_Some_conv)
  from tables_invD(5)[OF assms b(1)] obtain q where
    q: "storable q" "cell_bind x = cell_bind (op_cell q)" "b = json_bytes (op_to_js q)" by blast
  with b(2) parse_op_bytes have "q = p" by simp
  with q b(1) show "storable p \<and> op_cell p = x \<and> map_of (t_cells T) (cell_bind x) = Some (json_bytes (op_to_js p))"
    by (auto simp: cell_bind_op)
next
  assume "storable p \<and> op_cell p = x \<and> map_of (t_cells T) (cell_bind x) = Some (json_bytes (op_to_js p))"
  then show "r_cells (tables_view T) x = Some p" by (auto simp: tables_view_def parse_op_bytes)
qed

text \<open>The entries of the table are the cells of the replica.\<close>

definition cell_entry :: "cell \<times> op \<Rightarrow> (bytes \<times> bytes \<times> bytes) \<times> bytes" where
  "cell_entry e = (cell_bind (fst e), json_bytes (op_to_js (snd e)))"

lemma stored_cells:
  assumes "tables_inv T"
  shows "e \<in> set (t_cells T) \<longleftrightarrow> (\<exists>x p. r_cells (tables_view T) x = Some p \<and> e = cell_entry (x, p))"
proof
  assume e: "e \<in> set (t_cells T)"
  obtain k b where kb: "e = (k, b)" by fastforce
  have m: "map_of (t_cells T) k = Some b"
    using e ordered_distinct[OF tables_invD(2)[OF assms]] by (simp add: kb map_of_is_SomeI)
  from tables_invD(5)[OF assms m] obtain p where "storable p" "k = cell_bind (op_cell p)" "b = json_bytes (op_to_js p)" by blast
  with m have "r_cells (tables_view T) (op_cell p) = Some p" "e = cell_entry (op_cell p, p)"
    by (simp_all add: cell_at[OF assms] kb cell_entry_def)
  then show "\<exists>x p. r_cells (tables_view T) x = Some p \<and> e = cell_entry (x, p)" by blast
next
  assume "\<exists>x p. r_cells (tables_view T) x = Some p \<and> e = cell_entry (x, p)"
  then show "e \<in> set (t_cells T)" by (auto simp: cell_at[OF assms] cell_entry_def dest: map_of_SomeD)
qed

lemma cell_ascii: "tables_inv T \<Longrightarrow> r_cells (tables_view T) (t, r, c) = Some p \<Longrightarrow> ascii t \<and> ascii r \<and> ascii c"
  using storable_ascii[of p] by (auto simp: cell_at op_cell_def)

lemma sqlite_getWinner_spec:
  assumes "tables_inv T"
  shows "sqlite_getWinner T t r c = Inr (r_cells (tables_view T) (t, r, c))"
proof (cases "map_of (t_cells T) (cell_bind (t, r, c))")
  case None
  then show ?thesis by (simp add: sqlite_getWinner_def sql_getCell_def tables_view_def)
next
  case (Some b)
  from tables_invD(5)[OF assms Some] obtain p where "storable p" "b = json_bytes (op_to_js p)" by blast
  then show ?thesis using Some by (simp add: sqlite_getWinner_def sql_getCell_def tables_view_def parse_op_bytes)
qed

lemma sqlite_listRows_spec:
  assumes "tables_inv T"
  shows "distinct (sqlite_listRows T t) \<and> set (sqlite_listRows T t) = {r. \<exists>c. r_cells (tables_view T) (t, r, c) \<noteq> None}"
proof -
  have mem: "b \<in> set (sql_tableRows T t) \<longleftrightarrow> (\<exists>r c p. r_cells (tables_view T) (t, r, c) = Some p \<and> b = bind_text r)" for b
  proof
    assume "b \<in> set (sql_tableRows T t)"
    then obtain c j where "((bind_text t, b, c), j) \<in> set (t_cells T)" by (auto simp: sql_tableRows_def)
    then obtain t' r' c' p where x: "r_cells (tables_view T) (t', r', c') = Some p" "bind_text t = bind_text t'" "b = bind_text r'"
      by (auto simp: stored_cells[OF assms] cell_entry_def cell_bind_def)
    then have "t = t'" using cell_ascii[OF assms x(1)] bind_eq by blast
    with x show "\<exists>r c p. r_cells (tables_view T) (t, r, c) = Some p \<and> b = bind_text r" by blast
  next
    assume "\<exists>r c p. r_cells (tables_view T) (t, r, c) = Some p \<and> b = bind_text r"
    then obtain r c p where x: "r_cells (tables_view T) (t, r, c) = Some p" "b = bind_text r" by blast
    then have "cell_entry ((t, r, c), p) \<in> set (t_cells T)" using stored_cells[OF assms] by blast
    then show "b \<in> set (sql_tableRows T t)" using x(2) by (force simp: sql_tableRows_def cell_entry_def cell_bind_def)
  qed
  have inj: "inj_on column_text (set (sql_tableRows T t))"
    by (rule inj_on_inverseI[where g = bind_text]) (use mem cell_ascii[OF assms] ascii_column in metis)
  have "r \<in> set (sqlite_listRows T t) \<longleftrightarrow> (\<exists>c p. r_cells (tables_view T) (t, r, c) = Some p)" for r
  proof -
    have "r \<in> set (sqlite_listRows T t) \<longleftrightarrow>
        (\<exists>r' c p. r_cells (tables_view T) (t, r', c) = Some p \<and> r = column_text (bind_text r'))"
      unfolding sqlite_listRows_def set_map image_iff Bex_def mem by blast
    then show ?thesis using cell_ascii[OF assms] ascii_column by metis
  qed
  then have "set (sqlite_listRows T t) = {r. \<exists>c. r_cells (tables_view T) (t, r, c) \<noteq> None}" by blast
  moreover have "distinct (sql_tableRows T t)" by (simp add: sql_tableRows_def)
  ultimately show ?thesis using inj by (simp add: sqlite_listRows_def distinct_map)
qed

lemma sqlite_listTables_spec:
  assumes "tables_inv T"
  shows "distinct (sqlite_listTables T) \<and> set (sqlite_listTables T) = {t. \<exists>r c. r_cells (tables_view T) (t, r, c) \<noteq> None}"
proof -
  have mem: "b \<in> set (sql_tables_named T) \<longleftrightarrow> (\<exists>t r c p. r_cells (tables_view T) (t, r, c) = Some p \<and> b = bind_text t)" for b
  proof -
    have "b \<in> set (sql_tables_named T) \<longleftrightarrow> (\<exists>r c j. ((b, r, c), j) \<in> set (t_cells T))" by (force simp: sql_tables_named_def)
    then show ?thesis by (auto simp: stored_cells[OF assms] cell_entry_def cell_bind_def)
  qed
  have inj: "inj_on column_text (set (sql_tables_named T))"
    by (rule inj_on_inverseI[where g = bind_text]) (use mem cell_ascii[OF assms] ascii_column in metis)
  have "t \<in> set (sqlite_listTables T) \<longleftrightarrow> (\<exists>r c p. r_cells (tables_view T) (t, r, c) = Some p)" for t
  proof -
    have "t \<in> set (sqlite_listTables T) \<longleftrightarrow>
        (\<exists>t' r c p. r_cells (tables_view T) (t', r, c) = Some p \<and> t = column_text (bind_text t'))"
      unfolding sqlite_listTables_def set_map image_iff Bex_def mem by blast
    then show ?thesis using cell_ascii[OF assms] ascii_column by metis
  qed
  then have "set (sqlite_listTables T) = {t. \<exists>r c. r_cells (tables_view T) (t, r, c) \<noteq> None}" by blast
  moreover have "distinct (sql_tables_named T)" by (simp add: sql_tables_named_def)
  ultimately show ?thesis using inj by (simp add: sqlite_listTables_def distinct_map)
qed

lemma map_of_graph: "(\<And>k v. (k, v) \<in> set es \<longleftrightarrow> m k = Some v) \<Longrightarrow> map_of es = m"
proof
  fix k
  assume g: "\<And>k v. (k, v) \<in> set es \<longleftrightarrow> m k = Some v"
  show "map_of es k = m k"
  proof (cases "m k")
    case None
    then show ?thesis using g[of k] by (auto simp: map_of_eq_None_iff)
  next
    case (Some v)
    then obtain w where w: "map_of es k = Some w" using g[of k v] weak_map_of_SomeI by metis
    then show ?thesis using g[of k w] map_of_SomeD by metis
  qed
qed

lemma sqlite_getRow_spec:
  assumes inv: "tables_inv T"
  shows "\<exists>m. sqlite_getRow T t r = Inr m \<and> (m = None \<longleftrightarrow> (\<forall>c. r_cells (tables_view T) (t, r, c) = None)) \<and>
    (\<forall>row. m = Some row \<longrightarrow> dkeys row \<and> map_of row = (\<lambda>c. r_cells (tables_view T) (t, r, c)))"
proof -
  define rows where "rows = sql_rowCells T t r"
  have mem: "e \<in> set rows \<longleftrightarrow> (\<exists>c p. r_cells (tables_view T) (t, r, c) = Some p \<and> e = (bind_text c, json_bytes (op_to_js p)))" for e
  proof
    assume "e \<in> set rows"
    then obtain c j where e: "e = (c, j)" "((bind_text t, bind_text r, c), j) \<in> set (t_cells T)"
      by (auto simp: rows_def sql_rowCells_def)
    then obtain t' r' c' p where x: "r_cells (tables_view T) (t', r', c') = Some p" "bind_text t = bind_text t'"
      "bind_text r = bind_text r'" "e = (bind_text c', json_bytes (op_to_js p))"
      by (auto simp: stored_cells[OF inv] cell_entry_def cell_bind_def)
    then have "t = t'" "r = r'" using cell_ascii[OF inv x(1)] bind_eq by blast+
    with x show "\<exists>c p. r_cells (tables_view T) (t, r, c) = Some p \<and> e = (bind_text c, json_bytes (op_to_js p))" by blast
  next
    assume "\<exists>c p. r_cells (tables_view T) (t, r, c) = Some p \<and> e = (bind_text c, json_bytes (op_to_js p))"
    then obtain c p where x: "r_cells (tables_view T) (t, r, c) = Some p" "e = (bind_text c, json_bytes (op_to_js p))" by blast
    then have "cell_entry ((t, r, c), p) \<in> set (t_cells T)" using stored_cells[OF inv] by blast
    then show "e \<in> set rows" using x(2) by (force simp: rows_def sql_rowCells_def cell_entry_def cell_bind_def)
  qed
  define read where "read = (\<lambda>(c, json). bind_res (parse_op json) (\<lambda>p. Inr (column_text c, p)) :: (jsstring \<times> op) result)"
  have read: "r_cells (tables_view T) (t, r, c) = Some p \<Longrightarrow> read (bind_text c, json_bytes (op_to_js p)) = Inr (c, p)" for c p
    using cell_ascii[OF inv] cell_at[OF inv] by (simp add: read_def parse_op_bytes ascii_column)
  have "\<exists>es. map_res read xs = Inr es \<and> set es = {(c, p). r_cells (tables_view T) (t, r, c) = Some p \<and>
      (bind_text c, json_bytes (op_to_js p)) \<in> set xs}" if "set xs \<subseteq> set rows" for xs
    using that
  proof (induction xs)
    case (Cons e xs)
    then obtain c p where e: "r_cells (tables_view T) (t, r, c) = Some p" "e = (bind_text c, json_bytes (op_to_js p))"
      using mem[of e] by auto
    have one: "bind_text c' = bind_text c \<longleftrightarrow> c' = c" if "r_cells (tables_view T) (t, r, c') = Some p'" for c' p'
      using cell_ascii[OF inv e(1)] bind_eq by blast
    obtain es where "map_res read xs = Inr es" "set es = {(c, p). r_cells (tables_view T) (t, r, c) = Some p \<and>
        (bind_text c, json_bytes (op_to_js p)) \<in> set xs}" using Cons by auto
    then show ?case using read[OF e(1)] e one by (auto simp: e(2))
  qed simp
  from this[OF order.refl] obtain es0 where es0: "map_res read rows = Inr es0"
    "set es0 = {(c, p). r_cells (tables_view T) (t, r, c) = Some p \<and> (bind_text c, json_bytes (op_to_js p)) \<in> set rows}" by blast
  moreover have "{(c, p). r_cells (tables_view T) (t, r, c) = Some p \<and> (bind_text c, json_bytes (op_to_js p)) \<in> set rows} =
      {(c, p). r_cells (tables_view T) (t, r, c) = Some p}" unfolding mem by blast
  ultimately obtain es where es: "map_res read rows = Inr es"
    "set es = {(c, p). r_cells (tables_view T) (t, r, c) = Some p}" by blast
  have run: "sqlite_getRow T t r = (if rows = [] then Inr None else Inr (Some (fold (\<lambda>(c, p). map_set c p) es [])))"
    using es(1) by (simp add: sqlite_getRow_def Let_def rows_def[symmetric] read_def)
  have none: "rows = [] \<longleftrightarrow> (\<forall>c. r_cells (tables_view T) (t, r, c) = None)"
  proof -
    have "rows \<noteq> [] \<longleftrightarrow> (\<exists>e. e \<in> set rows)" by (cases rows) auto
    also have "\<dots> \<longleftrightarrow> (\<exists>c p. r_cells (tables_view T) (t, r, c) = Some p)" unfolding mem by auto
    finally show ?thesis by auto
  qed
  have "dkeys (fold (\<lambda>(c, p). map_set c p) es [])"
    using dkeys_fold_map_set[of "[]" fst snd es] by (simp add: case_prod_unfold)
  moreover have "map_of (fold (\<lambda>(c, p). map_set c p) es []) = (\<lambda>c. r_cells (tables_view T) (t, r, c))"
    using fold_map_set_at[of fst snd es "[]"] map_of_graph[of "rev es" "\<lambda>c. r_cells (tables_view T) (t, r, c)"]
    by (simp add: case_prod_unfold es(2))
  ultimately show ?thesis using run none by auto
qed

subsection \<open>The meta table\<close>

lemma readMeta_bytes: "sql_getMeta T key = Some (json_bytes v) \<Longrightarrow> is_json v \<Longrightarrow> readMeta T key = Inr (Some v)"
  by (simp add: readMeta_def parse_json_bytes)

lemma readMeta_absent: "sql_getMeta T key = None \<Longrightarrow> readMeta T key = Inr None"
  by (simp add: readMeta_def)

lemma codec_objects [simp]: "nullish (Some (frontier_js f)) = Some (frontier_js f)" "nullish (Some (peers_js ps)) = Some (peers_js ps)"
  "falsy (Some (key_js k)) = Some (key_js k)" "nullish None = None" "falsy None = None"
  by (auto simp: nullish_def falsy_def frontier_js_def peers_js_def key_js_def)

lemma sqlite_getFrontier_cases:
  assumes "tables_inv T"
  obtains "sql_getMeta T (js ''frontier'') = None" "sqlite_getFrontier T = Inr []"
  | f where "js_frontier f" "sql_getMeta T (js ''frontier'') = Some (json_bytes (frontier_js f))" "sqlite_getFrontier T = Inr f"
proof (cases "sql_getMeta T (js ''frontier'')")
  case None
  then show thesis using that(1) by (simp add: sqlite_getFrontier_def readMeta_absent read_as_def)
next
  case (Some b)
  then obtain f where "js_frontier f" "b = json_bytes (frontier_js f)" using assms unfolding tables_inv_def by blast
  then show thesis using that(2)[of f] Some
    by (simp add: sqlite_getFrontier_def readMeta_bytes frontier_codec read_as_def)
qed

lemma sqlite_getClock_cases:
  assumes "tables_inv T"
  obtains "sql_getMeta T (js ''clock'') = None" "sqlite_getClock T = Inr None"
  | ck where "safe_clock ck" "sql_getMeta T (js ''clock'') = Some (json_bytes (clock_js ck))" "sqlite_getClock T = Inr (Some ck)"
proof (cases "sql_getMeta T (js ''clock'')")
  case None
  then show thesis using that(1) by (simp add: sqlite_getClock_def readMeta_absent read_as_def)
next
  case (Some b)
  then obtain ck where "safe_clock ck" "b = json_bytes (clock_js ck)" using assms unfolding tables_inv_def by blast
  then show thesis using that(2)[of ck] Some
    by (simp add: sqlite_getClock_def readMeta_bytes clock_codec read_as_def)
qed

lemma sqlite_getDeviceKey_cases:
  assumes "tables_inv T"
  obtains "sql_getMeta T (js ''deviceKey'') = None" "sqlite_getDeviceKey T = Inr None"
  | k where "sql_getMeta T (js ''deviceKey'') = Some (json_bytes (key_js k))" "sqlite_getDeviceKey T = Inr (Some k)"
proof (cases "sql_getMeta T (js ''deviceKey'')")
  case None
  then show thesis using that(1) by (simp add: sqlite_getDeviceKey_def readMeta_absent read_as_def)
next
  case (Some b)
  then obtain k where "b = json_bytes (key_js k)" using assms unfolding tables_inv_def by blast
  then show thesis using that(2)[of k] Some
    by (simp add: sqlite_getDeviceKey_def readMeta_bytes key_codec read_as_def)
qed

lemma sqlite_getPeerFrontiers_cases:
  assumes "tables_inv T"
  obtains ps where "js_peers ps" "sqlite_getPeerFrontiers T = Inr ps"
proof (cases "sql_getMeta T (js ''peers'')")
  case None
  then have "sqlite_getPeerFrontiers T = Inr []" by (simp add: sqlite_getPeerFrontiers_def readMeta_absent read_as_def)
  then show thesis by (intro that[of "[]"]) (simp_all add: js_peers_def entry_order_def)
next
  case (Some b)
  then obtain ps where "js_peers ps" "b = json_bytes (peers_js ps)" using assms unfolding tables_inv_def by blast
  then show thesis using that[of ps] Some
    by (simp add: sqlite_getPeerFrontiers_def readMeta_bytes peers_codec read_as_def)
qed

section \<open>What the statements change\<close>

definition put_op :: "op \<Rightarrow> sql_tables \<Rightarrow> sql_tables" where
  "put_op p T = T\<lparr>t_ops := store_insert_new (bind_text (o_id p)) (op_bytes p) (t_ops T)\<rparr>"

definition del_op :: "jsstring \<Rightarrow> sql_tables \<Rightarrow> sql_tables" where
  "del_op i T = T\<lparr>t_ops := map_del (bind_text i) (t_ops T)\<rparr>"

definition put_winner :: "jsstring \<times> op \<Rightarrow> sql_tables \<Rightarrow> sql_tables" where
  "put_winner w T = T\<lparr>t_cells := store_put (cell_bind (the (split_key (fst w)))) (json_bytes (op_to_js (snd w))) (t_cells T)\<rparr>"

definition del_cell :: "jsstring \<Rightarrow> sql_tables \<Rightarrow> sql_tables" where
  "del_cell k T = T\<lparr>t_cells := map_del (cell_bind (the (split_key k))) (t_cells T)\<rparr>"

definition put_meta :: "jsstring \<Rightarrow> jsval \<Rightarrow> sql_tables \<Rightarrow> sql_tables" where
  "put_meta key v T = T\<lparr>t_meta := store_put (bind_text key) (json_bytes v) (t_meta T)\<rparr>"

text \<open>The metadata are read from the \<^verbatim>\<open>meta\<close> table alone, the log and the cells from theirs.\<close>

lemma same_meta:
  assumes "t_meta T' = t_meta T"
  shows "sql_getMeta T' key = sql_getMeta T key" "sqlite_getFrontier T' = sqlite_getFrontier T"
    "sqlite_getClock T' = sqlite_getClock T" "sqlite_getDeviceKey T' = sqlite_getDeviceKey T"
    "sqlite_getPeerFrontiers T' = sqlite_getPeerFrontiers T"
  using assms by (simp_all add: sql_getMeta_def readMeta_def sqlite_getFrontier_def sqlite_getClock_def
      sqlite_getDeviceKey_def sqlite_getPeerFrontiers_def)

lemma tables_inv_ops:
  assumes "tables_inv T" "ordered s"
    "\<And>k r. map_of s k = Some r \<Longrightarrow> map_of (t_ops T) k = Some r \<or> (\<exists>p. storable p \<and> k = bind_text (o_id p) \<and> r = op_bytes p)"
  shows "tables_inv (T\<lparr>t_ops := s\<rparr>)"
proof -
  have "\<exists>p. storable p \<and> k = bind_text (o_id p) \<and> r = op_bytes p" if "map_of s k = Some r" for k r
    using assms(3)[OF that] tables_invD(4)[OF assms(1)] by blast
  then show ?thesis using assms(1,2) unfolding tables_inv_def by (simp add: sql_getMeta_def)
qed

lemma tables_inv_cells:
  assumes "tables_inv T" "ordered s"
    "\<And>k b. map_of s k = Some b \<Longrightarrow> map_of (t_cells T) k = Some b \<or>
       (\<exists>p. storable p \<and> k = cell_bind (op_cell p) \<and> b = json_bytes (op_to_js p))"
  shows "tables_inv (T\<lparr>t_cells := s\<rparr>)"
proof -
  have "\<exists>p. storable p \<and> k = cell_bind (op_cell p) \<and> b = json_bytes (op_to_js p)" if "map_of s k = Some b" for k b
    using assms(3)[OF that] tables_invD(5)[OF assms(1)] by blast
  then show ?thesis using assms(1,2) unfolding tables_inv_def by (simp add: sql_getMeta_def)
qed

lemma put_op_spec:
  assumes inv: "tables_inv T" and p: "storable p" "r_log (tables_view T) (o_id p) = None"
  shows "tables_inv (put_op p T)"
    "tables_view (put_op p T) = (tables_view T)\<lparr>r_log := (r_log (tables_view T))(o_id p \<mapsto> p)\<rparr>"
proof -
  have m: "t_meta (put_op p T) = t_meta T" "t_cells (put_op p T) = t_cells T" by (simp_all add: put_op_def)
  have "map_of (t_ops T) (bind_text (o_id p)) = None"
  proof (rule ccontr)
    assume "map_of (t_ops T) (bind_text (o_id p)) \<noteq> None"
    then obtain r where r: "map_of (t_ops T) (bind_text (o_id p)) = Some r" by blast
    from tables_invD(4)[OF inv this] obtain q where q: "storable q" "bind_text (o_id p) = bind_text (o_id q)" "r = op_bytes q" by blast
    then have "o_id p = o_id q" using bind_eq storable_ascii[OF q(1)] by blast
    with q r have "r_log (tables_view T) (o_id p) = Some q" by (simp add: log_at[OF inv])
    with p(2) show False by simp
  qed
  then have ops: "t_ops (put_op p T) = store_put (bind_text (o_id p)) (op_bytes p) (t_ops T)"
    by (simp add: put_op_def store_insert_new_def)
  then have o: "map_of (t_ops (put_op p T)) = (map_of (t_ops T))(bind_text (o_id p) \<mapsto> op_bytes p)" "ordered (t_ops (put_op p T))"
    using tables_invD(1)[OF inv] by simp_all
  have "tables_inv (T\<lparr>t_ops := t_ops (put_op p T)\<rparr>)"
    by (rule tables_inv_ops[OF inv o(2)]) (use p(1) in \<open>auto simp: o(1) split: if_splits\<close>)
  then show "tables_inv (put_op p T)" by (simp add: put_op_def)
  have "r_log (tables_view (put_op p T)) i = ((r_log (tables_view T))(o_id p \<mapsto> p)) i" for i
    using bind_eq[of "o_id p" i] storable_ascii[OF p(1)] by (simp add: tables_view_def o toOp_bytes[OF p(1)])
  then show "tables_view (put_op p T) = (tables_view T)\<lparr>r_log := (r_log (tables_view T))(o_id p \<mapsto> p)\<rparr>"
    by (simp add: tables_view_def same_meta[OF m(1)] m fun_eq_iff)
qed

lemma del_op_spec:
  assumes inv: "tables_inv T"
  shows "tables_inv (del_op i T)" "tables_view (del_op i T) = (tables_view T)\<lparr>r_log := (r_log (tables_view T))(i := None)\<rparr>"
proof -
  have m: "t_meta (del_op i T) = t_meta T" "t_cells (del_op i T) = t_cells T" by (simp_all add: del_op_def)
  have o: "map_of (t_ops (del_op i T)) = (map_of (t_ops T))(bind_text i := None)" "ordered (t_ops (del_op i T))"
    using tables_invD(1)[OF inv] by (simp_all add: del_op_def)
  have "tables_inv (T\<lparr>t_ops := t_ops (del_op i T)\<rparr>)"
    by (rule tables_inv_ops[OF inv o(2)]) (auto simp: o(1) split: if_splits)
  then show "tables_inv (del_op i T)" by (simp add: del_op_def)
  have "r_log (tables_view (del_op i T)) j = ((r_log (tables_view T))(i := None)) j" for j
  proof -
    have step: "r_log (tables_view (del_op i T)) j = (if bind_text i = bind_text j then None else r_log (tables_view T) j)"
      by (simp add: tables_view_def o(1))
    have "bind_text i = bind_text j \<longleftrightarrow> i = j" if "r_log (tables_view T) j = Some p" for p
      using that bind_eq[of j i] storable_ascii[of p] by (auto simp: log_at[OF inv])
    then show ?thesis unfolding step by (cases "r_log (tables_view T) j") simp_all
  qed
  then show "tables_view (del_op i T) = (tables_view T)\<lparr>r_log := (r_log (tables_view T))(i := None)\<rparr>"
    by (simp add: tables_view_def same_meta[OF m(1)] m fun_eq_iff)
qed

lemma put_winner_spec:
  assumes inv: "tables_inv T" and p: "storable p" "k = op_key p"
  shows "tables_inv (put_winner (k, p) T)"
    "tables_view (put_winner (k, p) T) = (tables_view T)\<lparr>r_cells := (r_cells (tables_view T))(op_cell p \<mapsto> p)\<rparr>"
proof -
  let ?T = "put_winner (k, p) T"
  have m: "t_meta ?T = t_meta T" "t_ops ?T = t_ops T" by (simp_all add: put_winner_def)
  have o: "map_of (t_cells ?T) = (map_of (t_cells T))(cell_bind (op_cell p) \<mapsto> json_bytes (op_to_js p))" "ordered (t_cells ?T)"
    using tables_invD(2)[OF inv] split_op_key[OF p(1)] by (simp_all add: put_winner_def p(2))
  have "tables_inv (T\<lparr>t_cells := t_cells ?T\<rparr>)"
    by (rule tables_inv_cells[OF inv o(2)]) (use p(1) in \<open>auto simp: o(1) split: if_splits\<close>)
  then show "tables_inv ?T" by (simp add: put_winner_def)
  have "r_cells (tables_view ?T) x = ((r_cells (tables_view T))(op_cell p \<mapsto> p)) x" for x
    using cell_bind_op[OF p(1), of x] by (simp add: tables_view_def o parse_op_bytes[OF p(1)])
  then show "tables_view ?T = (tables_view T)\<lparr>r_cells := (r_cells (tables_view T))(op_cell p \<mapsto> p)\<rparr>"
    by (simp add: tables_view_def same_meta[OF m(1)] m fun_eq_iff)
qed

lemma del_cell_spec:
  assumes inv: "tables_inv T" and k: "split_key k = Some x"
  shows "tables_inv (del_cell k T)"
    "tables_view (del_cell k T) = (tables_view T)\<lparr>r_cells := (r_cells (tables_view T))(x := None)\<rparr>"
proof -
  let ?T = "del_cell k T"
  have m: "t_meta ?T = t_meta T" "t_ops ?T = t_ops T" by (simp_all add: del_cell_def)
  have o: "map_of (t_cells ?T) = (map_of (t_cells T))(cell_bind x := None)" "ordered (t_cells ?T)"
    using tables_invD(2)[OF inv] by (simp_all add: del_cell_def k)
  have "tables_inv (T\<lparr>t_cells := t_cells ?T\<rparr>)"
    by (rule tables_inv_cells[OF inv o(2)]) (auto simp: o(1) split: if_splits)
  then show "tables_inv ?T" by (simp add: del_cell_def)
  have "r_cells (tables_view ?T) y = ((r_cells (tables_view T))(x := None)) y" for y
  proof -
    have step: "r_cells (tables_view ?T) y = (if cell_bind x = cell_bind y then None else r_cells (tables_view T) y)"
      by (simp add: tables_view_def o(1))
    have "cell_bind x = cell_bind y \<longleftrightarrow> x = y" if "r_cells (tables_view T) y = Some p" for p
      using that cell_bind_op[of p x] by (auto simp: cell_at[OF inv])
    then show ?thesis unfolding step by (cases "r_cells (tables_view T) y") simp_all
  qed
  then show "tables_view ?T = (tables_view T)\<lparr>r_cells := (r_cells (tables_view T))(x := None)\<rparr>"
    by (simp add: tables_view_def same_meta[OF m(1)] m fun_eq_iff)
qed

text \<open>The four keys of the \<^verbatim>\<open>meta\<close> table.\<close>

lemma meta_keys:
  "sql_getMeta (put_meta k v T) j = (if j = k then Some (json_bytes v) else sql_getMeta T j)"
  if "k \<in> {js ''frontier'', js ''clock'', js ''deviceKey'', js ''peers''}" "ordered (t_meta T)"
proof -
  have "ascii k" using that(1) by (auto simp: ascii_def js_def)
  then show ?thesis using bind_eq[of k j] that(2) by (simp add: sql_getMeta_def put_meta_def)
qed

lemma put_meta_frame:
  "t_ops (put_meta k v T) = t_ops T" "t_cells (put_meta k v T) = t_cells T"
  "ordered (t_meta T) \<Longrightarrow> ordered (t_meta (put_meta k v T))"
  by (simp_all add: put_meta_def)

lemma put_meta_frontier:
  assumes inv: "tables_inv T" and f: "js_frontier f"
  shows "tables_inv (put_meta (js ''frontier'') (frontier_js f) T)"
    "tables_view (put_meta (js ''frontier'') (frontier_js f) T) = (tables_view T)\<lparr>r_front := f\<rparr>"
proof -
  let ?T = "put_meta (js ''frontier'') (frontier_js f) T"
  have m: "sql_getMeta ?T j = (if j = js ''frontier'' then Some (json_bytes (frontier_js f)) else sql_getMeta T j)" for j
    by (rule meta_keys) (use tables_invD(3)[OF inv] in simp_all)
  show "tables_inv ?T"
    using inv f put_meta_frame(3) unfolding tables_inv_def m put_meta_frame(1,2) by simp blast
  have "readMeta ?T j = readMeta T j" if "j \<noteq> js ''frontier''" for j using that by (simp add: readMeta_def m)
  moreover have "sqlite_getFrontier ?T = Inr f"
    by (simp add: sqlite_getFrontier_def readMeta_bytes[OF _ frontier_codec(1)[OF f]] m frontier_codec(2) read_as_def)
  ultimately show "tables_view ?T = (tables_view T)\<lparr>r_front := f\<rparr>"
    by (simp add: tables_view_def put_meta_frame sqlite_getClock_def sqlite_getDeviceKey_def sqlite_getPeerFrontiers_def)
qed

lemma put_meta_clock:
  assumes inv: "tables_inv T" and c: "safe_clock ck"
  shows "tables_inv (put_meta (js ''clock'') (clock_js ck) T)"
    "tables_view (put_meta (js ''clock'') (clock_js ck) T) = (tables_view T)\<lparr>r_clock := Some ck\<rparr>"
proof -
  let ?T = "put_meta (js ''clock'') (clock_js ck) T"
  have m: "sql_getMeta ?T j = (if j = js ''clock'' then Some (json_bytes (clock_js ck)) else sql_getMeta T j)" for j
    by (rule meta_keys) (use tables_invD(3)[OF inv] in simp_all)
  show "tables_inv ?T"
    using inv c put_meta_frame(3) unfolding tables_inv_def m put_meta_frame(1,2) by simp blast
  have "readMeta ?T j = readMeta T j" if "j \<noteq> js ''clock''" for j using that by (simp add: readMeta_def m)
  moreover have "sqlite_getClock ?T = Inr (Some ck)"
    by (simp add: sqlite_getClock_def readMeta_bytes[OF _ clock_codec(1)[OF c]] m clock_codec(2)[OF c] read_as_def)
  ultimately show "tables_view ?T = (tables_view T)\<lparr>r_clock := Some ck\<rparr>"
    by (simp add: tables_view_def put_meta_frame sqlite_getFrontier_def sqlite_getDeviceKey_def sqlite_getPeerFrontiers_def)
qed

lemma put_meta_key:
  assumes inv: "tables_inv T"
  shows "tables_inv (put_meta (js ''deviceKey'') (key_js k) T)"
    "tables_view (put_meta (js ''deviceKey'') (key_js k) T) = (tables_view T)\<lparr>r_key := Some k\<rparr>"
proof -
  let ?T = "put_meta (js ''deviceKey'') (key_js k) T"
  have m: "sql_getMeta ?T j = (if j = js ''deviceKey'' then Some (json_bytes (key_js k)) else sql_getMeta T j)" for j
    by (rule meta_keys) (use tables_invD(3)[OF inv] in simp_all)
  show "tables_inv ?T"
    using inv put_meta_frame(3) unfolding tables_inv_def m put_meta_frame(1,2) by simp blast
  have "readMeta ?T j = readMeta T j" if "j \<noteq> js ''deviceKey''" for j using that by (simp add: readMeta_def m)
  moreover have "sqlite_getDeviceKey ?T = Inr (Some k)"
    by (simp add: sqlite_getDeviceKey_def readMeta_bytes[OF _ key_codec(1)] m key_codec(2) read_as_def)
  ultimately show "tables_view ?T = (tables_view T)\<lparr>r_key := Some k\<rparr>"
    by (simp add: tables_view_def put_meta_frame sqlite_getFrontier_def sqlite_getClock_def sqlite_getPeerFrontiers_def)
qed

lemma put_meta_peers:
  assumes inv: "tables_inv T" and ps: "js_peers ps"
  shows "tables_inv (put_meta (js ''peers'') (peers_js ps) T)"
    "tables_view (put_meta (js ''peers'') (peers_js ps) T) = (tables_view T)\<lparr>r_peers := map_of ps\<rparr>"
proof -
  let ?T = "put_meta (js ''peers'') (peers_js ps) T"
  have m: "sql_getMeta ?T j = (if j = js ''peers'' then Some (json_bytes (peers_js ps)) else sql_getMeta T j)" for j
    by (rule meta_keys) (use tables_invD(3)[OF inv] in simp_all)
  show "tables_inv ?T"
    using inv ps put_meta_frame(3) unfolding tables_inv_def m put_meta_frame(1,2) by simp blast
  have "readMeta ?T j = readMeta T j" if "j \<noteq> js ''peers''" for j using that by (simp add: readMeta_def m)
  moreover have "sqlite_getPeerFrontiers ?T = Inr ps"
    by (simp add: sqlite_getPeerFrontiers_def readMeta_bytes[OF _ peers_codec(1)[OF ps]] m peers_codec(2) read_as_def)
  ultimately show "tables_view ?T = (tables_view T)\<lparr>r_peers := map_of ps\<rparr>"
    by (simp add: tables_view_def put_meta_frame sqlite_getFrontier_def sqlite_getClock_def sqlite_getDeviceKey_def)
qed

section \<open>Transactions\<close>

text \<open>
  What a body of a transaction that began with the tables \<open>T\<close> does: it applies \<open>F\<close>, or it throws and
  leaves the transaction open, or rolled back to \<open>T\<close>.
\<close>

definition body :: "(sqlite, unit) act \<Rightarrow> (sql_tables \<Rightarrow> sql_tables) \<Rightarrow> bool" where
  "body m F \<longleftrightarrow> (\<forall>db T r db'. q_saved db = Some T \<longrightarrow> m db = (r, db') \<longrightarrow>
     (case r of Inr _ \<Rightarrow> q_saved db' = Some T \<and> q_tables db' = F (q_tables db)
      | Inl _ \<Rightarrow> q_saved db' = Some T \<or> q_saved db' = None \<and> q_tables db' = T))"

named_theorems body_rules

lemma body_run [body_rules]: "body (sql_run f) f"
  by (auto simp: body_def sql_run_def sql_exec_def roll_back_def Let_def split: list.splits option.splits sql_fault.splits if_splits)

lemma body_throw [body_rules]: "body (throw e) F"
  by (simp add: body_def throw_def)

lemma body_ret: "body (ret ()) (\<lambda>T. T)"
  by (simp add: body_def ret_def)

lemma body_bind:
  assumes "body m F" "body k G"
  shows "body (bind_act m (\<lambda>_. k)) (\<lambda>T. G (F T))"
  unfolding body_def
proof (intro allI impI)
  fix db T r db'
  assume T: "q_saved db = Some T" and run: "bind_act m (\<lambda>_. k) db = (r, db')"
  obtain r1 d1 where m: "m db = (r1, d1)" by fastforce
  note M = assms(1)[unfolded body_def, rule_format, OF T m]
  show "case r of Inr _ \<Rightarrow> q_saved db' = Some T \<and> q_tables db' = G (F (q_tables db))
    | Inl _ \<Rightarrow> q_saved db' = Some T \<or> q_saved db' = None \<and> q_tables db' = T"
  proof (cases r1)
    case (Inl e)
    then show ?thesis using M run m by (auto simp: bind_act_eq)
  next
    case (Inr u)
    then have k: "k d1 = (r, db')" and s: "q_saved d1 = Some T" "q_tables d1 = F (q_tables db)"
      using M run m by (simp_all add: bind_act_eq)
    from assms(2)[unfolded body_def, rule_format, OF s(1) k] show ?thesis unfolding s(2) .
  qed
qed

lemma body_each:
  assumes "\<And>x. body (f x) (F x)"
  shows "body (each_act f xs) (fold F xs)"
proof (induction xs)
  case Nil
  have "body (each_act f []) (\<lambda>T. T)" unfolding each_act.simps by (rule body_ret)
  then show ?case by (simp add: id_def)
next
  case (Cons x xs)
  have "body (each_act f (x # xs)) (\<lambda>T. fold F xs (F x T))"
    unfolding each_act.simps by (rule body_bind[OF assms Cons.IH])
  then show ?case by (simp add: comp_def)
qed

lemma sql_transaction_spec:
  assumes body: "body m F" and free: "q_saved db = None" and run: "sql_transaction m db = (r, db')"
  shows "q_saved db' = None \<and> q_tables db' = (case r of Inr _ \<Rightarrow> F (q_tables db) | Inl _ \<Rightarrow> q_tables db)"
proof -
  obtain r1 d1 where b: "begin_immediate db = (r1, d1)" by fastforce
  have d1: "q_tables d1 = q_tables db" "case r1 of Inl _ \<Rightarrow> q_saved d1 = None | Inr _ \<Rightarrow> q_saved d1 = Some (q_tables db)"
    using b free by (auto simp: begin_immediate_def sql_exec_def roll_back_def Let_def
        split: list.splits option.splits sql_fault.splits if_splits)
  show ?thesis
  proof (cases r1)
    case (Inl e)
    then show ?thesis using run b d1 by (auto simp: sql_transaction_def bind_act_eq)
  next
    case (Inr u)
    then have s: "q_saved d1 = Some (q_tables db)" using d1 by simp
    obtain r2 d2 where m: "m d1 = (r2, d2)" by fastforce
    note M = body[unfolded body_def, rule_format, OF s m]
    show ?thesis
    proof (cases r2)
      case (Inl e)
      then have "r = Inl e" "db' = snd (rollback_transaction d2)"
        using run b Inr m by (simp_all add: sql_transaction_def bind_act_eq)
      then show ?thesis using M Inl by (auto simp: rollback_transaction_def roll_back_def)
    next
      case r2: (Inr u')
      obtain r3 d3 where c: "commit_transaction d2 = (r3, d3)" by fastforce
      then have "r = r3 \<and> db' = (case r3 of Inl _ \<Rightarrow> snd (rollback_transaction d3) | Inr _ \<Rightarrow> d3)"
        using run b Inr m r2 by (cases r3) (auto simp: sql_transaction_def bind_act_eq)
      then show ?thesis using M r2 d1(1) c
        by (auto simp: commit_transaction_def sql_exec_def rollback_transaction_def roll_back_def Let_def
            split: list.splits option.splits sql_fault.splits if_splits)
    qed
  qed
qed

text \<open>A single statement outside a transaction.\<close>

lemma sql_run_spec:
  assumes "q_saved db = None" "sql_run f db = (r, db')"
  shows "q_saved db' = None \<and> q_tables db' = (case r of Inr _ \<Rightarrow> f (q_tables db) | Inl _ \<Rightarrow> q_tables db)"
  using assms by (auto simp: sql_run_def sql_exec_def roll_back_def Let_def
      split: list.splits option.splits sql_fault.splits if_splits)

section \<open>The two batches\<close>

lemma insert_op_body [body_rules]: "body (insert_op p) (put_op p)"
proof (cases "json_stringify (o_value p)")
  case None
  then show ?thesis by (simp add: insert_op_def body_throw)
next
  case (Some v)
  have "put_op p = (\<lambda>T. T\<lparr>t_ops := store_insert_new (c_id (new_row p v)) (new_row p v) (t_ops T)\<rparr>)"
    by (simp add: put_op_def op_bytes_def Some fun_eq_iff) (simp add: new_row_def)
  then show ?thesis by (simp add: insert_op_def Some sql_insertOp_def body_run)
qed

lemma upsert_winner_body [body_rules]: "body (upsert_winner w) (put_winner w)"
proof (cases "split_key (fst w)")
  case None
  then show ?thesis by (simp add: upsert_winner_def body_throw)
next
  case (Some x)
  then show ?thesis
    by (cases "json_stringify (op_to_js (snd w))")
      (simp_all add: upsert_winner_def body_throw sql_upsertCell_def body_run put_winner_def[abs_def] json_bytes_def)
qed

lemma writeMeta_body [body_rules]: "body (writeMeta key v) (put_meta key v)"
  by (cases "json_stringify v")
    (simp_all add: writeMeta_def body_throw sql_setMeta_def body_run put_meta_def[abs_def] json_bytes_def)

lemma delete_op_body [body_rules]: "body (sql_deleteOp i) (del_op i)"
  by (simp add: sql_deleteOp_def del_op_def[abs_def] body_run)

lemma delete_cell_body [body_rules]: "body (delete_cell k) (del_cell k)"
  by (cases "split_key k") (simp_all add: delete_cell_def body_throw sql_deleteCell_def body_run del_cell_def[abs_def])

lemma fold_put_op:
  assumes "tables_inv T" "distinct (map o_id ps)" "\<forall>p \<in> set ps. storable p \<and> r_log (tables_view T) (o_id p) = None"
  shows "tables_inv (fold put_op ps T) \<and>
    tables_view (fold put_op ps T) = (tables_view T)\<lparr>r_log := r_log (tables_view T) ++ ops_map ps\<rparr>"
  using assms
proof (induction ps arbitrary: T)
  case Nil
  then show ?case by (simp add: ops_map_def)
next
  case (Cons p ps)
  note P = put_op_spec[OF Cons.prems(1), of p]
  have "\<forall>q \<in> set ps. storable q \<and> r_log (tables_view (put_op p T)) (o_id q) = None"
  proof
    fix q assume q: "q \<in> set ps"
    then have "o_id q \<in> o_id ` set ps" by (rule imageI)
    then have "o_id q \<noteq> o_id p" using Cons.prems(2) by auto
    then show "storable q \<and> r_log (tables_view (put_op p T)) (o_id q) = None"
      using Cons.prems(3) P(2) q by simp
  qed
  note IH = Cons.IH[OF P(1) _ this]
  have none: "ops_map ps (o_id p) = None"
    using Cons.prems(2) by (simp add: ops_map_def map_of_eq_None_iff image_image)
  have "((r_log (tables_view T))(o_id p \<mapsto> p) ++ ops_map ps) i = (r_log (tables_view T) ++ ops_map (p # ps)) i" for i
    using none by (cases "i = o_id p") (simp_all add: map_add_def ops_map_def split: option.split)
  then have eq: "(r_log (tables_view T))(o_id p \<mapsto> p) ++ ops_map ps = r_log (tables_view T) ++ ops_map (p # ps)" ..
  define m where "m = (r_log (tables_view T))(o_id p \<mapsto> p)"
  have v: "tables_view (put_op p T) = (tables_view T)\<lparr>r_log := m\<rparr>"
    using P(2) Cons.prems(3) by (simp add: m_def)
  have "distinct (map o_id ps)" using Cons.prems(2) by simp
  from IH[OF _ _ this] Cons.prems(3)
  have "tables_inv (fold put_op ps (put_op p T)) \<and> tables_view (fold put_op ps (put_op p T)) =
      (tables_view T)\<lparr>r_log := m ++ ops_map ps\<rparr>" by (simp add: v)
  then show ?case by (simp add: eq m_def del: fun_upd_apply)
qed

lemma fold_put_winner:
  assumes "tables_inv T" "\<forall>(k, p) \<in> set ws. storable p \<and> k = op_key p"
  shows "tables_inv (fold put_winner ws T) \<and>
    tables_view (fold put_winner ws T) =
      (tables_view T)\<lparr>r_cells := r_cells (tables_view T) ++ map_of (rev (map (\<lambda>(k, p). (op_cell p, p)) ws))\<rparr>"
  using assms
proof (induction ws arbitrary: T)
  case Nil
  then show ?case by simp
next
  case (Cons w ws)
  obtain k p where w: "w = (k, p)" by fastforce
  note P = put_winner_spec[OF Cons.prems(1), of p k]
  have "tables_inv (put_winner w T)" "\<forall>(k, p) \<in> set ws. storable p \<and> k = op_key p"
    using Cons.prems P(1) by (auto simp: w)
  note IH = Cons.IH[OF this]
  then show ?case using P(2) Cons.prems(2) by (simp add: w) (simp add: fun_eq_iff map_add_def split: option.splits)
qed

lemma fold_del_op:
  assumes "tables_inv T"
  shows "tables_inv (fold del_op ids T) \<and>
    tables_view (fold del_op ids T) = (tables_view T)\<lparr>r_log := r_log (tables_view T) |` (- set ids)\<rparr>"
  using assms
proof (induction ids arbitrary: T)
  case Nil
  then show ?case by simp
next
  case (Cons i ids)
  note D = del_op_spec[OF Cons.prems, of i]
  from Cons.IH[OF D(1)] D(2) show ?case by (simp add: fun_eq_iff restrict_map_def)
qed

lemma fold_del_cell:
  assumes "tables_inv T" "\<forall>k \<in> set ks. split_key k \<noteq> None"
  shows "tables_inv (fold del_cell ks T) \<and> tables_view (fold del_cell ks T) =
      (tables_view T)\<lparr>r_cells := (\<lambda>x. if Some x \<in> split_key ` set ks then None else r_cells (tables_view T) x)\<rparr>"
  using assms
proof (induction ks arbitrary: T)
  case Nil
  then show ?case by simp
next
  case (Cons k ks)
  obtain x where x: "split_key k = Some x" using Cons.prems(2) by auto
  note D = del_cell_spec[OF Cons.prems(1) x]
  from Cons.IH[OF D(1)] D(2) Cons.prems(2) x show ?case by (auto simp: fun_eq_iff)
qed

lemma sqlite_applyBatch_spec:
  assumes inv: "sqlite_inv db" and run: "sqlite_applyBatch b db = (r, db')"
  shows "case r of
      Inr _ \<Rightarrow> batch_ok (sqlite_view db) b \<longrightarrow> sqlite_inv db' \<and> sqlite_view db' = apply_spec b (sqlite_view db)
    | Inl _ \<Rightarrow> sqlite_inv db' \<and> sqlite_view db' = sqlite_view db"
proof -
  define F where "F T = put_meta (js ''clock'') (clock_js (b_clock b)) (put_meta (js ''frontier'') (frontier_js (b_frontier b))
      (fold put_winner (b_winners b) (fold put_op (b_ops b) T)))" for T
  have "body (bind_act (each_act insert_op (b_ops b)) (\<lambda>_. bind_act (each_act upsert_winner (b_winners b)) (\<lambda>_.
      bind_act (writeMeta (js ''frontier'') (frontier_js (b_frontier b))) (\<lambda>_. writeMeta (js ''clock'') (clock_js (b_clock b)))))) F"
    unfolding F_def by (intro body_bind body_each body_rules)
  from sql_transaction_spec[OF this _ run[unfolded sqlite_applyBatch_def]] inv
  have S: "q_saved db' = None" "q_tables db' = (case r of Inr _ \<Rightarrow> F (q_tables db) | Inl _ \<Rightarrow> q_tables db)"
    by (simp_all add: sqlite_inv_def)
  have T: "tables_inv (q_tables db)" using inv by (simp add: sqlite_inv_def)
  have F: "tables_inv (F (q_tables db)) \<and> tables_view (F (q_tables db)) = apply_spec b (tables_view (q_tables db))"
    if ok: "batch_ok (tables_view (q_tables db)) b"
  proof -
    let ?T1 = "fold put_op (b_ops b) (q_tables db)" and ?T2 = "fold put_winner (b_winners b) (fold put_op (b_ops b) (q_tables db))"
    note B = ok[unfolded batch_ok_def]
    have 1: "tables_inv ?T1" "tables_view ?T1 = (tables_view (q_tables db))\<lparr>r_log := r_log (tables_view (q_tables db)) ++ ops_map (b_ops b)\<rparr>"
      using fold_put_op[OF T, of "b_ops b"] B by simp_all
    have "map_of (rev (map (\<lambda>(k, p). (op_cell p, p)) (b_winners b))) = winners_map (b_winners b)"
      by (rule winners_map_rev) (use B in simp_all)
    then have 2: "tables_inv ?T2" "tables_view ?T2 = (tables_view ?T1)\<lparr>r_cells := r_cells (tables_view ?T1) ++ winners_map (b_winners b)\<rparr>"
      using fold_put_winner[OF 1(1), of "b_winners b"] B by simp_all
    have f: "js_frontier (b_frontier b)" "safe_clock (b_clock b)" using B by simp_all
    note 3 = put_meta_frontier[OF 2(1) f(1)]
    note 4 = put_meta_clock[OF 3(1) f(2)]
    show ?thesis unfolding F_def using 4 3(2) 2(2) 1(2) by (simp add: apply_spec_def)
  qed
  show ?thesis using S T F by (cases r) (simp_all add: sqlite_inv_def sqlite_view_def)
qed

lemma sqlite_compact_spec:
  assumes inv: "sqlite_inv db" and run: "sqlite_compact w db = (r, db')"
  shows "case r of
      Inr _ \<Rightarrow> compact_ok w \<longrightarrow> sqlite_inv db' \<and> sqlite_view db' = compact_spec w (sqlite_view db)
    | Inl _ \<Rightarrow> sqlite_inv db' \<and> sqlite_view db' = sqlite_view db"
proof -
  define F where "F T = fold del_cell (w_cellKeys w) (fold del_op (w_opIds w) T)" for T
  have "body (bind_act (each_act sql_deleteOp (w_opIds w)) (\<lambda>_. each_act delete_cell (w_cellKeys w))) F"
    unfolding F_def by (intro body_bind body_each body_rules)
  from sql_transaction_spec[OF this _ run[unfolded sqlite_compact_def]] inv
  have S: "q_saved db' = None" "q_tables db' = (case r of Inr _ \<Rightarrow> F (q_tables db) | Inl _ \<Rightarrow> q_tables db)"
    by (simp_all add: sqlite_inv_def)
  have T: "tables_inv (q_tables db)" using inv by (simp add: sqlite_inv_def)
  have F: "tables_inv (F (q_tables db)) \<and> tables_view (F (q_tables db)) = compact_spec w (tables_view (q_tables db))"
    if ok: "compact_ok w"
  proof -
    let ?T1 = "fold del_op (w_opIds w) (q_tables db)"
    have 1: "tables_inv ?T1" "tables_view ?T1 = (tables_view (q_tables db))\<lparr>r_log := r_log (tables_view (q_tables db)) |` (- set (w_opIds w))\<rparr>"
      using fold_del_op[OF T] by simp_all
    show ?thesis unfolding F_def
      using fold_del_cell[OF 1(1) compact_ok_split[OF ok]] 1(2) by (simp add: compact_spec_def cong: if_cong)
  qed
  show ?thesis using S T F by (cases r) (simp_all add: sqlite_inv_def sqlite_view_def)
qed

section \<open>The contract\<close>

lemma sqlite_setDeviceKey_spec:
  assumes inv: "sqlite_inv db" and run: "sqlite_setDeviceKey k db = (r, db')"
  shows "sqlite_inv db' \<and> sqlite_view db' = (case r of Inr _ \<Rightarrow> (sqlite_view db)\<lparr>r_key := Some k\<rparr> | Inl _ \<Rightarrow> sqlite_view db)"
proof -
  obtain t where t: "json_stringify (key_js k) = Some t" using bind_stringify[OF key_codec(1)] by blast
  have "sqlite_setDeviceKey k = sql_run (put_meta (js ''deviceKey'') (key_js k))"
    by (simp add: sqlite_setDeviceKey_def writeMeta_def t sql_setMeta_def put_meta_def[abs_def] json_bytes_def)
  from sql_run_spec[OF _ run[unfolded this]] inv
  have "q_saved db' = None" "q_tables db' = (case r of Inr _ \<Rightarrow> put_meta (js ''deviceKey'') (key_js k) (q_tables db) | Inl _ \<Rightarrow> q_tables db)"
    by (simp_all add: sqlite_inv_def)
  then show ?thesis using inv put_meta_key[of "q_tables db" k]
    by (cases r) (simp_all add: sqlite_inv_def sqlite_view_def)
qed

lemma sqlite_setPeerFrontier_spec:
  assumes inv: "sqlite_inv db" and f: "js_frontier f" and run: "sqlite_setPeerFrontier d f db = (r, db')"
  shows "sqlite_inv db' \<and> sqlite_view db' =
    (case r of Inr _ \<Rightarrow> (sqlite_view db)\<lparr>r_peers := (r_peers (sqlite_view db))(d \<mapsto> f)\<rparr> | Inl _ \<Rightarrow> sqlite_view db)"
proof -
  have T: "tables_inv (q_tables db)" using inv by (simp add: sqlite_inv_def)
  obtain ps where ps: "js_peers ps" "sqlite_getPeerFrontiers (q_tables db) = Inr ps"
    by (rule sqlite_getPeerFrontiers_cases[OF T])
  let ?qs = "entry_order (map_set d f ps)"
  note P = js_peers_set[OF ps(1) f, of d]
  obtain t where t: "json_stringify (peers_js ?qs) = Some t" using bind_stringify[OF peers_codec(1)[OF P(1)]] by blast
  have "sqlite_setPeerFrontier d f db = sql_run (put_meta (js ''peers'') (peers_js ?qs)) db"
    by (simp add: sqlite_setPeerFrontier_def bind_act_eq ps(2) sqlite_write_peer_def writeMeta_def t sql_setMeta_def
        put_meta_def[abs_def] json_bytes_def)
  with run sql_run_spec[of db "put_meta (js ''peers'') (peers_js ?qs)" r db'] inv
  have "q_saved db' = None"
    "q_tables db' = (case r of Inr _ \<Rightarrow> put_meta (js ''peers'') (peers_js ?qs) (q_tables db) | Inl _ \<Rightarrow> q_tables db)"
    by (simp_all add: sqlite_inv_def)
  moreover have "r_peers (sqlite_view db) = map_of ps" by (simp add: sqlite_view_def tables_view_def ps(2))
  ultimately show ?thesis using inv put_meta_peers[OF T P(1)] P(2)
    by (cases r) (simp_all add: sqlite_inv_def sqlite_view_def)
qed

interpretation sqlite: storage_adapter sqlite_adapter sqlite_inv sqlite_view
proof (unfold_locales, goal_cases)
  case (1 s t r)
  then show ?case using sqlite_getRow_spec[of "q_tables s" t r]
    by (auto simp: sqlite_adapter_def sqlite_inv_def sqlite_view_def)
next
  case (2 s t r m)
  then show ?case using sqlite_getRow_spec[of "q_tables s" t r]
    by (auto simp: sqlite_adapter_def sqlite_inv_def sqlite_view_def)
next
  case (3 s t)
  then show ?case using sqlite_listRows_spec by (simp add: sqlite_adapter_def sqlite_inv_def sqlite_view_def)
next
  case (4 s)
  then show ?case using sqlite_listTables_spec by (simp add: sqlite_adapter_def sqlite_inv_def sqlite_view_def)
next
  case (5 s i)
  then have T: "tables_inv (q_tables s)" by (simp add: sqlite_inv_def)
  have "map_of (t_ops (q_tables s)) (bind_text i) \<noteq> None \<longleftrightarrow> r_log (tables_view (q_tables s)) i \<noteq> None"
    using tables_invD(4)[OF T] log_at[OF T, of i] toOp_bytes by (auto simp: tables_view_def) (metis toOp_bytes)?
  then show ?case by (simp add: sqlite_adapter_def sqlite_hasOp_def sql_countOp_def sqlite_view_def)
next
  case (6 s t r c)
  then show ?case using sqlite_getWinner_spec by (simp add: sqlite_adapter_def sqlite_inv_def sqlite_view_def)
next
  case (7 s f)
  then show ?case using sqlite_opsSince_spec[of "q_tables s" f]
    by (auto simp: sqlite_adapter_def sqlite_inv_def sqlite_view_def)
next
  case (8 s)
  then show ?case using sqlite_allOps_spec[of "q_tables s"] by (simp add: sqlite_adapter_def sqlite_inv_def sqlite_view_def)
next
  case (9 s)
  then have T: "tables_inv (q_tables s)" by (simp add: sqlite_inv_def)
  have "bij_betw bind_text (dom (r_log (tables_view (q_tables s)))) (dom (map_of (t_ops (q_tables s))))"
    unfolding bij_betw_def
  proof
    show "inj_on bind_text (dom (r_log (tables_view (q_tables s))))"
    proof (rule inj_onI)
      fix i j assume "i \<in> dom (r_log (tables_view (q_tables s)))" "bind_text i = bind_text j"
        "j \<in> dom (r_log (tables_view (q_tables s)))"
      then show "i = j" using log_at[OF T] storable_ascii bind_eq by (metis domD)
    qed
    show "bind_text ` dom (r_log (tables_view (q_tables s))) = dom (map_of (t_ops (q_tables s)))"
    proof (intro equalityI subsetI)
      fix k assume "k \<in> dom (map_of (t_ops (q_tables s)))"
      then obtain r where r: "map_of (t_ops (q_tables s)) k = Some r" by blast
      from tables_invD(4)[OF T r] obtain p where "storable p" "k = bind_text (o_id p)" "r = op_bytes p" by blast
      with r have "r_log (tables_view (q_tables s)) (o_id p) = Some p" "k = bind_text (o_id p)" by (simp_all add: log_at[OF T])
      then show "k \<in> bind_text ` dom (r_log (tables_view (q_tables s)))" by blast
    qed (auto simp: log_at[OF T])
  qed
  then have "card (dom (r_log (tables_view (q_tables s)))) = length (t_ops (q_tables s))"
    using bij_betw_same_card card_dom_map_of[OF ordered_distinct[OF tables_invD(1)[OF T]]] by metis
  then show ?case by (simp add: sqlite_adapter_def sqlite_opCount_def sql_countOps_def sqlite_view_def)
next
  case (13 s)
  then have T: "tables_inv (q_tables s)" by (simp add: sqlite_inv_def)
  obtain ps where "js_peers ps" "sqlite_getPeerFrontiers (q_tables s) = Inr ps"
    by (rule sqlite_getPeerFrontiers_cases[OF T])
  then show ?case by (simp add: sqlite_adapter_def sqlite_view_def tables_view_def js_peers_def)
next
  case (14 s i p)
  then show ?case using log_at by (auto simp: sqlite_inv_def sqlite_view_def)
next
  case (15 s b u s')
  then show ?case using sqlite_applyBatch_spec[of s b "Inr u" s'] by (simp add: sqlite_adapter_def)
next
  case (16 s b e s')
  then show ?case using sqlite_applyBatch_spec[of s b "Inl e" s'] by (simp add: sqlite_adapter_def)
next
  case (17 s w u s')
  then show ?case using sqlite_compact_spec[of s w "Inr u" s'] by (simp add: sqlite_adapter_def)
next
  case (18 s w e s')
  then show ?case using sqlite_compact_spec[of s w "Inl e" s'] by (simp add: sqlite_adapter_def)
next
  case (19 s f d u s')
  then show ?case using sqlite_setPeerFrontier_spec[of s f d "Inr u" s'] by (simp add: sqlite_adapter_def)
next
  case (20 s d f e s')
  then have T: "tables_inv (q_tables s)" by (simp add: sqlite_inv_def)
  have run: "sqlite_setPeerFrontier d f s = (Inl e, s')" using 20(2) by (simp add: sqlite_adapter_def)
  obtain ps where ps: "sqlite_getPeerFrontiers (q_tables s) = Inr ps" using sqlite_getPeerFrontiers_cases[OF T] by blast
  have "writeMeta (js ''peers'') (peers_js (entry_order (map_set d f ps))) s = (Inl e, s')"
    using run by (simp add: sqlite_setPeerFrontier_def bind_act_eq ps sqlite_write_peer_def)
  then have "q_saved s' = None \<and> q_tables s' = q_tables s"
    using 20(1) sql_run_spec[of s _ "Inl e" s']
    by (auto simp: writeMeta_def throw_def sql_setMeta_def sqlite_inv_def split: option.splits)
  then show ?case using 20(1) by (simp add: sqlite_inv_def sqlite_view_def)
next
  case (21 s k u s')
  then show ?case using sqlite_setDeviceKey_spec[of s k "Inr u" s'] by (simp add: sqlite_adapter_def)
next
  case (22 s k e s')
  then show ?case using sqlite_setDeviceKey_spec[of s k "Inl e" s'] by (simp add: sqlite_adapter_def)
qed (simp_all add: sqlite_adapter_def sqlite_view_def tables_view_def)

end
