(* ===== verification/Sqlite_Properties.thy ===== *)
theory Sqlite_Properties
  imports Sqlite_Contract Idb_Properties
begin

text \<open>
  What the SQLite adapter promises: its writes are all or nothing, whatever the statements of the
  transaction meet, and its reads of a database it has written never fail and answer like the memory
  adapter.
\<close>

section \<open>Writes\<close>

text \<open>Without a fault of the database an action returns, leaves none behind, and keeps the transaction.\<close>

definition smooth :: "(sqlite, unit) act \<Rightarrow> bool" where
  "smooth m \<longleftrightarrow> (\<forall>db. q_faults db = [] \<longrightarrow>
     (\<exists>db'. m db = (Inr (), db') \<and> q_faults db' = [] \<and> (q_saved db' = None \<longleftrightarrow> q_saved db = None)))"

named_theorems smooth_rules

lemma smooth_run [smooth_rules]: "smooth (sql_run f)"
  by (simp add: smooth_def sql_run_def sql_exec_def)

lemma smooth_bind [smooth_rules]:
  assumes "smooth m" "smooth k"
  shows "smooth (bind_act m (\<lambda>_. k))"
  unfolding smooth_def
proof (intro allI impI)
  fix db :: sqlite assume "q_faults db = []"
  then obtain d1 where d1: "m db = (Inr (), d1)" "q_faults d1 = []" "q_saved d1 = None \<longleftrightarrow> q_saved db = None"
    using assms(1) by (auto simp: smooth_def)
  then obtain d2 where "k d1 = (Inr (), d2)" "q_faults d2 = []" "q_saved d2 = None \<longleftrightarrow> q_saved d1 = None"
    using assms(2) by (auto simp: smooth_def)
  with d1 show "\<exists>db'. bind_act m (\<lambda>_. k) db = (Inr (), db') \<and> q_faults db' = [] \<and> (q_saved db' = None \<longleftrightarrow> q_saved db = None)"
    by (simp add: bind_act_eq)
qed

lemma smooth_each [smooth_rules]: "(\<And>x. x \<in> set xs \<Longrightarrow> smooth (f x)) \<Longrightarrow> smooth (each_act f xs)"
proof (induction xs)
  case Nil
  then show ?case by (simp add: smooth_def ret_def)
next
  case (Cons x xs)
  then show ?case unfolding each_act.simps by (intro smooth_bind) auto
qed

lemma smooth_writeMeta [smooth_rules]: "is_json v \<Longrightarrow> smooth (writeMeta key v)"
  using bind_stringify[of v] by (auto simp: writeMeta_def sql_setMeta_def smooth_run)

lemma smooth_insert_op [smooth_rules]: "storable p \<Longrightarrow> smooth (insert_op p)"
  using bind_stringify[of "o_value p"] by (auto simp: storable_def insert_op_def sql_insertOp_def smooth_run)

lemma smooth_upsert [smooth_rules]: "storable (snd w) \<Longrightarrow> fst w = op_key (snd w) \<Longrightarrow> smooth (upsert_winner w)"
  using bind_stringify[of "op_to_js (snd w)"]
  by (auto simp: upsert_winner_def split_op_key storable_def sql_upsertCell_def smooth_run)

lemma smooth_delete_cell [smooth_rules]: "split_key k \<noteq> None \<Longrightarrow> smooth (delete_cell k)"
  by (auto simp: delete_cell_def sql_deleteCell_def smooth_run)

lemma smooth_transaction:
  assumes "smooth m" "q_saved db = None" "q_faults db = []"
  shows "fst (sql_transaction m db) = Inr ()"
proof -
  have b: "begin_immediate db = (Inr (), db\<lparr>q_saved := Some (q_tables db)\<rparr>)"
    using assms(2,3) by (simp add: begin_immediate_def sql_exec_def)
  obtain d2 where d2: "m (db\<lparr>q_saved := Some (q_tables db)\<rparr>) = (Inr (), d2)" "q_faults d2 = []" "q_saved d2 \<noteq> None"
    using assms(1)[unfolded smooth_def, rule_format, of "db\<lparr>q_saved := Some (q_tables db)\<rparr>"] assms(3) by auto
  then show ?thesis by (simp add: sql_transaction_def bind_act_eq b commit_transaction_def sql_exec_def)
qed

lemma smooth_applyBatch:
  assumes "batch_ok v b" "q_saved db = None" "q_faults db = []"
  shows "fst (sqlite_applyBatch b db) = Inr ()"
  unfolding sqlite_applyBatch_def
proof (rule smooth_transaction[OF _ assms(2,3)], intro smooth_bind smooth_each)
  show "smooth (insert_op p)" if "p \<in> set (b_ops b)" for p
    using assms(1) that by (intro smooth_insert_op) (auto simp: batch_ok_def)
  show "smooth (upsert_winner w)" if "w \<in> set (b_winners b)" for w
    using assms(1) that by (intro smooth_upsert) (auto simp: batch_ok_def)
  show "smooth (writeMeta (js ''frontier'') (frontier_js (b_frontier b)))"
    using assms(1) by (intro smooth_writeMeta frontier_codec) (simp add: batch_ok_def)
  show "smooth (writeMeta (js ''clock'') (clock_js (b_clock b)))"
    using assms(1) by (intro smooth_writeMeta clock_codec) (simp add: batch_ok_def)
qed

lemma smooth_compact:
  assumes "compact_ok w" "q_saved db = None" "q_faults db = []"
  shows "fst (sqlite_compact w db) = Inr ()"
  unfolding sqlite_compact_def
proof (rule smooth_transaction[OF _ assms(2,3)], intro smooth_bind smooth_each)
  show "smooth (sql_deleteOp i)" for i by (simp add: sql_deleteOp_def smooth_run)
  show "smooth (delete_cell k)" if "k \<in> set (w_cellKeys w)" for k
    using assms(1) that split_cellKey by (intro smooth_delete_cell) (fastforce simp: compact_ok_def)
qed

text \<open>
  A write on \<open>db\<close> is all or nothing towards \<open>v\<close>: when it returns it has made exactly that change, when
  it throws it has made none, no transaction stays open, and it throws only when a statement failed.
\<close>

definition all_or_nothing :: "unit result \<times> sqlite \<Rightarrow> sqlite \<Rightarrow> replica \<Rightarrow> bool" where
  "all_or_nothing run db v \<longleftrightarrow> sqlite_inv (snd run) \<and>
     sqlite_view (snd run) = (if fst run = Inr () then v else sqlite_view db) \<and>
     (q_faults db = [] \<longrightarrow> fst run = Inr ())"

lemma all_or_nothingI:
  assumes "\<And>u db'. run = (Inr u, db') \<Longrightarrow> sqlite_inv db' \<and> sqlite_view db' = v"
    "\<And>e db'. run = (Inl e, db') \<Longrightarrow> sqlite_inv db' \<and> sqlite_view db' = sqlite_view db"
    "q_faults db = [] \<Longrightarrow> fst run = Inr ()"
  shows "all_or_nothing run db v"
proof (cases run)
  case (Pair r db')
  then show ?thesis using assms by (cases r) (auto simp: all_or_nothing_def)
qed

lemma sqlite_ops:
  "applyBatch sqlite_adapter = sqlite_applyBatch" "compact_store sqlite_adapter = sqlite_compact"
  "setPeerFrontier sqlite_adapter = sqlite_setPeerFrontier" "setDeviceKey sqlite_adapter = sqlite_setDeviceKey"
  by (simp_all add: sqlite_adapter_def)

text \<open>C21. Every write of the SQLite adapter refines the abstract replica and is all or nothing: a
statement of the transaction may fail, SQLite may or may not roll back by itself, the explicit
rollback may then fail too; in every case the call throws, the tables read as before and no
transaction is left open, and without a failing statement the call makes exactly the change of
the storage contract.\<close>

theorem sqlite_writes_refine:
  assumes "sqlite_inv db" "batch_ok (sqlite_view db) b" "compact_ok w" "js_frontier f"
  shows "all_or_nothing (sqlite_applyBatch b db) db (apply_spec b (sqlite_view db)) \<and>
    all_or_nothing (sqlite_compact w db) db (compact_spec w (sqlite_view db)) \<and>
    all_or_nothing (sqlite_setPeerFrontier d f db) db ((sqlite_view db)\<lparr>r_peers := (r_peers (sqlite_view db))(d \<mapsto> f)\<rparr>) \<and>
    all_or_nothing (sqlite_setDeviceKey k db) db ((sqlite_view db)\<lparr>r_key := Some k\<rparr>)"
proof -
  note inv = assms(1)
  have free: "q_saved db = None" and T: "tables_inv (q_tables db)" using inv by (simp_all add: sqlite_inv_def)
  have "all_or_nothing (sqlite_applyBatch b db) db (apply_spec b (sqlite_view db))"
    by (rule all_or_nothingI[OF sqlite.applyBatch_ok[OF inv assms(2), unfolded sqlite_ops] sqlite.applyBatch_err[OF inv, unfolded sqlite_ops]])
      (simp_all add: smooth_applyBatch[OF assms(2) free])
  moreover have "all_or_nothing (sqlite_compact w db) db (compact_spec w (sqlite_view db))"
    by (rule all_or_nothingI[OF sqlite.compact_ok[OF inv assms(3), unfolded sqlite_ops] sqlite.compact_err[OF inv, unfolded sqlite_ops]])
      (simp_all add: smooth_compact[OF assms(3) free])
  moreover have "all_or_nothing (sqlite_setPeerFrontier d f db) db ((sqlite_view db)\<lparr>r_peers := (r_peers (sqlite_view db))(d \<mapsto> f)\<rparr>)"
  proof (rule all_or_nothingI[OF sqlite.setPeerFrontier_ok[OF inv assms(4), unfolded sqlite_ops] sqlite.setPeerFrontier_err[OF inv, unfolded sqlite_ops]])
    obtain ps where ps: "js_peers ps" "sqlite_getPeerFrontiers (q_tables db) = Inr ps" by (rule sqlite_getPeerFrontiers_cases[OF T])
    have "smooth (sqlite_write_peer d f ps)"
      unfolding sqlite_write_peer_def by (intro smooth_writeMeta peers_codec js_peers_set ps(1) assms(4))
    then show "q_faults db = [] \<Longrightarrow> fst (sqlite_setPeerFrontier d f db) = Inr ()"
      by (auto simp: sqlite_setPeerFrontier_def bind_act_eq ps(2) smooth_def)
  qed simp_all
  moreover have "all_or_nothing (sqlite_setDeviceKey k db) db ((sqlite_view db)\<lparr>r_key := Some k\<rparr>)"
    using smooth_writeMeta[OF key_codec(1), of "js ''deviceKey''" k]
    by (intro all_or_nothingI[OF sqlite.setDeviceKey_ok[OF inv, unfolded sqlite_ops] sqlite.setDeviceKey_err[OF inv, unfolded sqlite_ops]])
      (auto simp: sqlite_setDeviceKey_def smooth_def)
  ultimately show ?thesis by blast
qed

text \<open>A new database file, and one that is opened again.\<close>

lemma open_new: "sqlite_inv (open_sqlite fs None)" "sqlite_view (open_sqlite fs None) = mem_view new_memory"
  by (simp_all add: sqlite_inv_def open_sqlite_def schema_tables_def tables_inv_def sql_getMeta_def sqlite_view_def
      tables_view_def new_memory_view sqlite_getFrontier_def sqlite_getClock_def sqlite_getDeviceKey_def
      sqlite_getPeerFrontiers_def readMeta_def read_as_def ok_or_def fun_eq_iff)

lemma open_again:
  "sqlite_inv db \<Longrightarrow> sqlite_inv (open_sqlite fs (Some (q_tables db)))"
  "sqlite_view (open_sqlite fs (Some (q_tables db))) = sqlite_view db"
  by (simp_all add: sqlite_inv_def open_sqlite_def schema_tables_def sqlite_view_def)

lemma open_faults [simp]: "q_faults (open_sqlite fs file) = fs"
  by (simp add: open_sqlite_def)

text \<open>The insert of the sample batch succeeds, the statement after it fails and rolls back.\<close>

theorem sqlite_writes_refine_witness:
  "r_log (sqlite_view (snd (sqlite_applyBatch (sample_write op_one) (open_sqlite [] None)))) (o_id op_one) = Some op_one \<and>
   all_or_nothing (sqlite_applyBatch (sample_write op_one) (open_sqlite [None, None, Some (Fault (Error (js ''SQLITE_FULL'')) True)] None))
     (open_sqlite [None, None, Some (Fault (Error (js ''SQLITE_FULL'')) True)] None) (apply_spec (sample_write op_one) (mem_view new_memory))"
proof -
  have ok: "batch_ok (sqlite_view (open_sqlite fs None)) (sample_write op_one)" for fs
    using sample_write_ok by (simp add: open_new)
  have w: "compact_ok \<lparr>w_opIds = [], w_cellKeys = []\<rparr>" by (simp add: compact_ok_def)
  note R = sqlite_writes_refine[OF open_new(1) ok w plain_js_frontier[OF plain_frontier_Nil]]
  have A: "all_or_nothing (sqlite_applyBatch (sample_write op_one) (open_sqlite fs None)) (open_sqlite fs None)
      (apply_spec (sample_write op_one) (mem_view new_memory))" for fs
    using R[of fs] by (simp add: open_new)
  from A[of "[]"] have "r_log (sqlite_view (snd (sqlite_applyBatch (sample_write op_one) (open_sqlite [] None)))) (o_id op_one) = Some op_one"
    by (simp add: all_or_nothing_def new_memory_view apply_spec_def sample_write_def ops_map_def)
  with A show ?thesis by blast
qed

section \<open>Reads\<close>

text \<open>C22. Reads never fail on a database the adapter has written, and answer alike. What is stored is
JSON text in UTF-8 columns; every read parses it back, and gives what the memory adapter with the
same replica gives: operations in the same order, the same winners and rows, each table and each row
of a table once (in no promised order, and for a table name without the separator of cell keys), the same frontier, clock, key
and peer records.\<close>

theorem sqlite_reads_agree:
  assumes inv: "sqlite_inv db" "mem_inv m" and same: "sqlite_view db = mem_view m"
  shows "sqlite_hasOp (q_tables db) i = mem_hasOp m i \<and>
    sqlite_getWinner (q_tables db) t r c = Inr (mem_getWinner m t r c) \<and>
    sqlite_opsSince (q_tables db) f = Inr (mem_opsSince m f) \<and> sqlite_allOps (q_tables db) = Inr (mem_allOps m) \<and>
    sqlite_opCount (q_tables db) = length (opsById m) \<and>
    (\<exists>row. sqlite_getRow (q_tables db) t r = Inr row \<and> rel_option (\<lambda>x y. map_of x = map_of y) row (mem_getRow m t r)) \<and>
    distinct (sqlite_listRows (q_tables db) t) \<and>
    set (sqlite_listRows (q_tables db) t) = {r. \<exists>c. r_cells (mem_view m) (t, r, c) \<noteq> None} \<and>
    (no_sep t \<longrightarrow> set (sqlite_listRows (q_tables db) t) = set (listRows memory_adapter m t)) \<and>
    distinct (sqlite_listTables (q_tables db)) \<and> set (sqlite_listTables (q_tables db)) = set (listTables memory_adapter m) \<and>
    sqlite_getFrontier (q_tables db) = Inr (getFrontier memory_adapter m) \<and>
    sqlite_getClock (q_tables db) = Inr (getClock memory_adapter m) \<and>
    sqlite_getDeviceKey (q_tables db) = Inr (getDeviceKey memory_adapter m) \<and>
    (\<exists>ps. sqlite_getPeerFrontiers (q_tables db) = Inr ps \<and> map_of ps = map_of (getPeerFrontiers memory_adapter m))"
proof -
  have T: "tables_inv (q_tables db)" using inv(1) by (simp add: sqlite_inv_def)
  have view: "tables_view (q_tables db) = mem_view m" using same by (simp add: sqlite_view_def)
  note wf = mem_log_hlc_inj[OF inv(2)] and I = sqlite_adapter_def memory_adapter_def
  have "sqlite_hasOp (q_tables db) i = mem_hasOp m i" "sqlite_opCount (q_tables db) = length (opsById m)"
    using sqlite.hasOp[OF inv(1)] mem.hasOp[OF inv(2)] sqlite.opCount[OF inv(1)] mem.opCount[OF inv(2)] by (simp_all add: I same)
  moreover have "sqlite_getWinner (q_tables db) t r c = Inr (mem_getWinner m t r c)"
    using sqlite_getWinner_spec[OF T] mem.getWinner[OF inv(2)] by (simp add: I view)
  moreover have "sqlite_opsSince (q_tables db) f = Inr (mem_opsSince m f)"
  proof -
    obtain ps where ps: "sqlite_opsSince (q_tables db) f = Inr ps" "sorted_ops ps {p \<in> ran (r_log (mem_view m)). aboveFrontier p f}"
      using sqlite_opsSince_spec[OF T] by (auto simp: view)
    have "ps = mem_opsSince m f"
      using ps(2) mem.opsSince[OF inv(2), of f] by (intro sorted_ops_unique[OF _ _ inj_on_subset[OF wf]]) (auto simp: I)
    with ps(1) show ?thesis by simp
  qed
  moreover have "sqlite_allOps (q_tables db) = Inr (mem_allOps m)"
    using sqlite_allOps_spec[OF T] mem.allOps[OF inv(2)] sorted_ops_unique[OF _ _ wf] by (simp add: I view)
  moreover have "\<exists>row. sqlite_getRow (q_tables db) t r = Inr row \<and> rel_option (\<lambda>x y. map_of x = map_of y) row (mem_getRow m t r)"
  proof -
    obtain row where row: "sqlite_getRow (q_tables db) t r = Inr row" "row = None \<longleftrightarrow> (\<forall>c. r_cells (mem_view m) (t, r, c) = None)"
      "\<forall>x. row = Some x \<longrightarrow> dkeys x \<and> map_of x = (\<lambda>c. r_cells (mem_view m) (t, r, c))"
      using sqlite_getRow_spec[OF T, of t r] by (auto simp: view)
    have "rel_option (\<lambda>x y. map_of x = map_of y) row (mem_getRow m t r)"
      using row(2,3) mem.getRow_None[OF inv(2), of t r] mem.getRow_Some[OF inv(2), of t r]
      by (cases row; cases "mem_getRow m t r") (simp_all add: I)
    with row(1) show ?thesis by blast
  qed
  moreover have "distinct (sqlite_listRows (q_tables db) t)"
    "set (sqlite_listRows (q_tables db) t) = {r. \<exists>c. r_cells (mem_view m) (t, r, c) \<noteq> None}"
    "no_sep t \<longrightarrow> set (sqlite_listRows (q_tables db) t) = set (listRows memory_adapter m t)"
    using sqlite_listRows_spec[OF T, of t] mem.listRows[OF inv(2), of t] by (simp_all add: view)
  moreover have "distinct (sqlite_listTables (q_tables db))" "set (sqlite_listTables (q_tables db)) = set (listTables memory_adapter m)"
    using sqlite_listTables_spec[OF T] mem.listTables[OF inv(2)] by (simp_all add: view)
  moreover have "sqlite_getFrontier (q_tables db) = Inr (getFrontier memory_adapter m)"
    using arg_cong[OF view, of r_front] mem.getFrontier[OF inv(2)]
    by (cases rule: sqlite_getFrontier_cases[OF T]) (simp_all add: tables_view_def ok_or_def)
  moreover have "sqlite_getClock (q_tables db) = Inr (getClock memory_adapter m)"
    using arg_cong[OF view, of r_clock] mem.getClock[OF inv(2)]
    by (cases rule: sqlite_getClock_cases[OF T]) (simp_all add: tables_view_def ok_or_def)
  moreover have "sqlite_getDeviceKey (q_tables db) = Inr (getDeviceKey memory_adapter m)"
    using arg_cong[OF view, of r_key] mem.getDeviceKey[OF inv(2)]
    by (cases rule: sqlite_getDeviceKey_cases[OF T]) (simp_all add: tables_view_def ok_or_def)
  moreover have "\<exists>ps. sqlite_getPeerFrontiers (q_tables db) = Inr ps \<and> map_of ps = map_of (getPeerFrontiers memory_adapter m)"
    using arg_cong[OF view, of r_peers] mem.getPeerFrontiers[OF inv(2)]
    by (cases rule: sqlite_getPeerFrontiers_cases[OF T]) (simp_all add: tables_view_def ok_or_def)
  ultimately show ?thesis by blast
qed

text \<open>The batch is written, and the file opened again by another connection.\<close>

theorem sqlite_reads_agree_witness:
  "sqlite_getWinner (q_tables (open_sqlite [] (Some (q_tables (snd (sqlite_applyBatch (sample_write op_one) (open_sqlite [] None)))))))
     (js ''t'') (replicate 26 48) (js ''a'') =
   Inr (mem_getWinner (snd (mem_applyBatch (sample_write op_one) new_memory)) (js ''t'') (replicate 26 48) (js ''a''))"
proof -
  let ?db = "snd (sqlite_applyBatch (sample_write op_one) (open_sqlite [] None))"
  have ok: "batch_ok (sqlite_view (open_sqlite [] None)) (sample_write op_one)" using sample_write_ok by (simp add: open_new)
  have run: "sqlite_applyBatch (sample_write op_one) (open_sqlite [] None) = (Inr (), ?db)"
    using smooth_applyBatch[OF ok] by (simp add: open_sqlite_def prod_eq_iff)
  have L: "sqlite_inv ?db" "sqlite_view ?db = apply_spec (sample_write op_one) (mem_view new_memory)"
    using sqlite_applyBatch_spec[OF open_new(1) run] ok by (simp_all add: open_new)
  note R = mem_applyBatch_spec[OF new_memory_inv sample_write_ok]
  show ?thesis
    using sqlite_reads_agree[of "open_sqlite [] (Some (q_tables ?db))" "snd (mem_applyBatch (sample_write op_one) new_memory)"]
      open_again L R by simp
qed

end
