(* ===== verification/Write_Properties.thy ===== *)
theory Write_Properties
  imports Engine_Writes Engine_Later Idb_Properties
begin

text \<open>
  Local writes and deletes as the application sees them: what is written is read, a deleted row
  stays hidden, a failed call leaves nothing behind, and a write of proper input is accepted.
\<close>

section \<open>Reading one's writes\<close>

lemma plain_value: "cell_value None p = Inr (o_value p)"
  by (simp add: cell_value_def)

lemma row_content_column: "m c = m' c \<Longrightarrow> row_content K r m c = row_content K r m' c"
  by (simp add: row_content_def column_value_def map_add_def)

context storage_adapter
begin

lemma get_content:
  assumes "inv (e_store e)" "get S K t r e = Inr (Some row)"
  shows "map_of row = row_content K r (row_cells (view (e_store e)) t r)"
  using visible_row_spec(2)[OF assms(1)] assms(2) by (simp add: get_def)

text \<open>Without a cipher every row can be read; one that is not there has no column but its id.\<close>

lemma get_before:
  assumes "inv (e_store e)" "\<not> tombstoned (row_cells (view (e_store e)) t r)"
  shows "row_content None r (row_cells (view (e_store e)) t r) c = (case get S None t r e of
    Inr (Some old) \<Rightarrow> map_of old c | _ \<Rightarrow> if c = js ''id'' then Some (JStr r) else None)"
proof (cases "visible (view (e_store e)) t r")
  case True
  have "readable None (row_cells (view (e_store e)) t r)" by (simp add: readable_def plain_value)
  then obtain row where row: "get S None t r e = Inr (Some row)"
    using visible_row_spec(1,3)[OF assms(1), of None t r] True unfolding get_def
    by (cases "visible_row S None (e_store e) t r"; cases "projr (visible_row S None (e_store e) t r)") auto
  then show ?thesis using get_content[OF assms(1) row] by simp
next
  case False
  then have "get S None t r e = Inr None" using visible_row_spec(1)[OF assms(1)] by (simp add: get_def)
  moreover have "row_cells (view (e_store e)) t r = Map.empty" using False assms(2) by (simp add: visible_def)
  ultimately show ?thesis by (simp add: row_content_def column_value_def map_add_def)
qed

text \<open>A reclaiming compaction takes a row as a whole or leaves it, so it shows no deleted row.\<close>

lemma reclaimed_hidden_row:
  assumes "good C e" "compact S gc dry e = (res, e')" "\<not> visible (view (e_store e)) t r"
  shows "\<not> visible (view (e_store e')) t r"
proof -
  note P = compact_good(5-7)[OF assms(1,2)]
  let ?gone = "\<lambda>st. gc \<and> reclaimable (horizon_of (e_store e)) (view (e_store e)) (t @ [SEP] @ r)"
  have "row_cells (view (e_store e')) t r = Map.empty \<or>
      row_cells (view (e_store e')) t r = row_cells (view (e_store e)) t r"
    using P by (cases res; cases dry; cases "?gone ()") (auto simp: row_cells_def row_of_cell_def fun_eq_iff)
  then show ?thesis using assms(3) by (auto simp: visible_def)
qed

end

text \<open>C34. A local write that returned is what the writer reads next, on the memory adapter and without a
cipher. Unless the row has been deleted it is there, every written column shows its new value (a null
column is absent), every other column shows what it showed before (nothing but the id, when
the row is new), and every other row reads as before.\<close>

theorem read_your_writes:
  assumes "mem_reachable C None e" "json_values vs" "dkeys vs" "vs \<noteq> []"
    "update_row memory_adapter C None ds t r vs e = (Inr (), e')"
    "\<not> tombstoned (row_cells (mem_view (e_store e)) t r)" "TOMBSTONE_COLUMN \<notin> fst ` set vs" "(t', r') \<noteq> (t, r)"
  shows "(\<exists>row. get memory_adapter None t r e' = Inr (Some row) \<and>
      (\<forall>(c, v) \<in> set vs. c \<in> {PROTO, js ''id''} \<or> map_of row c = (if v = JNull then None else Some v)) \<and>
      (\<forall>c. c \<notin> fst ` set vs \<longrightarrow> map_of row c = (case get memory_adapter None t r e of
         Inr (Some old) \<Rightarrow> map_of old c | _ \<Rightarrow> if c = js ''id'' then Some (JStr r) else None))) \<and>
    same_result (rel_option same_obj) (get memory_adapter None t' r' e') (get memory_adapter None t' r' e)"
proof -
  have good: "mem.good C e" "crypto_key C (e_deviceKey e)" using mem_reachable_good[OF assms(1)] by simp_all
  have "mem.good C e'"
    by (rule mem.update_row_spec(1)[OF good assms(2)[unfolded json_values_def] assms(5)])
  then have inv: "mem_inv (e_store e)" "mem_inv (e_store e')" using good(1) by (simp_all add: mem.good_def)
  note U = mem.update_cells[OF good assms(2,3,5)]
  obtain row where row: "get memory_adapter None t r e' = Inr (Some row)"
    using mem.update_shown[OF good assms(2,3,5-7,4)] by (auto simp: readable_def plain_value)
  have "c \<in> {PROTO, js ''id''} \<or> map_of row c = (if v = JNull then None else Some v)" if cv: "(c, v) \<in> set vs" for c v
  proof -
    obtain p where p: "row_cells (mem_view (e_store e')) t r c = Some p" "stored_as None (c, v) p" using U(1) cv by blast
    have "c \<noteq> TOMBSTONE_COLUMN" using assms(7) cv by force
    with p mem.get_value[OF inv(2) row p(1) _ _ plain_value] show ?thesis by (auto simp: stored_as_def split: if_splits)
  qed
  moreover have "map_of row c = (case get memory_adapter None t r e of
      Inr (Some old) \<Rightarrow> map_of old c | _ \<Rightarrow> if c = js ''id'' then Some (JStr r) else None)" if "c \<notin> fst ` set vs" for c
  proof -
    have "row_cells (mem_view (e_store e')) t r c = row_cells (mem_view (e_store e)) t r c" using U(2) that by blast
    then have "row_content None r (row_cells (mem_view (e_store e')) t r) c = row_content None r (row_cells (mem_view (e_store e)) t r) c"
      by (rule row_content_column)
    with mem.get_content[OF inv(2) row] mem.get_before[OF inv(1) assms(6)] show ?thesis by simp
  qed
  moreover have "same_result (rel_option same_obj) (get memory_adapter None t' r' e') (get memory_adapter None t' r' e)"
    unfolding get_def using U(3) assms(8) by (intro mem2.same_row_cells inv) blast
  ultimately show ?thesis using row by blast
qed

text \<open>The sample engine writes a column of a fresh row.\<close>

definition sample_row :: jsstring where "sample_row = replicate 26 48"

lemma sample_names: "name_re (js ''t'')" "ulid_re sample_row" "column_ok (js ''a'')"
  unfolding sample_row_def by (code_simp, code_simp, rule column_ok_a)

lemma sample_cells: "row_cells (mem_view (e_store (sample_engine b))) t r = Map.empty"
  by (simp add: row_cells_def sample_engine_view new_memory_view)

lemma sample_write:
  obtains e' where "update_row memory_adapter sample_crypto None (\<lambda>_. sample_draw) (js ''t'') sample_row
    [(js ''a'', JStr (js ''x''))] (sample_engine 7) = (Inr (), e')"
  using sample_update_total[OF sample_names(1,2), of "[(js ''a'', JStr (js ''x''))]" None 7] sample_names(3)
  by (auto simp: fits_str)

theorem read_your_writes_witness:
  "\<exists>e' row. update_row memory_adapter sample_crypto None (\<lambda>_. sample_draw) (js ''t'') sample_row
      [(js ''a'', JStr (js ''x''))] (sample_engine 7) = (Inr (), e') \<and>
     get memory_adapter None (js ''t'') sample_row e' = Inr (Some row) \<and> map_of row (js ''a'') = Some (JStr (js ''x''))"
proof -
  obtain e' where e': "update_row memory_adapter sample_crypto None (\<lambda>_. sample_draw) (js ''t'') sample_row
      [(js ''a'', JStr (js ''x''))] (sample_engine 7) = (Inr (), e')" by (rule sample_write)
  have "\<not> tombstoned (row_cells (mem_view (e_store (sample_engine 7))) (js ''t'') sample_row)"
    by (simp add: sample_cells tombstoned_def)
  from read_your_writes[OF sample_engine_reachable _ _ _ e' this, of "js ''t''" "[]"] e'
  show ?thesis by (force simp: json_values_def TOMBSTONE_COLUMN_def PROTO_def js_def sample_row_def)
qed

text \<open>C35. A deleted row stays deleted. After a delete that returned, whatever the replica does next and for
however long, local writes to the row's columns, writes of other rows, further deletes, operations
of others, restarts and compactions, nobody reads the row, unless an operation writes another
value than \<open>true\<close> to its tombstone column or a compaction is told to reclaim tombstones. Such a
compaction takes the row as a whole, so that does not show it either; it forgets the delete, though,
and what is written to the row after it is not covered.\<close>

theorem delete_hides:
  assumes "mem_reachable C K e" "delete_row memory_adapter C K d t r e = (Inr (), e1)"
    "(later_step memory_adapter C K t r)\<^sup>*\<^sup>* e1 e2"
  shows "get memory_adapter K' t r e2 = Inr None \<and>
    (\<forall>gc dry res e3. compact memory_adapter gc dry e2 = (res, e3) \<longrightarrow> get memory_adapter K' t r e3 = Inr None)"
proof -
  have good: "mem.good C e" "crypto_key C (e_deviceKey e)" using mem_reachable_good[OF assms(1)] by simp_all
  have r1: "mem_reachable C K e1" by (rule reachable.step[OF assms(1) engine_step.delete[OF assms(2)]])
  have good1: "mem.good C e1" "crypto_key C (e_deviceKey e1)" using mem_reachable_good[OF r1] by simp_all
  have "buried (mem_view (e_store e1)) t r"
    using mem.deleted_cell[OF good assms(2)] by (simp add: buried_def row_cells_def)
  from mem.later_steps_buried[OF assms(3) good1 this]
  have L: "mem.good C e2" "\<not> visible (mem_view (e_store e2)) t r" using buried_hidden by blast+
  have hidden: "get memory_adapter K' t r x = Inr None" if "mem.good C x" "\<not> visible (mem_view (e_store x)) t r" for x
    using that mem.visible_row_spec(1) by (simp add: get_def mem.good_def)
  have "get memory_adapter K' t r e3 = Inr None" if c: "compact memory_adapter gc dry e2 = (res, e3)" for gc dry res e3
    by (rule hidden[OF mem.compact_good(1)[OF L(1) c] mem.reclaimed_hidden_row[OF L(1) c L(2)]])
  with hidden[OF L] show ?thesis by blast
qed

theorem delete_hides_witness:
  "\<exists>e1 res e2. delete_row memory_adapter sample_crypto None sample_draw (js ''t'') sample_row (sample_engine 7) = (Inr (), e1) \<and>
     update_row memory_adapter sample_crypto None (\<lambda>_. sample_draw) (js ''t'') sample_row
       [(js ''a'', JStr (js ''x''))] e1 = (res, e2) \<and> get memory_adapter None (js ''t'') sample_row e2 = Inr None"
proof -
  obtain e1 where e1: "delete_row memory_adapter sample_crypto None sample_draw (js ''t'') sample_row (sample_engine 7) = (Inr (), e1)"
    using sample_update_total[OF sample_names(1,2), of "[(TOMBSTONE_COLUMN, JBool True)]" None 7]
    unfolding mem.delete_row_update by (auto simp: fits_bool column_ok_def)
  let ?vs = "[(js ''a'', JStr (js ''x''))]"
  obtain res e2 where e2: "update_row memory_adapter sample_crypto None (\<lambda>_. sample_draw) (js ''t'') sample_row ?vs e1 = (res, e2)"
    by fastforce
  have "later_step memory_adapter sample_crypto None (js ''t'') sample_row e1 e2"
    by (rule later_step.l_update[OF _ refl _ e2]) (simp_all add: json_values_def TOMBSTONE_COLUMN_def js_def)
  then have "(later_step memory_adapter sample_crypto None (js ''t'') sample_row)\<^sup>*\<^sup>* e1 e2" by (rule r_into_rtranclp)
  from delete_hides[OF sample_engine_reachable e1 this] e1 e2 show ?thesis by blast
qed

section \<open>Calls that fail, and calls that do not\<close>

text \<open>The storage of an engine, with a database that commits from now on.\<close>

definition committing :: "idb engine \<Rightarrow> idb engine" where
  "committing e = e\<lparr>e_store := (e_store e)\<lparr>verdicts := []\<rparr>\<rparr>"

text \<open>What comes before the transaction of a call does not touch the storage.\<close>

lemma local_op_any_store:
  "makeLocalOp C K d t r c v (e\<lparr>e_store := s\<rparr>) =
    (case makeLocalOp C K d t r c v e of (res, e') \<Rightarrow> (res, e'\<lparr>e_store := s\<rparr>))"
  by (simp add: makeLocalOp_def bind_act_eq on_clock_def lift_res_def e_deviceId_def Let_def split: prod.split sum.split)

lemma local_ops_any_store:
  "local_ops C K ds t r ivs (e\<lparr>e_store := s\<rparr>) =
    (case local_ops C K ds t r ivs e of (res, e') \<Rightarrow> (res, e'\<lparr>e_store := s\<rparr>))"
proof (induction ivs arbitrary: e)
  case Nil
  show ?case by (simp add: local_ops_Nil)
next
  case (Cons icv ivs)
  obtain i c v where icv: "icv = (i, c, v)" by (rule prod_cases3)
  show ?case
    by (simp add: icv local_ops_Cons local_op_any_store Cons.IH split: prod.split sum.split)
qed

lemma receive_any_store:
  "(case max_op ops of None \<Rightarrow> ret () | Some m \<Rightarrow> receive_stamp pt (o_hlc m)) (e\<lparr>e_store := s\<rparr>) =
    (case (case max_op ops of None \<Rightarrow> ret () | Some m \<Rightarrow> receive_stamp pt (o_hlc m)) e of (res, e') \<Rightarrow> (res, e'\<lparr>e_store := s\<rparr>))"
  by (simp add: receive_stamp_def bind_act_eq on_clock_def lift_res_def ret_def split: prod.split sum.split option.split)

text \<open>A transaction that aborts rejects what waits for it.\<close>

lemma commit_aborts: "verdicts (e_store e) = Some err # vs \<Longrightarrow> fst (commit idb_adapter ps og e) = Inl err"
  by (simp add: commit_def bind_act_eq on_store_def idb_adapter_def idb_applyBatch_def transaction_def case_prod_beta)

lemma persist_aborts: "verdicts (e_store e) = Some err # vs \<Longrightarrow> fst (persist_clock idb_adapter e) = Inl err"
  by (simp add: persist_clock_def on_store_def idb_adapter_def idb_applyBatch_def transaction_def)

lemma update_aborts:
  assumes "verdicts (e_store e) = Some err # rest" "fst (update_row idb_adapter C K ds t r vs (committing e)) = Inr u"
  shows "fst (update_row idb_adapter C K ds t r vs e) = Inl err"
proof -
  obtain res e1 where ops: "local_ops C K ds t r (List.enumerate 0 vs) e = (res, e1)" by fastforce
  have upd: "update_row idb_adapter C K ds t r vs f =
      (case local_ops C K ds t r (List.enumerate 0 vs) f of (Inl x, f') \<Rightarrow> (Inl x, f') | (Inr ps, f') \<Rightarrow> commit idb_adapter ps Local f')" for f
    by (simp add: update_row_def local_ops_def bind_act_eq)
  obtain ps where "res = Inr ps"
    using assms(2) ops local_ops_any_store[where s = "(e_store e)\<lparr>verdicts := []\<rparr>" and e = e]
    by (cases res) (simp_all add: upd committing_def)
  moreover have "verdicts (e_store e1) = Some err # rest" using local_ops_clock[OF ops] assms(1) by (simp add: same_but_clock_def)
  ultimately show ?thesis by (simp add: upd ops commit_aborts)
qed

lemma apply_aborts:
  assumes "verdicts (e_store e) = Some err # rest" "fst (applyRemoteOps idb_adapter C pt raw (committing e)) = Inr n"
  shows "fst (applyRemoteOps idb_adapter C pt raw e) = Inl err"
proof -
  let ?e = "committing e" and ?ops = "batch_ops raw"
  obtain f where run: "applyRemoteOps idb_adapter C pt raw ?e = (Inr n, f)" using assms(2) by (metis prod.collapse)
  have keys: "e_keys ?e = e_keys e" by (simp add: committing_def)
  have adm: "admitted C (e_keys e) raw ?ops" using applyRemoteOps_ok_admitted[OF run] by (simp add: keys)
  obtain res e1 where rcv: "(case max_op ?ops of None \<Rightarrow> ret () | Some m \<Rightarrow> receive_stamp pt (o_hlc m)) e = (res, e1)" by fastforce
  then have rcv': "(case max_op ?ops of None \<Rightarrow> ret () | Some m \<Rightarrow> receive_stamp pt (o_hlc m)) ?e =
      (res, e1\<lparr>e_store := (e_store e)\<lparr>verdicts := []\<rparr>\<rparr>)"
    using receive_any_store[where ops = ?ops and e = e] by (simp add: committing_def)
  obtain u where u: "res = Inr u"
    using run[unfolded applyRemoteOps_admitted[OF adm[folded keys]] rcv'] by (cases res) auto
  have "e_store e1 = e_store e"
    using rcv by (auto simp: receive_stamp_def bind_act_eq on_clock_def ret_def lift_res_def split: option.splits prod.splits sum.splits)
  then have v: "verdicts (e_store e1) = Some err # rest" using assms(1) by simp
  show ?thesis
    using commit_aborts[OF v] persist_aborts[OF v]
    by (simp add: applyRemoteOps_admitted[OF adm] rcv u bind_act_eq Let_def case_prod_beta split: sum.split)
qed

text \<open>The calls that write, each with its result dropped.\<close>

definition done_act :: "('s, 'a) act \<Rightarrow> ('s, unit) act" where
  "done_act m = bind_act m (\<lambda>_. ret ())"

lemma done_act_eq: "done_act m e = (case m e of (Inl x, e') \<Rightarrow> (Inl x, e') | (Inr y, e') \<Rightarrow> (Inr (), e'))"
  by (simp add: done_act_def bind_act_eq ret_def split: prod.split sum.split)

definition writing_calls :: "'s storage_ops \<Rightarrow> crypto \<Rightarrow> cipher option \<Rightarrow> ('s engine, unit) act set" where
  "writing_calls S C K = {m. \<exists>vs raw ds t r d date rand pt. json_values vs \<and> (\<forall>v \<in> set raw. wf_val v) \<and>
     m \<in> {update_row S C K ds t r vs, delete_row S C K d t r, done_act (insert_row S C K date rand ds t vs),
       done_act (applyRemoteOps S C pt raw)}}"

lemma failed_call_unchanged:
  assumes "idb.good C e" "crypto_key C (e_deviceKey e)" "call \<in> writing_calls idb_adapter C K" "call e = (Inl x, e')"
  shows "idb_view (e_store e') = idb_view (e_store e) \<and> e_events e' = e_events e"
proof -
  have upd: "idb_view (e_store e') = idb_view (e_store e) \<and> e_events e' = e_events e"
    if "update_row idb_adapter C K ds' t r' vs' e = (Inl x, e')" "\<forall>(c, v) \<in> set vs'. wf_val v" for ds' t r' vs'
    using idb.update_row_spec(3)[OF assms(1,2) that(2,1)] by blast
  obtain vs raw ds t r d date rand pt where wf: "\<forall>(c, v) \<in> set vs. wf_val v" "\<forall>v \<in> set raw. wf_val v"
    and "call \<in> {update_row idb_adapter C K ds t r vs, delete_row idb_adapter C K d t r,
      done_act (insert_row idb_adapter C K date rand ds t vs), done_act (applyRemoteOps idb_adapter C pt raw)}"
    using assms(3) unfolding writing_calls_def json_values_def by blast
  then consider "update_row idb_adapter C K ds t r vs e = (Inl x, e')" | "delete_row idb_adapter C K d t r e = (Inl x, e')"
    | "insert_row idb_adapter C K date rand ds t vs e = (Inl x, e')" | "applyRemoteOps idb_adapter C pt raw e = (Inl x, e')"
    using assms(4) by (auto simp: done_act_eq split: prod.splits sum.splits)
  then show ?thesis
  proof cases
    case 1
    then show ?thesis using upd wf(1) by blast
  next
    case 2
    then show ?thesis using upd[OF _ wf_val_tombstone] by (simp add: idb.delete_row_update)
  next
    case 3
    then show ?thesis using upd[OF _ wf(1)] by (auto simp: idb.insert_row_update split: sum.splits prod.splits)
  next
    case 4
    show ?thesis
    proof (cases "\<exists>ops. admitted C (e_keys e) raw ops")
      case True
      then show ?thesis using idb.applyRemoteOps_spec(6)[OF assms(1) wf(2) _ 4] by blast
    next
      case False
      then show ?thesis using applyRemoteOps_rejected[OF False, of idb_adapter pt] 4 by auto
    qed
  qed
qed

lemma writing_call_aborts:
  assumes "call \<in> writing_calls idb_adapter C K" "verdicts (e_store e) = Some err # rest" "fst (call (committing e)) = Inr ()"
  shows "fst (call e) = Inl err"
proof -
  obtain vs raw ds t r d date rand pt where
    "call \<in> {update_row idb_adapter C K ds t r vs, delete_row idb_adapter C K d t r,
      done_act (insert_row idb_adapter C K date rand ds t vs), done_act (applyRemoteOps idb_adapter C pt raw)}"
    using assms(1) unfolding writing_calls_def by blast
  then consider "call = update_row idb_adapter C K ds t r vs" | "call = delete_row idb_adapter C K d t r"
    | "call = done_act (insert_row idb_adapter C K date rand ds t vs)" | "call = done_act (applyRemoteOps idb_adapter C pt raw)" by blast
  then show ?thesis
  proof cases
    case 1
    then show ?thesis using update_aborts[OF assms(2)] assms(3) by blast
  next
    case 2
    then show ?thesis using update_aborts[OF assms(2)] assms(3) by (simp add: idb.delete_row_update)
  next
    case 3
    have clk: "clockMillisForUlid date (committing e) = clockMillisForUlid date e" by (simp add: clockMillisForUlid_def committing_def)
    obtain row where row: "ulid (clockMillisForUlid date e) rand = Inr row"
      using assms(3) by (cases "ulid (clockMillisForUlid date e) rand") (simp_all add: 3 done_act_eq idb.insert_row_update clk)
    have "fst (update_row idb_adapter C K ds t row vs (committing e)) = Inr ()"
      using assms(3) by (auto simp: 3 done_act_eq idb.insert_row_update clk row split: prod.splits sum.splits)
    from update_aborts[OF assms(2) this] show ?thesis
      by (auto simp: 3 done_act_eq idb.insert_row_update row split: prod.splits sum.splits)
  next
    case 4
    then obtain n where "fst (applyRemoteOps idb_adapter C pt raw (committing e)) = Inr n"
      using assms(3) by (auto simp: done_act_eq split: prod.splits sum.splits)
    from apply_aborts[OF assms(2) this] show ?thesis by (auto simp: 4 done_act_eq split: prod.splits sum.splits)
  qed
qed

lemma subscribed_cases:
  assumes "subscribed cbs call e = (res, e')"
  shows "(\<exists>x. res = Inl x \<and> call e = (Inl x, e')) \<or> (\<exists>y. res = Inr y \<and> call e = (Inr y, e')) \<or>
    (\<exists>x y ev cb. res = Inl x \<and> call e = (Inr y, e') \<and> ev \<in> set (drop (length (e_events e)) (e_events e')) \<and> cb \<in> set cbs \<and> cb ev = Some x)"
  using assms by (auto simp: subscribed_def Let_def notify_def split: prod.splits sum.splits option.splits dest!: first_some_Some)

text \<open>C36. A call that fails leaves nothing behind, and a failure is not swallowed. Take a call that writes
on the IndexedDB adapter, with any subscribers. If it throws, the replica holds what it held and no
subscriber has been notified, unless it is a subscriber that threw the error, when the
call itself had done its work. And when the transaction aborts, a call that would have returned
with a committing transaction throws exactly the error of the transaction and changes nothing.\<close>

theorem failed_call_changes_nothing:
  assumes "idb_reachable C K e" "crypto_key C (e_deviceKey e)" "call \<in> writing_calls idb_adapter C K"
    "subscribed cbs call e = (res, e')"
  shows "(\<forall>x. res = Inl x \<longrightarrow> idb_view (e_store e') = idb_view (e_store e) \<and> e_events e' = e_events e \<or>
      call e = (Inr (), e') \<and> (\<exists>cb \<in> set cbs. \<exists>ev \<in> set (drop (length (e_events e)) (e_events e')). cb ev = Some x)) \<and>
    (\<forall>err vs. verdicts (e_store e) = Some err # vs \<and> fst (call (committing e)) = Inr () \<longrightarrow>
      res = Inl err \<and> idb_view (e_store e') = idb_view (e_store e) \<and> e_events e' = e_events e)"
proof -
  have good: "idb.good C e" using idb_reachable_good[OF assms(1)] .
  note unchanged = failed_call_unchanged[OF good assms(2,3)]
  have "idb_view (e_store e') = idb_view (e_store e) \<and> e_events e' = e_events e \<or>
      call e = (Inr (), e') \<and> (\<exists>cb \<in> set cbs. \<exists>ev \<in> set (drop (length (e_events e)) (e_events e')). cb ev = Some x)" if "res = Inl x" for x
    using subscribed_cases[OF assms(4)] unchanged that by auto
  moreover have "res = Inl err \<and> idb_view (e_store e') = idb_view (e_store e) \<and> e_events e' = e_events e"
    if "verdicts (e_store e) = Some err # vs" "fst (call (committing e)) = Inr ()" for err vs
  proof -
    from writing_call_aborts[OF assms(3) that] have "fst (call e) = Inl err" .
    with subscribed_cases[OF assms(4)] have "res = Inl err" "call e = (Inl err, e')" by auto
    with unchanged show ?thesis by blast
  qed
  ultimately show ?thesis by blast
qed

text \<open>C37. A write of proper input is accepted, with or without a cipher: when table, row and columns
have the required shape, what is stored of each value fits an operation, the clock is inside its
range and the storage commits, \<open>update\<close> returns and its operations are notified once.\<close>

theorem write_accepted:
  assumes "idb_reachable C K e" "crypto_key C (e_deviceKey e)" "verdicts (e_store e) = []"
    "name_re t" "ulid_re r" "\<forall>(c, v) \<in> set vs. column_ok c \<and> (\<forall>i. fits_stored K (d_nonce (ds i)) c v)"
    "json_values vs" "\<forall>i. d_now (ds i) \<le> m" "c_millis (e_clock e) + length vs \<le> MAX_MILLIS" "m + length vs \<le> MAX_MILLIS"
  shows "\<exists>e' ev. update_row idb_adapter C K ds t r vs e = (Inr (), e') \<and> e_events e' = e_events e @ [ev] \<and>
    map o_column (ev_ops ev) = map fst vs \<and> idb.logged e' = idb.logged e \<union> set (ev_ops ev)"
proof -
  have good: "idb.good C e" using idb_reachable_good[OF assms(1)] .
  then have "identity_ok C e" unfolding idb.good_def using engine_okD(5) by blast
  from idb_accepts.update_total[OF assms(3) this assms(2,4-6,8-10)]
  obtain e' where run: "update_row idb_adapter C K ds t r vs e = (Inr (), e')" by blast
  from idb.update_row_logged[OF good assms(2) assms(7)[unfolded json_values_def] run]
  obtain ps where ps: "idb.logged e' = idb.logged e \<union> set ps" "list_all2 (stored_as K) vs ps"
    "e_events e' = e_events e @ [\<lparr>ev_changes = changed_rows ps, ev_ops = ps, ev_origin = Local\<rparr>]" by blast
  have "map o_column ps = map fst vs"
    using ps(2) by (induction vs ps rule: list_all2_induct) (auto simp: stored_as_def)
  with run ps(1,3) show ?thesis by auto
qed

lemma idb_engine_ok: "crypto_key sample_crypto (e_deviceKey (idb_engine b))" "e_events (idb_engine b) = []"
  "verdicts (e_store (idb_engine b)) = []" "c_millis (e_clock (idb_engine b)) = 0"
  by (simp_all add: idb_engine_def sample_crypto_key new_idb_def sample_clock_zero)

theorem write_accepted_witness:
  "\<exists>e' (ev :: change_event). update_row idb_adapter sample_crypto None (\<lambda>_. sample_draw) (js ''t'') sample_row
      [(js ''a'', JStr (js ''x''))] (idb_engine 7) = (Inr (), e') \<and> e_events e' = [ev] \<and> map o_column (ev_ops ev) = [js ''a''] \<and>
    idb.logged e' = set (ev_ops ev)"
proof -
  let ?vs = "[(js ''a'', JStr (js ''x''))]"
  have reach: "idb_reachable sample_crypto None (idb_engine 7)" using idb_engine_reachable by blast
  have cols: "\<forall>(c, v) \<in> set ?vs. column_ok c \<and> (\<forall>i. fits_stored None (d_nonce sample_draw) c v)"
    using sample_names(3) by (simp add: fits_str)
  have vals: "json_values ?vs" by (simp add: json_values_def)
  have clk: "c_millis (e_clock (idb_engine 7)) + length ?vs \<le> MAX_MILLIS" "(1000 :: nat) + length ?vs \<le> MAX_MILLIS"
    by (simp_all add: idb_engine_ok MAX_MILLIS_def)
  have draw: "\<forall>i :: nat. d_now sample_draw \<le> 1000" by (simp add: sample_draw_def)
  from write_accepted[OF reach idb_engine_ok(1,3) sample_names(1,2) cols vals draw clk]
  show ?thesis by (simp add: idb_engine_view(1) idb_engine_ok(2))
qed

text \<open>A database whose second transaction aborts.\<close>

definition quota_error :: js_error where "quota_error = Error (js ''QuotaExceededError'')"

definition full_engine :: "idb engine" where
  "full_engine = (idb_engine 7)\<lparr>e_store := (e_store (idb_engine 7))\<lparr>verdicts := [Some quota_error]\<rparr>\<rparr>"

lemma full_engine_reachable: "idb_reachable sample_crypto K full_engine"
proof (rule exI, rule reachable.start)
  have "isValidDeviceId (deviceIdFromPublicKey sample_crypto (publicKey (sample_key 7)))"
    using deviceId_shape[of sample_crypto] sample_crypto_key[of 7]
    by (simp add: isValidDeviceId_def crypto_key_def)
  then show "open_engine idb_adapter sample_crypto (sample_key 7) (new_idb [None, Some quota_error]) =
      (Inr full_engine, (new_idb [Some quota_error])\<lparr>i_deviceKey := Some (sample_key 7)\<rparr>)"
    by (simp add: open_engine_def idb_adapter_def new_idb_def idb_setDeviceKey_def bind_act_eq transaction_def
        open_with_def new_clock_def checkBounds_def Let_def sample_engine_def idb_engine_def full_engine_def)
qed (simp add: full_engine_def idb_engine_ok)

theorem failed_call_changes_nothing_witness:
  "\<exists>e'. update_row idb_adapter sample_crypto None (\<lambda>_. sample_draw) (js ''t'') sample_row
      [(js ''a'', JStr (js ''x''))] full_engine = (Inl quota_error, e') \<and> e_events e' = [] \<and> idb.logged e' = {}"
proof -
  let ?vs = "[(js ''a'', JStr (js ''x''))]"
  let ?call = "update_row idb_adapter sample_crypto None (\<lambda>_. sample_draw) (js ''t'') sample_row ?vs"
  have key: "crypto_key sample_crypto (e_deviceKey full_engine)" by (simp add: full_engine_def idb_engine_ok)
  have "json_values ?vs" by (simp add: json_values_def)
  then have call: "?call \<in> writing_calls idb_adapter sample_crypto None" unfolding writing_calls_def by (intro CollectI exI[of _ ?vs] exI[of _ "[]"]) auto
  obtain res e' where run: "subscribed [] ?call full_engine = (res, e')" by fastforce
  have plain: "subscribed [] ?call full_engine = ?call full_engine"
    by (simp add: subscribed_def notify_def Let_def first_some_None split: prod.split sum.split option.split)
  have calm: "committing full_engine = idb_engine 7" by (simp add: committing_def full_engine_def idb_engine_ok(3)[symmetric])
  have id: "identity_ok sample_crypto (idb_engine 7)"
    using idb_engine_reachable idb_reachable_good engine_okD(5) unfolding idb.good_def by blast
  have cols: "\<forall>(c, v) \<in> set ?vs. column_ok c \<and> (\<forall>i :: nat. fits_stored None (d_nonce sample_draw) c v)"
    using sample_names(3) by (simp add: fits_str)
  have clk: "\<forall>i :: nat. d_now sample_draw \<le> 1000" "c_millis (e_clock (idb_engine 7)) + length ?vs \<le> MAX_MILLIS"
    "(1000 :: nat) + length ?vs \<le> MAX_MILLIS" by (simp_all add: idb_engine_ok sample_draw_def MAX_MILLIS_def)
  obtain f where "?call (idb_engine 7) = (Inr (), f)"
    using idb_accepts.update_total[OF idb_engine_ok(3) id idb_engine_ok(1) sample_names(1,2) cols clk] by blast
  then have total: "fst (?call (committing full_engine)) = Inr ()" by (auto simp: calm)
  have verdict: "verdicts (e_store full_engine) = Some quota_error # []" by (simp add: full_engine_def)
  from failed_call_changes_nothing[OF full_engine_reachable key call run] verdict total
  have "res = Inl quota_error \<and> idb_view (e_store e') = idb_view (e_store full_engine) \<and> e_events e' = e_events full_engine" by blast
  moreover have "r_log (idb_view (e_store full_engine)) = Map.empty" "e_events full_engine = []"
    by (simp_all add: full_engine_def idb_engine_def idb_view_def new_idb_def fun_eq_iff)
  ultimately show ?thesis using run plain by simp
qed

end
