(* ===== verification/Space_Cipher.thy ===== *)
theory Space_Cipher
  imports Engine Json_Text
begin

text \<open>
  The cipher of packages/crypto/src/index.ts: authenticated encryption of cell values under a
  key derived from the space secret, in the envelope \<open>e1:\<close> plus the base64 text of nonce and
  ciphertext. The primitives come from a third-party library and are the fields of a parameter;
  what the package relies on of them is the predicate \<open>aead_key\<close>.
\<close>

section \<open>The cryptographic library, a parameter\<close>

text \<open>
  \<open>hkdf ikm salt info len\<close> is HKDF-SHA256, \<open>scrypt password salt N r p dkLen\<close> the password
  hash, and \<open>seal\<close>/\<open>unseal\<close> are \<^verbatim>\<open>xchacha20poly1305(key, nonce, aad)\<close> with its two methods
  \<^verbatim>\<open>encrypt\<close> and \<^verbatim>\<open>decrypt\<close>; \<open>None\<close> is the exception of a failed authentication.
\<close>

record aead =
  hkdf :: "bytes \<Rightarrow> bytes \<Rightarrow> bytes \<Rightarrow> nat \<Rightarrow> bytes"
  scrypt :: "bytes \<Rightarrow> bytes \<Rightarrow> nat \<Rightarrow> nat \<Rightarrow> nat \<Rightarrow> nat \<Rightarrow> bytes"
  seal :: "bytes \<Rightarrow> bytes \<Rightarrow> bytes \<Rightarrow> bytes \<Rightarrow> bytes"
  unseal :: "bytes \<Rightarrow> bytes \<Rightarrow> bytes \<Rightarrow> bytes \<Rightarrow> bytes option"

definition CELL_INFO :: jsstring where "CELL_INFO = js ''tangentfeed/v1/cells''"
definition NONCE_BYTES :: nat where "NONCE_BYTES = 24"
definition KEY_BYTES :: nat where "KEY_BYTES = 32"

text \<open>
  The documented contract under a key: a ciphertext is 16 bytes longer than its plaintext, and
  exactly the ciphertexts that encryption under the same nonce and associated data produces are
  decrypted, to their plaintext.
\<close>

definition aead_key :: "aead \<Rightarrow> bytes \<Rightarrow> bool" where
  "aead_key A key \<longleftrightarrow>
     (\<forall>nonce aad p. length nonce = NONCE_BYTES \<longrightarrow> length (seal A key nonce aad p) = length p + 16) \<and>
     (\<forall>nonce aad c p. length nonce = NONCE_BYTES \<longrightarrow>
        (unseal A key nonce aad c = Some p \<longleftrightarrow> c = seal A key nonce aad p))"

section \<open>Keys\<close>

definition new_cipher :: "aead \<Rightarrow> bytes \<Rightarrow> bytes result" where
  "new_cipher A secret =
     (if length secret < 16
      then Inl (Error (js ''space secret must be at least 16 bytes; use fromPassphrase for text''))
      else Inr (hkdf A secret [] (utf8_encode CELL_INFO) KEY_BYTES))"

definition scryptAsync :: "aead \<Rightarrow> bytes \<Rightarrow> bytes \<Rightarrow> bytes" where
  "scryptAsync A pw salt = scrypt A pw salt (2 ^ 15) 8 1 KEY_BYTES"

definition fromPassphrase :: "aead \<Rightarrow> jsstring \<Rightarrow> jsstring \<Rightarrow> bytes result" where
  "fromPassphrase A passphrase salt = new_cipher A (scryptAsync A (utf8_encode passphrase) (utf8_encode salt))"

section \<open>Encryption and decryption\<close>

definition cipher_base64 :: "bytes \<Rightarrow> jsstring" where
  "cipher_base64 bs = btoa bs"

definition cipher_unbase64 :: "jsstring \<Rightarrow> bytes option" where
  "cipher_unbase64 s = atob_text s"

text \<open>
  \<open>nonce\<close> is the draw of \<^verbatim>\<open>getRandomValues\<close> into an array of \<open>NONCE_BYTES\<close> bytes. The encoder
  turns the \<^verbatim>\<open>undefined\<close> that \<open>canonicalJson\<close> returns on \<^verbatim>\<open>undefined\<close> into no bytes.
\<close>

definition sc_plaintext :: "jsval \<Rightarrow> bytes" where
  "sc_plaintext v = (case canonicalJson v of None \<Rightarrow> [] | Some t \<Rightarrow> utf8_encode t)"

definition sc_encrypt :: "aead \<Rightarrow> bytes \<Rightarrow> bytes \<Rightarrow> jsval \<Rightarrow> jsstring \<Rightarrow> jsstring" where
  "sc_encrypt A key nonce v opId =
     CIPHER_PREFIX @ cipher_base64 (nonce @ seal A key nonce (utf8_encode opId) (sc_plaintext v))"

definition sc_decrypt :: "aead \<Rightarrow> bytes \<Rightarrow> jsval \<Rightarrow> jsstring \<Rightarrow> jsval result" where
  "sc_decrypt A key v opId =
     (case v of
        JStr s \<Rightarrow>
          if \<not> isEncryptedValue v then Inr v
          else (case cipher_unbase64 (drop (length CIPHER_PREFIX) s) of
             None \<Rightarrow> Inl (DecryptError (js ''value is not valid base64''))
           | Some packed \<Rightarrow>
               if length packed \<le> NONCE_BYTES then Inl (DecryptError (js ''ciphertext too short''))
               else (case unseal A key (take NONCE_BYTES packed) (utf8_encode opId) (drop NONCE_BYTES packed) of
                  None \<Rightarrow> Inl (DecryptError (js ''authentication failed (wrong key or tampered data)''))
                | Some pt \<Rightarrow>
                    (case json_parse (utf8_decode pt) of
                       None \<Rightarrow> Inl (DecryptError (js ''decrypted payload is not valid JSON''))
                     | Some w \<Rightarrow> Inr w)))
      | _ \<Rightarrow> Inr v)"

text \<open>
  The object as the engine uses it. The library refuses a nonce of another length; a draw always
  has \<open>NONCE_BYTES\<close> bytes.
\<close>

definition space_cipher :: "aead \<Rightarrow> bytes \<Rightarrow> cipher" where
  "space_cipher A key =
     \<lparr>encrypt = (\<lambda>nonce v opId. if length nonce \<noteq> NONCE_BYTES then Inl (Error (js ''invalid nonce length''))
                                else Inr (sc_encrypt A key nonce v opId)),
      decrypt = sc_decrypt A key\<rparr>"

section \<open>What encryption followed by decryption yields\<close>

text \<open>The value read back is the written one with the keys of its objects in the language's order.\<close>

definition reread :: "jsval \<Rightarrow> jsval" where
  "reread v = in_order (sort_keys v)"

lemma plaintext_roundtrip: "is_json v \<Longrightarrow> json_parse (utf8_decode (sc_plaintext v)) = Some (reread v)"
  using canonicalJson_Some[of v] plain_stringify[OF sort_keys_tree[of v]] parse_canonical[of v]
  by (auto simp: sc_plaintext_def text_roundtrip canonical_stringify reread_def)

lemma unbase64_base64: "cipher_unbase64 (cipher_base64 bs) = Some bs"
  by (simp add: cipher_unbase64_def cipher_base64_def atob_text_btoa)

lemma sc_encrypt_encrypted: "isEncryptedValue (JStr (sc_encrypt A key nonce v opId))"
  by (simp add: isEncryptedValue_def sc_encrypt_def)

lemma sc_decrypt_encrypted:
  "isEncryptedValue (JStr s) \<Longrightarrow> sc_decrypt A key (JStr s) opId =
     (case cipher_unbase64 (drop (length CIPHER_PREFIX) s) of
        None \<Rightarrow> Inl (DecryptError (js ''value is not valid base64''))
      | Some packed \<Rightarrow>
          if length packed \<le> NONCE_BYTES then Inl (DecryptError (js ''ciphertext too short''))
          else (case unseal A key (take NONCE_BYTES packed) (utf8_encode opId) (drop NONCE_BYTES packed) of
             None \<Rightarrow> Inl (DecryptError (js ''authentication failed (wrong key or tampered data)''))
           | Some pt \<Rightarrow>
               (case json_parse (utf8_decode pt) of
                  None \<Rightarrow> Inl (DecryptError (js ''decrypted payload is not valid JSON''))
                | Some w \<Rightarrow> Inr w)))"
  by (simp add: sc_decrypt_def)

lemma sc_decrypt_plain: "\<not> isEncryptedValue v \<Longrightarrow> sc_decrypt A key v opId = Inr v"
  by (cases v) (simp_all add: sc_decrypt_def)

lemma sc_roundtrip:
  assumes "aead_key A key" "length nonce = NONCE_BYTES" "is_json v"
  shows "sc_decrypt A key (JStr (sc_encrypt A key nonce v opId)) opId = Inr (reread v)"
proof -
  let ?ct = "seal A key nonce (utf8_encode opId) (sc_plaintext v)"
  have "length ?ct = length (sc_plaintext v) + 16" "unseal A key nonce (utf8_encode opId) ?ct = Some (sc_plaintext v)"
    using assms(1,2) by (simp_all add: aead_key_def)
  moreover have "drop (length CIPHER_PREFIX) (sc_encrypt A key nonce v opId) = cipher_base64 (nonce @ ?ct)"
    by (simp add: sc_encrypt_def)
  ultimately show ?thesis
    using assms(2) plaintext_roundtrip[OF assms(3)]
    by (simp add: sc_decrypt_encrypted[OF sc_encrypt_encrypted] unbase64_base64)
qed

text \<open>The order of the keys is all that can change, and the canonical form does not see it.\<close>

lemma dkeys_map_snd: "dkeys (map (\<lambda>(k, v). (k, f v)) kvs) = dkeys kvs"
  by (simp add: comp_def case_prod_beta)

lemma dkeys_mset: "mset xs = mset ys \<Longrightarrow> dkeys xs = dkeys ys"
  by (metis mset_eq_imp_distinct_iff mset_map)

lemma canonical_map_values:
  assumes "\<And>k v. (k, v) \<in> set kvs \<Longrightarrow> canonicalJson (f v) = canonicalJson v"
  shows "canonicalJson (JObj (map (\<lambda>(k, v). (k, f v)) kvs)) = canonicalJson (JObj kvs)"
proof -
  have "map (\<lambda>(k, x). (k, canonicalJson x)) (map (\<lambda>(k, v). (k, f v)) kvs) = map (\<lambda>(k, x). (k, canonicalJson x)) kvs"
    using assms by auto
  then show ?thesis by (simp only: canonicalJson.simps)
qed

lemma canonical_in_order: "json_tree v \<Longrightarrow> canonicalJson (in_order v) = canonicalJson v"
proof (induction v)
  case (JArr xs)
  then show ?case by (simp add: comp_def cong: map_cong)
next
  case (JObj kvs)
  have "canonicalJson (in_order (JObj kvs)) = canonicalJson (JObj (map (\<lambda>(k, v). (k, in_order v)) kvs))"
    unfolding in_order.simps
  proof (rule canonicalJson_obj_perm)
    show "dkeys (entry_order (map (\<lambda>(k, v). (k, in_order v)) kvs))"
      unfolding dkeys_mset[OF mset_entry_order] dkeys_map_snd using JObj.prems by simp
  qed (rule mset_entry_order)
  also have "\<dots> = canonicalJson (JObj kvs)" using JObj by (intro canonical_map_values) auto
  finally show ?case .
qed simp_all

lemma canonical_sort_keys: "is_json v \<Longrightarrow> canonicalJson (sort_keys v) = canonicalJson v"
proof (induction v)
  case (JArr xs)
  then show ?case by (simp add: comp_def cong: map_cong)
next
  case (JObj kvs)
  have "canonicalJson (sort_keys (JObj kvs)) = canonicalJson (JObj (map (\<lambda>(k, v). (k, sort_keys v)) kvs))"
    unfolding sort_keys.simps
  proof (rule canonicalJson_obj_perm)
    show "dkeys (sort_key fst (map (\<lambda>(k, v). (k, sort_keys v)) kvs))"
      unfolding dkeys_sort_key dkeys_map_snd using JObj.prems by simp
  qed simp
  also have "\<dots> = canonicalJson (JObj kvs)" using JObj by (intro canonical_map_values) auto
  finally show ?case .
qed simp_all

lemma canonical_reread: "is_json v \<Longrightarrow> canonicalJson (reread v) = canonicalJson v"
  by (simp add: reread_def canonical_in_order sort_keys_tree canonical_sort_keys)

lemma space_cipher_encrypt:
  "encrypt (space_cipher A key) nonce v opId = Inr s \<longleftrightarrow>
     length nonce = NONCE_BYTES \<and> s = sc_encrypt A key nonce v opId"
  by (auto simp: space_cipher_def)

end
