(* ===== verification/Cipher_Properties.thy ===== *)
theory Cipher_Properties
  imports Space_Cipher Write_Properties
begin

text \<open>
  What encrypted cells promise: a value written under the space secret is read under it and
  under nothing else, and a ciphertext that was not made for the operation it stands in is an
  error. The last section follows a value through a local write and a read on another replica.
\<close>

section \<open>A sample of the library\<close>

text \<open>An authenticated encryption whose tag depends on key, nonce and associated data.\<close>

definition sample_tag :: "bytes \<Rightarrow> bytes \<Rightarrow> bytes \<Rightarrow> bytes" where
  "sample_tag key nonce aad = take 16 (map (\<lambda>(a, b). a XOR b) (zip (key @ nonce) (rev aad @ replicate 16 0)) @ replicate 16 0)"

definition sample_aead :: aead where
  "sample_aead = \<lparr>
     hkdf = (\<lambda>ikm salt info n. take n (ikm @ info @ replicate n 0)),
     scrypt = (\<lambda>pw salt N r p n. take n (pw @ salt @ replicate n 0)),
     seal = (\<lambda>key nonce aad p. p @ sample_tag key nonce aad),
     unseal = (\<lambda>key nonce aad c.
       if 16 \<le> length c \<and> drop (length c - 16) c = sample_tag key nonce aad
       then Some (take (length c - 16) c) else None)\<rparr>"

lemma length_sample_tag [simp]: "length (sample_tag key nonce aad) = 16"
  by (simp add: sample_tag_def min_def)

lemma sample_aead_key: "aead_key sample_aead key"
proof -
  have "c = p @ sample_tag key nonce aad"
    if "16 \<le> length c" "drop (length c - 16) c = sample_tag key nonce aad" "take (length c - 16) c = p" for c p nonce aad
    using that by (metis append_take_drop_id)
  then show ?thesis by (auto simp: aead_key_def sample_aead_def)
qed

definition sample_secret :: bytes where "sample_secret = replicate 32 5"

lemma sample_new_cipher: "new_cipher sample_aead sample_secret = Inr sample_secret"
  by (simp add: new_cipher_def sample_aead_def sample_secret_def KEY_BYTES_def)

abbreviation sample_cipher :: "cipher option" where
  "sample_cipher \<equiv> Some (space_cipher sample_aead sample_secret)"

section \<open>Properties of the cipher\<close>

text \<open>C38. Decrypting what was encrypted for the same operation under the same key gives the
value back: the same JSON value, whose canonical form is unchanged and whose objects may only
list their keys in another order.\<close>

theorem cipher_roundtrip:
  assumes "aead_key A key" "length nonce = NONCE_BYTES" "is_json v"
  shows "sc_decrypt A key (JStr (sc_encrypt A key nonce v opId)) opId = Inr (reread v) \<and>
    canonicalJson (reread v) = canonicalJson v"
  using sc_roundtrip[OF assms] canonical_reread[OF assms(3)] by blast

theorem cipher_roundtrip_witness:
  "sc_decrypt sample_aead sample_secret
     (JStr (sc_encrypt sample_aead sample_secret (replicate 24 9) (JArr [JNull, JStr (js ''x'')]) (js ''op''))) (js ''op'') =
   Inr (JArr [JNull, JStr (js ''x'')])"
  using cipher_roundtrip[OF sample_aead_key, of "replicate 24 9" "JArr [JNull, JStr (js ''x'')]"]
  by (simp add: NONCE_BYTES_def reread_def)

text \<open>The text \<open>s\<close> is the envelope of a ciphertext that encryption makes for \<open>opId\<close> of the value \<open>w\<close>.\<close>

definition made_for :: "aead \<Rightarrow> bytes \<Rightarrow> jsstring \<Rightarrow> jsstring \<Rightarrow> jsval \<Rightarrow> bool" where
  "made_for A key opId s w \<longleftrightarrow> (\<exists>nonce pt. length nonce = NONCE_BYTES \<and>
     cipher_unbase64 (drop (length CIPHER_PREFIX) s) = Some (nonce @ seal A key nonce (utf8_encode opId) pt) \<and>
     json_parse (utf8_decode pt) = Some w)"

lemma made_for_unsealed:
  assumes "aead_key A key" "cipher_unbase64 (drop (length CIPHER_PREFIX) s) = Some packed"
  shows "made_for A key opId s w \<longleftrightarrow> NONCE_BYTES < length packed \<and>
    (\<exists>pt. unseal A key (take NONCE_BYTES packed) (utf8_encode opId) (drop NONCE_BYTES packed) = Some pt \<and>
       json_parse (utf8_decode pt) = Some w)" (is "?l = ?r")
proof
  assume ?l
  then obtain nonce pt where n: "length nonce = NONCE_BYTES" "json_parse (utf8_decode pt) = Some w"
    "packed = nonce @ seal A key nonce (utf8_encode opId) pt"
    using assms(2) by (auto simp: made_for_def)
  moreover have "length (seal A key nonce (utf8_encode opId) pt) = length pt + 16"
    "unseal A key nonce (utf8_encode opId) (seal A key nonce (utf8_encode opId) pt) = Some pt"
    using assms(1) n(1) by (simp_all add: aead_key_def)
  ultimately show ?r by simp
next
  assume r: ?r
  then obtain pt where pt: "json_parse (utf8_decode pt) = Some w"
    "unseal A key (take NONCE_BYTES packed) (utf8_encode opId) (drop NONCE_BYTES packed) = Some pt" by blast
  have "length (take NONCE_BYTES packed) = NONCE_BYTES" using r by simp
  moreover from this pt(2) have "drop NONCE_BYTES packed = seal A key (take NONCE_BYTES packed) (utf8_encode opId) pt"
    using assms(1) by (simp add: aead_key_def)
  ultimately show ?l
    unfolding made_for_def assms(2) using pt(1) append_take_drop_id[of NONCE_BYTES packed]
    by (intro exI[of _ "take NONCE_BYTES packed"] exI[of _ pt]) simp
qed

text \<open>C39. Decryption gives the value or says that it cannot. A value outside the envelope is an operation
written in the clear and passes unchanged. A value in the envelope decrypts exactly when it is
base64 of a nonce and a ciphertext that encryption produces under this key for this operation id,
of a JSON text, and the result is what that text denotes; in every other case the call fails with a
\<open>DecryptError\<close>. So a ciphertext moved from another operation is refused unless the
cipher itself makes that very ciphertext for both ids.\<close>

theorem decrypt_exact:
  assumes "aead_key A key"
  shows "(\<not> isEncryptedValue v \<longrightarrow> sc_decrypt A key v opId = Inr v) \<and>
    (isEncryptedValue v \<longrightarrow> (\<exists>s. v = JStr s \<and>
      (\<forall>w. sc_decrypt A key v opId = Inr w \<longleftrightarrow> made_for A key opId s w) \<and>
      sc_decrypt A key v opId \<in> range Inr \<union> Inl ` range DecryptError))"
proof (cases "isEncryptedValue v")
  case False
  then show ?thesis by (simp add: sc_decrypt_plain)
next
  case True
  then obtain s where v: "v = JStr s" by (cases v) (simp_all add: isEncryptedValue_def)
  note run = sc_decrypt_encrypted[OF True[unfolded v]]
  have "(\<forall>w. sc_decrypt A key v opId = Inr w \<longleftrightarrow> made_for A key opId s w) \<and>
      sc_decrypt A key v opId \<in> range Inr \<union> Inl ` range DecryptError"
  proof (cases "cipher_unbase64 (drop (length CIPHER_PREFIX) s)")
    case None
    then show ?thesis by (simp add: v run made_for_def)
  next
    case (Some packed)
    show ?thesis unfolding made_for_unsealed[OF assms Some] by (auto simp: v run Some split: option.split)
  qed
  with True v show ?thesis by blast
qed

text \<open>The same text in another operation.\<close>

theorem decrypt_exact_witness:
  "sc_decrypt sample_aead sample_secret
     (JStr (sc_encrypt sample_aead sample_secret (replicate 24 9) JNull (js ''op''))) (js ''oq'') \<in>
     Inl ` range DecryptError \<and> sc_decrypt sample_aead sample_secret (JBool True) (js ''oq'') = Inr (JBool True)"
proof -
  let ?s = "sc_encrypt sample_aead sample_secret (replicate 24 9) JNull (js ''op'')"
  have "cipher_unbase64 (drop (length CIPHER_PREFIX) ?s) =
      Some (replicate 24 9 @ seal sample_aead sample_secret (replicate 24 9) (utf8_encode (js ''op'')) (sc_plaintext JNull))"
    by (simp add: sc_encrypt_def unbase64_base64)
  moreover have "unseal sample_aead sample_secret (replicate 24 9) (utf8_encode (js ''oq''))
      (seal sample_aead sample_secret (replicate 24 9) (utf8_encode (js ''op'')) (sc_plaintext JNull)) = None"
    by code_simp
  ultimately have "\<not> made_for sample_aead sample_secret (js ''oq'') ?s w" for w
    using made_for_unsealed[OF sample_aead_key] by (simp add: NONCE_BYTES_def)
  with decrypt_exact[OF sample_aead_key[of sample_secret], of "JStr ?s" "js ''oq''"]
    sc_encrypt_encrypted[of sample_aead sample_secret "replicate 24 9" JNull "js ''op''"]
  have "sc_decrypt sample_aead sample_secret (JStr ?s) (js ''oq'') \<in> Inl ` range DecryptError" by blast
  moreover have "sc_decrypt sample_aead sample_secret (JBool True) (js ''oq'') = Inr (JBool True)"
    using decrypt_exact[OF sample_aead_key[of sample_secret], of "JBool True" "js ''oq''"] by (simp add: isEncryptedValue_def)
  ultimately show ?thesis by blast
qed

section \<open>Encrypted cells from end to end\<close>

lemma cell_value_encrypted:
  assumes "aead_key A key" "is_json v" "c \<noteq> TOMBSTONE_COLUMN" "stored_as (Some (space_cipher A key)) (c, v) p"
  shows "isEncryptedValue (o_value p)" "cell_value (Some (space_cipher A key)) p = Inr (reread v)"
proof -
  from assms(3,4) obtain nonce where n: "length nonce = NONCE_BYTES"
    "o_value p = JStr (sc_encrypt A key nonce v (o_id p))"
    by (auto simp: stored_as_def space_cipher_encrypt)
  then show enc: "isEncryptedValue (o_value p)" by (simp add: sc_encrypt_encrypted)
  have "decrypt (space_cipher A key) (o_value p) (o_id p) = Inr (reread v)"
    unfolding n(2) using sc_roundtrip[OF assms(1) n(1) assms(2)] by (simp add: space_cipher_def)
  with enc show "cell_value (Some (space_cipher A key)) p = Inr (reread v)" by (simp add: cell_value_def)
qed

lemma reread_JNull [simp]: "reread v = JNull \<longleftrightarrow> v = JNull"
  by (cases v) (simp_all add: reread_def)

text \<open>C40. Encryption from end to end. A replica that holds the space secret writes a row; whatever
replica holds the same operations and the same secret and shows the row, shows the written
values, while the operations themselves carry only ciphertext in those columns.\<close>

theorem encrypted_write_read:
  assumes secret: "new_cipher A secret = Inr key" "aead_key A key"
    and a: "mem_reachable C (Some (space_cipher A key)) a" "\<forall>(c, v) \<in> set vs. is_json v" "dkeys vs"
      "update_row memory_adapter C (Some (space_cipher A key)) ds t r vs a = (Inr (), a')"
    and b: "mem_reachable C (Some (space_cipher A key)) b" "mem.logged b = mem.logged a'"
      "get memory_adapter (Some (space_cipher A key)) t r b = Inr (Some row)"
    and c: "(c, v) \<in> set vs" "c \<notin> {TOMBSTONE_COLUMN, PROTO, js ''id''}"
  shows "map_of row c = (if v = JNull then None else Some (reread v)) \<and>
    (\<exists>p. row_cells (mem_view (e_store b)) t r c = Some p \<and> isEncryptedValue (o_value p))"
proof -
  have good: "mem.good C a" "crypto_key C (e_deviceKey a)" "mem.good C b"
    using mem_reachable_good[OF a(1)] mem_reachable_good[OF b(1)] by simp_all
  have js: "json_values vs" using a(2) is_json_wf_val by (auto simp: json_values_def)
  have good': "mem.good C a'"
    by (rule mem.update_row_spec(1)[OF good(1,2) js[unfolded json_values_def] a(4)])
  have con: "consistent (mem_view (e_store a'))" "consistent (mem_view (e_store b))"
    using good' good(3) engine_okD(2) unfolding mem.good_def by blast+
  have "r_log (mem_view (e_store b)) = r_log (mem_view (e_store a'))"
    using b(2) con by (intro wf_log_eqI) (simp_all add: consistent_def)
  then have cells: "row_cells (mem_view (e_store b)) t r = row_cells (mem_view (e_store a')) t r"
    using consistent_converge[OF con(2,1)] by (simp add: row_cells_def)
  obtain p where p: "row_cells (mem_view (e_store b)) t r c = Some p" "stored_as (Some (space_cipher A key)) (c, v) p"
    using mem.update_cells(1)[OF good(1,2) js a(3,4)] c(1) unfolding cells by blast
  have v: "is_json v" using a(2) c(1) by blast
  note E = cell_value_encrypted[OF secret(2) v _ p(2)]
  have inv: "mem_inv (e_store b)" using good(3) by (simp add: mem.good_def)
  show ?thesis
    using mem.get_value[OF inv b(3) p(1) _ _ E(2)] E(1) p(1) c(2) by auto
qed

lemma sample_sealed: "fits_stored sample_cipher (d_nonce sample_draw) (js ''a'') (JStr (js ''x''))"
proof -
  have pt: "length (sc_plaintext (JStr (js ''x''))) = 3" by code_simp
  have "length (sc_encrypt sample_aead sample_secret (replicate 24 0) (JStr (js ''x'')) opId) \<le> 9000" for opId
    using length_btoa[of "replicate 24 0 @ seal sample_aead sample_secret (replicate 24 0) (utf8_encode opId) (sc_plaintext (JStr (js ''x'')))"]
    by (simp add: sc_encrypt_def cipher_base64_def CIPHER_PREFIX_def pt sample_aead_def)
  then show ?thesis
    by (simp add: fits_stored_def TOMBSTONE_COLUMN_def js_def space_cipher_def sample_draw_def NONCE_BYTES_def)
qed

theorem encrypted_write_read_witness:
  "\<exists>e' row. update_row memory_adapter sample_crypto sample_cipher (\<lambda>_. sample_draw) (js ''t'') sample_row
      [(js ''a'', JStr (js ''x''))] (sample_engine 7) = (Inr (), e') \<and>
     get memory_adapter sample_cipher (js ''t'') sample_row e' = Inr (Some row) \<and>
     map_of row (js ''a'') = Some (JStr (js ''x''))"
proof -
  let ?vs = "[(js ''a'', JStr (js ''x''))]"
  obtain e' where e': "update_row memory_adapter sample_crypto sample_cipher (\<lambda>_. sample_draw) (js ''t'') sample_row ?vs
      (sample_engine 7) = (Inr (), e')"
    using sample_update_total[OF sample_names(1,2), of ?vs sample_cipher 7] sample_names(3) sample_sealed by auto
  have good: "mem.good sample_crypto (sample_engine 7)" "crypto_key sample_crypto (e_deviceKey (sample_engine 7))"
    using mem_reachable_good[OF sample_engine_reachable] by blast+
  have vals: "json_values ?vs" "dkeys ?vs" "js ''a'' \<notin> {TOMBSTONE_COLUMN, PROTO, js ''id''}"
    by (simp_all add: json_values_def TOMBSTONE_COLUMN_def PROTO_def js_def)
  have old: "\<not> tombstoned (row_cells (mem_view (e_store (sample_engine 7))) (js ''t'') sample_row)"
    "readable sample_cipher (row_cells (mem_view (e_store (sample_engine 7))) (js ''t'') sample_row)"
    by (simp_all add: sample_cells tombstoned_def readable_def)
  obtain row where row: "get memory_adapter sample_cipher (js ''t'') sample_row e' = Inr (Some row)"
    using mem.update_shown[OF good vals(1,2) e' old(1) _ _ old(2)] vals(3)
      cell_value_encrypted(2)[OF sample_aead_key, where ?v = "JStr (js ''x'')"] by fastforce
  have reach: "mem_reachable sample_crypto sample_cipher e'"
    by (rule reachable.step[OF sample_engine_reachable engine_step.update[OF vals(1) e']])
  from encrypted_write_read[OF sample_new_cipher sample_aead_key sample_engine_reachable _ vals(2) e' reach refl row _ vals(3)]
  show ?thesis using e' row by (fastforce simp: reread_def)
qed

end
