(* ===== verification/Quiescence.thy ===== *)
theory Quiescence
  imports Replicator_Steps "HOL-Library.Multiset"
begin

text \<open>
  The conversation of replicators on a bus comes to an end. Replicas over one bus answer each other's
  messages, in any order, with any loss; a lexicographic measure shows that the answers run out:
  a greeting is answered by a greeting only once for each new acquaintance, and every other answer
  is of a lower rank than the message it answers.
\<close>

section \<open>The bus\<close>

text \<open>
  The replicas, and the messages that are still to be delivered, each with the replica it is to
  reach. What a replica sends goes to every other one.
\<close>

record 's bus =
  bus_nodes :: "'s replicator list"
  bus_flight :: "(nat \<times> wire) multiset"

definition outgoing :: "'s replicator \<Rightarrow> 's replicator \<Rightarrow> wire list" where
  "outgoing r r' = drop (length (rp_sent r)) (rp_sent r')"

definition broadcast :: "nat \<Rightarrow> nat \<Rightarrow> wire list \<Rightarrow> (nat \<times> wire) multiset" where
  "broadcast n i ms = mset (concat (map (\<lambda>j. map (Pair j) ms) (filter (\<lambda>j. j \<noteq> i) [0..<n])))"

inductive bus_step :: "'s storage_ops \<Rightarrow> crypto \<Rightarrow> replicator_opts \<Rightarrow> 's bus \<Rightarrow> 's bus \<Rightarrow> bool"
  for S :: "'s storage_ops" and C :: crypto and ro :: replicator_opts where
    arrive: "(i, m) \<in># bus_flight b \<Longrightarrow> i < length (bus_nodes b) \<Longrightarrow> r' = snd (deliver S C ro pt m (bus_nodes b ! i)) \<Longrightarrow>
      bus_step S C ro b \<lparr>bus_nodes = (bus_nodes b)[i := r'],
        bus_flight = bus_flight b - {#(i, m)#} + broadcast (length (bus_nodes b)) i (outgoing (bus_nodes b ! i) r')\<rparr>"
  | lose: "x \<in># bus_flight b \<Longrightarrow> bus_step S C ro b (b\<lparr>bus_flight := bus_flight b - {#x#}\<rparr>)"

section \<open>What an answer is\<close>

fun rank :: "wire_body \<Rightarrow> nat" where
  "rank (Hello c k) = 3"
| "rank (Since to f) = 2"
| "rank (Ops to raw) = 1"
| "rank (Keys to ks) = 0"
| "rank (Ack to f) = 0"

text \<open>The engine calls of a handler announce no local change and keep the device.\<close>

definition quiet :: "'s engine \<Rightarrow> 's engine \<Rightarrow> bool" where
  "quiet e0 e \<longleftrightarrow> e_deviceId e = e_deviceId e0 \<and> (\<exists>evs. e_events e = e_events e0 @ evs \<and> (\<forall>ev \<in> set evs. ev_origin ev \<noteq> Local))"

lemma quiet_refl [simp]: "quiet e e"
  by (simp add: quiet_def)

lemma quiet_same: "quiet e0 e \<Longrightarrow> e_deviceId e' = e_deviceId e \<Longrightarrow> e_events e' = e_events e \<Longrightarrow> quiet e0 e'"
  by (simp add: quiet_def)

lemma quiet_on_store [keeps_rules]: "keeps (quiet e0) (on_store m)"
  by (auto simp: keeps_def on_store_def e_deviceId_def intro: quiet_same split: prod.splits)

lemma quiet_receive [keeps_rules]: "keeps (quiet e0) (receive_stamp pt s)"
proof -
  have "c_device (snd (receive t h c)) = c_device c" for t h c
    by (simp add: receive_def rollover_def Let_def)
  then have "keeps (quiet e0) (on_clock (receive t h))" for t h
    by (intro keepsI) (simp add: on_clock_def case_prod_beta quiet_def e_deviceId_def)
  then show ?thesis unfolding receive_stamp_def by (intro keeps_rules)
qed

lemma quiet_persist [keeps_rules]: "keeps (quiet e0) (persist_clock S)"
  using quiet_on_store by (fastforce simp: keeps_def persist_clock_def)

lemma quiet_observe [keeps_rules]: "keeps (quiet e0) (observeRemoteClock S pt s)"
  unfolding observeRemoteClock_def by (intro keeps_rules)

lemma quiet_record [keeps_rules]: "keeps (quiet e0) (recordPeerFrontier S p f)"
  using quiet_on_store by (fastforce simp: keeps_def recordPeerFrontier_def)

lemma quiet_commit [keeps_rules]: "keeps (quiet e0) (commit S ps Remote)"
proof (rule keepsI)
  fix e assume e: "quiet e0 e"
  have "keeps (quiet e0) (modify (\<lambda>e. e\<lparr>e_events := e_events e @ [\<lparr>ev_changes = changed_rows ps, ev_ops = ps, ev_origin = Remote\<rparr>]\<rparr>))"
    by (auto simp: keeps_def modify_def quiet_def e_deviceId_def)
  then have "keeps (quiet e0) (bind_act (on_store m) (\<lambda>_. modify (\<lambda>e. e\<lparr>e_events := e_events e @
      [\<lparr>ev_changes = changed_rows ps, ev_ops = ps, ev_origin = Remote\<rparr>]\<rparr>)))" for m :: "('a, unit) act"
    by (intro keeps_bind quiet_on_store)
  with e show "quiet e0 (snd (commit S ps Remote e))"
    by (simp add: commit_def case_prod_beta keeps_def)
qed

lemma quiet_apply [keeps_rules]: "keeps (quiet e0) (applyRemoteOps S C pt raw)"
proof -
  have chk: "keeps (quiet e0) (\<lambda>e. (g e, e))" for g :: "'a engine \<Rightarrow> 'b result" by (simp add: keeps_def)
  have last: "keeps (quiet e0) (\<lambda>e. let fresh = fresh_ops S (e_store e) ops in
      if fresh = [] then bind_act (persist_clock S) (\<lambda>_. ret 0) e
      else bind_act (commit S fresh Remote) (\<lambda>_. ret (length fresh)) e)" for ops
  proof -
    have "keeps (quiet e0) (bind_act (persist_clock S) (\<lambda>_. ret (0::nat)))"
      "keeps (quiet e0) (bind_act (commit S ps Remote) (\<lambda>_. ret (length ps)))" for ps
      by (intro keeps_rules)+
    then show ?thesis by (simp add: keeps_def Let_def)
  qed
  have stamp: "keeps (quiet e0) (case max_op ops of None \<Rightarrow> ret () | Some m \<Rightarrow> receive_stamp pt (o_hlc m))" for ops
    by (cases "max_op ops") (simp_all add: keeps_rules)
  show ?thesis
    unfolding applyRemoteOps_def by (intro keeps_bind keeps_lift chk stamp last)
qed

lemma quiet_learn: "quiet e0 e \<Longrightarrow> quiet e0 (snd (learnKey C d k e))"
  by (auto simp: learnKey_def e_deviceId_def intro: quiet_same)

lemma quiet_learn_hex: "quiet e0 e \<Longrightarrow> quiet e0 (learn_hex C ks e)"
  unfolding learn_hex_def by (induction ks arbitrary: e) (auto intro: quiet_learn)

lemma learn_hex_device: "e_deviceId (learn_hex C ks e) = e_deviceId e"
  using quiet_learn_hex[of e e C ks] by (simp add: quiet_def)

text \<open>
  \<open>heard Q r0 r\<close>: since \<open>r0\<close> the replicator has kept its device and its peers and sent only messages of
  its own whose bodies satisfy \<open>Q\<close>.
\<close>

definition heard :: "(wire_body \<Rightarrow> bool) \<Rightarrow> 's replicator \<Rightarrow> 's replicator \<Rightarrow> bool" where
  "heard Q r0 r \<longleftrightarrow> e_deviceId (rp_engine r) = e_deviceId (rp_engine r0) \<and> fst ` set (rp_peers r0) \<subseteq> fst ` set (rp_peers r) \<and>
     (\<exists>new. rp_sent r = rp_sent r0 @ new \<and> (\<forall>n \<in> set new. w_from n = e_deviceId (rp_engine r0) \<and> Q (w_body n)))"

lemma heard_refl [simp]: "heard Q r r"
  by (simp add: heard_def)

lemma heard_send [keeps_rules]: "Q b \<Longrightarrow> keeps (heard Q r0) (send ro b)"
  by (auto simp: keeps_def send_def modify_def heard_def msg_def)

lemma heard_send_all [keeps_rules]: "\<forall>b \<in> set bs. Q b \<Longrightarrow> keeps (heard Q r0) (send_all ro bs)"
  by (auto simp: keeps_def send_all_def modify_def heard_def msg_def)

lemma heard_send_of: "(\<And>r. Q (g r)) \<Longrightarrow> keeps (heard Q r0) (\<lambda>r. send ro (g r) r)"
  using heard_send by (fastforce simp: keeps_def)

lemma heard_sendHello: "(\<And>c k. Q (Hello c k)) \<Longrightarrow> keeps (heard Q r0) (sendHello S ro)"
  unfolding sendHello_def send_hello_def Let_def by (rule heard_send_of)

lemma heard_sendKeys: "(\<And>to ks. Q (Keys to ks)) \<Longrightarrow> keeps (heard Q r0) (sendKeys ro to)"
  unfolding sendKeys_def by (rule heard_send_of)

lemma heard_peers_change [keeps_rules]: "keeps (heard Q r0) peers_change"
  by (simp add: keeps_def peers_change_def modify_def heard_def)

lemma map_set_keys: "fst ` set (map_set k v m) = insert k (fst ` set m)"
  by (simp add: dom_map_of_conv_image_fst[symmetric])

lemma heard_set_peer [keeps_rules]: "keeps (heard Q r0) (set_peer p f)"
  by (auto simp: keeps_def set_peer_def modify_def heard_def map_set_keys)

lemma heard_on_engine [keeps_rules]:
  assumes "\<And>e0. keeps (quiet e0) m" shows "keeps (heard Q r0) (on_engine ro m)"
proof (rule keepsI)
  fix r assume r: "heard Q r0 r"
  obtain res e where m: "m (rp_engine r) = (res, e)" by fastforce
  then have q: "quiet (rp_engine r) e" using keepsD[OF assms quiet_refl m] by simp
  then obtain evs where evs: "e_events e = e_events (rp_engine r) @ evs" "\<forall>ev \<in> set evs. ev_origin ev \<noteq> Local"
    by (auto simp: quiet_def)
  then have silent: "concat (map tail_bodies evs) = []" by (simp add: tail_bodies_def)
  have "heard Q r0 (r\<lparr>rp_engine := e\<rparr>)" using r q by (simp add: heard_def quiet_def)
  moreover have "keeps (heard Q r0) (bind_act (send_all ro []) (\<lambda>_. lift_res res))" by (intro keeps_rules) simp
  ultimately show "heard Q r0 (snd (on_engine ro m r))"
    by (simp add: on_engine_def m Let_def evs(1) silent keeps_def del: concat_eq_Nil_conv)
qed

section \<open>Answers\<close>

text \<open>What follows when the greeting of \<open>from\<close> has passed the clock.\<close>

definition greet_back :: "'s storage_ops \<Rightarrow> replicator_opts \<Rightarrow> jsstring \<Rightarrow> bool \<Rightarrow> ('s replicator, unit) act" where
  "greet_back S ro from isNew =
     bind_act (if isNew
         then bind_act (set_peer from None) (\<lambda>_. bind_act peers_change (\<lambda>_. sendHello S ro))
         else ret ()) (\<lambda>_.
     bind_act (sendKeys ro (Some from)) (\<lambda>_.
     bind_act (gets (\<lambda>r. engine_frontier S (rp_engine r))) (\<lambda>have. send ro (Since from have))))"

definition meet_peer :: "'s storage_ops \<Rightarrow> crypto \<Rightarrow> replicator_opts \<Rightarrow> nat \<Rightarrow> jsstring \<Rightarrow> jsstring \<Rightarrow> jsstring option \<Rightarrow>
    ('s replicator, unit) act" where
  "meet_peer S C ro pt from clock key =
     bind_act (modify (\<lambda>r. case key of None \<Rightarrow> r
       | Some k \<Rightarrow> r\<lparr>rp_engine := snd (learnKey C from (unhex k) (rp_engine r))\<rparr>)) (\<lambda>_.
     on_engine ro (observeRemoteClock S pt clock))"

lemma bind_act_assoc: "bind_act (bind_act m f) g = bind_act m (\<lambda>x. bind_act (f x) g)"
  by (simp add: bind_act_eq fun_eq_iff split: prod.split sum.split)

lemma on_hello_split: "on_hello S C ro pt from clock key =
    bind_act (meet_peer S C ro pt from clock key) (\<lambda>_.
    bind_act (gets (\<lambda>r. map_of (rp_peers r) from = None)) (greet_back S ro from))"
  by (simp only: on_hello_def meet_peer_def greet_back_def[abs_def] bind_act_assoc)

lemma heard_greet_back:
  "keeps (heard (\<lambda>b. rank b < 3) r0) (greet_back S ro from False)" "keeps (heard (\<lambda>_. True) r0) (greet_back S ro from new)"
  unfolding greet_back_def by (intro keeps_rules heard_sendKeys heard_sendHello; simp)+

lemma greet_back_new: "from \<in> fst ` set (rp_peers (snd (greet_back S ro from True r)))"
  by (simp add: greet_back_def bind_act_eq set_peer_def modify_def peers_change_def sendHello_def send_hello_def sendKeys_def send_def
      gets_def Let_def map_set_keys)

lemma heard_meet: "keeps (heard Q r0) (meet_peer S C ro pt from clock key)"
proof -
  have "keeps (heard Q r0) (modify (\<lambda>r. case key of None \<Rightarrow> r
      | Some k \<Rightarrow> r\<lparr>rp_engine := snd (learnKey C from (unhex k) (rp_engine r))\<rparr>))"
    by (auto simp: keeps_def modify_def heard_def learnKey_def e_deviceId_def split: option.split)
  then show ?thesis unfolding meet_peer_def by (intro keeps_rules)
qed

lemma meet_peers: "rp_peers (snd (meet_peer S C ro pt from clock key r)) = rp_peers r"
  by (simp add: meet_peer_def on_engine_def bind_act_eq modify_def send_all_def lift_res_def Let_def case_prod_beta
      split: option.split)

lemma hello_answers:
  assumes r': "r' = snd (on_hello S C ro pt from clock key r)"
  shows "heard (\<lambda>b. rank b < 3) r r' \<or>
    heard (\<lambda>_. True) r r' \<and> from \<notin> fst ` set (rp_peers r) \<and> from \<in> fst ` set (rp_peers r')"
proof -
  obtain res r1 where m: "meet_peer S C ro pt from clock key r = (res, r1)" by fastforce
  have h: "heard Q r r1" for Q using keepsD[OF heard_meet heard_refl m] .
  have p: "rp_peers r1 = rp_peers r" using meet_peers[of S C ro pt "from" clock key r] by (simp add: m)
  show ?thesis
  proof (cases res)
    case (Inl e)
    then have "r' = r1" using r' m by (simp add: on_hello_split bind_act_eq)
    with h show ?thesis by simp
  next
    case (Inr u)
    then have w: "r' = snd (greet_back S ro from (map_of (rp_peers r) from = None) r1)"
      using r' m by (simp add: on_hello_split bind_act_eq gets_def p)
    show ?thesis
    proof (cases "map_of (rp_peers r) from = None")
      case True
      then have "from \<notin> fst ` set (rp_peers r)" by (simp add: map_of_eq_None_iff)
      moreover have "heard (\<lambda>_. True) r r'" using heard_greet_back(2)[of r S ro "from" True] h True w by (simp add: keeps_def)
      moreover have "from \<in> fst ` set (rp_peers r')" using greet_back_new True w by simp
      ultimately show ?thesis by blast
    next
      case False
      then have "(map_of (rp_peers r) from = None) = False" by blast
      with w have "r' = snd (greet_back S ro from False r1)" by (simp only:)
      then have "heard (\<lambda>b. rank b < 3) r r'" using heard_greet_back(1)[of r S ro "from"] h by (simp add: keeps_def)
      then show ?thesis ..
    qed
  qed
qed

lemma other_answers:
  "keeps (heard (\<lambda>b. rank b < 2) r0) (on_since S ro from have)"
  "keeps (heard (\<lambda>b. rank b < 1) r0) (on_ops S C ro pt from raw)"
  "keeps (heard (\<lambda>b. rank b < 0) r0) (on_ack S ro from f)"
  "keeps (heard (\<lambda>b. rank b < 0) r0) (modify (\<lambda>r. r\<lparr>rp_engine := learn_hex C ks (rp_engine r)\<rparr>))"
proof -
  show "keeps (heard (\<lambda>b. rank b < 2) r0) (on_since S ro from have)"
    unfolding on_since_def send_missing_def by (intro keeps_rules heard_sendKeys) auto
  show "keeps (heard (\<lambda>b. rank b < 1) r0) (on_ops S C ro pt from raw)"
    unfolding on_ops_def by (intro keeps_rules) auto
  show "keeps (heard (\<lambda>b. rank b < 0) r0) (on_ack S ro from f)"
    unfolding on_ack_def by (intro keeps_rules)
  show "keeps (heard (\<lambda>b. rank b < 0) r0) (modify (\<lambda>r. r\<lparr>rp_engine := learn_hex C ks (rp_engine r)\<rparr>))"
    by (auto simp: keeps_def modify_def heard_def learn_hex_device)
qed

text \<open>A new acquaintance, or answers of a lower rank.\<close>

lemma deliver_answers:
  assumes r': "r' = snd (deliver S C ro pt m r)"
  shows "heard (\<lambda>b. rank b < rank (w_body m)) r r' \<or>
    heard (\<lambda>_. True) r r' \<and> w_from m \<notin> fst ` set (rp_peers r) \<and> w_from m \<in> fst ` set (rp_peers r')"
proof -
  have body: "heard (\<lambda>b. rank b < rank (w_body m)) r s \<or>
      heard (\<lambda>_. True) r s \<and> w_from m \<notin> fst ` set (rp_peers r) \<and> w_from m \<in> fst ` set (rp_peers s)"
    if "handle_body S C ro pt m r = (q, s)" for q s
  proof (cases "w_body m")
    case (Hello c k)
    with that show ?thesis using hello_answers[of s S C ro pt "w_from m" c k r] by (simp add: handle_body_def)
  next
    case (Keys to ks)
    with that show ?thesis using keepsD[OF other_answers(4) heard_refl] by (fastforce simp: handle_body_def)
  next
    case (Since to f)
    with that show ?thesis using keepsD[OF other_answers(1) heard_refl] by (fastforce simp: handle_body_def)
  next
    case (Ops to raw)
    with that show ?thesis using keepsD[OF other_answers(2) heard_refl] by (fastforce simp: handle_body_def)
  next
    case (Ack to f)
    with that show ?thesis using keepsD[OF other_answers(3) heard_refl] by (fastforce simp: handle_body_def)
  qed
  obtain q s where s: "handle_body S C ro pt m r = (q, s)" by fastforce
  have "r' = r \<or> r' = s \<or> (\<exists>es. r' = s\<lparr>rp_errors := es\<rparr>)"
  proof (cases "OnMessage \<in> set (rp_unsubs r) \<and> relevant ro r m")
    case True
    with s r' have "r' = (case q of Inl e \<Rightarrow> s\<lparr>rp_errors := rp_errors s @ [(e, w_from m)]\<rparr> | Inr u \<Rightarrow> s)"
      by (cases q) (simp_all add: deliver_eq handled_def)
    then show ?thesis by (cases q) auto
  next
    case False
    with r' show ?thesis by (auto simp: deliver_eq handled_def)
  qed
  then consider "r' = r" | "r' = s" | es where "r' = s\<lparr>rp_errors := es\<rparr>" by blast
  then show ?thesis
  proof cases
    case 1
    then show ?thesis by simp
  next
    case 2
    then show ?thesis using body[OF s] by simp
  next
    case 3
    then have "heard Q r r' = heard Q r s" "rp_peers r' = rp_peers s" for Q by (simp_all add: heard_def)
    then show ?thesis using body[OF s] by simp
  qed
qed

section \<open>The measure\<close>

text \<open>Who does not know whom, among the devices \<open>D\<close>; and the ranks of what is in flight.\<close>

definition strangers :: "jsstring set \<Rightarrow> 's replicator list \<Rightarrow> nat" where
  "strangers D ns = (\<Sum>r \<leftarrow> ns. card (D - fst ` set (rp_peers r)))"

definition flight_ranks :: "(nat \<times> wire) multiset \<Rightarrow> nat multiset" where
  "flight_ranks F = image_mset (rank \<circ> w_body \<circ> snd) F"

definition among :: "jsstring set \<Rightarrow> 's bus \<Rightarrow> bool" where
  "among D b \<longleftrightarrow> (\<forall>x \<in># bus_flight b. w_from (snd x) \<in> D) \<and> (\<forall>r \<in> set (bus_nodes b). e_deviceId (rp_engine r) \<in> D)"

lemma set_broadcast: "x \<in># broadcast n i ms \<Longrightarrow> snd x \<in> set ms"
  by (auto simp: broadcast_def)

lemma heard_outgoing: "heard Q r r' \<Longrightarrow> n \<in> set (outgoing r r') \<Longrightarrow> w_from n = e_deviceId (rp_engine r) \<and> Q (w_body n)"
  by (auto simp: heard_def outgoing_def)

lemma strangers_update:
  assumes "i < length ns"
  shows "strangers D (ns[i := r]) + card (D - fst ` set (rp_peers (ns ! i))) = strangers D ns + card (D - fst ` set (rp_peers r))"
proof -
  let ?f = "\<lambda>r. card (D - fst ` set (rp_peers r))"
  have "?f (ns ! i) \<le> sum_list (map ?f ns)" using assms by (intro member_le_sum_list) auto
  then show ?thesis using assms by (simp add: strangers_def map_update sum_list_update)
qed

lemma bus_step_decreases:
  assumes step: "bus_step S C ro b b'" and D: "finite D" "among D b"
  shows "among D b' \<and> ((strangers D (bus_nodes b'), flight_ranks (bus_flight b')),
    (strangers D (bus_nodes b), flight_ranks (bus_flight b))) \<in> less_than <*lex*> mult less_than"
  using step
proof cases
  case (arrive i m r' pt)
  let ?r = "bus_nodes b ! i" and ?K = "broadcast (length (bus_nodes b)) i (outgoing (bus_nodes b ! i) r')"
  have mem: "?r \<in> set (bus_nodes b)" using arrive(3) by simp
  obtain F where F: "bus_flight b = add_mset (i, m) F" using mset_add[OF arrive(2)] .
  note A = deliver_answers[OF arrive(4)]
  then have h: "heard (\<lambda>_. True) ?r r'" by (auto simp: heard_def)
  then have mono: "D - fst ` set (rp_peers r') \<subseteq> D - fst ` set (rp_peers ?r)"
    and dev: "e_deviceId (rp_engine r') = e_deviceId (rp_engine ?r)" by (auto simp: heard_def)
  have "\<forall>x \<in># ?K. w_from (snd x) \<in> D"
    using heard_outgoing[OF h] set_broadcast mem D(2) unfolding among_def by metis
  moreover have "\<forall>s \<in> set ((bus_nodes b)[i := r']). e_deviceId (rp_engine s) \<in> D"
    using D(2) dev mem set_update_subset_insert[of "bus_nodes b" i r'] by (auto simp: among_def)
  ultimately have "among D b'" using D(2) by (auto simp: arrive(1) among_def dest: in_diffD)
  moreover note U = strangers_update[OF arrive(3), of D r']
  have "((strangers D (bus_nodes b'), flight_ranks (bus_flight b')),
      (strangers D (bus_nodes b), flight_ranks (bus_flight b))) \<in> less_than <*lex*> mult less_than"
    using A
  proof
    assume low: "heard (\<lambda>b. rank b < rank (w_body m)) ?r r'"
    have "strangers D (bus_nodes b') \<le> strangers D (bus_nodes b)"
      using U card_mono[OF finite_Diff[OF D(1)] mono] by (simp add: arrive(1))
    moreover have "(flight_ranks F + flight_ranks ?K, flight_ranks F + {#rank (w_body m)#}) \<in> mult less_than"
      using heard_outgoing[OF low] set_broadcast
      by (intro one_step_implies_mult) (fastforce simp: flight_ranks_def)+
    ultimately show ?thesis by (auto simp: arrive(1) flight_ranks_def F)
  next
    assume new: "heard (\<lambda>_. True) ?r r' \<and> w_from m \<notin> fst ` set (rp_peers ?r) \<and> w_from m \<in> fst ` set (rp_peers r')"
    have "w_from m \<in> D" using D(2) arrive(2) by (auto simp: among_def)
    with new have "D - fst ` set (rp_peers r') \<subset> D - fst ` set (rp_peers ?r)" using mono by blast
    then have "card (D - fst ` set (rp_peers r')) < card (D - fst ` set (rp_peers ?r))"
      by (intro psubset_card_mono finite_Diff D(1))
    with U have "strangers D ((bus_nodes b)[i := r']) < strangers D (bus_nodes b)" by linarith
    then show ?thesis by (simp add: arrive(1))
  qed
  ultimately show ?thesis by blast
next
  case (lose x)
  have "(flight_ranks (bus_flight b - {#x#}) + {#}, flight_ranks (bus_flight b - {#x#}) + {#rank (w_body (snd x))#}) \<in> mult less_than"
    by (rule one_step_implies_mult) auto
  then show ?thesis using D(2) lose(2) by (auto simp: lose(1) among_def flight_ranks_def image_mset_Diff dest: in_diffD)
qed

text \<open>C14. The conversation ends. Whatever state the replicas are in and whatever messages are in
flight, there is no infinite run of deliveries and losses on the bus: the replicas cannot greet,
ask and answer each other for ever. And a run can only end in silence, with every message
delivered or lost.\<close>

theorem conversation_ends:
  "(\<nexists>run. \<forall>k. bus_step S C ro (run k) (run (Suc k))) \<and> ((\<nexists>b'. bus_step S C ro b b') \<longleftrightarrow> bus_flight b = {#})"
proof
  show "\<nexists>run. \<forall>k. bus_step S C ro (run k) (run (Suc k))"
  proof
    assume "\<exists>run. \<forall>k. bus_step S C ro (run k) (run (Suc k))"
    then obtain run where run: "\<And>k. bus_step S C ro (run k) (run (Suc k))" by blast
    define D where "D = (w_from \<circ> snd) ` set_mset (bus_flight (run 0)) \<union> (\<lambda>r. e_deviceId (rp_engine r)) ` set (bus_nodes (run 0))"
    have fin: "finite D" by (simp add: D_def)
    have "among D (run k)" for k
    proof (induction k)
      case 0
      show ?case by (simp add: among_def D_def)
    next
      case (Suc k)
      then show ?case using bus_step_decreases[OF run fin] by blast
    qed
    then have "((strangers D (bus_nodes (run (Suc k))), flight_ranks (bus_flight (run (Suc k)))),
        (strangers D (bus_nodes (run k)), flight_ranks (bus_flight (run k)))) \<in> less_than <*lex*> mult less_than" for k
      using bus_step_decreases[OF run fin] by blast
    moreover have "wf (less_than <*lex*> mult less_than)" by (intro wf_lex_prod wf_mult wf_less_than)
    ultimately show False
      using wf_no_infinite_down_chainE[of _ "\<lambda>k. (strangers D (bus_nodes (run k)), flight_ranks (bus_flight (run k)))"] by blast
  qed
  show "(\<nexists>b'. bus_step S C ro b b') \<longleftrightarrow> bus_flight b = {#}"
  proof
    assume "\<nexists>b'. bus_step S C ro b b'"
    then have "x \<notin># bus_flight b" for x using bus_step.lose[of x b S C ro] by blast
    then show "bus_flight b = {#}" using multiset_nonemptyE by blast
  qed (auto elim: bus_step.cases)
qed

end
