(* ===== verification/Signaling.thy ===== *)
theory Signaling
  imports Storage Json_Parse
begin

text \<open>
  The signaling server of signaling-server/src/index.ts: rooms, joins, blind relay. A connection is
  a number; the record of a connection's own variable \<open>me\<close>, its ready state and what was sent to
  it are part of the state. The events are the ones the socket library raises.
\<close>

section \<open>State\<close>

text \<open>A closing connection keeps the code the server closed it with, if the server did.\<close>

datatype ready = OPEN | CLOSING "nat option" | CLOSED

record client =
  cl_ws :: nat
  cl_space :: jsstring
  cl_device :: jsstring

datatype server_msg =
    Peers "jsstring list"
  | PeerJoined jsstring
  | PeerLeft jsstring
  | Relayed jsstring jsval
  | ErrorMsg jsstring

record server =
  sv_rooms :: "(jsstring, (jsstring, client) jsmap) jsmap"
  sv_me :: "nat \<rightharpoonup> client"
  sv_ready :: "nat \<rightharpoonup> ready"
  sv_sent :: "(nat \<times> server_msg) list"

definition new_server :: server where
  "new_server = \<lparr>sv_rooms = [], sv_me = Map.empty, sv_ready = Map.empty, sv_sent = []\<rparr>"

section \<open>Messages\<close>

fun msg_js :: "server_msg \<Rightarrow> jsval" where
  "msg_js (Peers ds) = JObj [(js ''t'', JStr (js ''peers'')), (js ''devices'', JArr (map JStr ds))]"
| "msg_js (PeerJoined d) = JObj [(js ''t'', JStr (js ''peer-joined'')), (js ''device'', JStr d)]"
| "msg_js (PeerLeft d) = JObj [(js ''t'', JStr (js ''peer-left'')), (js ''device'', JStr d)]"
| "msg_js (Relayed d v) = JObj [(js ''t'', JStr (js ''signal'')), (js ''from'', JStr d), (js ''data'', v)]"
| "msg_js (ErrorMsg e) = JObj [(js ''t'', JStr (js ''error'')), (js ''message'', JStr e)]"

text \<open>\<open>send(ws, msg)\<close>: what is not open gets nothing. The text on the wire is \<open>json_stringify (msg_js m)\<close>.\<close>

definition ws_send :: "nat \<Rightarrow> server_msg \<Rightarrow> server \<Rightarrow> server" where
  "ws_send ws m s = (if sv_ready s ws = Some OPEN then s\<lparr>sv_sent := sv_sent s @ [(ws, m)]\<rparr> else s)"

text \<open>\<^verbatim>\<open>ws.close(code)\<close>.\<close>

definition ws_close :: "nat \<Rightarrow> nat \<Rightarrow> server \<Rightarrow> server" where
  "ws_close ws code s = (if sv_ready s ws = Some OPEN then s\<lparr>sv_ready := (sv_ready s)(ws \<mapsto> CLOSING (Some code))\<rparr> else s)"

text \<open>\<open>str(v)\<close>, and the property of a parsed message; \<^verbatim>\<open>null\<close> has none and throws.\<close>

definition str_or_empty :: "jsval \<Rightarrow> jsstring" where
  "str_or_empty v = (case v of JStr s \<Rightarrow> s | _ \<Rightarrow> [])"

definition msg_prop :: "jsval \<Rightarrow> jsstring \<Rightarrow> jsval result" where
  "msg_prop v k = (case v of JNull \<Rightarrow> Inl (Error (js ''TypeError'')) | JObj kvs \<Rightarrow> Inr (get_prop kvs k) | _ \<Rightarrow> Inr JUndef)"

section \<open>Rooms\<close>

definition leave_room :: "client \<Rightarrow> server \<Rightarrow> server" where
  "leave_room c s = (case map_of (sv_rooms s) (cl_space c) of
     None \<Rightarrow> s
   | Some room \<Rightarrow>
       if map_option cl_ws (map_of room (cl_device c)) \<noteq> Some (cl_ws c) then s
       else
         let room' = map_del (cl_device c) room;
             rooms' = (if room' = [] then map_del (cl_space c) (sv_rooms s) else map_set (cl_space c) room' (sv_rooms s))
         in fold (\<lambda>c'. ws_send (cl_ws c') (PeerLeft (cl_device c))) (map snd room') (s\<lparr>sv_rooms := rooms'\<rparr>))"

definition leave_me :: "nat \<Rightarrow> server \<Rightarrow> server" where
  "leave_me ws s = (case sv_me s ws of None \<Rightarrow> s | Some c \<Rightarrow> leave_room c s)"

text \<open>The part of a join after the connection has left where it was.\<close>

definition enter_room :: "client \<Rightarrow> server \<Rightarrow> server" where
  "enter_room c s =
     (let s1 = s\<lparr>sv_me := (sv_me s)(cl_ws c \<mapsto> c)\<rparr>;
          room = or_empty (map_of (sv_rooms s1) (cl_space c));
          s2 = (case map_of room (cl_device c) of None \<Rightarrow> s1 | Some evicted \<Rightarrow> ws_close (cl_ws evicted) 4000 s1);
          room' = map_set (cl_device c) c room;
          s3 = s2\<lparr>sv_rooms := map_set (cl_space c) room' (sv_rooms s2)\<rparr>;
          s4 = ws_send (cl_ws c) (Peers (filter (\<lambda>d. d \<noteq> cl_device c) (map fst room'))) s3
      in fold (\<lambda>c'. if cl_device c' \<noteq> cl_device c then ws_send (cl_ws c') (PeerJoined (cl_device c)) else id) (map snd room') s4)"

section \<open>Events\<close>

definition on_join :: "nat \<Rightarrow> jsstring \<Rightarrow> jsstring \<Rightarrow> server \<Rightarrow> server" where
  "on_join ws space device s =
     (if space = [] \<or> device = [] then ws_send ws (ErrorMsg (js ''join needs space and device'')) s
      else enter_room \<lparr>cl_ws = ws, cl_space = space, cl_device = device\<rparr> (leave_me ws s))"

definition on_signal :: "nat \<Rightarrow> jsstring \<Rightarrow> jsval \<Rightarrow> server \<Rightarrow> server" where
  "on_signal ws to data s = (case sv_me s ws of
     None \<Rightarrow> ws_send ws (ErrorMsg (js ''join first'')) s
   | Some me \<Rightarrow> (case Option.bind (map_of (sv_rooms s) (cl_space me)) (\<lambda>room. map_of room to) of
       None \<Rightarrow> s
     | Some target \<Rightarrow> ws_send (cl_ws target) (Relayed (cl_device me) data) s))"

text \<open>The text of a message arrives. An exception of the listener is not caught by anybody.\<close>

definition on_message :: "nat \<Rightarrow> jsstring \<Rightarrow> (server, unit) act" where
  "on_message ws raw = (\<lambda>s. case json_parse raw of
     None \<Rightarrow> (Inr (), ws_send ws (ErrorMsg (js ''invalid JSON'')) s)
   | Some v \<Rightarrow> bind_act (lift_res (msg_prop v (js ''t''))) (\<lambda>t.
       if t = JStr (js ''join'') then
         bind_act (lift_res (msg_prop v (js ''space''))) (\<lambda>space.
         bind_act (lift_res (msg_prop v (js ''device''))) (\<lambda>device.
         modify (on_join ws (str_or_empty space) (str_or_empty device))))
       else if t = JStr (js ''signal'') then
         bind_act (lift_res (msg_prop v (js ''to''))) (\<lambda>to.
         bind_act (lift_res (msg_prop v (js ''data''))) (\<lambda>data.
         modify (on_signal ws (str_or_empty to) data)))
       else modify (ws_send ws (ErrorMsg (js ''unknown message type'')))) s)"

definition on_close :: "nat \<Rightarrow> server \<Rightarrow> server" where
  "on_close ws s = (let s' = leave_me ws s in s'\<lparr>sv_me := (sv_me s')(ws := None)\<rparr>)"

text \<open>
  The server's runs: connections open, send messages until they are closed, start to close, and are
  closed. The ready state has changed when the event is raised.
\<close>

inductive server_step :: "server \<Rightarrow> server \<Rightarrow> bool" where
  connection: "sv_ready s ws = None \<Longrightarrow> server_step s (s\<lparr>sv_ready := (sv_ready s)(ws \<mapsto> OPEN)\<rparr>)"
| message: "sv_ready s ws = Some r \<Longrightarrow> r \<noteq> CLOSED \<Longrightarrow> on_message ws raw s = (Inr (), s') \<Longrightarrow> server_step s s'"
| closing: "sv_ready s ws = Some OPEN \<Longrightarrow> server_step s (s\<lparr>sv_ready := (sv_ready s)(ws \<mapsto> CLOSING None)\<rparr>)"
| closed: "sv_ready s ws = Some r \<Longrightarrow> r \<noteq> CLOSED \<Longrightarrow>
    server_step s (on_close ws (s\<lparr>sv_ready := (sv_ready s)(ws \<mapsto> CLOSED)\<rparr>))"

inductive server_reachable :: "server \<Rightarrow> bool" where
  start: "server_reachable new_server"
| step: "server_reachable s \<Longrightarrow> server_step s s' \<Longrightarrow> server_reachable s'"

end
