(* ===== verification/Signaling_Properties.thy ===== *)
theory Signaling_Properties
  imports Signaling Json_Text
begin

text \<open>
  What the signaling server keeps: its rooms list exactly the current connection of every device,
  every open member has been told of exactly the others, relays stay inside a room, and the one
  message that the server does not survive.
\<close>

section \<open>Rooms as a function\<close>

definition in_room :: "server \<Rightarrow> jsstring \<Rightarrow> jsstring \<Rightarrow> client option" where
  "in_room s sp d = Option.bind (map_of (sv_rooms s) sp) (\<lambda>room. map_of room d)"

definition rooms_ok :: "server \<Rightarrow> bool" where
  "rooms_ok s \<longleftrightarrow> dkeys (sv_rooms s) \<and> (\<forall>sp room. map_of (sv_rooms s) sp = Some room \<longrightarrow> room \<noteq> [] \<and> dkeys room)"

text \<open>What a client makes of the messages it gets: the peers it believes to be in the room.\<close>

fun hear :: "server_msg \<Rightarrow> jsstring set \<Rightarrow> jsstring set" where
  "hear (Peers ds) X = set ds"
| "hear (PeerJoined d) X = insert d X"
| "hear (PeerLeft d) X = X - {d}"
| "hear (Relayed d v) X = X"
| "hear (ErrorMsg e) X = X"

definition sent_to :: "nat \<Rightarrow> (nat \<times> server_msg) list \<Rightarrow> server_msg list" where
  "sent_to ws xs = map snd (filter (\<lambda>x. fst x = ws) xs)"

definition believes :: "server \<Rightarrow> nat \<Rightarrow> jsstring set" where
  "believes s ws = fold hear (sent_to ws (sv_sent s)) {}"

lemma sent_to_simps [simp]: "sent_to ws [] = []" "sent_to ws (xs @ ys) = sent_to ws xs @ sent_to ws ys"
  "sent_to ws [(w, m)] = (if w = ws then [m] else [])"
  by (simp_all add: sent_to_def)

lemma believes_append: "sv_sent s' = sv_sent s @ xs \<Longrightarrow> believes s' ws = fold hear (sent_to ws xs) (believes s ws)"
  by (simp add: believes_def)

lemma hear_all: "\<forall>x \<in> set ms. x = m \<Longrightarrow> fold hear ms X = (if ms = [] then X else hear m X)"
proof (induction ms arbitrary: X)
  case (Cons a ms)
  have "hear m (hear m X) = hear m X" by (cases m) auto
  with Cons show ?case by (cases "ms = []") auto
qed simp

section \<open>Sending to several\<close>

lemma ws_send_frame [simp]: "sv_ready (ws_send w m s) = sv_ready s" "sv_rooms (ws_send w m s) = sv_rooms s"
  "sv_me (ws_send w m s) = sv_me s" "in_room (ws_send w m s) = in_room s" "rooms_ok (ws_send w m s) = rooms_ok s"
  by (simp_all add: ws_send_def in_room_def rooms_ok_def fun_eq_iff)

lemma ws_send_believes: "believes (ws_send w m s) ws = (if w = ws \<and> sv_ready s w = Some OPEN then hear m (believes s ws) else believes s ws)"
  by (simp add: ws_send_def believes_def)

lemma send_each:
  "fold (\<lambda>c. ws_send (cl_ws c) m) cs s =
   s\<lparr>sv_sent := sv_sent s @ map (\<lambda>c. (cl_ws c, m)) (filter (\<lambda>c. sv_ready s (cl_ws c) = Some OPEN) cs)\<rparr>"
  by (induction cs arbitrary: s) (simp_all add: ws_send_def)

lemma send_each_believes:
  "believes (fold (\<lambda>c. ws_send (cl_ws c) m) cs s) ws =
   (if sv_ready s ws = Some OPEN \<and> ws \<in> cl_ws ` set cs then hear m (believes s ws) else believes s ws)"
proof -
  let ?ms = "sent_to ws (map (\<lambda>c. (cl_ws c, m)) (filter (\<lambda>c. sv_ready s (cl_ws c) = Some OPEN) cs))"
  have "believes (fold (\<lambda>c. ws_send (cl_ws c) m) cs s) ws = fold hear ?ms (believes s ws)"
    by (rule believes_append) (simp add: send_each)
  also have "\<dots> = (if ?ms = [] then believes s ws else hear m (believes s ws))"
    by (rule hear_all) (auto simp: sent_to_def)
  also have "?ms = [] \<longleftrightarrow> \<not> (sv_ready s ws = Some OPEN \<and> ws \<in> cl_ws ` set cs)"
    by (auto simp: sent_to_def filter_empty_conv)
  finally show ?thesis by auto
qed

lemma send_each_frame [simp]: "sv_ready (fold (\<lambda>c. ws_send (cl_ws c) m) cs s) = sv_ready s"
  "sv_rooms (fold (\<lambda>c. ws_send (cl_ws c) m) cs s) = sv_rooms s" "sv_me (fold (\<lambda>c. ws_send (cl_ws c) m) cs s) = sv_me s"
  by (simp_all add: send_each)

lemma fold_if: "fold (\<lambda>x. if P x then f x else id) xs = fold f (filter P xs)"
  by (induction xs) (simp_all add: fun_eq_iff)

lemma in_room_rooms: "sv_rooms s = sv_rooms s' \<Longrightarrow> in_room s = in_room s'" "sv_rooms s = sv_rooms s' \<Longrightarrow> rooms_ok s = rooms_ok s'"
  by (simp_all add: in_room_def rooms_ok_def fun_eq_iff)

lemma ws_of_values:
  assumes "dkeys m"
  shows "ws \<in> cl_ws ` set (filter P (map snd m)) \<longleftrightarrow> (\<exists>d c. (map_of m d = Some c \<and> P c) \<and> cl_ws c = ws)"
proof -
  have "c \<in> set (map snd m) \<longleftrightarrow> (\<exists>d. map_of m d = Some c)" for c
    using map_of_ran_set[OF assms] by (auto simp: ran_def)
  then show ?thesis unfolding set_filter by blast
qed

section \<open>Leaving\<close>

definition present :: "client \<Rightarrow> server \<Rightarrow> bool" where
  "present c s \<longleftrightarrow> map_option cl_ws (in_room s (cl_space c) (cl_device c)) = Some (cl_ws c)"

lemma leave_absent: "\<not> present c s \<Longrightarrow> leave_room c s = s"
  by (auto simp: leave_room_def present_def in_room_def split: option.splits)

lemma leave_frame [simp]: "sv_ready (leave_room c s) = sv_ready s" "sv_me (leave_room c s) = sv_me s"
  by (simp_all add: leave_room_def Let_def split: option.split)

lemma leave_present:
  assumes "rooms_ok s" "present c s"
  shows "rooms_ok (leave_room c s)"
    "in_room (leave_room c s) sp d = (if sp = cl_space c \<and> d = cl_device c then None else in_room s sp d)"
    "believes (leave_room c s) ws =
      (if sv_ready s ws = Some OPEN \<and> (\<exists>d c'. d \<noteq> cl_device c \<and> in_room s (cl_space c) d = Some c' \<and> cl_ws c' = ws)
       then believes s ws - {cl_device c} else believes s ws)"
proof -
  obtain room where room: "map_of (sv_rooms s) (cl_space c) = Some room" "map_option cl_ws (map_of room (cl_device c)) = Some (cl_ws c)"
    using assms(2) by (auto simp: present_def in_room_def bind_eq_Some_conv)
  define room' where "room' = map_del (cl_device c) room"
  define rooms' where "rooms' = (if room' = [] then map_del (cl_space c) (sv_rooms s) else map_set (cl_space c) room' (sv_rooms s))"
  have d: "dkeys room'" "dkeys rooms'" using assms(1) room(1) by (auto simp: rooms_ok_def room'_def rooms'_def)
  have l: "leave_room c s = fold (\<lambda>c'. ws_send (cl_ws c') (PeerLeft (cl_device c))) (map snd room') (s\<lparr>sv_rooms := rooms'\<rparr>)"
    using room by (simp add: leave_room_def Let_def room'_def rooms'_def)
  have r: "sv_rooms (leave_room c s) = rooms'" by (simp add: l)
  have look: "map_of rooms' sp = (if sp = cl_space c then (if room' = [] then None else Some room') else map_of (sv_rooms s) sp)" for sp
    by (simp add: rooms'_def)
  show "rooms_ok (leave_room c s)"
    using assms(1) d by (auto simp: rooms_ok_def r look split: if_splits)
  have "map_of room' d = (if d = cl_device c then None else map_of room d)" for d by (simp add: room'_def)
  note rd = this
  show "in_room (leave_room c s) sp d = (if sp = cl_space c \<and> d = cl_device c then None else in_room s sp d)" for sp d
    using room(1) rd[of d] by (cases "room' = []") (auto simp: in_room_def r look)
  have "map_of room' d = Some c' \<longleftrightarrow> d \<noteq> cl_device c \<and> in_room s (cl_space c) d = Some c'" for d c'
    using room(1) by (simp add: in_room_def room'_def)
  then have "ws \<in> cl_ws ` set (map snd room') \<longleftrightarrow> (\<exists>d c'. d \<noteq> cl_device c \<and> in_room s (cl_space c) d = Some c' \<and> cl_ws c' = ws)"
    using ws_of_values[OF d(1), of ws "\<lambda>_. True"] by simp
  moreover have "believes (s\<lparr>sv_rooms := rooms'\<rparr>) ws = believes s ws" "sv_ready (s\<lparr>sv_rooms := rooms'\<rparr>) = sv_ready s"
    by (simp_all add: believes_def)
  ultimately show "believes (leave_room c s) ws =
      (if sv_ready s ws = Some OPEN \<and> (\<exists>d c'. d \<noteq> cl_device c \<and> in_room s (cl_space c) d = Some c' \<and> cl_ws c' = ws)
       then believes s ws - {cl_device c} else believes s ws)"
    by (simp only: l send_each_believes hear.simps)
qed

section \<open>The invariant\<close>

definition alive :: "server \<Rightarrow> nat \<Rightarrow> bool" where
  "alive s ws \<longleftrightarrow> sv_ready s ws \<noteq> None \<and> sv_ready s ws \<noteq> Some CLOSED"

definition members :: "server \<Rightarrow> jsstring \<Rightarrow> jsstring set" where
  "members s sp = {d. in_room s sp d \<noteq> None}"

definition server_inv :: "server \<Rightarrow> bool" where
  "server_inv s \<longleftrightarrow> rooms_ok s \<and>
     (\<forall>sp d c. in_room s sp d = Some c \<longrightarrow> cl_space c = sp \<and> cl_device c = d \<and> sv_me s (cl_ws c) = Some c \<and> alive s (cl_ws c)) \<and>
     (\<forall>ws c. sv_me s ws = Some c \<longrightarrow> cl_ws c = ws) \<and>
     (\<forall>sp d c. in_room s sp d = Some c \<longrightarrow> sv_ready s (cl_ws c) = Some OPEN \<longrightarrow> believes s (cl_ws c) = members s sp - {d})"

lemma server_invD:
  assumes "server_inv s"
  shows "rooms_ok s" "sv_me s ws = Some c \<Longrightarrow> cl_ws c = ws"
    "in_room s sp d = Some c \<Longrightarrow> cl_space c = sp \<and> cl_device c = d \<and> sv_me s (cl_ws c) = Some c \<and> alive s (cl_ws c)"
    "in_room s sp d = Some c \<Longrightarrow> sv_ready s (cl_ws c) = Some OPEN \<Longrightarrow> believes s (cl_ws c) = members s sp - {d}"
  using assms unfolding server_inv_def by blast+

text \<open>One connection is one member at most.\<close>

lemma same_member:
  assumes "server_inv s" "in_room s sp d = Some c" "in_room s sp' d' = Some c'" "cl_ws c = cl_ws c'"
  shows "sp = sp' \<and> d = d'"
proof -
  have 1: "cl_space c = sp" "cl_device c = d" "sv_me s (cl_ws c) = Some c"
    and 2: "cl_space c' = sp'" "cl_device c' = d'" "sv_me s (cl_ws c') = Some c'"
    using server_invD(3)[OF assms(1) assms(2)] server_invD(3)[OF assms(1) assms(3)] by blast+
  then have "Some c = Some c'" by (metis assms(4))
  with 1 2 show ?thesis by blast
qed

lemma leave_room_inv:
  assumes inv: "server_inv s"
  shows "server_inv (leave_room c s)"
proof (cases "present c s")
  case True
  note L = leave_present[OF server_invD(1)[OF inv] True]
  have bel: "believes (leave_room c s) (cl_ws c') = members (leave_room c s) sp - {d}"
    if c': "in_room s sp d = Some c'" "\<not> (sp = cl_space c \<and> d = cl_device c)" and o: "sv_ready s (cl_ws c') = Some OPEN" for sp d c'
  proof -
    have "(\<exists>d' c''. d' \<noteq> cl_device c \<and> in_room s (cl_space c) d' = Some c'' \<and> cl_ws c'' = cl_ws c') \<longleftrightarrow> sp = cl_space c"
      using same_member[OF inv] c' by metis
    then show ?thesis using server_invD(4)[OF inv c'(1) o] o by (auto simp: L(2,3) members_def)
  qed
  then show ?thesis
    using L(1) server_invD(2,3)[OF inv] unfolding server_inv_def by (simp add: L(2) alive_def)
qed (simp add: leave_absent inv)

lemma leave_me_inv: "server_inv s \<Longrightarrow> server_inv (leave_me ws s)"
  by (simp add: leave_me_def leave_room_inv split: option.split)

lemma leave_me_gone:
  assumes "server_inv s" "in_room (leave_me ws s) sp d = Some c" shows "cl_ws c \<noteq> ws"
proof
  assume w: "cl_ws c = ws"
  note inv' = leave_me_inv[OF assms(1), of ws]
  have "sv_me (leave_me ws s) = sv_me s" by (simp add: leave_me_def split: option.split)
  then have me: "sv_me s ws = Some c" using server_invD(3)[OF inv' assms(2)] w by simp
  then have l: "leave_me ws s = leave_room c s" by (simp add: leave_me_def)
  have sp: "cl_space c = sp" "cl_device c = d" using server_invD(3)[OF inv' assms(2)] by auto
  show False
  proof (cases "present c s")
    case True
    then show ?thesis using leave_present(2)[OF server_invD(1)[OF assms(1)] True, of sp d] assms(2) l sp by simp
  next
    case False
    then have "in_room s sp d = Some c" using assms(2) l by (simp add: leave_absent)
    with False sp show ?thesis by (simp add: present_def)
  qed
qed

section \<open>Entering\<close>

text \<open>The state after the eviction and the update of the room, before anything is sent.\<close>

lemma enter_room_split:
  fixes c s
  defines "room \<equiv> or_empty (map_of (sv_rooms s) (cl_space c))"
  defines "room' \<equiv> map_set (cl_device c) c room"
  defines "s1 \<equiv> s\<lparr>sv_me := (sv_me s)(cl_ws c \<mapsto> c)\<rparr>"
  defines "s2 \<equiv> (case map_of room (cl_device c) of None \<Rightarrow> s1 | Some e \<Rightarrow> ws_close (cl_ws e) 4000 s1)"
  defines "s3 \<equiv> s2\<lparr>sv_rooms := map_set (cl_space c) room' (sv_rooms s)\<rparr>"
  shows "enter_room c s = fold (\<lambda>c'. ws_send (cl_ws c') (PeerJoined (cl_device c)))
      (filter (\<lambda>c'. cl_device c' \<noteq> cl_device c) (map snd room')) (ws_send (cl_ws c) (Peers (filter (\<lambda>d. d \<noteq> cl_device c) (map fst room'))) s3)"
    "sv_me s3 = (sv_me s)(cl_ws c \<mapsto> c)" "sv_sent s3 = sv_sent s" "sv_rooms s3 = map_set (cl_space c) room' (sv_rooms s)"
    "sv_ready s3 w = (if \<exists>e. in_room s (cl_space c) (cl_device c) = Some e \<and> cl_ws e = w \<and> sv_ready s w = Some OPEN
       then Some (CLOSING (Some 4000)) else sv_ready s w)"
proof -
  have look: "in_room s (cl_space c) d = map_of room d" for d
    by (simp add: in_room_def room_def split: option.split)
  have rooms: "sv_rooms s2 = sv_rooms s" "sv_me s2 = (sv_me s)(cl_ws c \<mapsto> c)" "sv_sent s2 = sv_sent s"
    by (simp_all add: s2_def s1_def ws_close_def split: option.split)
  then show "sv_me s3 = (sv_me s)(cl_ws c \<mapsto> c)" "sv_sent s3 = sv_sent s" "sv_rooms s3 = map_set (cl_space c) room' (sv_rooms s)"
    by (simp_all add: s3_def)
  show "sv_ready s3 w = (if \<exists>e. in_room s (cl_space c) (cl_device c) = Some e \<and> cl_ws e = w \<and> sv_ready s w = Some OPEN
       then Some (CLOSING (Some 4000)) else sv_ready s w)"
    by (auto simp: s3_def s2_def s1_def ws_close_def look split: option.splits)
  show "enter_room c s = fold (\<lambda>c'. ws_send (cl_ws c') (PeerJoined (cl_device c)))
      (filter (\<lambda>c'. cl_device c' \<noteq> cl_device c) (map snd room')) (ws_send (cl_ws c) (Peers (filter (\<lambda>d. d \<noteq> cl_device c) (map fst room'))) s3)"
    using rooms(1) unfolding enter_room_def Let_def fold_if s3_def s2_def s1_def room'_def room_def by simp
qed

lemma enter_room_spec:
  assumes ok: "rooms_ok s" and fresh: "\<forall>sp d c'. in_room s sp d = Some c' \<longrightarrow> cl_ws c' \<noteq> cl_ws c"
    and dev: "\<forall>d c'. in_room s (cl_space c) d = Some c' \<longrightarrow> cl_device c' = d"
  shows "rooms_ok (enter_room c s)" "sv_me (enter_room c s) = (sv_me s)(cl_ws c \<mapsto> c)"
    "in_room (enter_room c s) sp d = (if sp = cl_space c \<and> d = cl_device c then Some c else in_room s sp d)"
    "sv_ready (enter_room c s) w = (if \<exists>e. in_room s (cl_space c) (cl_device c) = Some e \<and> cl_ws e = w \<and> sv_ready s w = Some OPEN
       then Some (CLOSING (Some 4000)) else sv_ready s w)"
    "sv_ready (enter_room c s) ws = Some OPEN \<Longrightarrow> believes (enter_room c s) ws =
      (if ws = cl_ws c then members (enter_room c s) (cl_space c) - {cl_device c}
       else if \<exists>d c'. d \<noteq> cl_device c \<and> in_room s (cl_space c) d = Some c' \<and> cl_ws c' = ws
       then insert (cl_device c) (believes s ws) else believes s ws)"
proof -
  define room where "room = or_empty (map_of (sv_rooms s) (cl_space c))"
  define room' where "room' = map_set (cl_device c) c room"
  define s1 where "s1 = s\<lparr>sv_me := (sv_me s)(cl_ws c \<mapsto> c)\<rparr>"
  define s2 where "s2 = (case map_of room (cl_device c) of None \<Rightarrow> s1 | Some e \<Rightarrow> ws_close (cl_ws e) 4000 s1)"
  define s3 where "s3 = s2\<lparr>sv_rooms := map_set (cl_space c) room' (sv_rooms s)\<rparr>"
  let ?peers = "Peers (filter (\<lambda>d. d \<noteq> cl_device c) (map fst room'))"
  let ?others = "filter (\<lambda>c'. cl_device c' \<noteq> cl_device c) (map snd room')"
  note E = enter_room_split[of c s, folded room_def, folded room'_def s1_def, folded s2_def, folded s3_def]
  have look: "in_room s (cl_space c) d = map_of room d" for d
    by (simp add: in_room_def room_def split: option.split)
  have d: "dkeys room" "dkeys room'" using ok by (auto simp: rooms_ok_def room_def room'_def split: option.split)
  have R: "sv_rooms (enter_room c s) = map_set (cl_space c) room' (sv_rooms s)"
    "sv_me (enter_room c s) = (sv_me s)(cl_ws c \<mapsto> c)" "sv_ready (enter_room c s) = sv_ready s3"
    by (simp_all add: E)
  show "sv_me (enter_room c s) = (sv_me s)(cl_ws c \<mapsto> c)" by (rule R(2))
  show "sv_ready (enter_room c s) w = (if \<exists>e. in_room s (cl_space c) (cl_device c) = Some e \<and> cl_ws e = w \<and> sv_ready s w = Some OPEN
       then Some (CLOSING (Some 4000)) else sv_ready s w)" by (simp only: R(3) E(5))
  show "rooms_ok (enter_room c s)" using ok d(2) by (auto simp: rooms_ok_def R room'_def)
  show room: "in_room (enter_room c s) sp d = (if sp = cl_space c \<and> d = cl_device c then Some c else in_room s sp d)" for sp d
    by (auto simp: in_room_def R room'_def look[unfolded in_room_def])
  have mem: "members (enter_room c s) (cl_space c) - {cl_device c} = {d. d \<noteq> cl_device c \<and> map_of room d \<noteq> None}"
    by (auto simp: members_def room look)
  have "map_of room' d = Some c' \<and> cl_device c' \<noteq> cl_device c \<longleftrightarrow> d \<noteq> cl_device c \<and> map_of room d = Some c'" for d c'
    using dev by (auto simp: room'_def look)
  then have others: "ws \<in> cl_ws ` set ?others \<longleftrightarrow> (\<exists>d c'. d \<noteq> cl_device c \<and> in_room s (cl_space c) d = Some c' \<and> cl_ws c' = ws)" for ws
    unfolding ws_of_values[OF d(2)] look by blast
  show "believes (enter_room c s) ws =
      (if ws = cl_ws c then members (enter_room c s) (cl_space c) - {cl_device c}
       else if \<exists>d c'. d \<noteq> cl_device c \<and> in_room s (cl_space c) d = Some c' \<and> cl_ws c' = ws
       then insert (cl_device c) (believes s ws) else believes s ws)"
    if o: "sv_ready (enter_room c s) ws = Some OPEN" for ws
  proof -
    have o3: "sv_ready s3 ws = Some OPEN" using o by (simp add: R)
    have b3: "believes s3 ws = believes s ws" by (simp add: believes_def E)
    have ms: "set (filter (\<lambda>d. d \<noteq> cl_device c) (map fst room')) = members (enter_room c s) (cl_space c) - {cl_device c}"
      unfolding mem by (auto simp: room'_def set_filter dom_map_of_conv_image_fst[symmetric] image_image)
    define near where "near w \<longleftrightarrow> (\<exists>d c'. d \<noteq> cl_device c \<and> in_room s (cl_space c) d = Some c' \<and> cl_ws c' = w)" for w
    have far: "\<not> near (cl_ws c)" using fresh by (auto simp: near_def)
    have bel: "believes (enter_room c s) ws = (if near ws then insert (cl_device c) (believes (ws_send (cl_ws c) ?peers s3) ws)
        else believes (ws_send (cl_ws c) ?peers s3) ws)"
      unfolding E(1) send_each_believes others near_def[symmetric] using o3 by simp
    have "believes (ws_send (cl_ws c) ?peers s3) ws =
        (if ws = cl_ws c then members (enter_room c s) (cl_space c) - {cl_device c} else believes s ws)"
      using o3 by (auto simp only: ws_send_believes hear.simps ms b3 split: if_splits)
    with bel far show ?thesis unfolding near_def[symmetric] by (cases "ws = cl_ws c") simp_all
  qed
qed

lemma enter_room_inv:
  assumes inv: "server_inv s" and fresh: "\<forall>sp d c'. in_room s sp d = Some c' \<longrightarrow> cl_ws c' \<noteq> cl_ws c" and a: "alive s (cl_ws c)"
  shows "server_inv (enter_room c s)"
proof -
  have dev: "\<forall>d c'. in_room s (cl_space c) d = Some c' \<longrightarrow> cl_device c' = d" using server_invD(3)[OF inv] by blast
  note E = enter_room_spec[OF server_invD(1)[OF inv] fresh dev]
  have al: "alive (enter_room c s) w" if "alive s w" for w using that by (auto simp: alive_def E(4))
  have mem: "members (enter_room c s) sp = (if sp = cl_space c then insert (cl_device c) (members s sp) else members s sp)" for sp
    by (auto simp: members_def E(3))
  have "believes (enter_room c s) (cl_ws c') = members (enter_room c s) sp - {d}"
    if r: "in_room (enter_room c s) sp d = Some c'" and o: "sv_ready (enter_room c s) (cl_ws c') = Some OPEN" for sp d c'
  proof (cases "sp = cl_space c \<and> d = cl_device c")
    case True
    with r have "c' = c" by (simp add: E(3))
    then show ?thesis using E(5)[OF o] True by simp
  next
    case False
    then have r': "in_room s sp d = Some c'" using r by (simp add: E(3) split: if_splits)
    have "sv_ready s (cl_ws c') = Some OPEN" using o by (simp add: E(4) split: if_splits)
    from server_invD(4)[OF inv r' this] have b: "believes s (cl_ws c') = members s sp - {d}" .
    have "(\<exists>d' c''. d' \<noteq> cl_device c \<and> in_room s (cl_space c) d' = Some c'' \<and> cl_ws c'' = cl_ws c') \<longleftrightarrow> sp = cl_space c"
      using same_member[OF inv] r' False by metis
    then show ?thesis using E(5)[OF o] fresh r' b False by (auto simp: mem)
  qed
  moreover have "cl_space c' = sp \<and> cl_device c' = d \<and> sv_me (enter_room c s) (cl_ws c') = Some c' \<and> alive (enter_room c s) (cl_ws c')"
    if r: "in_room (enter_room c s) sp d = Some c'" for sp d c'
  proof (cases "sp = cl_space c \<and> d = cl_device c")
    case True
    with r have "c' = c" by (simp add: E(3))
    then show ?thesis using al[OF a] True by (simp add: E(2))
  next
    case False
    then have r': "in_room s sp d = Some c'" using r by (simp add: E(3) split: if_splits)
    then show ?thesis using server_invD(3)[OF inv r'] fresh r' al by (simp add: E(2))
  qed
  ultimately show ?thesis
    using E(1) server_invD(2)[OF inv] unfolding server_inv_def by (auto simp: E(2))
qed

section \<open>The steps\<close>

lemma ws_send_inv:
  assumes inv: "server_inv s" and m: "\<And>X. hear m X = X"
  shows "server_inv (ws_send w m s)"
proof -
  have "believes (ws_send w m s) ws = believes s ws" for ws by (simp add: ws_send_believes m)
  then show ?thesis using inv unfolding server_inv_def by (simp add: alive_def members_def)
qed

lemma on_join_inv:
  assumes "server_inv s" "alive s ws"
  shows "server_inv (on_join ws sp d s)"
proof -
  have "server_inv (enter_room \<lparr>cl_ws = ws, cl_space = sp, cl_device = d\<rparr> (leave_me ws s))"
  proof (rule enter_room_inv[OF leave_me_inv[OF assms(1)]])
    show "\<forall>sp' d' c'. in_room (leave_me ws s) sp' d' = Some c' \<longrightarrow> cl_ws c' \<noteq> cl_ws \<lparr>cl_ws = ws, cl_space = sp, cl_device = d\<rparr>"
      using leave_me_gone[OF assms(1)] by simp
    have "sv_ready (leave_me ws s) = sv_ready s" by (simp add: leave_me_def split: option.split)
    then show "alive (leave_me ws s) (cl_ws \<lparr>cl_ws = ws, cl_space = sp, cl_device = d\<rparr>)" using assms(2) by (simp add: alive_def)
  qed
  then show ?thesis using ws_send_inv[OF assms(1)] by (simp add: on_join_def)
qed

lemma on_signal_inv: "server_inv s \<Longrightarrow> server_inv (on_signal ws to data s)"
  by (auto simp: on_signal_def intro: ws_send_inv split: option.split)

text \<open>What a message does, if the server survives it.\<close>

lemma on_message_cases:
  assumes "on_message ws raw s = (Inr u, s')"
  obtains e where "s' = ws_send ws (ErrorMsg e) s"
  | sp d where "s' = on_join ws sp d s"
  | m to data where "json_parse raw = Some m" "msg_prop m (js ''data'') = Inr data" "s' = on_signal ws to data s"
  using assms
  by (auto simp: on_message_def bind_act_eq lift_res_def modify_def split: option.splits sum.splits if_splits)

text \<open>Nothing is relayed by a join.\<close>

lemma join_relays_nothing:
  obtains xs where "sv_sent (on_join ws sp d s) = sv_sent s @ xs" "Relayed e v \<notin> snd ` set xs"
proof (cases "sp = [] \<or> d = []")
  case True
  then show thesis
    by (cases "sv_ready s ws = Some OPEN") (auto intro: that[of "[]"] that[of "[(ws, ErrorMsg (js ''join needs space and device''))]"] simp: on_join_def ws_send_def)
next
  case False
  let ?c = "\<lparr>cl_ws = ws, cl_space = sp, cl_device = d\<rparr>"
  have "\<exists>ys. sv_sent (leave_me ws s) = sv_sent s @ ys \<and> Relayed e v \<notin> snd ` set ys"
    by (auto simp: leave_me_def leave_room_def Let_def send_each split: option.split)
  moreover have "\<exists>ys. sv_sent (enter_room c t) = sv_sent t @ ys \<and> Relayed e v \<notin> snd ` set ys" for c t
    by (auto simp: enter_room_split(1) send_each ws_send_def enter_room_split(3))
  ultimately obtain ys zs where "sv_sent (leave_me ws s) = sv_sent s @ ys" "Relayed e v \<notin> snd ` set ys"
    "sv_sent (enter_room ?c (leave_me ws s)) = sv_sent (leave_me ws s) @ zs" "Relayed e v \<notin> snd ` set zs" by metis
  then show thesis using False by (intro that[of "ys @ zs"]) (auto simp: on_join_def)
qed

lemma leave_ready:
  assumes "rooms_ok s" and away: "\<forall>d c'. in_room s (cl_space c) d = Some c' \<longrightarrow> d \<noteq> cl_device c \<longrightarrow> cl_ws c' \<noteq> ws"
  shows "leave_room c (s\<lparr>sv_ready := (sv_ready s)(ws \<mapsto> r)\<rparr>) = (leave_room c s)\<lparr>sv_ready := (sv_ready s)(ws \<mapsto> r)\<rparr>"
proof (cases "map_of (sv_rooms s) (cl_space c)")
  case None
  then show ?thesis by (simp add: leave_room_def)
next
  case (Some room)
  define room' where "room' = map_del (cl_device c) room"
  have "dkeys room'" using assms(1) Some by (simp add: rooms_ok_def room'_def)
  then have "cl_ws c' \<noteq> ws" if "c' \<in> set (map snd room')" for c'
    using away that Some map_of_ran_set[of room'] by (auto simp: in_room_def ran_def room'_def split: if_splits)
  then have "filter (\<lambda>c. ((sv_ready s)(ws \<mapsto> r)) (cl_ws c) = Some OPEN) (map snd room') =
      filter (\<lambda>c. sv_ready s (cl_ws c) = Some OPEN) (map snd room')" by (intro filter_cong) auto
  then show ?thesis using Some by (auto simp: leave_room_def Let_def room'_def[symmetric] send_each)
qed

lemma on_close_inv:
  assumes inv: "server_inv s"
  shows "server_inv (on_close ws (s\<lparr>sv_ready := (sv_ready s)(ws \<mapsto> CLOSED)\<rparr>))"
proof -
  let ?s = "leave_me ws s"
  have frame: "sv_me ?s = sv_me s" "sv_ready ?s = sv_ready s" by (simp_all add: leave_me_def split: option.split)
  have "leave_me ws (s\<lparr>sv_ready := (sv_ready s)(ws \<mapsto> CLOSED)\<rparr>) = ?s\<lparr>sv_ready := (sv_ready s)(ws \<mapsto> CLOSED)\<rparr>"
  proof (cases "sv_me s ws")
    case (Some c)
    have w: "cl_ws c = ws" using server_invD(2)[OF inv Some] .
    have "\<forall>d c'. in_room s (cl_space c) d = Some c' \<longrightarrow> d \<noteq> cl_device c \<longrightarrow> cl_ws c' \<noteq> ws"
      using server_invD(3)[OF inv] Some by (metis option.inject)
    from leave_ready[OF server_invD(1)[OF inv] this] Some show ?thesis by (simp add: leave_me_def)
  qed (simp add: leave_me_def)
  then have s': "on_close ws (s\<lparr>sv_ready := (sv_ready s)(ws \<mapsto> CLOSED)\<rparr>) =
      ?s\<lparr>sv_ready := (sv_ready s)(ws \<mapsto> CLOSED), sv_me := (sv_me s)(ws := None)\<rparr>" by (simp add: on_close_def frame)
  note inv' = leave_me_inv[OF inv, of ws] and gone = leave_me_gone[OF inv, of ws]
  let ?t = "?s\<lparr>sv_ready := (sv_ready s)(ws \<mapsto> CLOSED), sv_me := (sv_me s)(ws := None)\<rparr>"
  have same: "in_room ?t = in_room ?s" "rooms_ok ?t = rooms_ok ?s" "believes ?t = believes ?s" "members ?t = members ?s"
    by (simp_all add: in_room_def rooms_ok_def believes_def members_def fun_eq_iff)
  have a: "alive ?t w = alive ?s w" "sv_me ?t w = sv_me ?s w" "sv_ready ?t w = sv_ready ?s w" if "w \<noteq> ws" for w
    using that by (simp_all add: alive_def frame)
  have "server_inv ?t"
    unfolding server_inv_def same
  proof (intro conjI allI impI)
    show "rooms_ok ?s" using server_invD(1)[OF inv'] .
    show "cl_ws c = w" if "sv_me ?t w = Some c" for w c
      using that server_invD(2)[OF inv] by (simp split: if_splits)
    fix sp d c assume c: "in_room ?s sp d = Some c"
    note A = a[OF gone[OF c]] and I = server_invD(3)[OF inv' c]
    show "cl_space c = sp" "cl_device c = d" using I by blast+
    show "sv_me ?t (cl_ws c) = Some c" unfolding A using I by blast
    show "alive ?t (cl_ws c)" unfolding A using I by blast
    assume "sv_ready ?t (cl_ws c) = Some OPEN"
    then show "believes ?s (cl_ws c) = members ?s sp - {d}" unfolding A by (rule server_invD(4)[OF inv' c])
  qed
  then show ?thesis by (simp only: s')
qed

text \<open>A change of the ready state of a connection that is not a member, or of one that was open.\<close>

lemma ready_inv:
  assumes inv: "server_inv s" and w: "sv_ready s ws = None \<or> r \<noteq> OPEN \<and> r \<noteq> CLOSED"
  shows "server_inv (s\<lparr>sv_ready := (sv_ready s)(ws \<mapsto> r)\<rparr>)"
proof -
  let ?t = "s\<lparr>sv_ready := (sv_ready s)(ws \<mapsto> r)\<rparr>"
  have same: "in_room ?t = in_room s" "rooms_ok ?t = rooms_ok s" "believes ?t = believes s" "members ?t = members s" "sv_me ?t = sv_me s"
    by (simp_all add: in_room_def rooms_ok_def believes_def members_def fun_eq_iff)
  have al: "alive ?t w' \<and> (sv_ready ?t w' = Some OPEN \<longrightarrow> sv_ready s w' = Some OPEN)" if "alive s w'" for w'
    using w that by (auto simp: alive_def)
  show ?thesis
    unfolding server_inv_def same
  proof (intro conjI allI impI)
    show "rooms_ok s" using server_invD(1)[OF inv] .
    show "cl_ws c = w" if "sv_me s w = Some c" for w c using server_invD(2)[OF inv that] .
    fix sp d c assume c: "in_room s sp d = Some c"
    note I = server_invD(3)[OF inv c]
    show "cl_space c = sp" "cl_device c = d" "sv_me s (cl_ws c) = Some c" "alive ?t (cl_ws c)" using I al by blast+
    assume "sv_ready ?t (cl_ws c) = Some OPEN"
    then show "believes s (cl_ws c) = members s sp - {d}" using I al server_invD(4)[OF inv c] by blast
  qed
qed

lemma server_step_inv:
  assumes "server_step s s'" "server_inv s" shows "server_inv s'"
  using assms
proof cases
  case (message ws r raw)
  then have a: "alive s ws" by (simp add: alive_def)
  from message(3) show ?thesis
    by (cases rule: on_message_cases)
      (simp_all add: ws_send_inv[OF assms(2)] on_join_inv[OF assms(2) a] on_signal_inv[OF assms(2)])
qed (auto intro: ready_inv on_close_inv assms(2))

lemma server_reachable_inv: "server_reachable s \<Longrightarrow> server_inv s"
proof (induction rule: server_reachable.induct)
  case start
  show ?case by (simp add: server_inv_def rooms_ok_def in_room_def new_server_def)
qed (rule server_step_inv)

section \<open>Everybody is listed\<close>

text \<open>The converse of the invariant: an open connection that has joined is in its room, but for those in \<open>X\<close>.\<close>

definition listed :: "nat set \<Rightarrow> server \<Rightarrow> bool" where
  "listed X s \<longleftrightarrow>
     (\<forall>ws c. sv_me s ws = Some c \<and> sv_ready s ws = Some OPEN \<and> ws \<notin> X \<longrightarrow> in_room s (cl_space c) (cl_device c) = Some c) \<and>
     (\<forall>ws. sv_ready s ws = None \<longrightarrow> sv_me s ws = None)"

lemma listedD: "listed X s \<Longrightarrow> sv_me s ws = Some c \<Longrightarrow> sv_ready s ws = Some OPEN \<Longrightarrow> ws \<notin> X \<Longrightarrow>
    in_room s (cl_space c) (cl_device c) = Some c"
  by (simp add: listed_def)

lemma leave_room_listed:
  assumes inv: "server_inv s" and l: "listed X s"
  shows "listed (insert (cl_ws c) X) (leave_room c s)"
proof (cases "present c s")
  case True
  note L = leave_present(2)[OF server_invD(1)[OF inv] True]
  have "in_room (leave_room c s) (cl_space c') (cl_device c') = Some c'"
    if m: "sv_me s ws = Some c'" "sv_ready s ws = Some OPEN" "ws \<notin> insert (cl_ws c) X" for ws c'
  proof -
    have r: "in_room s (cl_space c') (cl_device c') = Some c'" using listedD[OF l m(1,2)] m(3) by simp
    have "cl_ws c' = ws" using server_invD(2)[OF inv m(1)] .
    then have "\<not> (cl_space c' = cl_space c \<and> cl_device c' = cl_device c)" using True r m(3) by (auto simp: present_def)
    then show ?thesis using r by (auto simp: L)
  qed
  moreover have "sv_me s ws = None" if "sv_ready s ws = None" for ws using l that by (simp add: listed_def)
  ultimately show ?thesis unfolding listed_def leave_frame by blast
next
  case False
  then show ?thesis using l by (auto simp: leave_absent listed_def)
qed

lemma leave_me_listed:
  assumes inv: "server_inv s" and l: "listed {} s"
  shows "listed {ws} (leave_me ws s)"
proof (cases "sv_me s ws")
  case None
  then show ?thesis using l by (auto simp: leave_me_def listed_def)
next
  case (Some c)
  then have "cl_ws c = ws" by (rule server_invD(2)[OF inv])
  with leave_room_listed[OF inv l, of c] Some show ?thesis by (simp add: leave_me_def)
qed

lemma enter_room_listed:
  assumes inv: "server_inv s" and fresh: "\<forall>sp d c'. in_room s sp d = Some c' \<longrightarrow> cl_ws c' \<noteq> cl_ws c" and a: "alive s (cl_ws c)"
    and l: "listed {cl_ws c} s"
  shows "listed {} (enter_room c s)"
proof -
  have dev: "\<forall>d c'. in_room s (cl_space c) d = Some c' \<longrightarrow> cl_device c' = d" using server_invD(3)[OF inv] by blast
  note E = enter_room_spec(2-4)[OF server_invD(1)[OF inv] fresh dev]
  have "in_room (enter_room c s) (cl_space c') (cl_device c') = Some c'"
    if m: "sv_me (enter_room c s) ws = Some c'" "sv_ready (enter_room c s) ws = Some OPEN" for ws c'
  proof (cases "ws = cl_ws c")
    case True
    then have c': "c' = c" using m(1) by (simp add: E(1))
    show ?thesis unfolding c' by (simp add: E(2))
  next
    case False
    then have me: "sv_me s ws = Some c'" using m(1) by (simp add: E(1))
    have o: "sv_ready s ws = Some OPEN"
      and kept: "\<not> (\<exists>e. in_room s (cl_space c) (cl_device c) = Some e \<and> cl_ws e = ws)"
      using m(2) by (auto simp: E(3) split: if_splits)
    have "in_room s (cl_space c') (cl_device c') = Some c'" using listedD[OF l me o] False by simp
    moreover have "cl_ws c' = ws" using server_invD(2)[OF inv me] .
    ultimately show ?thesis using kept by (auto simp: E(2))
  qed
  moreover have "sv_me (enter_room c s) ws = None" if "sv_ready (enter_room c s) ws = None" for ws
    using that l a by (auto simp: E(1,3) listed_def alive_def split: if_splits)
  ultimately show ?thesis unfolding listed_def by blast
qed

lemma ws_send_listed [simp]: "listed X (ws_send w m s) = listed X s"
  by (simp add: listed_def)

lemma on_join_listed:
  assumes inv: "server_inv s" and l: "listed {} s" and a: "alive s ws"
  shows "listed {} (on_join ws sp d s)"
proof -
  let ?c = "\<lparr>cl_ws = ws, cl_space = sp, cl_device = d\<rparr>"
  have ready: "sv_ready (leave_me ws s) = sv_ready s" by (simp add: leave_me_def split: option.split)
  have "listed {} (enter_room ?c (leave_me ws s))"
  proof (rule enter_room_listed[OF leave_me_inv[OF inv]])
    show "\<forall>sp' d' c'. in_room (leave_me ws s) sp' d' = Some c' \<longrightarrow> cl_ws c' \<noteq> cl_ws ?c"
      using leave_me_gone[OF inv] by simp
    show "alive (leave_me ws s) (cl_ws ?c)" using a ready by (simp add: alive_def)
    show "listed {cl_ws ?c} (leave_me ws s)" using leave_me_listed[OF inv l] by simp
  qed
  then show ?thesis using l by (simp add: on_join_def)
qed

lemma server_step_listed:
  assumes step: "server_step s s'" and inv: "server_inv s" and l: "listed {} s"
  shows "listed {} s'"
  using step
proof cases
  case (connection ws)
  then show ?thesis using l by (auto simp: listed_def in_room_def)
next
  case (message ws r raw)
  then have a: "alive s ws" by (simp add: alive_def)
  from message(3) show ?thesis
  proof (cases rule: on_message_cases)
    case (3 m to data)
    then show ?thesis using l by (auto simp: on_signal_def split: option.split)
  qed (use l on_join_listed[OF inv l a] in simp_all)
next
  case (closing ws)
  then show ?thesis using l by (auto simp: listed_def in_room_def)
next
  case (closed ws r)
  let ?t = "s\<lparr>sv_ready := (sv_ready s)(ws \<mapsto> CLOSED)\<rparr>"
  have r: "in_room ?t = in_room s" by (simp add: in_room_def fun_eq_iff)
  show ?thesis
  proof (cases "sv_me s ws")
    case None
    then show ?thesis using l by (auto simp: closed on_close_def leave_me_def listed_def in_room_def Let_def)
  next
    case (Some c)
    have ws: "cl_ws c = ws" by (rule server_invD(2)[OF inv Some])
    have ok: "rooms_ok ?t" using server_invD(1)[OF inv] by (simp add: rooms_ok_def)
    have "in_room (leave_room c ?t) (cl_space c') (cl_device c') = Some c'"
      if m: "sv_me s w = Some c'" "sv_ready s w = Some OPEN" "w \<noteq> ws" for w c'
    proof -
      have c': "in_room s (cl_space c') (cl_device c') = Some c'" using listedD[OF l m(1,2)] by simp
      have w: "cl_ws c' = w" by (rule server_invD(2)[OF inv m(1)])
      show ?thesis
      proof (cases "present c ?t")
        case True
        then have "\<not> (cl_space c' = cl_space c \<and> cl_device c' = cl_device c)"
          using c' w ws m(3) by (auto simp: present_def r)
        then show ?thesis using c' by (auto simp: leave_present(2)[OF ok True] r)
      next
        case False
        then show ?thesis using c' by (simp add: leave_absent r)
      qed
    qed
    then show ?thesis
      using l Some by (auto simp: closed on_close_def leave_me_def listed_def Let_def in_room_def)
  qed
qed

lemma server_reachable_listed: "server_reachable s \<Longrightarrow> listed {} s"
proof (induction rule: server_reachable.induct)
  case start
  show ?case by (simp add: listed_def new_server_def)
next
  case (step s s')
  then show ?case using server_step_listed server_reachable_inv by blast
qed

section \<open>Properties\<close>

text \<open>Two connections that joined a room.\<close>

definition joined :: server where
  "joined = on_join 7 (js ''s'') (js ''b'') (on_join 5 (js ''s'') (js ''a'') (new_server\<lparr>sv_ready := [5 \<mapsto> OPEN, 7 \<mapsto> OPEN]\<rparr>))"

lemma joining_texts:
  "json_parse (js ''{\"t\":\"join\",\"space\":\"s\",\"device\":\"a\"}'') =
    Some (JObj [(js ''t'', JStr (js ''join'')), (js ''space'', JStr (js ''s'')), (js ''device'', JStr (js ''a''))])"
  "json_parse (js ''{\"t\":\"join\",\"space\":\"s\",\"device\":\"b\"}'') =
    Some (JObj [(js ''t'', JStr (js ''join'')), (js ''space'', JStr (js ''s'')), (js ''device'', JStr (js ''b''))])"
  "json_parse (js ''{\"t\":\"signal\",\"to\":\"b\",\"data\":true}'') =
    Some (JObj [(js ''t'', JStr (js ''signal'')), (js ''to'', JStr (js ''b'')), (js ''data'', JBool True)])"
  by code_simp+

lemma on_message_texts:
  "on_message ws (js ''{\"t\":\"join\",\"space\":\"s\",\"device\":\"a\"}'') s = (Inr (), on_join ws (js ''s'') (js ''a'') s)"
  "on_message ws (js ''{\"t\":\"join\",\"space\":\"s\",\"device\":\"b\"}'') s = (Inr (), on_join ws (js ''s'') (js ''b'') s)"
  "on_message ws (js ''{\"t\":\"signal\",\"to\":\"b\",\"data\":true}'') s = (Inr (), on_signal ws (js ''b'') (JBool True) s)"
  by (simp_all only: on_message_def joining_texts option.case)
    (simp_all add: bind_act_eq lift_res_def modify_def msg_prop_def get_prop_def str_or_empty_def)

lemma names_not_Nil [simp]: "js ''s'' \<noteq> []" "js ''a'' \<noteq> []" "js ''b'' \<noteq> []"
  by (simp_all add: js_def)

lemma one_joined: "on_join 5 (js ''s'') (js ''a'') (new_server\<lparr>sv_ready := [5 \<mapsto> OPEN, 7 \<mapsto> OPEN]\<rparr>) =
  \<lparr>sv_rooms = [(js ''s'', [(js ''a'', \<lparr>cl_ws = 5, cl_space = js ''s'', cl_device = js ''a''\<rparr>)])],
   sv_me = [5 \<mapsto> \<lparr>cl_ws = 5, cl_space = js ''s'', cl_device = js ''a''\<rparr>], sv_ready = [5 \<mapsto> OPEN, 7 \<mapsto> OPEN],
   sv_sent = [(5, Peers [])]\<rparr>"
  by (simp add: on_join_def leave_me_def new_server_def enter_room_def ws_send_def Let_def)

lemma joined_eq: "joined =
  \<lparr>sv_rooms = [(js ''s'', [(js ''a'', \<lparr>cl_ws = 5, cl_space = js ''s'', cl_device = js ''a''\<rparr>),
     (js ''b'', \<lparr>cl_ws = 7, cl_space = js ''s'', cl_device = js ''b''\<rparr>)])],
   sv_me = [5 \<mapsto> \<lparr>cl_ws = 5, cl_space = js ''s'', cl_device = js ''a''\<rparr>, 7 \<mapsto> \<lparr>cl_ws = 7, cl_space = js ''s'', cl_device = js ''b''\<rparr>],
   sv_ready = [5 \<mapsto> OPEN, 7 \<mapsto> OPEN], sv_sent = [(5, Peers []), (7, Peers [js ''a'']), (5, PeerJoined (js ''b''))]\<rparr>"
  unfolding joined_def one_joined by (simp add: on_join_def leave_me_def enter_room_def ws_send_def Let_def)

lemmas joined_simps = arg_cong[OF joined_eq, of sv_rooms, simplified] arg_cong[OF joined_eq, of sv_ready, simplified]
  arg_cong[OF joined_eq, of sv_me, simplified]

lemma joined_reachable: "server_reachable joined"
proof -
  let ?s = "\<lambda>f. new_server\<lparr>sv_ready := f\<rparr>"
  have "server_reachable (?s [5 \<mapsto> OPEN])"
    using server_reachable.step[OF server_reachable.start server_step.connection[of new_server 5]] by (simp add: new_server_def)
  then have "server_reachable (?s [5 \<mapsto> OPEN, 7 \<mapsto> OPEN])"
    using server_reachable.step[OF _ server_step.connection[of "?s [5 \<mapsto> OPEN]" 7]] by (simp add: new_server_def)
  then have "server_reachable (on_join 5 (js ''s'') (js ''a'') (?s [5 \<mapsto> OPEN, 7 \<mapsto> OPEN]))"
    by (rule server_reachable.step[OF _ server_step.message[OF _ _ on_message_texts(1), of _ 5 OPEN]]) (simp_all add: new_server_def)
  then show ?thesis
    unfolding joined_def
    by (rule server_reachable.step[OF _ server_step.message[OF _ _ on_message_texts(2), of _ 7 OPEN]])
      (simp_all add: one_joined)
qed

text \<open>C25. Presence is exact. In every state the server can reach, no room is empty, and the rooms list exactly
the current connections: every open connection that has joined is listed in the room it joined under its
device (only a later join of the same device takes it out, and closes it), what is listed for a
device is a connection that joined so and has not closed, no connection is listed twice, and
what an open member has been told (the list at its join, corrected by every peer-joined and
peer-left since) is exactly the other devices of its room.\<close>

theorem presence_exact:
  assumes "server_reachable s"
  shows "dkeys (sv_rooms s) \<and>
    (\<forall>ws c. sv_me s ws = Some c \<and> sv_ready s ws = Some OPEN \<longrightarrow>
      (\<exists>room. (cl_space c, room) \<in> set (sv_rooms s) \<and> (cl_device c, c) \<in> set room \<and> cl_ws c = ws)) \<and>
    (\<forall>(sp, room) \<in> set (sv_rooms s). room \<noteq> [] \<and> dkeys room \<and>
      (\<forall>(d, c) \<in> set room. cl_space c = sp \<and> cl_device c = d \<and> sv_me s (cl_ws c) = Some c \<and> alive s (cl_ws c) \<and>
        (sv_ready s (cl_ws c) = Some OPEN \<longrightarrow> believes s (cl_ws c) = fst ` set room - {d}))) \<and>
    inj_on cl_ws (\<Union>(sp, room) \<in> set (sv_rooms s). snd ` set room)"
proof -
  note inv = server_reachable_inv[OF assms]
  have ok: "dkeys (sv_rooms s)" using server_invD(1)[OF inv] by (simp add: rooms_ok_def)
  have all: "\<exists>room. (cl_space c, room) \<in> set (sv_rooms s) \<and> (cl_device c, c) \<in> set room \<and> cl_ws c = ws"
    if m: "sv_me s ws = Some c" "sv_ready s ws = Some OPEN" for ws c
  proof -
    have "in_room s (cl_space c) (cl_device c) = Some c" using listedD[OF server_reachable_listed[OF assms] m] by simp
    then obtain room where "map_of (sv_rooms s) (cl_space c) = Some room" "map_of room (cl_device c) = Some c"
      by (auto simp: in_room_def bind_eq_Some_conv)
    then show ?thesis using server_invD(2)[OF inv m(1)] by (auto dest: map_of_SomeD)
  qed
  have here: "room \<noteq> [] \<and> dkeys room \<and> members s sp = fst ` set room \<and> (\<forall>(d, c) \<in> set room. in_room s sp d = Some c)"
    if "(sp, room) \<in> set (sv_rooms s)" for sp room
  proof -
    have m: "map_of (sv_rooms s) sp = Some room" using ok that by simp
    then have "room \<noteq> []" "dkeys room" using server_invD(1)[OF inv] by (simp_all add: rooms_ok_def)
    with m show ?thesis by (auto simp: in_room_def members_def fst_set_eq_dom dom_def)
  qed
  have entry: "cl_space c = sp \<and> cl_device c = d \<and> sv_me s (cl_ws c) = Some c \<and> alive s (cl_ws c) \<and>
        (sv_ready s (cl_ws c) = Some OPEN \<longrightarrow> believes s (cl_ws c) = fst ` set room - {d})"
    if "(sp, room) \<in> set (sv_rooms s)" "(d, c) \<in> set room" for sp room d c
  proof -
    have "in_room s sp d = Some c" and m: "members s sp = fst ` set room" using here[OF that(1)] that(2) by blast+
    then show ?thesis using server_invD(3,4)[OF inv] unfolding m[symmetric] by blast
  qed
  have "\<forall>(sp, room) \<in> set (sv_rooms s). room \<noteq> [] \<and> dkeys room \<and>
      (\<forall>(d, c) \<in> set room. cl_space c = sp \<and> cl_device c = d \<and> sv_me s (cl_ws c) = Some c \<and> alive s (cl_ws c) \<and>
        (sv_ready s (cl_ws c) = Some OPEN \<longrightarrow> believes s (cl_ws c) = fst ` set room - {d}))"
  proof (rule ballI)
    fix x assume x: "x \<in> set (sv_rooms s)"
    obtain sp room where e: "x = (sp, room)" by (cases x)
    have m: "(sp, room) \<in> set (sv_rooms s)" using x unfolding e .
    show "case x of (sp, room) \<Rightarrow> room \<noteq> [] \<and> dkeys room \<and>
      (\<forall>(d, c) \<in> set room. cl_space c = sp \<and> cl_device c = d \<and> sv_me s (cl_ws c) = Some c \<and> alive s (cl_ws c) \<and>
        (sv_ready s (cl_ws c) = Some OPEN \<longrightarrow> believes s (cl_ws c) = fst ` set room - {d}))"
      unfolding e prod.case using here[OF m] entry[OF m] by blast
  qed
  moreover have "inj_on cl_ws (\<Union>(sp, room) \<in> set (sv_rooms s). snd ` set room)"
  proof (rule inj_onI)
    fix c c' assume c: "c \<in> (\<Union>(sp, room) \<in> set (sv_rooms s). snd ` set room)"
      and c': "c' \<in> (\<Union>(sp, room) \<in> set (sv_rooms s). snd ` set room)" and eq: "cl_ws c = cl_ws c'"
    have "sv_me s (cl_ws x) = Some x" if "x \<in> (\<Union>(sp, room) \<in> set (sv_rooms s). snd ` set room)" for x
    proof -
      from that obtain sp room d where "(sp, room) \<in> set (sv_rooms s)" "(d, x) \<in> set room" by auto
      from entry[OF this] show ?thesis by (elim conjE)
    qed
    from this[OF c] this[OF c'] eq have "Some c = Some c'" by metis
    then show "c = c'" by simp
  qed
  moreover have "\<forall>ws c. sv_me s ws = Some c \<and> sv_ready s ws = Some OPEN \<longrightarrow>
      (\<exists>room. (cl_space c, room) \<in> set (sv_rooms s) \<and> (cl_device c, c) \<in> set room \<and> cl_ws c = ws)" using all by blast
  ultimately show ?thesis using ok by (intro conjI)
qed

theorem presence_exact_witness: "believes joined 5 = {js ''b''} \<and> believes joined 7 = {js ''a''}"
proof -
  note P = presence_exact[OF joined_reachable, THEN conjunct2, THEN conjunct2, THEN conjunct1]
  have "fst ` set [(js ''a'', x), (js ''b'', y)] - {js ''a''} = {js ''b''}" "fst ` set [(js ''a'', x), (js ''b'', y)] - {js ''b''} = {js ''a''}"
    for x y :: client by auto
  with P show ?thesis by (simp add: joined_simps)
qed

text \<open>C26. The relay is blind and confined. While it handles a message the server forwards a signal only to
the current connection of a member of the sender's own room, under the device the sender joined
with, with the sender's data untouched; it forwards at most one, and changes no room doing so.\<close>

theorem relay_confined:
  assumes "server_reachable s" "on_message ws raw s = (Inr u, s')"
    "sv_sent s' = sv_sent s @ new" "(w, Relayed d v) \<in> set new"
  shows "new = [(w, Relayed d v)] \<and> sv_rooms s' = sv_rooms s \<and>
    (\<exists>me to target. sv_me s ws = Some me \<and> d = cl_device me \<and> in_room s (cl_space me) to = Some target \<and>
      cl_ws target = w \<and> cl_space target = cl_space me \<and> cl_device target = to \<and>
      (\<exists>m. json_parse raw = Some m \<and> msg_prop m (js ''data'') = Inr v))"
proof -
  note inv = server_reachable_inv[OF assms(1)]
  have rel: "Relayed d v \<in> snd ` set new" using assms(4) by force
  from assms(2) show ?thesis
  proof (cases rule: on_message_cases)
    case (1 e)
    then show ?thesis using assms(3) rel by (auto simp: ws_send_def split: if_splits)
  next
    case (2 sp dv)
    obtain xs where "sv_sent (on_join ws sp dv s) = sv_sent s @ xs" "Relayed d v \<notin> snd ` set xs" by (rule join_relays_nothing)
    with 2 show ?thesis using assms(3) rel by simp
  next
    case (3 m to data)
    show ?thesis
    proof (cases "sv_me s ws")
      case None
      then show ?thesis using 3 assms(3) rel by (auto simp: on_signal_def ws_send_def split: if_splits)
    next
      case (Some me)
      then obtain target where t: "in_room s (cl_space me) to = Some target" "s' = ws_send (cl_ws target) (Relayed (cl_device me) data) s"
        using 3 assms(3,4) by (auto simp: on_signal_def in_room_def split: option.splits)
      then have "new = [(w, Relayed d v)]" "w = cl_ws target" "d = cl_device me" "v = data"
        using assms(3,4) by (auto simp: ws_send_def split: if_splits)
      with t Some 3 server_invD(3)[OF inv t(1)] show ?thesis by auto
    qed
  qed
qed

theorem relay_confined_witness:
  "sv_sent (snd (on_message 5 (js ''{\"t\":\"signal\",\"to\":\"b\",\"data\":true}'') joined)) = sv_sent joined @ [(7, Relayed (js ''a'') (JBool True))] \<and>
   (\<exists>target. in_room joined (js ''s'') (js ''b'') = Some target \<and> cl_ws target = 7)"
proof -
  have s: "sv_sent (on_signal 5 (js ''b'') (JBool True) joined) = sv_sent joined @ [(7, Relayed (js ''a'') (JBool True))]"
    by (simp add: on_signal_def joined_simps ws_send_def)
  obtain me to target where "sv_me joined 5 = Some me" "in_room joined (cl_space me) to = Some target" "cl_ws target = 7" "cl_device target = to"
    using relay_confined[OF joined_reachable on_message_texts(3) s] by auto
  then show ?thesis using s by (auto simp: on_message_texts(3) joined_simps in_room_def split: if_splits)
qed

text \<open>One message kills the server. The listener reads a property of whatever parses: every text is
answered or acted on, except the text that parses to null, whose property access throws outside
of the try block, in a listener nobody guards; no connection need have joined for it.\<close>

theorem null_message_throws:
  "fst (on_message ws raw s) = (if json_parse raw = Some JNull then Inl (Error (js ''TypeError'')) else Inr ()) \<and>
   json_parse (js ''null'') = Some JNull"
proof
  show "fst (on_message ws raw s) = (if json_parse raw = Some JNull then Inl (Error (js ''TypeError'')) else Inr ())"
    by (auto simp: on_message_def bind_act_eq lift_res_def modify_def msg_prop_def split: option.split jsval.split)
  show "json_parse (js ''null'') = Some JNull" by code_simp
qed

end
