(* ===== verification/Pairing.thy ===== *)
theory Pairing
  imports Op Json_Text Safe_Integers
begin

text \<open>
  Manual pairing, transport-webrtc/src/manual.ts: the blob that two people carry between two
  devices, and the state of one side. The peer connection and its data channel belong to the
  browser; they are numbers here, their session descriptions are values, and their events and the
  ends of their promises are the operations below. An asynchronous method is cut at the points where
  it waits.
\<close>

section \<open>Blobs\<close>

definition replace_unit :: "code_unit \<Rightarrow> code_unit \<Rightarrow> jsstring \<Rightarrow> jsstring" where
  "replace_unit a b s = map (\<lambda>c. if c = a then b else c) s"

definition b64urlEncode :: "jsstring \<Rightarrow> jsstring" where
  "b64urlEncode s =
     (let b64 = btoa (utf8_encode s)
      in rev (dropWhile (\<lambda>c. c = 61) (rev (replace_unit 47 95 (replace_unit 43 45 b64)))))"

text \<open>The branch with \<^verbatim>\<open>atob\<close>, which every current runtime has; \<open>None\<close> is its exception.\<close>

definition b64urlDecode :: "jsstring \<Rightarrow> jsstring option" where
  "b64urlDecode s =
     (let b64 = replace_unit 95 47 (replace_unit 45 43 s);
          padded = b64 @ replicate ((4 - length b64 mod 4) mod 4) 61
      in map_option utf8_decode (atob_text padded))"

datatype blob_kind = Offer | Answer

fun kind_text :: "blob_kind \<Rightarrow> jsstring" where
  "kind_text Offer = js ''offer''"
| "kind_text Answer = js ''answer''"

record blob =
  bl_kind :: blob_kind
  bl_device :: jsval
  bl_space :: jsval
  bl_sdp :: jsval

definition blob_js :: "blob \<Rightarrow> jsval" where
  "blob_js b = JObj [(js ''v'', JNum (num_of_nat 1)), (js ''kind'', JStr (kind_text (bl_kind b))),
     (js ''device'', bl_device b), (js ''space'', bl_space b), (js ''sdp'', bl_sdp b)]"

definition encodeBlob :: "blob \<Rightarrow> jsstring" where
  "encodeBlob b = b64urlEncode (the (json_stringify (blob_js b)))"

definition truthy :: "jsval \<Rightarrow> bool" where
  "truthy v \<longleftrightarrow> v \<notin> {JUndef, JNull, JBool False, JNum Zero, JStr []}"

definition trim :: "jsstring \<Rightarrow> jsstring" where
  "trim s = rev (dropWhile white_space (rev (dropWhile white_space s)))"

text \<open>The properties of what was decoded; only the ones that are tested are known.\<close>

definition blob_prop :: "jsval \<Rightarrow> jsstring \<Rightarrow> jsval" where
  "blob_prop v k = (case v of JObj kvs \<Rightarrow> get_prop kvs k | _ \<Rightarrow> JUndef)"

definition decodeBlob :: "jsstring \<Rightarrow> jsval result" where
  "decodeBlob text =
     (case Option.bind (b64urlDecode (trim text)) json_parse of
        None \<Rightarrow> Inl (Error (js ''not a valid pairing blob (paste the whole code, nothing else)''))
      | Some m \<Rightarrow>
          if blob_prop m (js ''v'') \<noteq> JNum (num_of_nat 1) \<or> \<not> truthy (blob_prop m (js ''sdp'')) \<or>
             blob_prop m (js ''kind'') \<noteq> JStr (js ''offer'') \<and> blob_prop m (js ''kind'') \<noteq> JStr (js ''answer'') \<or>
             \<not> truthy (blob_prop m (js ''space''))
          then Inl (Error (js ''unrecognized pairing blob format''))
          else Inr m)"

section \<open>The state of one side\<close>

datatype pair_state = Idle | Gathering | WaitingForAnswer | Connecting | Connected | Failed | Closed

text \<open>What became of \<open>opts\<close> and of the callbacks: the device, and the traces of the calls of \<open>onState\<close>, of the
  connect listeners (with the peer they are told), of the message listeners and of \<open>onError\<close>.\<close>

record pairing =
  mp_deviceId :: jsstring
  mp_state :: pair_state
  mp_space :: "jsval option"
  mp_peerDevice :: "jsval option"
  mp_pc :: "nat option"
  mp_channel :: "nat option"
  mp_msgListeners :: "nat list"
  mp_connectListeners :: "nat list"
  mp_onState :: "pair_state list"
  mp_connects :: "(nat \<times> jsval option) list"
  mp_received :: "(nat \<times> jsval) list"
  mp_errors :: nat
  mp_sent :: "(nat \<times> jsstring) list"

definition new_pairing :: "jsstring \<Rightarrow> pairing" where
  "new_pairing d = \<lparr>mp_deviceId = d, mp_state = Idle, mp_space = None, mp_peerDevice = None, mp_pc = None, mp_channel = None,
     mp_msgListeners = [], mp_connectListeners = [], mp_onState = [], mp_connects = [], mp_received = [], mp_errors = 0, mp_sent = []\<rparr>"

definition setState :: "pair_state \<Rightarrow> pairing \<Rightarrow> pairing" where
  "setState st p = p\<lparr>mp_state := st, mp_onState := mp_onState p @ [st]\<rparr>"

definition randHex :: "bytes \<Rightarrow> jsstring" where
  "randHex rand = hex rand"

text \<open>\<open>createOffer\<close> up to its first wait, given four random bytes and the new connection and channel; and
  its end, when gathering has completed or timed out.\<close>

definition createOffer_begin :: "bytes \<Rightarrow> nat \<Rightarrow> nat \<Rightarrow> (pairing, unit) act" where
  "createOffer_begin rand pc ch = (\<lambda>p.
     if mp_pc p \<noteq> None then (Inl (Error (js ''pairing already in progress; create a new transport'')), p)
     else (Inr (), setState Gathering (p\<lparr>mp_space := Some (JStr (js ''manual-'' @ randHex rand)), mp_pc := Some pc, mp_channel := Some ch\<rparr>)))"

definition createOffer_end :: "jsval \<Rightarrow> (pairing, jsstring) act" where
  "createOffer_end sdp = (\<lambda>p. (Inr (encodeBlob \<lparr>bl_kind = Offer, bl_device = JStr (mp_deviceId p),
       bl_space = (case mp_space p of None \<Rightarrow> JNull | Some v \<Rightarrow> v), bl_sdp = sdp\<rparr>),
     setState WaitingForAnswer p))"

text \<open>\<open>acceptAnswer\<close> up to the call that hands the description to the connection.\<close>

definition acceptAnswer :: "jsstring \<Rightarrow> (pairing, nat \<times> jsval) act" where
  "acceptAnswer text = (\<lambda>p.
     case decodeBlob text of
       Inl e \<Rightarrow> (Inl e, p)
     | Inr m \<Rightarrow>
         if blob_prop m (js ''kind'') \<noteq> JStr (js ''answer'') then (Inl (Error (js ''expected an ANSWER blob, got an offer '' @ [0x2014] @ js '' paste it on the other device'')), p)
         else (case mp_pc p of
             None \<Rightarrow> (Inl (Error (js ''no pending offer; call createOffer first'')), p)
           | Some pc \<Rightarrow> (Inr (pc, blob_prop m (js ''sdp'')), setState Connecting (p\<lparr>mp_peerDevice := Some (blob_prop m (js ''device''))\<rparr>))))"

definition acceptOffer_begin :: "jsstring \<Rightarrow> nat \<Rightarrow> (pairing, jsval) act" where
  "acceptOffer_begin text pc = (\<lambda>p.
     if mp_pc p \<noteq> None then (Inl (Error (js ''pairing already in progress; create a new transport'')), p)
     else case decodeBlob text of
       Inl e \<Rightarrow> (Inl e, p)
     | Inr m \<Rightarrow>
         if blob_prop m (js ''kind'') \<noteq> JStr (js ''offer'') then (Inl (Error (js ''expected an OFFER blob, got an answer'')), p)
         else (Inr m, setState Gathering (p\<lparr>mp_space := Some (blob_prop m (js ''space'')), mp_peerDevice := Some (blob_prop m (js ''device'')), mp_pc := Some pc\<rparr>)))"

definition acceptOffer_end :: "jsval \<Rightarrow> jsval \<Rightarrow> (pairing, jsstring) act" where
  "acceptOffer_end m sdp = (\<lambda>p. (Inr (encodeBlob \<lparr>bl_kind = Answer, bl_device = JStr (mp_deviceId p), bl_space = blob_prop m (js ''space''), bl_sdp = sdp\<rparr>),
     setState Connecting p))"

section \<open>The transport\<close>

text \<open>\<open>open\<close>: is the channel open; \<open>fails\<close>: does it throw.\<close>

definition mp_send :: "bool \<Rightarrow> bool \<Rightarrow> jsval \<Rightarrow> pairing \<Rightarrow> pairing" where
  "mp_send open fails v p = (case mp_channel p of
     Some ch \<Rightarrow> if \<not> open then p
       else if fails then p\<lparr>mp_errors := mp_errors p + 1\<rparr>
       else p\<lparr>mp_sent := mp_sent p @ [(ch, the (json_stringify v))]\<rparr>
   | None \<Rightarrow> p)"

definition mp_onMessage :: "nat \<Rightarrow> pairing \<Rightarrow> pairing" where
  "mp_onMessage cb p = p\<lparr>mp_msgListeners := set_add cb (mp_msgListeners p)\<rparr>"

definition mp_onPeerConnect :: "nat \<Rightarrow> pairing \<Rightarrow> pairing" where
  "mp_onPeerConnect cb p = p\<lparr>mp_connectListeners := set_add cb (mp_connectListeners p)\<rparr>"

definition mp_close :: "pairing \<Rightarrow> pairing" where
  "mp_close p = (setState Closed p)\<lparr>mp_channel := None, mp_pc := None, mp_msgListeners := [], mp_connectListeners := []\<rparr>"

section \<open>Events of the connection and the channel\<close>

datatype pc_state = PcConnected | PcFailed | PcClosed | PcOther

definition on_connectionstatechange :: "pc_state \<Rightarrow> pairing \<Rightarrow> pairing" where
  "on_connectionstatechange st p =
     (let p1 = (if st = PcConnected then setState Connected p else p)
      in if st \<in> {PcFailed, PcClosed} \<and> mp_state p1 \<noteq> Closed then setState Failed p1 else p1)"

definition attachChannel :: "nat \<Rightarrow> pairing \<Rightarrow> pairing" where
  "attachChannel ch p = p\<lparr>mp_channel := Some ch\<rparr>"

definition on_channel_open :: "pairing \<Rightarrow> pairing" where
  "on_channel_open p = (let p1 = setState Connected p
     in p1\<lparr>mp_connects := mp_connects p1 @ map (\<lambda>cb. (cb, mp_peerDevice p1)) (mp_connectListeners p1)\<rparr>)"

definition on_channel_message :: "jsstring \<Rightarrow> pairing \<Rightarrow> pairing" where
  "on_channel_message data p = (case json_parse data of
     None \<Rightarrow> p\<lparr>mp_errors := mp_errors p + 1\<rparr>
   | Some v \<Rightarrow> p\<lparr>mp_received := mp_received p @ map (\<lambda>cb. (cb, v)) (mp_msgListeners p)\<rparr>)"

definition on_channel_close :: "pairing \<Rightarrow> pairing" where
  "on_channel_close p = (if mp_state p \<noteq> Closed then setState Failed p else p)"

end
