(* ===== verification/Pairing_Properties.thy ===== *)
theory Pairing_Properties
  imports Pairing
begin

text \<open>
  The blobs of manual pairing survive the trip: they are made of characters every keyboard and QR
  code has, and decode to what was encoded, with any white space around; the two sides that exchange
  them end with each other's device and a common space.
\<close>

section \<open>Base64 for addresses\<close>

definition url_char :: "code_unit \<Rightarrow> bool" where
  "url_char c \<longleftrightarrow> 65 \<le> c \<and> c \<le> 90 \<or> 97 \<le> c \<and> c \<le> 122 \<or> 48 \<le> c \<and> c \<le> 57 \<or> c = 45 \<or> c = 95"

definition url_unit :: "nat \<Rightarrow> code_unit" where
  "url_unit n = (if n = 62 then 45 else if n = 63 then 95 else b64_char n)"

lemma b64_char_units: "n < 64 \<Longrightarrow> b64_char n = 43 \<longleftrightarrow> n = 62" "n < 64 \<Longrightarrow> b64_char n = 47 \<longleftrightarrow> n = 63"
  "n < 64 \<Longrightarrow> b64_char n \<noteq> 45" "n < 64 \<Longrightarrow> b64_char n \<noteq> 95"
  by (auto simp: word_unat_eq_iff unat_b64_char split: if_splits)

lemma url_char_unit:
  assumes "n < 64" shows "url_char (url_unit n)"
proof (cases "n = 62 \<or> n = 63")
  case True
  then show ?thesis by (auto simp: url_unit_def url_char_def)
next
  case False
  with assms have "n < 62" by linarith
  then show ?thesis by (auto simp: url_unit_def url_char_def word_le_nat_alt unat_b64_char)
qed

lemma replaced: "n < 64 \<Longrightarrow> (if (if b64_char n = 43 then 45 else b64_char n) = 47 then 95 else if b64_char n = 43 then 45 else b64_char n) = url_unit n"
  by (auto simp: url_unit_def b64_char_units)

lemma replaced_back: "n < 64 \<Longrightarrow> (if (if url_unit n = 45 then 43 else url_unit n) = 95 then 47 else if url_unit n = 45 then 43 else url_unit n) = b64_char n"
proof -
  assume n: "n < 64"
  have "b64_char 62 = 43" "b64_char 63 = 47" by (simp_all add: b64_char_def)
  then show ?thesis using b64_char_units(3,4)[OF n] by (auto simp: url_unit_def)
qed

lemma url_unit_not_pad: "n < 64 \<Longrightarrow> url_unit n \<noteq> 61"
  using b64_char_not_pad by (auto simp: url_unit_def)

lemma b64urlEncode_units: "b64urlEncode s = map url_unit (sextets_of (utf8_encode s))"
proof -
  let ?xs = "sextets_of (utf8_encode s)"
  have b: "\<forall>n \<in> set ?xs. n < 64" using sextets_of_bound by blast
  have "replace_unit 47 95 (replace_unit 43 45 (btoa (utf8_encode s))) = map url_unit ?xs @ replicate (pad_len (utf8_encode s)) 61"
    using b by (simp add: btoa_sextets replace_unit_def replaced comp_def)
  moreover have "dropWhile (\<lambda>c. c = 61) (rev (map url_unit ?xs @ replicate k 61)) = rev (map url_unit ?xs)" for k
  proof -
    have "dropWhile (\<lambda>c. c = 61) (rev (map url_unit ?xs)) = rev (map url_unit ?xs)"
      using b url_unit_not_pad by (intro dropWhile_eq_self_iff[THEN iffD2]) (cases ?xs rule: rev_cases; simp)
    then show ?thesis by (simp add: dropWhile_append)
  qed
  ultimately show ?thesis by (simp add: b64urlEncode_def Let_def)
qed

lemma pad_restored: "((n::nat) + p) mod 4 = 0 \<Longrightarrow> p < 4 \<Longrightarrow> (4 - n mod 4) mod 4 = p"
proof -
  assume n: "(n + p) mod 4 = 0" and p: "p < 4"
  define m where "m = n mod 4"
  have "(m + p) mod 4 = 0" unfolding m_def mod_add_left_eq by (rule n)
  moreover have "m = 0 \<or> m = 1 \<or> m = 2 \<or> m = 3" unfolding m_def by linarith
  moreover have "p = 0 \<or> p = 1 \<or> p = 2 \<or> p = 3" using p by linarith
  ultimately show ?thesis unfolding m_def[symmetric] by (elim disjE) simp_all
qed

lemma b64url_roundtrip: "plain_text s \<Longrightarrow> b64urlDecode (b64urlEncode s) = Some s"
proof -
  assume s: "plain_text s"
  let ?bs = "utf8_encode s" let ?xs = "sextets_of (utf8_encode s)"
  have b: "\<forall>n \<in> set ?xs. n < 64" using sextets_of_bound by blast
  have undo: "replace_unit 95 47 (replace_unit 45 43 (b64urlEncode s)) = map b64_char ?xs"
    using b by (simp add: b64urlEncode_units replace_unit_def replaced_back comp_def)
  have "(length ?xs + pad_len ?bs) mod 4 = 0" using length_btoa_mod[of ?bs] by (simp add: btoa_sextets)
  moreover have "pad_len ?bs < 4" by (auto simp: pad_len_def)
  ultimately have "(4 - length ?xs mod 4) mod 4 = pad_len ?bs" by (rule pad_restored)
  then have "b64urlDecode (b64urlEncode s) = map_option utf8_decode (atob_text (btoa ?bs))"
    by (simp add: b64urlDecode_def undo Let_def btoa_sextets)
  then show ?thesis by (simp add: atob_text_btoa text_roundtrip s)
qed

lemma url_char_not_space: "url_char c \<Longrightarrow> \<not> white_space c"
  by (auto simp: url_char_def white_space_def word_le_nat_alt)

lemma trim_blank: "\<forall>c \<in> set w. white_space c \<Longrightarrow> \<forall>c \<in> set w'. white_space c \<Longrightarrow> \<forall>c \<in> set t. \<not> white_space c \<Longrightarrow> trim (w @ t @ w') = t"
proof -
  assume w: "\<forall>c \<in> set w. white_space c" "\<forall>c \<in> set w'. white_space c" and t: "\<forall>c \<in> set t. \<not> white_space c"
  have d: "dropWhile white_space (a @ u) = dropWhile white_space u" if "\<forall>c \<in> set a. white_space c" for a u
    using that by (induction a) auto
  have n: "dropWhile white_space u = u" if "\<forall>c \<in> set u. \<not> white_space c" for u
    using that by (cases u) auto
  show ?thesis
  proof (cases t)
    case Nil
    have "dropWhile white_space (w @ w') = []"
      unfolding dropWhile_eq_Nil_conv using w by (simp only: set_append ball_Un)
    then show ?thesis by (simp only: trim_def Nil append_Nil rev.simps dropWhile.simps)
  next
    case (Cons c cs)
    then have "dropWhile white_space (t @ w') = t @ w'" using t by simp
    then show ?thesis using w t d[of w "t @ w'"] d[of "rev w'" "rev t"] n[of "rev t"] by (simp add: trim_def)
  qed
qed

section \<open>Blobs\<close>

definition blob_ok :: "blob \<Rightarrow> bool" where
  "blob_ok b \<longleftrightarrow> is_json (bl_device b) \<and> is_json (bl_space b) \<and> truthy (bl_space b) \<and> is_json (bl_sdp b) \<and> truthy (bl_sdp b)"

lemma blob_json: "blob_ok b \<Longrightarrow> is_json (blob_js b)"
proof -
  assume b: "blob_ok b"
  have "entry_order [(js ''v'', v), (js ''kind'', k), (js ''device'', d), (js ''space'', s), (js ''sdp'', p)] =
      [(js ''v'', v), (js ''kind'', k), (js ''device'', d), (js ''space'', s), (js ''sdp'', p)]" for v k d s p :: jsval
    by (rule entry_order_names) (simp add: array_index_def is_dec_def js_def)
  with b show ?thesis by (simp add: blob_js_def blob_ok_def wf_num_of_nat finite_num_of_nat)
qed

lemma blob_props: "blob_prop (blob_js b) (js ''v'') = JNum (num_of_nat 1)" "blob_prop (blob_js b) (js ''kind'') = JStr (kind_text (bl_kind b))"
  "blob_prop (blob_js b) (js ''device'') = bl_device b" "blob_prop (blob_js b) (js ''space'') = bl_space b" "blob_prop (blob_js b) (js ''sdp'') = bl_sdp b"
  by (simp_all add: blob_prop_def blob_js_def get_prop_def)

lemma encodeBlob_url: "\<forall>c \<in> set (encodeBlob b). url_char c"
  using url_char_unit sextets_of_bound by (fastforce simp: encodeBlob_def b64urlEncode_units)

lemma blob_decodes:
  assumes "blob_ok b" "\<forall>c \<in> set w. white_space c" "\<forall>c \<in> set w'. white_space c"
  shows "decodeBlob (w @ encodeBlob b @ w') = Inr (blob_js b)"
proof -
  have j: "is_json (blob_js b)" by (rule blob_json[OF assms(1)])
  then obtain t where t: "json_stringify (blob_js b) = Some t" using json_stringify_tree[OF is_json_tree] by blast
  have "trim (w @ encodeBlob b @ w') = encodeBlob b"
    using assms(2,3) encodeBlob_url url_char_not_space by (intro trim_blank) blast+
  moreover have "b64urlDecode (encodeBlob b) = Some t"
    using plain_stringify[OF is_json_tree[OF j]] by (simp add: encodeBlob_def t b64url_roundtrip)
  moreover have "json_parse t = Some (blob_js b)" using parse_stringify_json[OF j t] .
  ultimately show ?thesis using assms(1) by (cases "bl_kind b") (simp_all add: decodeBlob_def blob_props blob_ok_def)
qed

text \<open>C33. Pairing by hand. What the offering device shows is text of letters, digits, hyphens and
underscores; carried to the other device, with whatever white space it picks up, it is accepted,
and so is the answer on the way back. Then both devices are connecting, in the space the first
one drew at random, each knows the other's device, and the connection of each is handed the
session description of the other.\<close>

theorem pairing_handshake:
  assumes "is_json offer" "truthy offer" "is_json answer" "truthy answer"
    and "\<forall>c \<in> set (w1 @ w2 @ w3 @ w4). white_space c"
  shows "\<exists>a1 blob1 a2 m b1 blob2 b2 a3.
    createOffer_begin rand pcA chA (new_pairing dA) = (Inr (), a1) \<and> createOffer_end offer a1 = (Inr blob1, a2) \<and>
    acceptOffer_begin (w1 @ blob1 @ w2) pcB (new_pairing dB) = (Inr m, b1) \<and> acceptOffer_end m answer b1 = (Inr blob2, b2) \<and>
    acceptAnswer (w3 @ blob2 @ w4) a2 = (Inr (pcA, answer), a3) \<and>
    blob_prop m (js ''sdp'') = offer \<and> (\<forall>c \<in> set (blob1 @ blob2). url_char c) \<and>
    mp_state a3 = Connecting \<and> mp_state b2 = Connecting \<and>
    mp_space a3 = Some (JStr (js ''manual-'' @ hex rand)) \<and> mp_space b2 = mp_space a3 \<and>
    mp_peerDevice a3 = Some (JStr dB) \<and> mp_peerDevice b2 = Some (JStr dA)"
proof -
  let ?sp = "JStr (js ''manual-'' @ hex rand)"
  let ?o = "\<lparr>bl_kind = Offer, bl_device = JStr dA, bl_space = ?sp, bl_sdp = offer\<rparr>"
  let ?n = "\<lparr>bl_kind = Answer, bl_device = JStr dB, bl_space = ?sp, bl_sdp = answer\<rparr>"
  have sp: "truthy ?sp" by (simp add: truthy_def js_def)
  have ok: "blob_ok ?o" "blob_ok ?n" using assms(1-4) sp by (simp_all add: blob_ok_def)
  have D: "decodeBlob (w1 @ encodeBlob ?o @ w2) = Inr (blob_js ?o)" "decodeBlob (w3 @ encodeBlob ?n @ w4) = Inr (blob_js ?n)"
    using assms(5) by (intro blob_decodes[OF ok(1)] blob_decodes[OF ok(2)]; simp)+
  have ne: "js ''answer'' \<noteq> js ''offer''" by simp
  show ?thesis
    using encodeBlob_url[of ?o] encodeBlob_url[of ?n]
    by (simp add: createOffer_begin_def createOffer_end_def new_pairing_def setState_def randHex_def acceptOffer_begin_def D
        acceptOffer_end_def acceptAnswer_def blob_props ball_Un)
qed

theorem pairing_handshake_witness:
  "\<exists>a1 blob1 a2 m b1. createOffer_begin [1, 2, 3, 4] 1 2 (new_pairing (js ''a'')) = (Inr (), a1) \<and>
     createOffer_end (JStr (js ''x'')) a1 = (Inr blob1, a2) \<and>
     acceptOffer_begin (blob1 @ [10]) 3 (new_pairing (js ''b'')) = (Inr m, b1) \<and> blob_prop m (js ''sdp'') = JStr (js ''x'')"
proof -
  have "is_json (JStr (js ''x''))" "truthy (JStr (js ''x''))" "is_json (JStr (js ''y''))" "truthy (JStr (js ''y''))"
    "\<forall>c \<in> set ([] @ [10] @ [] @ []). white_space c" by (simp_all add: truthy_def js_def white_space_def)
  from pairing_handshake[OF this] show ?thesis unfolding append_Nil by blast
qed

text \<open>
  A transport that is closed while it gathers is not closed for good: when the timer of the gathering
  expires, \<open>createOffer\<close> goes on, leaves the closed state and hands out an offer that nobody can
  answer.
\<close>

lemma closed_is_left:
  assumes "createOffer_begin rand pc ch p = (Inr (), p1)"
  shows "mp_state (mp_close p1) = Closed \<and> mp_state (snd (createOffer_end sdp (mp_close p1))) = WaitingForAnswer \<and>
    fst (acceptAnswer text (snd (createOffer_end sdp (mp_close p1)))) \<noteq> Inr x"
  by (auto simp: mp_close_def setState_def createOffer_end_def acceptAnswer_def split: sum.splits)

end
