(* ===== verification/Webrtc.thy ===== *)
theory Webrtc
  imports Pairing
begin

text \<open>
  The WebRTC transport of transport-webrtc/src/index.ts: the signaling connection with its retries,
  and the table of peers. Sockets, peer connections and channels are numbers; what the transport calls
  on them is a trace. Every \<^verbatim>\<open>await\<close> leaves a task, which the environment resumes with the outcome of
  the promise, in any order. A peer object lives in a store under the number of its connection,
  because a handler may still hold it after it was dropped from the table.
\<close>

section \<open>State\<close>

definition MAX_BACKOFF_MS :: nat where "MAX_BACKOFF_MS = 15000"

record rtc_opts =
  to_space :: jsstring
  to_deviceId :: jsstring

datatype sig_state = SigConnecting | SigConnected | SigDisconnected | SigConflict

record peer =
  pe_channel :: "nat option"
  pe_pending :: "jsval list"
  pe_remoteSet :: bool

text \<open>What is called on connections and channels; \<open>RemoteSet\<close> marks that \<open>setRemoteDescription\<close> has resolved.\<close>

datatype rtc_call =
    CreateChannel nat nat
  | SetRemote nat jsval
  | RemoteSet nat
  | AddIce nat jsval
  | CreateAnswer nat
  | CloseChannel nat
  | ClosePc nat

text \<open>
  What waits: an offer (with the signal that goes on after it, if it was made for one), a signal whose
  peer is ensured, a description being set, candidates being added, an answer being made.
\<close>

datatype rtc_task =
    Offering jsstring nat "jsval option"
  | Signalled jsstring jsval
  | SettingRemote jsstring nat jsval
  | Flushing jsstring nat "jsval list" jsval
  | Answering jsstring nat
  | Adding jsstring

record webrtc =
  tr_ws :: "nat option"
  tr_live :: bool
  tr_open :: bool
  tr_closed :: bool
  tr_backoff :: nat
  tr_timers :: "nat list"
  tr_peers :: "(jsstring, nat) jsmap"
  tr_heap :: "nat \<rightharpoonup> peer"
  tr_next :: nat
  tr_tasks :: "rtc_task list"
  tr_calls :: "rtc_call list"
  tr_signals :: "jsval list"
  tr_states :: "sig_state list"
  tr_errors :: nat
  tr_msgListeners :: "nat list"
  tr_connectListeners :: "nat list"
  tr_connects :: "(nat \<times> jsstring) list"
  tr_received :: "(nat \<times> jsval) list"
  tr_sent :: "(nat \<times> jsstring) list"

definition note_state :: "sig_state \<Rightarrow> webrtc \<Rightarrow> webrtc" where
  "note_state st t = t\<lparr>tr_states := tr_states t @ [st]\<rparr>"

definition note_error :: "webrtc \<Rightarrow> webrtc" where
  "note_error t = t\<lparr>tr_errors := tr_errors t + 1\<rparr>"

definition call_pc :: "rtc_call \<Rightarrow> webrtc \<Rightarrow> webrtc" where
  "call_pc c t = t\<lparr>tr_calls := tr_calls t @ [c]\<rparr>"

definition add_task :: "rtc_task \<Rightarrow> webrtc \<Rightarrow> webrtc" where
  "add_task k t = t\<lparr>tr_tasks := tr_tasks t @ [k]\<rparr>"

section \<open>Signaling\<close>

definition connectSignaling :: "nat \<Rightarrow> webrtc \<Rightarrow> webrtc" where
  "connectSignaling ws t =
     (if tr_closed t then t else (note_state SigConnecting t)\<lparr>tr_ws := Some ws, tr_live := True, tr_open := False\<rparr>)"

definition new_webrtc :: "nat \<Rightarrow> webrtc" where
  "new_webrtc ws = connectSignaling ws \<lparr>tr_ws = None, tr_live = False, tr_open = False, tr_closed = False, tr_backoff = 500,
     tr_timers = [], tr_peers = [], tr_heap = Map.empty, tr_next = 0, tr_tasks = [], tr_calls = [], tr_signals = [],
     tr_states = [], tr_errors = 0, tr_msgListeners = [], tr_connectListeners = [], tr_connects = [], tr_received = [], tr_sent = []\<rparr>"

definition sigSend :: "jsval \<Rightarrow> webrtc \<Rightarrow> webrtc" where
  "sigSend v t = (if tr_ws t \<noteq> None \<and> tr_open t then t\<lparr>tr_signals := tr_signals t @ [v]\<rparr> else t)"

definition signal_to :: "jsstring \<Rightarrow> jsval \<Rightarrow> jsval" where
  "signal_to p data = JObj [(js ''t'', JStr (js ''signal'')), (js ''to'', JStr p), (js ''data'', data)]"

definition sdp_data :: "jsval \<Rightarrow> jsval" where
  "sdp_data d = JObj [(js ''kind'', JStr (js ''sdp'')), (js ''description'', d)]"

definition ice_data :: "jsval \<Rightarrow> jsval" where
  "ice_data c = JObj [(js ''kind'', JStr (js ''ice'')), (js ''candidate'', c)]"

definition on_ws_open :: "rtc_opts \<Rightarrow> webrtc \<Rightarrow> webrtc" where
  "on_ws_open ro t = sigSend (JObj [(js ''t'', JStr (js ''join'')), (js ''space'', JStr (to_space ro)), (js ''device'', JStr (to_deviceId ro))])
     (note_state SigConnected (t\<lparr>tr_backoff := 500\<rparr>))"

definition on_ws_close :: "nat \<Rightarrow> webrtc \<Rightarrow> webrtc" where
  "on_ws_close code t =
     (if tr_closed t then t
      else if code = 4000 then note_error (note_state SigConflict t)
      else (note_state SigDisconnected t)\<lparr>tr_timers := tr_timers t @ [tr_backoff t],
             tr_backoff := min (tr_backoff t * 2) MAX_BACKOFF_MS\<rparr>)"

section \<open>Peers\<close>

definition isInitiatorFor :: "rtc_opts \<Rightarrow> jsstring \<Rightarrow> bool" where
  "isInitiatorFor ro p \<longleftrightarrow> to_deviceId ro < p"

definition dropPeer :: "jsstring \<Rightarrow> webrtc \<Rightarrow> webrtc" where
  "dropPeer p t = (case map_of (tr_peers t) p of
     None \<Rightarrow> t
   | Some pc \<Rightarrow>
       let t1 = t\<lparr>tr_peers := map_del p (tr_peers t)\<rparr>;
           t2 = (case Option.bind (tr_heap t pc) pe_channel of None \<Rightarrow> t1 | Some ch \<Rightarrow> call_pc (CloseChannel ch) t1)
       in call_pc (ClosePc pc) t2)"

definition rtc_attachChannel :: "jsstring \<Rightarrow> nat \<Rightarrow> webrtc \<Rightarrow> webrtc" where
  "rtc_attachChannel p ch t = (case map_of (tr_peers t) p of
     None \<Rightarrow> t
   | Some pc \<Rightarrow> t\<lparr>tr_heap := (tr_heap t)(pc := map_option (\<lambda>x. x\<lparr>pe_channel := Some ch\<rparr>) (tr_heap t pc))\<rparr>)"

text \<open>
  \<open>ensurePeer\<close> up to its first wait; \<open>k\<close> is the signal it was called for. Without an offer it is done at once.
\<close>

definition then_signal :: "jsstring \<Rightarrow> jsval option \<Rightarrow> webrtc \<Rightarrow> webrtc" where
  "then_signal p k t = (case k of None \<Rightarrow> t | Some data \<Rightarrow> add_task (Signalled p data) t)"

definition ensurePeer :: "rtc_opts \<Rightarrow> jsstring \<Rightarrow> jsval option \<Rightarrow> webrtc \<Rightarrow> webrtc" where
  "ensurePeer ro p k t =
     (if p = [] \<or> p = to_deviceId ro \<or> map_of (tr_peers t) p \<noteq> None then then_signal p k t
      else
        let pc = tr_next t;
            t1 = t\<lparr>tr_next := pc + 1, tr_heap := (tr_heap t)(pc \<mapsto> \<lparr>pe_channel = None, pe_pending = [], pe_remoteSet = False\<rparr>),
                   tr_peers := map_set p pc (tr_peers t)\<rparr>
        in if isInitiatorFor ro p
           then (let ch = tr_next t1
                 in add_task (Offering p pc k)
                      (rtc_attachChannel p ch (call_pc (CreateChannel pc ch) (t1\<lparr>tr_next := ch + 1\<rparr>))))
           else then_signal p k t1)"

text \<open>The strings of a message; a value of another type is no device here.\<close>

definition device_of :: "jsval \<Rightarrow> jsstring" where
  "device_of v = (case v of JStr s \<Rightarrow> s | _ \<Rightarrow> [])"

text \<open>What \<^verbatim>\<open>for (const device of devices ?? [])\<close> runs over: a string is iterable too, by its characters; the rest throws.\<close>

fun characters :: "jsstring \<Rightarrow> jsstring list" where
  "characters [] = []"
| "characters [c] = [[c]]"
| "characters (c # d # cs) = (if is_high c \<and> is_low d then [c, d] # characters cs else [c] # characters (d # cs))"

definition devices_of :: "jsval \<Rightarrow> jsval list option" where
  "devices_of v = (case v of
     JArr ds \<Rightarrow> Some ds | JStr s \<Rightarrow> Some (map JStr (characters s)) | JUndef \<Rightarrow> Some [] | JNull \<Rightarrow> Some [] | _ \<Rightarrow> None)"

definition handleSignaling :: "rtc_opts \<Rightarrow> jsval \<Rightarrow> webrtc \<Rightarrow> webrtc" where
  "handleSignaling ro msg t =
     (if msg = JNull then note_error t
      else if blob_prop msg (js ''t'') = JStr (js ''peers'') then
        (case devices_of (blob_prop msg (js ''devices'')) of
           None \<Rightarrow> note_error t
         | Some ds \<Rightarrow> fold (\<lambda>d. ensurePeer ro (device_of d) None) ds t)
      else if blob_prop msg (js ''t'') = JStr (js ''peer-joined'') then ensurePeer ro (device_of (blob_prop msg (js ''device''))) None t
      else if blob_prop msg (js ''t'') = JStr (js ''peer-left'') then dropPeer (device_of (blob_prop msg (js ''device''))) t
      else if blob_prop msg (js ''t'') = JStr (js ''signal'') then
        ensurePeer ro (device_of (blob_prop msg (js ''from''))) (Some (blob_prop msg (js ''data''))) t
      else t)"

definition on_ws_message :: "rtc_opts \<Rightarrow> jsstring \<Rightarrow> webrtc \<Rightarrow> webrtc" where
  "on_ws_message ro data t = (case json_parse data of None \<Rightarrow> t | Some msg \<Rightarrow> handleSignaling ro msg t)"

section \<open>After the waits\<close>

definition update_peer :: "nat \<Rightarrow> (peer \<Rightarrow> peer) \<Rightarrow> webrtc \<Rightarrow> webrtc" where
  "update_peer pc f t = t\<lparr>tr_heap := (tr_heap t)(pc := map_option f (tr_heap t pc))\<rparr>"

text \<open>\<open>handleSignal\<close> once the peer is ensured.\<close>

definition signal_body :: "jsstring \<Rightarrow> jsval \<Rightarrow> webrtc \<Rightarrow> webrtc" where
  "signal_body p data t = (case map_of (tr_peers t) p of
     None \<Rightarrow> t
   | Some pc \<Rightarrow>
       if data \<in> {JUndef, JNull} then note_error t
       else if blob_prop data (js ''kind'') = JStr (js ''sdp'') \<and> truthy (blob_prop data (js ''description'')) then
         add_task (SettingRemote p pc (blob_prop data (js ''description''))) (call_pc (SetRemote pc (blob_prop data (js ''description''))) t)
       else if blob_prop data (js ''kind'') = JStr (js ''ice'') \<and> truthy (blob_prop data (js ''candidate'')) then
         (if map_option pe_remoteSet (tr_heap t pc) = Some True
          then add_task (Adding p) (call_pc (AddIce pc (blob_prop data (js ''candidate''))) t)
          else update_peer pc (\<lambda>x. x\<lparr>pe_pending := pe_pending x @ [blob_prop data (js ''candidate'')]\<rparr>) t)
       else t)"

text \<open>The candidates that waited are added one after the other, then an offer is answered.\<close>

definition flush_step :: "jsstring \<Rightarrow> nat \<Rightarrow> jsval list \<Rightarrow> jsval \<Rightarrow> webrtc \<Rightarrow> webrtc" where
  "flush_step p pc cs desc t = (case cs of
     c # rest \<Rightarrow> add_task (Flushing p pc rest desc) (call_pc (AddIce pc c) t)
   | [] \<Rightarrow> if blob_prop desc (js ''type'') = JStr (js ''offer'') then add_task (Answering p pc) (call_pc (CreateAnswer pc) t) else t)"

definition pending_of :: "nat \<Rightarrow> webrtc \<Rightarrow> jsval list" where
  "pending_of pc t = (case tr_heap t pc of None \<Rightarrow> [] | Some x \<Rightarrow> pe_pending x)"

text \<open>A task goes on: \<open>None\<close> when its promise was rejected, else the value it resolved to.\<close>

definition resume :: "rtc_task \<Rightarrow> jsval option \<Rightarrow> webrtc \<Rightarrow> webrtc" where
  "resume k outcome t =
     (case k of
        Offering p pc after \<Rightarrow> then_signal p after
          (case outcome of
             Some d \<Rightarrow> sigSend (signal_to p (sdp_data d)) t
           | None \<Rightarrow> dropPeer p (note_error t))
      | Signalled p data \<Rightarrow> signal_body p data t
      | SettingRemote p pc desc \<Rightarrow> (case outcome of
            None \<Rightarrow> note_error t
          | Some _ \<Rightarrow> flush_step p pc (pending_of pc t) desc
              (update_peer pc (\<lambda>x. x\<lparr>pe_remoteSet := True, pe_pending := []\<rparr>) (call_pc (RemoteSet pc) t)))
      | Flushing p pc cs desc \<Rightarrow> (case outcome of None \<Rightarrow> note_error t | Some _ \<Rightarrow> flush_step p pc cs desc t)
      | Answering p pc \<Rightarrow> (case outcome of None \<Rightarrow> note_error t | Some d \<Rightarrow> sigSend (signal_to p (sdp_data d)) t)
      | Adding p \<Rightarrow> (case outcome of None \<Rightarrow> note_error t | Some _ \<Rightarrow> t))"

section \<open>Connections and channels\<close>

definition on_icecandidate :: "jsstring \<Rightarrow> jsval \<Rightarrow> webrtc \<Rightarrow> webrtc" where
  "on_icecandidate p c t = (if truthy c then sigSend (signal_to p (ice_data c)) t else t)"

text \<open>The states after which a peer is dropped: failed, closed, disconnected.\<close>

definition rtc_connectionstatechange :: "bool \<Rightarrow> jsstring \<Rightarrow> webrtc \<Rightarrow> webrtc" where
  "rtc_connectionstatechange gone p t = (if gone then dropPeer p t else t)"

definition rtc_channel_open :: "jsstring \<Rightarrow> webrtc \<Rightarrow> webrtc" where
  "rtc_channel_open p t = t\<lparr>tr_connects := tr_connects t @ map (\<lambda>cb. (cb, p)) (tr_connectListeners t)\<rparr>"

definition rtc_channel_message :: "jsstring \<Rightarrow> webrtc \<Rightarrow> webrtc" where
  "rtc_channel_message data t = (case json_parse data of
     None \<Rightarrow> note_error t
   | Some v \<Rightarrow> t\<lparr>tr_received := tr_received t @ map (\<lambda>cb. (cb, v)) (tr_msgListeners t)\<rparr>)"

definition rtc_channel_close :: "jsstring \<Rightarrow> nat \<Rightarrow> webrtc \<Rightarrow> webrtc" where
  "rtc_channel_close p ch t =
     (if Option.bind (Option.bind (map_of (tr_peers t) p) (tr_heap t)) pe_channel = Some ch then dropPeer p t else t)"

section \<open>The transport interface\<close>

text \<open>\<open>ready ch\<close> is whether a channel is open, \<open>fails ch\<close> whether sending on it throws.\<close>

definition rtc_send :: "(nat \<Rightarrow> bool) \<Rightarrow> (nat \<Rightarrow> bool) \<Rightarrow> jsval \<Rightarrow> webrtc \<Rightarrow> webrtc" where
  "rtc_send ready fails v t =
     fold (\<lambda>(p, pc) t. case Option.bind (tr_heap t pc) pe_channel of
         None \<Rightarrow> t
       | Some ch \<Rightarrow> if \<not> ready ch then t else if fails ch then note_error t
           else t\<lparr>tr_sent := tr_sent t @ [(ch, the (json_stringify v))]\<rparr>) (tr_peers t) t"

definition rtc_onMessage :: "nat \<Rightarrow> webrtc \<Rightarrow> webrtc" where
  "rtc_onMessage cb t = t\<lparr>tr_msgListeners := set_add cb (tr_msgListeners t)\<rparr>"

definition rtc_onPeerConnect :: "nat \<Rightarrow> webrtc \<Rightarrow> webrtc" where
  "rtc_onPeerConnect cb t = t\<lparr>tr_connectListeners := set_add cb (tr_connectListeners t)\<rparr>"

definition connectedPeers :: "(nat \<Rightarrow> bool) \<Rightarrow> webrtc \<Rightarrow> jsstring list" where
  "connectedPeers ready t =
     map fst (filter (\<lambda>(p, pc). case Option.bind (tr_heap t pc) pe_channel of None \<Rightarrow> False | Some ch \<Rightarrow> ready ch) (tr_peers t))"

definition rtc_close :: "webrtc \<Rightarrow> webrtc" where
  "rtc_close t =
     (let t1 = t\<lparr>tr_closed := True\<rparr>;
          t2 = fold dropPeer (map fst (tr_peers t1)) t1
      in t2\<lparr>tr_ws := None, tr_open := False, tr_msgListeners := [], tr_connectListeners := []\<rparr>)"

section \<open>Runs\<close>

text \<open>
  A socket opens, gets messages while it is open and closes once; a timer fires; a promise settles;
  connections and channels raise their events; the application uses the transport.
\<close>

inductive rtc_step :: "rtc_opts \<Rightarrow> webrtc \<Rightarrow> webrtc \<Rightarrow> bool" for ro :: rtc_opts where
  socket_open: "tr_live t \<Longrightarrow> \<not> tr_closed t \<Longrightarrow> \<not> tr_open t \<Longrightarrow> rtc_step ro t (on_ws_open ro (t\<lparr>tr_open := True\<rparr>))"
| socket_message: "tr_live t \<Longrightarrow> tr_open t \<Longrightarrow> rtc_step ro t (on_ws_message ro data t)"
| socket_close: "tr_live t \<Longrightarrow> rtc_step ro t (on_ws_close code (t\<lparr>tr_live := False, tr_open := False\<rparr>))"
| timer: "tr_timers t = ts @ [ms] @ ts' \<Longrightarrow> rtc_step ro t (connectSignaling ws (t\<lparr>tr_timers := ts @ ts'\<rparr>))"
| settle: "tr_tasks t = ks @ [k] @ ks' \<Longrightarrow> rtc_step ro t (resume k outcome (t\<lparr>tr_tasks := ks @ ks'\<rparr>))"
| candidate: "rtc_step ro t (on_icecandidate p c t)"
| connection_state: "rtc_step ro t (rtc_connectionstatechange gone p t)"
| channel_offered: "rtc_step ro t (rtc_attachChannel p ch t)"
| channel_open: "rtc_step ro t (rtc_channel_open p t)"
| channel_message: "rtc_step ro t (rtc_channel_message data t)"
| channel_close: "rtc_step ro t (rtc_channel_close p ch t)"
| sending: "rtc_step ro t (rtc_send ready fails v t)"
| listening: "rtc_step ro t (rtc_onMessage cb t)"
| watching: "rtc_step ro t (rtc_onPeerConnect cb t)"
| closing: "rtc_step ro t (rtc_close t)"

inductive rtc_reachable :: "rtc_opts \<Rightarrow> webrtc \<Rightarrow> bool" for ro :: rtc_opts where
  start: "rtc_reachable ro (new_webrtc ws)"
| step: "rtc_reachable ro t \<Longrightarrow> rtc_step ro t t' \<Longrightarrow> rtc_reachable ro t'"

end
