(* ===== verification/Webrtc_Properties.thy ===== *)
theory Webrtc_Properties
  imports Webrtc
begin

text \<open>
  Invariants of the WebRTC transport: the signaling connection is retried with a bounded pause until the
  transport is closed or evicted, and the table of peers is sound, with one side of every pair offering
  and no candidate handed to a connection before its remote description.
\<close>

section \<open>Signaling\<close>

definition sig_part :: "webrtc \<Rightarrow> bool \<times> bool \<times> bool \<times> nat \<times> nat list \<times> sig_state list" where
  "sig_part t = (tr_live t, tr_open t, tr_closed t, tr_backoff t, tr_timers t, tr_states t)"

lemma sig_small [simp]: "sig_part (note_error t) = sig_part t" "sig_part (call_pc c t) = sig_part t"
  "sig_part (add_task k t) = sig_part t" "sig_part (sigSend v t) = sig_part t" "sig_part (update_peer pc f t) = sig_part t"
  "sig_part (rtc_attachChannel p ch t) = sig_part t" "sig_part (then_signal p a t) = sig_part t"
  by (simp_all add: sig_part_def note_error_def call_pc_def add_task_def sigSend_def update_peer_def rtc_attachChannel_def
      then_signal_def split: option.split)

lemma sig_drop [simp]: "sig_part (dropPeer p t) = sig_part t"
  by (simp add: dropPeer_def Let_def split: option.split) (simp add: sig_part_def)

lemma sig_ensure [simp]: "sig_part (ensurePeer ro p k t) = sig_part t"
  by (simp add: ensurePeer_def Let_def) (simp add: sig_part_def)

lemma sig_fold: "(\<And>x t. sig_part (f x t) = sig_part t) \<Longrightarrow> sig_part (fold f xs t) = sig_part t"
  by (induction xs arbitrary: t) simp_all

lemma sig_handle [simp]: "sig_part (handleSignaling ro msg t) = sig_part t"
  by (simp add: handleSignaling_def sig_fold split: option.split)

lemma sig_message [simp]: "sig_part (on_ws_message ro data t) = sig_part t"
  by (simp add: on_ws_message_def split: option.split)

lemma sig_signal [simp]: "sig_part (signal_body p data t) = sig_part t"
  by (simp add: signal_body_def split: option.split)

lemma sig_flush [simp]: "sig_part (flush_step p pc cs desc t) = sig_part t"
  by (simp add: flush_step_def split: list.split)

lemma sig_resume [simp]: "sig_part (resume k outcome t) = sig_part t"
  by (simp add: resume_def split: rtc_task.split option.split)

lemma sig_events [simp]: "sig_part (on_icecandidate p c t) = sig_part t" "sig_part (rtc_connectionstatechange gone p t) = sig_part t"
  "sig_part (rtc_channel_open p t) = sig_part t" "sig_part (rtc_channel_message data t) = sig_part t"
  "sig_part (rtc_channel_close p ch t) = sig_part t" "sig_part (rtc_onMessage cb t) = sig_part t" "sig_part (rtc_onPeerConnect cb t) = sig_part t"
  by (simp_all add: on_icecandidate_def rtc_connectionstatechange_def rtc_channel_message_def rtc_channel_close_def split: option.split)
    (simp_all add: sig_part_def rtc_channel_open_def rtc_onMessage_def rtc_onPeerConnect_def)

lemma sig_send [simp]: "sig_part (rtc_send ready fails v t) = sig_part t"
proof -
  have "sig_part (t\<lparr>tr_sent := xs\<rparr>) = sig_part t" for xs t by (simp add: sig_part_def)
  then show ?thesis unfolding rtc_send_def by (intro sig_fold) (simp add: case_prod_beta split: option.split)
qed

lemma sig_close [simp]: "sig_part (rtc_close t) = (tr_live t, False, True, tr_backoff t, tr_timers t, tr_states t)"
proof -
  have "sig_part (fold dropPeer ps (t\<lparr>tr_closed := True\<rparr>)) = sig_part (t\<lparr>tr_closed := True\<rparr>)" for ps by (rule sig_fold) simp
  then show ?thesis by (simp add: rtc_close_def Let_def sig_part_def)
qed

definition pauses :: "nat set" where
  "pauses = {500, 1000, 2000, 4000, 8000, 15000}"

definition conflicted :: "webrtc \<Rightarrow> bool" where
  "conflicted t \<longleftrightarrow> SigConflict \<in> set (tr_states t)"

definition sig_inv :: "webrtc \<Rightarrow> bool" where
  "sig_inv t \<longleftrightarrow> tr_backoff t \<in> pauses \<and> set (tr_timers t) \<subseteq> pauses \<and> (tr_open t \<longrightarrow> tr_live t) \<and>
     length (tr_timers t) + (if tr_live t then 1 else 0) \<le> 1 \<and>
     (\<not> tr_closed t \<longrightarrow> \<not> conflicted t \<longrightarrow> length (tr_timers t) + (if tr_live t then 1 else 0) = 1) \<and>
     (conflicted t \<longrightarrow> \<not> tr_live t \<and> tr_timers t = [] \<and> last (tr_states t) = SigConflict)"

lemma sig_inv_part: "sig_part t' = sig_part t \<Longrightarrow> sig_inv t \<Longrightarrow> sig_inv t'"
  by (simp add: sig_inv_def sig_part_def conflicted_def)

lemma pauses_next: "b \<in> pauses \<Longrightarrow> min (b * 2) MAX_BACKOFF_MS \<in> pauses"
  by (auto simp: pauses_def MAX_BACKOFF_MS_def)

lemma sig_inv_start: "sig_inv (new_webrtc ws)"
  by (simp add: sig_inv_def new_webrtc_def connectSignaling_def note_state_def conflicted_def pauses_def)

lemma rtc_step_sig:
  assumes "rtc_step ro t t'" "sig_inv t" shows "sig_inv t'"
  using assms(1)
proof cases
  case socket_open
  have "sig_part t' = sig_part ((note_state SigConnected t)\<lparr>tr_open := True, tr_backoff := 500\<rparr>)"
    unfolding socket_open(1) on_ws_open_def sig_small by (simp add: sig_part_def note_state_def)
  moreover have "sig_inv ((note_state SigConnected t)\<lparr>tr_open := True, tr_backoff := 500\<rparr>)"
    using assms(2) socket_open by (auto simp: sig_inv_def note_state_def conflicted_def pauses_def)
  ultimately show ?thesis by (rule sig_inv_part)
next
  case (socket_close code)
  have b: "tr_backoff t \<in> pauses" "tr_timers t = []" "\<not> conflicted t" using assms(2) socket_close(2) by (auto simp: sig_inv_def)
  show ?thesis
    using b pauses_next[OF b(1)] unfolding socket_close(1)
    by (auto simp: on_ws_close_def sig_inv_def note_state_def note_error_def conflicted_def)
next
  case (timer ts ms ts' ws)
  then show ?thesis using assms(2)
    by (auto simp: sig_inv_def connectSignaling_def note_state_def conflicted_def split: if_splits)
next
  case closing
  have p: "sig_part t' = sig_part (t\<lparr>tr_open := False, tr_closed := True\<rparr>)" 
    unfolding closing sig_close by (simp add: sig_part_def)
  have "sig_inv (t\<lparr>tr_open := False, tr_closed := True\<rparr>)" using assms(2) by (auto simp: sig_inv_def conflicted_def)
  with p show ?thesis by (rule sig_inv_part)
next
  case (settle ks k ks' outcome)
  have "sig_part t' = sig_part t" unfolding settle(1) sig_resume by (simp add: sig_part_def)
  then show ?thesis using assms(2) by (rule sig_inv_part)
qed (auto intro: sig_inv_part[OF _ assms(2)])

lemma rtc_reachable_sig: "rtc_reachable ro t \<Longrightarrow> sig_inv t"
  by (induction rule: rtc_reachable.induct) (auto intro: sig_inv_start rtc_step_sig)

text \<open>C32. The signaling connection is kept up and never hammered. In every state the transport can reach
there is at most one socket or pending retry, and exactly one until the transport is closed or
evicted; the pause before a retry is one of 500, 1000, 2000, 4000, 8000 and 15000 milliseconds;
and an eviction is final: no socket, no retry, and the conflict is the last state reported.\<close>

theorem reconnect_steady:
  assumes "rtc_reachable ro t"
  shows "tr_backoff t \<in> {500, 1000, 2000, 4000, 8000, 15000} \<and> set (tr_timers t) \<subseteq> {500, 1000, 2000, 4000, 8000, 15000} \<and>
    length (tr_timers t) + (if tr_live t then 1 else 0) \<le> 1 \<and>
    (tr_closed t \<or> SigConflict \<in> set (tr_states t) \<or> length (tr_timers t) + (if tr_live t then 1 else 0) = 1) \<and>
    (SigConflict \<notin> set (tr_states t) \<or> \<not> tr_live t \<and> tr_timers t = [] \<and> last (tr_states t) = SigConflict)"
  using rtc_reachable_sig[OF assms] unfolding sig_inv_def conflicted_def pauses_def by blast

theorem reconnect_steady_witness:
  "tr_timers (on_ws_close 1006 ((new_webrtc 0)\<lparr>tr_live := False, tr_open := False\<rparr>)) \<noteq> [] \<and>
   tr_timers (on_ws_close 4000 ((new_webrtc 0)\<lparr>tr_live := False, tr_open := False\<rparr>)) = []"
proof -
  let ?t = "\<lambda>c. on_ws_close c ((new_webrtc 0)\<lparr>tr_live := False, tr_open := False\<rparr>)"
  let ?ro = "\<lparr>to_space = [], to_deviceId = []\<rparr>"
  have r: "rtc_reachable ?ro (?t c)" for c
    by (rule rtc_reachable.step[OF rtc_reachable.start rtc_step.socket_close]) (simp add: new_webrtc_def connectSignaling_def note_state_def)
  have s: "tr_states (?t 1006) = [SigConnecting, SigDisconnected]" "tr_states (?t 4000) = [SigConnecting, SigConflict]"
    "\<not> tr_closed (?t 1006)" "\<not> tr_live (?t 1006)"
    by (simp_all add: on_ws_close_def new_webrtc_def connectSignaling_def note_state_def note_error_def)
  from reconnect_steady[OF r[of 1006]] reconnect_steady[OF r[of 4000]] show ?thesis
    unfolding s using s(3,4) by auto
qed

section \<open>A blip of the signaling connection\<close>

text \<open>
  The peers are not dropped when the connection is lost, and a peer that is known is not built anew when
  the list of the room arrives again.
\<close>

lemma blip_keeps_peers:
  "tr_peers (on_ws_close code t) = tr_peers t" "map_of (tr_peers t) p \<noteq> None \<Longrightarrow> ensurePeer ro p None t = t"
  by (simp_all add: on_ws_close_def note_state_def note_error_def ensurePeer_def then_signal_def)

section \<open>The table of peers\<close>

text \<open>Every candidate comes after the remote description of its connection was set, and the setting has resolved.\<close>

definition described :: "nat \<Rightarrow> rtc_call list \<Rightarrow> bool" where
  "described pc cs \<longleftrightarrow> (\<exists>xs d ys. cs = xs @ SetRemote pc d # ys \<and> RemoteSet pc \<in> set ys)"

definition in_turn :: "rtc_call list \<Rightarrow> bool" where
  "in_turn cs \<longleftrightarrow> (\<forall>xs pc c ys. cs = xs @ AddIce pc c # ys \<longrightarrow> described pc xs)"

lemma in_turn_append: "in_turn (cs @ [x]) \<longleftrightarrow> in_turn cs \<and> (case x of AddIce pc c \<Rightarrow> described pc cs | _ \<Rightarrow> True)"
proof
  assume a: "in_turn (cs @ [x])"
  have "described pc xs" if "cs = xs @ AddIce pc c # ys" for xs pc c ys
    using a[unfolded in_turn_def, rule_format, of xs pc c "ys @ [x]"] that by simp
  moreover have "described pc cs" if "x = AddIce pc c" for pc c
    using a[unfolded in_turn_def, rule_format, of cs pc c "[]"] that by simp
  ultimately show "in_turn cs \<and> (case x of AddIce pc c \<Rightarrow> described pc cs | _ \<Rightarrow> True)"
    by (auto simp: in_turn_def split: rtc_call.split)
next
  assume b: "in_turn cs \<and> (case x of AddIce pc c \<Rightarrow> described pc cs | _ \<Rightarrow> True)"
  show "in_turn (cs @ [x])"
    unfolding in_turn_def
  proof (intro allI impI)
    fix xs pc c ys assume e: "cs @ [x] = xs @ AddIce pc c # ys"
    show "described pc xs"
    proof (cases ys rule: rev_cases)
      case Nil
      with e b show ?thesis by simp
    next
      case (snoc zs z)
      with e have "cs = xs @ AddIce pc c # zs" by simp
      with b show ?thesis by (auto simp: in_turn_def)
    qed
  qed
qed

lemma described_append [simp]: "described pc cs \<Longrightarrow> described pc (cs @ [x])"
proof -
  assume "described pc cs"
  then obtain xs d ys where "cs = xs @ SetRemote pc d # ys" "RemoteSet pc \<in> set ys" unfolding described_def by blast
  then have "cs @ [x] = xs @ SetRemote pc d # (ys @ [x]) \<and> RemoteSet pc \<in> set (ys @ [x])" by simp
  then show ?thesis unfolding described_def by blast
qed

lemma described_now:
  assumes "SetRemote pc d \<in> set cs" shows "described pc (cs @ [RemoteSet pc])"
proof -
  obtain xs ys where "cs = xs @ SetRemote pc d # ys" using split_list[OF assms] by blast
  then have "cs @ [RemoteSet pc] = xs @ SetRemote pc d # (ys @ [RemoteSet pc]) \<and> RemoteSet pc \<in> set (ys @ [RemoteSet pc])" by simp
  then show ?thesis unfolding described_def by blast
qed

text \<open>What a task may rely on.\<close>

definition task_ok :: "rtc_opts \<Rightarrow> rtc_call list \<Rightarrow> rtc_task \<Rightarrow> bool" where
  "task_ok ro cs k = (case k of
     Offering p pc after \<Rightarrow> to_deviceId ro < p \<and> (\<exists>ch. CreateChannel pc ch \<in> set cs)
   | SettingRemote p pc d \<Rightarrow> SetRemote pc d \<in> set cs
   | Flushing p pc rest d \<Rightarrow> described pc cs
   | _ \<Rightarrow> True)"

lemma task_ok_append [simp]: "task_ok ro cs k \<Longrightarrow> task_ok ro (cs @ [x]) k"
  by (auto simp: task_ok_def split: rtc_task.splits)

definition table_inv :: "rtc_opts \<Rightarrow> webrtc \<Rightarrow> bool" where
  "table_inv ro t \<longleftrightarrow> dkeys (tr_peers t) \<and> distinct (map snd (tr_peers t)) \<and>
     (\<forall>(p, pc) \<in> set (tr_peers t). p \<noteq> [] \<and> p \<noteq> to_deviceId ro \<and> pc < tr_next t \<and> tr_heap t pc \<noteq> None) \<and>
     (\<forall>pc x. tr_heap t pc = Some x \<longrightarrow> pc < tr_next t \<and> (pe_remoteSet x \<longrightarrow> described pc (tr_calls t) \<and> pe_pending x = [])) \<and>
     in_turn (tr_calls t) \<and> (\<forall>k \<in> set (tr_tasks t). task_ok ro (tr_calls t) k) \<and>
     (tr_closed t \<longrightarrow> tr_peers t = [] \<and> \<not> tr_open t)"

definition table_part :: "webrtc \<Rightarrow> (jsstring, nat) jsmap \<times> (nat \<rightharpoonup> peer) \<times> nat \<times> rtc_call list \<times> rtc_task list \<times> bool \<times> bool" where
  "table_part t = (tr_peers t, tr_heap t, tr_next t, tr_calls t, tr_tasks t, tr_closed t, tr_open t)"

lemma table_inv_part: "table_part t' = table_part t \<Longrightarrow> table_inv ro t \<Longrightarrow> table_inv ro t'"
  by (simp add: table_inv_def table_part_def)

lemma table_small: "table_part (note_error t) = table_part t" "table_part (note_state st t) = table_part t"
  "table_part (sigSend v t) = table_part t" "table_part (on_icecandidate p c t) = table_part t"
  "table_part (rtc_channel_open p t) = table_part t" "table_part (rtc_channel_message data t) = table_part t"
  "table_part (rtc_onMessage cb t) = table_part t" "table_part (rtc_onPeerConnect cb t) = table_part t"
  by (simp_all add: table_part_def note_error_def note_state_def sigSend_def on_icecandidate_def rtc_channel_open_def
      rtc_channel_message_def rtc_onMessage_def rtc_onPeerConnect_def split: option.split)

lemmas table_same = table_small[THEN table_inv_part]

lemma table_call: "table_inv ro t \<Longrightarrow> (case c of AddIce pc x \<Rightarrow> described pc (tr_calls t) | _ \<Rightarrow> True) \<Longrightarrow> table_inv ro (call_pc c t)"
  unfolding table_inv_def by (auto simp: call_pc_def in_turn_append)

lemma table_task: "table_inv ro t \<Longrightarrow> task_ok ro (tr_calls t) k \<Longrightarrow> table_inv ro (add_task k t)"
  unfolding table_inv_def by (simp add: add_task_def)

lemma table_then: "table_inv ro t \<Longrightarrow> table_inv ro (then_signal p k t)"
  by (auto simp: then_signal_def task_ok_def intro: table_task split: option.split)

lemma map_del_values: "distinct (map snd m) \<Longrightarrow> distinct (map snd (map_del k m))"
  by (induction m) (auto simp: AList.delete_eq)

lemma table_drop: "table_inv ro t \<Longrightarrow> table_inv ro (dropPeer p t)"
proof -
  assume t: "table_inv ro t"
  have "set (map_del p (tr_peers t)) \<subseteq> set (tr_peers t)" by (auto simp: AList.delete_eq)
  then have "table_inv ro (t\<lparr>tr_peers := map_del p (tr_peers t)\<rparr>)"
    using t map_del_values[of "tr_peers t" p] unfolding table_inv_def by auto
  then show ?thesis using t by (auto simp: dropPeer_def Let_def intro!: table_call split: option.split)
qed

lemma table_update:
  assumes "table_inv ro t" "\<And>x. tr_heap t pc = Some x \<Longrightarrow> pe_remoteSet (f x) \<Longrightarrow> described pc (tr_calls t) \<and> pe_pending (f x) = []"
  shows "table_inv ro (update_peer pc f t)"
  using assms unfolding table_inv_def by (auto simp: update_peer_def)

lemma attach_update: "rtc_attachChannel p ch t = (case map_of (tr_peers t) p of None \<Rightarrow> t | Some pc \<Rightarrow> update_peer pc (\<lambda>x. x\<lparr>pe_channel := Some ch\<rparr>) t)"
  by (simp add: rtc_attachChannel_def update_peer_def split: option.split)

lemma table_attach: "table_inv ro t \<Longrightarrow> table_inv ro (rtc_attachChannel p ch t)"
  unfolding attach_update by (auto intro!: table_update split: option.split) (auto simp: table_inv_def)

lemma small_closed [simp]: "tr_closed (call_pc c t) = tr_closed t" "tr_closed (add_task k t) = tr_closed t"
  "tr_closed (rtc_attachChannel p ch t) = tr_closed t" "tr_closed (then_signal p a t) = tr_closed t"
  by (simp_all add: call_pc_def add_task_def rtc_attachChannel_def then_signal_def split: option.split)

lemma ensure_closed [simp]: "tr_closed (ensurePeer ro p k t) = tr_closed t"
  by (simp add: ensurePeer_def Let_def)

lemma attach_calls [simp]: "tr_calls (rtc_attachChannel p ch t) = tr_calls t"
  by (simp add: rtc_attachChannel_def split: option.split)

lemma table_ensure:
  assumes t: "table_inv ro t" and c: "\<not> tr_closed t"
  shows "table_inv ro (ensurePeer ro p k t)"
proof (cases "p = [] \<or> p = to_deviceId ro \<or> map_of (tr_peers t) p \<noteq> None")
  case True
  then show ?thesis using table_then[OF t] by (simp only: ensurePeer_def if_True)
next
  case False
  let ?pc = "tr_next t"
  let ?t = "t\<lparr>tr_next := ?pc + 1, tr_heap := (tr_heap t)(?pc \<mapsto> \<lparr>pe_channel = None, pe_pending = [], pe_remoteSet = False\<rparr>),
    tr_peers := map_set p ?pc (tr_peers t)\<rparr>"
  have "p \<notin> fst ` set (tr_peers t)" using False by (auto simp: map_of_eq_None_iff)
  then have m: "map_set p ?pc (tr_peers t) = tr_peers t @ [(p, ?pc)]" by (rule map_set_fresh)
  have below: "\<forall>(p, pc) \<in> set (tr_peers t). p \<noteq> [] \<and> p \<noteq> to_deviceId ro \<and> pc < ?pc \<and> tr_heap t pc \<noteq> None"
    and heap: "\<And>pc x. tr_heap t pc = Some x \<Longrightarrow> pc < ?pc \<and> (pe_remoteSet x \<longrightarrow> described pc (tr_calls t) \<and> pe_pending x = [])"
    and rest: "dkeys (tr_peers t)" "distinct (map snd (tr_peers t))" "in_turn (tr_calls t)" "\<forall>k \<in> set (tr_tasks t). task_ok ro (tr_calls t) k"
    using t unfolding table_inv_def by blast+
  have "?pc \<notin> snd ` set (tr_peers t)" using below by auto
  then have "dkeys (tr_peers ?t)" "distinct (map snd (tr_peers ?t))"
    using rest(1,2) \<open>p \<notin> fst ` set (tr_peers t)\<close> by (simp_all add: m)
  moreover have "\<forall>(p, pc) \<in> set (tr_peers ?t). p \<noteq> [] \<and> p \<noteq> to_deviceId ro \<and> pc < tr_next ?t \<and> tr_heap ?t pc \<noteq> None"
    using below False by (auto simp: m)
  moreover have "tr_heap ?t pc = Some x \<longrightarrow> pc < tr_next ?t \<and> (pe_remoteSet x \<longrightarrow> described pc (tr_calls ?t) \<and> pe_pending x = [])" for pc x
    using heap[of pc x] by (cases "pc = ?pc") (auto intro: less_SucI)
  ultimately have new: "table_inv ro ?t" using rest(3,4) c unfolding table_inv_def by simp
  show ?thesis
  proof (cases "isInitiatorFor ro p")
    case True
    let ?ch = "?pc + 1"
    have "table_inv ro (?t\<lparr>tr_next := ?ch + 1\<rparr>)" using new unfolding table_inv_def by fastforce
    then have "table_inv ro (rtc_attachChannel p ?ch (call_pc (CreateChannel ?pc ?ch) (?t\<lparr>tr_next := ?ch + 1\<rparr>)))"
      by (intro table_attach table_call) simp_all
    then have "table_inv ro (add_task (Offering p ?pc k) (rtc_attachChannel p ?ch (call_pc (CreateChannel ?pc ?ch) (?t\<lparr>tr_next := ?ch + 1\<rparr>))))"
      by (rule table_task) (use True in \<open>auto simp: task_ok_def isInitiatorFor_def call_pc_def\<close>)
    then show ?thesis using False True by (simp add: ensurePeer_def Let_def)
  next
    case no: False
    then show ?thesis using False table_then[OF new] by (simp add: ensurePeer_def Let_def)
  qed
qed

lemma table_ensure_all:
  assumes "table_inv ro t" "\<not> tr_closed t"
  shows "table_inv ro (fold (\<lambda>d. ensurePeer ro (device_of d) None) ds t)"
  using assms
proof (induction ds arbitrary: t)
  case (Cons d ds)
  then show ?case using Cons.IH[OF table_ensure[OF Cons.prems]] by simp
qed simp

lemma table_handle:
  assumes "table_inv ro t" "\<not> tr_closed t"
  shows "table_inv ro (handleSignaling ro msg t)"
  using table_same(1)[OF assms(1)] table_ensure[OF assms] table_ensure_all[OF assms] table_drop[OF assms(1)] assms(1)
  by (simp add: handleSignaling_def split: option.split)

lemma table_signal:
  assumes "table_inv ro t" shows "table_inv ro (signal_body p data t)"
proof (cases "map_of (tr_peers t) p")
  case None
  then show ?thesis using assms by (simp add: signal_body_def)
next
  case (Some pc)
  have set_remote: "table_inv ro (add_task (SettingRemote p pc d) (call_pc (SetRemote pc d) t))" for d
    by (intro table_task table_call assms) (simp_all add: task_ok_def call_pc_def)
  have add: "table_inv ro (add_task (Adding p) (call_pc (AddIce pc c) t))" if "map_option pe_remoteSet (tr_heap t pc) = Some True" for c
  proof (intro table_task table_call assms)
    show "case AddIce pc c of AddIce pc x \<Rightarrow> described pc (tr_calls t) | _ \<Rightarrow> True"
      using that assms by (auto simp: table_inv_def)
  qed (simp add: task_ok_def)
  have push: "table_inv ro (update_peer pc (\<lambda>x. x\<lparr>pe_pending := pe_pending x @ [c]\<rparr>) t)"
    if "map_option pe_remoteSet (tr_heap t pc) \<noteq> Some True" for c
    by (rule table_update[OF assms]) (use that in auto)
  show ?thesis
    using Some assms set_remote add push table_same(1)[OF assms] by (simp add: signal_body_def)
qed

lemma table_flush:
  assumes "table_inv ro t" "described pc (tr_calls t)"
  shows "table_inv ro (flush_step p pc cs desc t)"
proof (cases cs)
  case Nil
  have "table_inv ro (add_task (Answering p pc) (call_pc (CreateAnswer pc) t))"
    by (intro table_task table_call assms(1)) (simp_all add: task_ok_def)
  then show ?thesis using assms(1) by (simp add: flush_step_def Nil)
next
  case (Cons c rest)
  have "table_inv ro (add_task (Flushing p pc rest desc) (call_pc (AddIce pc c) t))"
    by (intro table_task table_call assms(1)) (simp_all add: task_ok_def call_pc_def assms(2))
  then show ?thesis by (simp add: flush_step_def Cons)
qed

lemma table_resume:
  assumes t: "table_inv ro t" and k: "task_ok ro (tr_calls t) k"
  shows "table_inv ro (resume k outcome t)"
proof (cases k)
  case (Offering p pc after)
  then show ?thesis
    using table_then[OF table_same(3)[OF t]] table_then[OF table_drop[OF table_same(1)[OF t]]] by (simp add: resume_def split: option.split)
next
  case (SettingRemote p pc desc)
  then have d: "described pc (tr_calls (call_pc (RemoteSet pc) t))" using k by (simp add: task_ok_def call_pc_def described_now)
  have "table_inv ro (update_peer pc (\<lambda>x. x\<lparr>pe_remoteSet := True, pe_pending := []\<rparr>) (call_pc (RemoteSet pc) t))"
    by (intro table_update table_call t) (simp_all add: d)
  then have "table_inv ro (flush_step p pc cs desc (update_peer pc (\<lambda>x. x\<lparr>pe_remoteSet := True, pe_pending := []\<rparr>) (call_pc (RemoteSet pc) t)))" for cs
    by (rule table_flush) (use d in \<open>simp add: update_peer_def\<close>)
  then show ?thesis using SettingRemote table_same(1)[OF t] by (simp add: resume_def split: option.split)
next
  case (Flushing p pc cs desc)
  then have "described pc (tr_calls t)" using k by (simp add: task_ok_def)
  from table_flush[OF t this] Flushing table_same(1)[OF t] show ?thesis by (simp add: resume_def split: option.split)
qed (use t table_signal[OF t] table_same(1,3)[OF t] in \<open>simp_all add: resume_def split: option.split\<close>)

lemma table_send: "table_inv ro t \<Longrightarrow> table_inv ro (rtc_send ready fails v t)"
proof -
  assume t: "table_inv ro t"
  have "table_part (t\<lparr>tr_sent := xs\<rparr>) = table_part t" for xs t by (simp add: table_part_def)
  then have "table_part (fold (\<lambda>(p, pc) t. case Option.bind (tr_heap t pc) pe_channel of
         None \<Rightarrow> t
       | Some ch \<Rightarrow> if \<not> ready ch then t else if fails ch then note_error t
           else t\<lparr>tr_sent := tr_sent t @ [(ch, the (json_stringify v))]\<rparr>) ps t) = table_part t" for ps
    by (induction ps arbitrary: t) (simp_all add: case_prod_beta table_small split: option.split)
  then show ?thesis unfolding rtc_send_def by (rule table_inv_part[OF _ t])
qed

lemma drop_peers: "tr_peers (dropPeer p t) = map_del p (tr_peers t)" "tr_closed (dropPeer p t) = tr_closed t"
  by (simp_all add: dropPeer_def Let_def call_pc_def delete_id[OF map_of_eq_None_iff[THEN iffD1]] split: option.split)

lemma table_close: "table_inv ro t \<Longrightarrow> table_inv ro (rtc_close t)"
proof -
  assume t: "table_inv ro t"
  let ?c = "\<lambda>t b. t\<lparr>tr_closed := b, tr_open := False\<rparr>"
  have drop: "table_inv ro (fold dropPeer ps t)" for ps
    using t by (induction ps arbitrary: t) (auto intro: table_drop)
  have peers: "tr_peers (fold dropPeer ps s) = filter (\<lambda>e. fst e \<notin> set ps) (tr_peers s)" for ps s
    by (induction ps arbitrary: s) (auto simp: drop_peers AList.delete_eq intro!: filter_cong)
  have comm: "dropPeer p (s\<lparr>tr_closed := b\<rparr>) = (dropPeer p s)\<lparr>tr_closed := b\<rparr>" for p s b
    by (simp add: dropPeer_def Let_def call_pc_def split: option.split)
  then have folds: "fold dropPeer ps (s\<lparr>tr_closed := b\<rparr>) = (fold dropPeer ps s)\<lparr>tr_closed := b\<rparr>" for ps s b
    by (induction ps arbitrary: s) simp_all
  have "tr_peers (fold dropPeer (map fst (tr_peers t)) t) = []" by (auto simp: peers filter_empty_conv)
  with drop[of "map fst (tr_peers t)"] show ?thesis
    unfolding rtc_close_def Let_def by (simp add: folds table_inv_def)
qed

lemma rtc_step_table:
  assumes "rtc_step ro t t'" and t: "table_inv ro t" shows "table_inv ro t'"
  using assms(1)
proof cases
  case socket_open
  have "table_inv ro (t\<lparr>tr_open := True\<rparr>)" using t socket_open unfolding table_inv_def by simp
  then show ?thesis unfolding socket_open(1) on_ws_open_def
    by (intro table_same) (simp add: table_inv_def)
next
  case (socket_message data)
  then have "\<not> tr_closed t" using t by (auto simp: table_inv_def)
  then show ?thesis using t table_handle[OF t] by (simp add: socket_message(1) on_ws_message_def split: option.split)
next
  case (socket_close code)
  then show ?thesis using t
    by (auto simp: on_ws_close_def note_state_def note_error_def table_inv_def)
next
  case (timer ts ms ts' ws)
  then show ?thesis using t by (auto simp: connectSignaling_def note_state_def table_inv_def)
next
  case (settle ks k ks' outcome)
  have "table_inv ro (t\<lparr>tr_tasks := ks @ ks'\<rparr>)" using t settle(2) by (auto simp: table_inv_def)
  moreover have "task_ok ro (tr_calls t) k" using t settle(2) by (auto simp: table_inv_def)
  ultimately show ?thesis unfolding settle(1) by (intro table_resume) simp_all
next
  case (candidate p c)
  then show ?thesis using table_same(4)[OF t] by simp
next
  case (connection_state gone p)
  then show ?thesis using table_drop[OF t] t by (simp add: rtc_connectionstatechange_def)
next
  case (channel_close p ch)
  then show ?thesis using table_drop[OF t] t by (simp add: rtc_channel_close_def)
qed (use table_same(5-8)[OF t] table_attach[OF t] table_send[OF t] table_close[OF t] in simp_all)

lemma rtc_reachable_table: "rtc_reachable ro t \<Longrightarrow> table_inv ro t"
proof (induction rule: rtc_reachable.induct)
  case (start ws)
  show ?case by (simp add: table_inv_def new_webrtc_def connectSignaling_def note_state_def in_turn_def)
qed (rule rtc_step_table)

section \<open>Who offers\<close>

text \<open>The connections a channel was created on; that is done where an offer is made, and only there.\<close>

definition offering :: "webrtc \<Rightarrow> nat set" where
  "offering t = {pc. \<exists>ch. CreateChannel pc ch \<in> set (tr_calls t)}"

definition offer_part :: "webrtc \<Rightarrow> (jsstring, nat) jsmap \<times> nat \<times> nat set" where
  "offer_part t = (tr_peers t, tr_next t, offering t)"

definition offer_inv :: "rtc_opts \<Rightarrow> webrtc \<Rightarrow> bool" where
  "offer_inv ro t \<longleftrightarrow> (\<forall>(p, pc) \<in> set (tr_peers t). pc < tr_next t \<and> (pc \<in> offering t \<longleftrightarrow> to_deviceId ro < p)) \<and>
     (\<forall>pc \<in> offering t. pc < tr_next t)"

lemma offer_inv_part: "offer_part t' = offer_part t \<Longrightarrow> offer_inv ro t \<Longrightarrow> offer_inv ro t'"
  by (simp add: offer_inv_def offer_part_def)

lemma offering_call: "offering (call_pc c t) = (case c of CreateChannel pc ch \<Rightarrow> insert pc (offering t) | _ \<Rightarrow> offering t)"
  by (auto simp: offering_def call_pc_def split: rtc_call.split)

lemma offer_call: "(\<And>pc ch. c \<noteq> CreateChannel pc ch) \<Longrightarrow> offer_part (call_pc c t) = offer_part t"
  by (simp add: offer_part_def offering_call split: rtc_call.split) (simp add: call_pc_def)

lemma offer_small [simp]: "offer_part (note_error t) = offer_part t" "offer_part (note_state st t) = offer_part t"
  "offer_part (sigSend v t) = offer_part t" "offer_part (on_icecandidate p c t) = offer_part t"
  "offer_part (rtc_channel_open p t) = offer_part t" "offer_part (rtc_channel_message data t) = offer_part t"
  "offer_part (rtc_onMessage cb t) = offer_part t" "offer_part (rtc_onPeerConnect cb t) = offer_part t"
  "offer_part (add_task k t) = offer_part t" "offer_part (then_signal p a t) = offer_part t"
  "offer_part (update_peer pc f t) = offer_part t" "offer_part (rtc_attachChannel p ch t) = offer_part t"
  by (simp_all add: offer_part_def offering_def note_error_def note_state_def sigSend_def on_icecandidate_def rtc_channel_open_def
      rtc_channel_message_def rtc_onMessage_def rtc_onPeerConnect_def add_task_def then_signal_def update_peer_def
      rtc_attachChannel_def split: option.split)

lemma offer_same: "tr_peers t' = tr_peers t \<Longrightarrow> tr_next t' = tr_next t \<Longrightarrow> tr_calls t' = tr_calls t \<Longrightarrow> offer_part t' = offer_part t"
  by (simp add: offer_part_def offering_def)

lemma offer_signal [simp]: "offer_part (signal_body p data t) = offer_part t"
  by (simp add: signal_body_def offer_call split: option.split)

lemma offer_flush [simp]: "offer_part (flush_step p pc cs desc t) = offer_part t"
  by (simp add: flush_step_def offer_call split: list.split)

lemma offer_send [simp]: "offer_part (rtc_send ready fails v t) = offer_part t"
proof -
  have sent: "offer_part (t\<lparr>tr_sent := xs\<rparr>) = offer_part t" for xs t by (rule offer_same) simp_all
  have "offer_part (fold (\<lambda>(p, pc) t. case Option.bind (tr_heap t pc) pe_channel of
         None \<Rightarrow> t
       | Some ch \<Rightarrow> if \<not> ready ch then t else if fails ch then note_error t
           else t\<lparr>tr_sent := tr_sent t @ [(ch, the (json_stringify v))]\<rparr>) ps t) = offer_part t" for ps
    by (induction ps arbitrary: t) (simp_all add: case_prod_beta sent split: option.split)
  then show ?thesis unfolding rtc_send_def .
qed

lemma offer_drop: "offer_inv ro t \<Longrightarrow> offer_inv ro (dropPeer p t)"
proof -
  assume t: "offer_inv ro t"
  have "set (map_del p (tr_peers t)) \<subseteq> set (tr_peers t)" by (auto simp: AList.delete_eq)
  then have "offer_inv ro (t\<lparr>tr_peers := map_del p (tr_peers t)\<rparr>)" using t by (auto simp: offer_inv_def offering_def)
  then show ?thesis using t
    by (auto simp: dropPeer_def Let_def intro!: offer_inv_part[OF offer_call] split: option.split)
qed

lemma offer_ensure:
  assumes t: "offer_inv ro t" shows "offer_inv ro (ensurePeer ro p k t)"
proof (cases "p = [] \<or> p = to_deviceId ro \<or> map_of (tr_peers t) p \<noteq> None")
  case True
  then show ?thesis using offer_inv_part[OF offer_small(10) t] by (simp only: ensurePeer_def if_True)
next
  case False
  have m: "map_set p pc (tr_peers t) = tr_peers t @ [(p, pc)]" for pc
    using False by (intro map_set_fresh) (auto simp: map_of_eq_None_iff)
  have calls: "offer_part (call_pc (CreateChannel pc ch) t) = (tr_peers t, tr_next t, insert pc (offering t))" for pc ch t
    by (simp add: offer_part_def offering_call) (simp add: call_pc_def)
  have "offer_part (ensurePeer ro p k t) = (tr_peers t @ [(p, tr_next t)],
      if to_deviceId ro < p then (tr_next t + 2, insert (tr_next t) (offering t)) else (tr_next t + 1, offering t))"
    using False by (simp add: ensurePeer_def isInitiatorFor_def Let_def m calls) (simp add: offer_part_def offering_def)
  then have e: "tr_peers (ensurePeer ro p k t) = tr_peers t @ [(p, tr_next t)]"
    "tr_next (ensurePeer ro p k t) = (if to_deviceId ro < p then tr_next t + 2 else tr_next t + 1)"
    "offering (ensurePeer ro p k t) = (if to_deviceId ro < p then insert (tr_next t) (offering t) else offering t)"
    by (simp_all add: offer_part_def split: if_splits)
  have l: "\<And>p pc. (p, pc) \<in> set (tr_peers t) \<Longrightarrow> pc < tr_next t \<and> (pc \<in> offering t \<longleftrightarrow> to_deviceId ro < p)"
    "\<And>pc. pc \<in> offering t \<Longrightarrow> pc < tr_next t"
    using t by (auto simp: offer_inv_def)
  show ?thesis unfolding offer_inv_def e by (auto dest: l less_SucI split: if_splits)
qed

lemma offer_fold: "(\<And>x t. offer_inv ro t \<Longrightarrow> offer_inv ro (f x t)) \<Longrightarrow> offer_inv ro t \<Longrightarrow> offer_inv ro (fold f xs t)"
  by (induction xs arbitrary: t) simp_all

lemma offer_resume:
  assumes t: "offer_inv ro t" shows "offer_inv ro (resume k outcome t)"
proof (cases "\<exists>p pc after. k = Offering p pc after \<and> outcome = None")
  case True
  then obtain p pc after where k: "resume k outcome t = then_signal p after (dropPeer p (note_error t))" by (auto simp: resume_def)
  have "offer_inv ro (dropPeer p (note_error t))" by (rule offer_drop, rule offer_inv_part[OF _ t]) simp
  then show ?thesis unfolding k by (rule offer_inv_part[rotated]) simp
next
  case False
  then have "offer_part (resume k outcome t) = offer_part t"
    by (cases k; cases outcome) (simp_all add: resume_def offer_call)
  then show ?thesis using t by (rule offer_inv_part)
qed

lemma rtc_step_offer:
  assumes step: "rtc_step ro t t'" and t: "offer_inv ro t" shows "offer_inv ro t'"
proof -
  note same = offer_inv_part[OF _ t]
  show ?thesis
    using step
  proof cases
    case (socket_message data)
    have "offer_inv ro (fold (\<lambda>d. ensurePeer ro (device_of d) None) ds t)" for ds
      by (rule offer_fold[OF _ t]) (rule offer_ensure)
    then show ?thesis using socket_message t offer_ensure offer_drop same
      by (simp add: on_ws_message_def handleSignaling_def split: option.split)
  next
    case (settle ks k ks' outcome)
    let ?t = "t\<lparr>tr_tasks := ks @ ks'\<rparr>"
    have "offer_inv ro ?t" by (rule same, rule offer_same) simp_all
    then show ?thesis unfolding settle(1) by (rule offer_resume)
  next
    case (connection_state gone p)
    then show ?thesis using t offer_drop by (simp add: rtc_connectionstatechange_def)
  next
    case (channel_close p ch)
    then show ?thesis using t offer_drop by (simp add: rtc_channel_close_def)
  next
    case closing
    have "offer_inv ro (t\<lparr>tr_closed := True\<rparr>)" by (rule same, rule offer_same) simp_all
    then have "offer_inv ro (fold dropPeer ps (t\<lparr>tr_closed := True\<rparr>))" for ps by (rule offer_fold[rotated]) (rule offer_drop)
    then show ?thesis unfolding closing rtc_close_def Let_def by (rule offer_inv_part[rotated]) (rule offer_same; simp)
  qed (simp_all add: same, (auto intro!: same offer_same simp: on_ws_open_def on_ws_close_def connectSignaling_def sigSend_def
      note_state_def note_error_def)[3])
qed

lemma rtc_reachable_offer: "rtc_reachable ro t \<Longrightarrow> offer_inv ro t"
proof (induction rule: rtc_reachable.induct)
  case (start ws)
  show ?case by (simp add: offer_inv_def offering_def new_webrtc_def connectSignaling_def note_state_def)
qed (rule rtc_step_offer)

text \<open>C31. The table of peers is sound. In every reachable state each peer is listed once, with a connection of
its own, never the device itself, and none after the transport was closed; a channel was created on a
peer's connection exactly if the peer's device is the greater one, and an offer is being made only
then, so of two devices that list each other exactly one offers; and every candidate handed to a
connection comes after a remote description was set on it and the setting had resolved.\<close>

theorem peers_sound:
  assumes "rtc_reachable ro t"
  shows "dkeys (tr_peers t) \<and> distinct (map snd (tr_peers t)) \<and> to_deviceId ro \<notin> fst ` set (tr_peers t) \<and>
    (tr_closed t \<longrightarrow> tr_peers t = []) \<and>
    (\<forall>(p, pc) \<in> set (tr_peers t). (\<exists>ch. CreateChannel pc ch \<in> set (tr_calls t)) \<longleftrightarrow> to_deviceId ro < p) \<and>
    (\<forall>p pc k. Offering p pc k \<in> set (tr_tasks t) \<longrightarrow> to_deviceId ro < p) \<and>
    (\<forall>xs pc c ys. tr_calls t = xs @ AddIce pc c # ys \<longrightarrow>
      (\<exists>us d vs. xs = us @ SetRemote pc d # vs \<and> RemoteSet pc \<in> set vs))"
proof -
  note inv = rtc_reachable_table[OF assms]
  have "to_deviceId ro < p" if "Offering p pc k \<in> set (tr_tasks t)" for p pc k
    using inv that by (force simp: table_inv_def task_ok_def)
  moreover have "\<forall>(p, pc) \<in> set (tr_peers t). (\<exists>ch. CreateChannel pc ch \<in> set (tr_calls t)) \<longleftrightarrow> to_deviceId ro < p"
    using rtc_reachable_offer[OF assms] by (auto simp: offer_inv_def offering_def)
  moreover have "\<exists>us d vs. xs = us @ SetRemote pc d # vs \<and> RemoteSet pc \<in> set vs" if "tr_calls t = xs @ AddIce pc c # ys" for xs pc c ys
    using inv that unfolding table_inv_def in_turn_def described_def by blast
  ultimately show ?thesis using inv unfolding table_inv_def by fastforce
qed

text \<open>Device a hears that device b has joined.\<close>

definition greeted :: webrtc where
  "greeted = on_ws_message \<lparr>to_space = js ''s'', to_deviceId = js ''a''\<rparr> (js ''{\"t\":\"peer-joined\",\"device\":\"b\"}'')
     (on_ws_open \<lparr>to_space = js ''s'', to_deviceId = js ''a''\<rparr> ((new_webrtc 0)\<lparr>tr_open := True\<rparr>))"

lemma greeted_reachable: "rtc_reachable \<lparr>to_space = js ''s'', to_deviceId = js ''a''\<rparr> greeted"
  unfolding greeted_def
  by (intro rtc_reachable.step[OF rtc_reachable.step[OF rtc_reachable.start rtc_step.socket_open] rtc_step.socket_message])
    (simp_all add: new_webrtc_def connectSignaling_def note_state_def on_ws_open_def sigSend_def)

lemma greeted_tasks: "tr_tasks greeted = [Offering (js ''b'') 0 None]"
proof -
  have p: "json_parse (js ''{\"t\":\"peer-joined\",\"device\":\"b\"}'') =
      Some (JObj [(js ''t'', JStr (js ''peer-joined'')), (js ''device'', JStr (js ''b''))])" by code_simp
  have lt: "js ''a'' < js ''b''" "js ''b'' \<noteq> []" by (simp_all add: js_def)
  show ?thesis
    unfolding greeted_def on_ws_message_def p
    by (simp add: handleSignaling_def blob_prop_def get_prop_def device_of_def ensurePeer_def isInitiatorFor_def lt Let_def
        add_task_def rtc_attachChannel_def call_pc_def on_ws_open_def sigSend_def note_state_def new_webrtc_def connectSignaling_def)
qed

theorem peers_sound_witness:
  "tr_tasks greeted = [Offering (js ''b'') 0 None] \<and> js ''a'' < js ''b'' \<and> to_deviceId \<lparr>to_space = js ''s'', to_deviceId = js ''a''\<rparr> < js ''b''"
proof -
  have "Offering (js ''b'') 0 None \<in> set (tr_tasks greeted)" by (simp add: greeted_tasks)
  with peers_sound[OF greeted_reachable] have "to_deviceId \<lparr>to_space = js ''s'', to_deviceId = js ''a''\<rparr> < js ''b''" by blast
  then show ?thesis by (simp add: greeted_tasks)
qed

end
