(* ===== verification/Broadcast.thy ===== *)
theory Broadcast
  imports Replicator
begin

text \<open>
  The broadcast transport, transport-broadcast/src/index.ts, over the platform's channels: what is posted on a
  channel is raised as a message event on every other open channel of that name.
\<close>

record channel =
  ch_name :: jsstring
  ch_open :: bool
  ch_listeners :: "nat list"
  ch_received :: "(nat \<times> wire) list"

definition new_broadcast :: "jsstring \<Rightarrow> channel" where
  "new_broadcast space = \<lparr>ch_name = js ''tangentfeed:'' @ space, ch_open = True, ch_listeners = [], ch_received = []\<rparr>"

definition bc_onmessage :: "wire \<Rightarrow> channel \<Rightarrow> channel" where
  "bc_onmessage m c = c\<lparr>ch_received := ch_received c @ map (\<lambda>cb. (cb, m)) (ch_listeners c)\<rparr>"

definition bc_onMessage :: "nat \<Rightarrow> channel \<Rightarrow> channel" where
  "bc_onMessage cb c = c\<lparr>ch_listeners := set_add cb (ch_listeners c)\<rparr>"

definition bc_offMessage :: "nat \<Rightarrow> channel \<Rightarrow> channel" where
  "bc_offMessage cb c = c\<lparr>ch_listeners := filter (\<lambda>x. x \<noteq> cb) (ch_listeners c)\<rparr>"

definition bc_close :: "channel \<Rightarrow> channel" where
  "bc_close c = c\<lparr>ch_listeners := [], ch_open := False\<rparr>"

text \<open>All channels of the device; \<open>i\<close> posts.\<close>

definition bc_send :: "nat \<Rightarrow> wire \<Rightarrow> channel list \<Rightarrow> channel list" where
  "bc_send i m cs =
     (if i < length cs \<and> ch_open (cs ! i)
      then map (\<lambda>j. if j \<noteq> i \<and> ch_open (cs ! j) \<and> ch_name (cs ! j) = ch_name (cs ! i) then bc_onmessage m (cs ! j) else cs ! j)
        [0..<length cs]
      else cs)"

text \<open>Only other open spaces of the same name hear a message, and each listener once.\<close>

lemma broadcast_reaches:
  assumes "j < length cs" "i < length cs" "ch_open (cs ! i)"
  shows "ch_received (bc_send i m cs ! j) = ch_received (cs ! j) @
    (if j \<noteq> i \<and> ch_open (cs ! j) \<and> ch_name (cs ! j) = ch_name (cs ! i) then map (\<lambda>cb. (cb, m)) (ch_listeners (cs ! j)) else [])"
  using assms by (simp add: bc_send_def bc_onmessage_def)

lemma broadcast_names: "ch_name (new_broadcast s) = ch_name (new_broadcast s') \<longleftrightarrow> s = s'"
  by (simp add: new_broadcast_def)

end
