(* ===== verification/Facade.thy ===== *)
theory Facade
  imports Schema Space_Cipher Broadcast Webrtc
begin

text \<open>
  The entry point, tangentfeed/src/index.ts: a space is one engine, a replicator for each transport, and
  a schema that local writes are checked against. The replicators share the engine; each keeps its
  current state, and \<open>attend\<close> is what the subscriber of a replicator does when another part of the
  space has changed it. A transport is the replicator's traces; whether it reports new links and
  whom it is connected to are arguments.
\<close>

section \<open>Options\<close>

text \<open>The option \<open>storage\<close>: absent, a name, or an adapter; and what it is resolved to.\<close>

datatype storage_option = NoStorage | StorageName jsstring | StorageGiven
datatype storage_choice = UseGiven | UseMemory | UseIdb jsstring

definition resolveStorage :: "bool \<Rightarrow> storage_option \<Rightarrow> jsstring \<Rightarrow> jsstring \<Rightarrow> storage_choice result" where
  "resolveStorage hasIndexedDB opt space replica =
     (case opt of
        StorageGiven \<Rightarrow> Inr UseGiven
      | NoStorage \<Rightarrow> Inr (if hasIndexedDB then UseIdb (space @ js '':'' @ replica) else UseMemory)
      | StorageName s \<Rightarrow>
          if s = js ''memory'' then Inr UseMemory
          else if s = js ''indexeddb'' then
            (if hasIndexedDB then Inr (UseIdb (space @ js '':'' @ replica))
             else Inl (Error (js ''IndexedDB is not available in this environment'')))
          else Inl (Error (js ''unknown storage option: '' @ s)))"

datatype encryption = Passphrase jsstring | Secret bytes

definition resolveCipher :: "aead \<Rightarrow> encryption option \<Rightarrow> jsstring \<Rightarrow> cipher option result" where
  "resolveCipher A enc space =
     (case enc of
        None \<Rightarrow> Inr None
      | Some (Passphrase p) \<Rightarrow> bind_res (fromPassphrase A p space) (\<lambda>key. Inr (Some (space_cipher A key)))
      | Some (Secret b) \<Rightarrow> bind_res (new_cipher A b) (\<lambda>key. Inr (Some (space_cipher A key))))"

section \<open>Transport factories\<close>

datatype transport = OnBroadcast channel | OnWebrtc rtc_opts webrtc | ByHand pairing

definition broadcast_transport :: "jsstring \<Rightarrow> jsstring \<Rightarrow> transport" where
  "broadcast_transport space device = OnBroadcast (new_broadcast space)"

text \<open>\<open>ws\<close> is the number of the first signaling socket.\<close>

definition webrtc_transport :: "nat \<Rightarrow> jsstring \<Rightarrow> jsstring \<Rightarrow> transport" where
  "webrtc_transport ws space device = OnWebrtc \<lparr>to_space = space, to_deviceId = device\<rparr> (new_webrtc ws)"

definition manualPair :: "jsstring \<Rightarrow> pairing" where
  "manualPair device = new_pairing device"

definition existing :: "transport \<Rightarrow> jsstring \<Rightarrow> jsstring \<Rightarrow> transport" where
  "existing t space device = t"

text \<open>Which transports have \<open>onPeerConnect\<close>, and what they have as \<open>connectedPeers\<close>.\<close>

fun reports_links :: "transport \<Rightarrow> bool" where
  "reports_links (OnBroadcast c) \<longleftrightarrow> False"
| "reports_links (OnWebrtc ro t) \<longleftrightarrow> True"
| "reports_links (ByHand p) \<longleftrightarrow> True"

fun connected_of :: "(nat \<Rightarrow> bool) \<Rightarrow> transport \<Rightarrow> jsstring list" where
  "connected_of ready (OnWebrtc ro t) = connectedPeers ready t"
| "connected_of ready t = []"

section \<open>State\<close>

record 's space =
  sp_space :: jsstring
  sp_schema :: "schema option"
  sp_cipher :: "cipher option"
  sp_engine :: "'s engine"
  sp_links :: "(replicator_opts \<times> 's replicator) list"
  sp_transportsOpen :: bool
  sp_storageOpen :: bool

datatype space_error = Refused schema_error | Thrown js_error

text \<open>A replicator sees the engine as it is now; what it has not seen of its events goes to its subscriber.\<close>

definition attend :: "'s engine \<Rightarrow> replicator_opts \<times> 's replicator \<Rightarrow> replicator_opts \<times> 's replicator" where
  "attend e l = (fst l, snd (on_engine (fst l) (\<lambda>_. (Inr (), e)) (snd l)))"

definition on_space :: "('s engine, 'a) act \<Rightarrow> 's space \<Rightarrow> (space_error + 'a) \<times> 's space" where
  "on_space m d =
     (let (res, e) = m (sp_engine d)
      in (map_sum Thrown id res, d\<lparr>sp_engine := e, sp_links := map (attend e) (sp_links d)\<rparr>))"

section \<open>Opening\<close>

text \<open>One transport: its replicator is made and started. \<open>links\<close>: does it report new peer links.\<close>

definition add_link :: "'s storage_ops \<Rightarrow> bool \<Rightarrow> 's space \<Rightarrow> 's space" where
  "add_link S links d =
     (let ro = \<lparr>ro_space = sp_space d, ro_links = links\<rparr>;
          r = snd (start S ro (new_replicator (sp_engine d)))
      in d\<lparr>sp_links := sp_links d @ [(ro, r)]\<rparr>)"

definition open_space :: "'s storage_ops \<Rightarrow> crypto \<Rightarrow> aead \<Rightarrow> device_key \<Rightarrow> jsstring \<Rightarrow> schema option \<Rightarrow> encryption option \<Rightarrow>
    bool list \<Rightarrow> ('s, 's space) act" where
  "open_space S C A gen space sch enc transports =
     bind_act (lift_res (resolveCipher A enc space)) (\<lambda>K.
     bind_act (open_engine S C gen) (\<lambda>e.
     ret (fold (add_link S) transports
       \<lparr>sp_space = space, sp_schema = sch, sp_cipher = K, sp_engine = e, sp_links = [], sp_transportsOpen = True, sp_storageOpen = True\<rparr>)))"

section \<open>Data\<close>

definition space_insert :: "'s storage_ops \<Rightarrow> crypto \<Rightarrow> host \<Rightarrow> nat \<Rightarrow> bytes \<Rightarrow> (nat \<Rightarrow> draw) \<Rightarrow> jsstring \<Rightarrow>
    (jsstring \<times> jsval) list \<Rightarrow> 's space \<Rightarrow> (space_error + jsstring) \<times> 's space" where
  "space_insert S C H date rand ds table values d =
     (case (case sp_schema d of Some sch \<Rightarrow> validateInsert H sch table values | None \<Rightarrow> Inr values) of
        Inl err \<Rightarrow> (Inl (Refused err), d)
      | Inr out \<Rightarrow> on_space (insert_row S C (sp_cipher d) date rand ds table out) d)"

definition space_update :: "'s storage_ops \<Rightarrow> crypto \<Rightarrow> host \<Rightarrow> (nat \<Rightarrow> draw) \<Rightarrow> jsstring \<Rightarrow> jsstring \<Rightarrow>
    (jsstring \<times> jsval) list \<Rightarrow> 's space \<Rightarrow> (space_error + unit) \<times> 's space" where
  "space_update S C H ds table row values d =
     (case (case sp_schema d of Some sch \<Rightarrow> validateUpdate H sch table values | None \<Rightarrow> Inr values) of
        Inl err \<Rightarrow> (Inl (Refused err), d)
      | Inr out \<Rightarrow> on_space (update_row S C (sp_cipher d) ds table row out) d)"

definition space_delete :: "'s storage_ops \<Rightarrow> crypto \<Rightarrow> draw \<Rightarrow> jsstring \<Rightarrow> jsstring \<Rightarrow> 's space \<Rightarrow>
    (space_error + unit) \<times> 's space" where
  "space_delete S C dr table row d = on_space (delete_row S C (sp_cipher d) dr table row) d"

definition space_get :: "'s storage_ops \<Rightarrow> jsstring \<Rightarrow> jsstring \<Rightarrow> 's space \<Rightarrow> (jsstring, jsval) jsmap option result" where
  "space_get S table row d = get S (sp_cipher d) table row (sp_engine d)"

definition space_list :: "'s storage_ops \<Rightarrow> jsstring \<Rightarrow> 's space \<Rightarrow> (jsstring, jsval) jsmap list result" where
  "space_list S table d = list_all_rows S (sp_cipher d) table (sp_engine d)"

section \<open>Synchronization\<close>

text \<open>\<open>connected i\<close> is \<open>connected_of\<close> transport \<open>i\<close>.\<close>

definition space_peers :: "(nat \<Rightarrow> jsstring list) \<Rightarrow> 's space \<Rightarrow> jsstring list" where
  "space_peers connected d =
     set_of (concat (map (\<lambda>(ro, r). peerIds r) (sp_links d)) @ concat (map connected [0..<length (sp_links d)]))"

definition space_frontier :: "'s storage_ops \<Rightarrow> 's space \<Rightarrow> frontier" where
  "space_frontier S d = engine_frontier S (sp_engine d)"

definition space_compact :: "'s storage_ops \<Rightarrow> bool \<Rightarrow> bool \<Rightarrow> 's space \<Rightarrow>
    (space_error + nat \<times> nat \<times> jsstring list) \<times> 's space" where
  "space_compact S includeTombstones dryRun =
     on_space (bind_act (compact S includeTombstones dryRun)
       (\<lambda>stats. ret (removed stats, rowsReclaimed stats, blockedBy stats)))"

definition space_close :: "'s space \<Rightarrow> 's space" where
  "space_close d = d\<lparr>sp_links := map (\<lambda>(ro, r). (ro, snd (stop r))) (sp_links d),
     sp_transportsOpen := False, sp_storageOpen := False\<rparr>"

section \<open>What the transports do\<close>

text \<open>A step of one replicator; then the others attend to what it changed.\<close>

definition on_link :: "nat \<Rightarrow> (replicator_opts \<Rightarrow> ('s replicator, unit) act) \<Rightarrow> 's space \<Rightarrow> 's space" where
  "on_link i m d =
     (if i < length (sp_links d) then
        (let (ro, r) = sp_links d ! i;
             r' = snd (m ro r)
         in d\<lparr>sp_engine := rp_engine r', sp_links := (map (attend (rp_engine r')) (sp_links d))[i := (ro, r')]\<rparr>)
      else d)"

definition space_message :: "'s storage_ops \<Rightarrow> crypto \<Rightarrow> nat \<Rightarrow> nat \<Rightarrow> wire \<Rightarrow> 's space \<Rightarrow> 's space" where
  "space_message S C pt i m = on_link i (\<lambda>ro. deliver S C ro pt m)"

definition space_connected :: "'s storage_ops \<Rightarrow> nat \<Rightarrow> 's space \<Rightarrow> 's space" where
  "space_connected S i = on_link i (\<lambda>ro. peer_connected S ro)"

end
