(* ===== verification/Facade_Properties.thy ===== *)
theory Facade_Properties
  imports Facade Replicator_Properties Schema_Properties Write_Properties
begin

text \<open>
  A whole space: its engine is a reachable one and shared by all its replicators whatever the
  application and the transports do; every local write goes out on every transport; and what a
  validated insert makes of a row when it is read back.
\<close>

section \<open>Runs of a space\<close>

definition wf_schema :: "schema \<Rightarrow> bool" where
  "wf_schema sch \<longleftrightarrow> (\<forall>(t, sh) \<in> set sch. \<forall>(c, f) \<in> set sh. wf_val (defaultValue f))"

inductive space_step :: "'s storage_ops \<Rightarrow> crypto \<Rightarrow> host \<Rightarrow> 's space \<Rightarrow> 's space \<Rightarrow> bool" for S C H where
  inserts: "json_values vs \<Longrightarrow> space_step S C H d (snd (space_insert S C H date rand ds t vs d))"
| updates: "json_values vs \<Longrightarrow> space_step S C H d (snd (space_update S C H ds t r vs d))"
| deletes: "space_step S C H d (snd (space_delete S C dr t r d))"
| compacts: "space_step S C H d (snd (space_compact S gc dry d))"
| receives: "wf_wire m \<Longrightarrow> space_step S C H d (space_message S C pt i m d)"
| connects: "space_step S C H d (space_connected S i d)"
| closes: "space_step S C H d (space_close d)"

inductive space_reachable :: "'s storage_ops \<Rightarrow> crypto \<Rightarrow> aead \<Rightarrow> host \<Rightarrow> 's \<Rightarrow> 's space \<Rightarrow> bool" for S C A H s0 where
  opened: "open_space S C A gen space sch enc transports s0 = (Inr d, s') \<Longrightarrow> crypto_key C (e_deviceKey (sp_engine d)) \<Longrightarrow>
    (\<And>sc. sch = Some sc \<Longrightarrow> wf_schema sc) \<Longrightarrow> space_reachable S C A H s0 d"
| step: "space_reachable S C A H s0 d \<Longrightarrow> space_step S C H d d' \<Longrightarrow> space_reachable S C A H s0 d'"

section \<open>Validated values\<close>

text \<open>Whatever the table and the columns are, the columns to be written come from the input or from a default.\<close>

lemma assign_prop_own: "kv \<in> set (own (assign_prop c v out)) \<Longrightarrow> kv = (c, v) \<or> kv \<in> set (own out)"
  using set_map_set_subset[of c v "own out"] by (auto simp: assign_prop_def split: if_splits)

lemma check_columns_own:
  "check_columns_from H sh t vs out = Inr out' \<Longrightarrow> set (own out') \<subseteq> set (own out) \<union> set vs"
proof (induction H sh t vs out rule: check_columns_from.induct)
  case (2 H sh t c v rest out)
  from 2(2) obtain f where "lookup_field (builtin_prop H) sh c = Some f" "check_ref f v c = None"
    "check_columns_from H sh t rest (assign_prop c v out) = Inr out'" by (auto split: option.splits)
  from 2(1)[OF this] show ?case using assign_prop_own by fastforce
qed simp

lemma fill_missing_own:
  "fill_missing H t sh out = Inr out' \<Longrightarrow> set (own out') \<subseteq> set (own out) \<union> {(c, defaultValue f) |c f. (c, f) \<in> set sh}"
proof (induction H t sh out rule: fill_missing.induct)
  case (2 H t c f rest out)
  show ?case
  proof (cases "in_out (proto_prop H) c out \<or> \<not> hasDefault f")
    case True
    then have "set (own out') \<subseteq> set (own out) \<union> {(c, defaultValue f) |c f. (c, f) \<in> set rest}"
      using 2(1,3) 2(4) by (auto split: if_splits)
    then show ?thesis by fastforce
  next
    case False
    with 2(2)[of] 2(4) have "set (own out') \<subseteq> set (own (assign_prop c (defaultValue f) out)) \<union> {(c, defaultValue f) |c f. (c, f) \<in> set rest}"
      by simp
    then show ?thesis using assign_prop_own by fastforce
  qed
qed simp

lemma validated_values:
  assumes "json_values vs" "wf_schema sch"
  shows "validateInsert H sch t vs = Inr out \<Longrightarrow> json_values out" "validateUpdate H sch t vs = Inr out \<Longrightarrow> json_values out"
proof -
  have wf: "wf_val (defaultValue f)" if "tableShape sch t = Inr sh" "(c, f) \<in> set (shape_entries sh)" for sh c f
    using that assms(2) by (fastforce simp: tableShape_def wf_schema_def split: option.splits if_splits dest: map_of_SomeD)
  show "json_values out" if ins: "validateInsert H sch t vs = Inr out"
  proof -
    obtain sh o1 o2 where run: "tableShape sch t = Inr sh" "checkColumns H sh t vs = Inr o1"
      "fill_missing H t (shape_entries sh) o1 = Inr o2" "out = own o2"
      using ins by (auto simp: validateInsert_def bind_res_eq_Inr)
    have "set (own o1) \<subseteq> set vs" using check_columns_own[OF run(2)[unfolded checkColumns_def]] by simp
    with fill_missing_own[OF run(3)] wf[OF run(1)] assms(1) show ?thesis unfolding json_values_def run(4) by fast
  qed
  show "json_values out" if upd: "validateUpdate H sch t vs = Inr out"
  proof -
    obtain sh o1 where run: "checkColumns H sh t vs = Inr o1" "out = own o1"
      using upd by (auto simp: validateUpdate_def bind_res_eq_Inr)
    have "set (own o1) \<subseteq> set vs" using check_columns_own[OF run(1)[unfolded checkColumns_def]] by simp
    with assms(1) show ?thesis unfolding json_values_def run(2) by fast
  qed
qed

section \<open>The shared engine\<close>

text \<open>
  \<open>linked\<close>: the replicator holds the engine of the space and satisfies its own invariant; it runs exactly
  while the transports are open.
\<close>

definition linked :: "('s engine \<Rightarrow> bool) \<Rightarrow> jsstring \<Rightarrow> 's space \<Rightarrow> replicator_opts \<times> 's replicator \<Rightarrow> bool" where
  "linked R dev d l \<longleftrightarrow> rp_engine (snd l) = sp_engine d \<and> ro_space (fst l) = sp_space d \<and>
     rp_started (snd l) = sp_transportsOpen d \<and> replicator_inv R (fst l) dev (snd l)"

definition space_inv :: "('s engine \<Rightarrow> bool) \<Rightarrow> jsstring \<Rightarrow> 's space \<Rightarrow> bool" where
  "space_inv R dev d \<longleftrightarrow> R (sp_engine d) \<and> (\<forall>e. R e \<longrightarrow> e_deviceId e = dev) \<and> (\<forall>sc. sp_schema d = Some sc \<longrightarrow> wf_schema sc) \<and>
     (\<forall>l \<in> set (sp_links d). linked R dev d l)"

lemma running_started: "replicator_inv R ro dev r \<Longrightarrow> rp_started r \<Longrightarrow> running R ro dev r"
  by (auto simp: replicator_inv_def)

lemma attend_linked:
  assumes "linked R dev d l" "R e"
  shows "linked R dev (d\<lparr>sp_engine := e, sp_links := ls\<rparr>) (attend e l)"
proof -
  have "keeps R (\<lambda>_. (Inr () :: unit result, e))" using assms(2) by (simp add: keeps_def)
  from inv_on_engine[OF this] assms(1) on_engine_runs(2,3)[of "fst l" "\<lambda>_. (Inr (), e)" "snd l"]
  show ?thesis by (simp add: linked_def attend_def)
qed

lemma on_space_inv:
  assumes "space_inv R dev d" "keeps R m"
  shows "space_inv R dev (snd (on_space m d))"
proof -
  obtain res e where m: "m (sp_engine d) = (res, e)" by fastforce
  then have "R e" using assms keepsD[OF assms(2) _ m] by (simp add: space_inv_def)
  note l = attend_linked[where R = R, OF _ this]
  show ?thesis using assms(1) \<open>R e\<close> by (auto simp: on_space_def m space_inv_def intro!: l)
qed

lemma on_link_inv:
  assumes d: "space_inv R dev d"
    and m: "\<And>ro r. replicator_inv R ro dev r \<Longrightarrow> replicator_inv R ro dev (snd (m ro r)) \<and> rp_started (snd (m ro r)) = rp_started r"
  shows "space_inv R dev (on_link i m d)"
proof (cases "i < length (sp_links d)")
  case True
  obtain ro r where l: "sp_links d ! i = (ro, r)" by fastforce
  let ?r = "snd (m ro r)"
  have r: "linked R dev d (ro, r)" using d True l nth_mem[OF True] by (simp add: space_inv_def)
  have r': "replicator_inv R ro dev ?r" "rp_started ?r = rp_started r" using m[of ro r] r by (simp_all add: linked_def)
  then have e: "R (rp_engine ?r)" by (auto simp: replicator_inv_def sound_def)
  let ?ls = "(map (attend (rp_engine ?r)) (sp_links d))[i := (ro, ?r)]"
  let ?d = "d\<lparr>sp_engine := rp_engine ?r, sp_links := ?ls\<rparr>"
  have "linked R dev ?d (ro, ?r)" using r r' by (simp add: linked_def)
  moreover have "\<forall>l \<in> set (sp_links d). linked R dev ?d (attend (rp_engine ?r) l)"
    using d attend_linked[where R = R, OF _ e] unfolding space_inv_def by blast
  moreover have "set ?ls \<subseteq> insert (ro, ?r) (attend (rp_engine ?r) ` set (sp_links d))"
    using set_update_subset_insert[of "map (attend (rp_engine ?r)) (sp_links d)"] by simp
  ultimately have "\<forall>l \<in> set ?ls. linked R dev ?d l" by blast
  then show ?thesis using True d e by (simp add: on_link_def l Let_def) (simp add: space_inv_def)
next
  case False
  then show ?thesis using d by (simp add: on_link_def)
qed

text \<open>Messages and reports of links, opening and closing.\<close>

lemma start_runs: "rp_engine (snd (start S ro (new_replicator e))) = e" "rp_started (snd (start S ro (new_replicator e)))"
  by (simp_all add: start_def rp_subscribe_def new_replicator_def sendHello_def send_hello_def send_def modify_def Let_def)

lemma add_link_inv:
  assumes d: "space_inv R dev d" "sp_transportsOpen d" and R: "remote_closed S C R" "\<And>m. local_call S C K m \<Longrightarrow> keeps R m"
  shows "space_inv R dev (add_link S b d) \<and> sp_transportsOpen (add_link S b d)"
proof -
  let ?ro = "\<lparr>ro_space = sp_space d, ro_links = b\<rparr>"
  have "replicator_inv R ?ro dev (new_replicator (sp_engine d))"
    using d(1) by (simp add: replicator_inv_def new_replicator_def space_inv_def)
  from replicator_step_inv[OF replicator_step.starts this R]
  have "replicator_inv R ?ro dev (snd (start S ?ro (new_replicator (sp_engine d))))" .
  then have "linked R dev d (?ro, snd (start S ?ro (new_replicator (sp_engine d))))"
    using d(2) by (simp add: linked_def start_runs)
  moreover have "linked R dev (d\<lparr>sp_links := ls\<rparr>) l = linked R dev d l" for ls l by (simp add: linked_def)
  ultimately show ?thesis using d by (auto simp: add_link_def Let_def space_inv_def)
qed

lemma close_inv:
  assumes "space_inv R dev d" shows "space_inv R dev (space_close d)"
proof -
  have "linked R dev (space_close d) (ro, snd (stop r))" if "linked R dev d (ro, r)" for ro r
    using that by (auto simp: linked_def space_close_def stop_def bind_act_eq modify_def peers_change_def replicator_inv_def sound_def)
  then show ?thesis using assms by (auto simp: space_inv_def space_close_def)
qed

lemma deliver_started: "rp_started (snd (deliver S C ro pt m r)) = rp_started r"
  if "replicator_inv R ro dev r" "remote_closed S C R" "wf_wire m"
proof (cases "rp_started r")
  case True
  from running_started[OF that(1) True] keeps_handle[OF that(2,3), of ro dev pt]
  have "running R ro dev (snd (handled S C ro pt m r))" by (simp add: keeps_def)
  then show ?thesis using True by (simp add: deliver_eq sound_def)
next
  case False
  then show ?thesis using that(1) by (auto simp: deliver_eq replicator_inv_def sound_def)
qed

lemma message_inv:
  assumes "space_inv R dev d" "remote_closed S C R" "wf_wire m" and K: "\<And>m. local_call S C K m \<Longrightarrow> keeps R m"
  shows "space_inv R dev (space_message S C pt i m d)"
  unfolding space_message_def
  using replicator_step_inv[OF replicator_step.delivers[OF assms(3)] _ assms(2) K] deliver_started[OF _ assms(2,3)]
  by (intro on_link_inv[OF assms(1)]) blast

lemma connected_inv:
  assumes "space_inv R dev d" "remote_closed S C R" and K: "\<And>m. local_call S C K m \<Longrightarrow> keeps R m"
  shows "space_inv R dev (space_connected S i d)"
proof -
  have "rp_started (snd (peer_connected S ro r)) = rp_started r" for ro r
    by (simp add: peer_connected_def sendHello_def send_hello_def send_def modify_def Let_def)
  then show ?thesis
    unfolding space_connected_def using replicator_step_inv[OF replicator_step.links _ assms(2) K]
    by (intro on_link_inv[OF assms(1)]) blast
qed

lemma space_parts:
  "sp_cipher (snd (on_space m d)) = sp_cipher d" "sp_cipher (on_link i n d) = sp_cipher d" "sp_cipher (space_close d) = sp_cipher d"
  by (simp_all add: on_space_def on_link_def space_close_def Let_def case_prod_beta)

context storage_adapter
begin

lemma space_step_inv:
  assumes s0: "inv s0" "replica_ok C (view s0)" and step: "space_step S C H d d'"
    and d: "space_inv (reached S C (sp_cipher d) s0 k) dev d"
  shows "sp_cipher d' = sp_cipher d \<and> space_inv (reached S C (sp_cipher d) s0 k) dev d'"
proof -
  note remote = reached_remote[OF s0, of "sp_cipher d" k] and local = reached_local[OF s0, of "sp_cipher d" _ k]
  have sch: "wf_schema sc" if "sp_schema d = Some sc" for sc using d that by (simp add: space_inv_def)
  have ins: "keeps (reached S C (sp_cipher d) s0 k) (insert_row S C (sp_cipher d) date rand ds t vs)"
    and upd: "keeps (reached S C (sp_cipher d) s0 k) (update_row S C (sp_cipher d) ds t r vs)" if "json_values vs" for date rand ds t r vs
    by (rule reached_keeps[OF s0], erule engine_step.insert[OF that])
      (rule reached_keeps[OF s0], erule engine_step.update[OF that])
  have del: "keeps (reached S C (sp_cipher d) s0 k) (delete_row S C (sp_cipher d) dr t r)" for dr t r
    by (rule reached_keeps[OF s0]) (rule engine_step.delete)
  have com: "keeps (reached S C (sp_cipher d) s0 k) (compact S gc dry)" for gc dry
    by (rule reached_keeps[OF s0]) (rule engine_step.compaction)
  note run = on_space_inv[OF d]
  from step show ?thesis
  proof cases
    case (inserts vs date rand ds t)
    then show ?thesis using d run[OF ins] validated_values(1)[OF inserts(2) sch]
      by (auto simp: space_insert_def space_parts split: option.splits sum.splits)
  next
    case (updates vs ds t r)
    then show ?thesis using d run[OF upd] validated_values(2)[OF updates(2) sch]
      by (auto simp: space_update_def space_parts split: option.splits sum.splits)
  next
    case (deletes dr t r)
    then show ?thesis using run[OF del] by (simp add: space_delete_def space_parts)
  next
    case (compacts gc dry)
    have "keeps (reached S C (sp_cipher d) s0 k) (bind_act (compact S gc dry) (\<lambda>st. ret (removed st, rowsReclaimed st, blockedBy st)))"
      by (intro keeps_rules com)
    from run[OF this] show ?thesis unfolding compacts space_compact_def by (simp add: space_parts)
  next
    case (receives m pt i)
    then show ?thesis using message_inv[OF d remote receives(2) local] by (simp add: space_message_def space_parts)
  next
    case (connects i)
    then show ?thesis using connected_inv[OF d remote local] by (simp add: space_connected_def space_parts)
  next
    case closes
    then show ?thesis using close_inv[OF d] by (simp add: space_parts)
  qed
qed

lemma open_space_inv:
  assumes s0: "inv s0" "replica_ok C (view s0)"
    and run: "open_space S C A gen space sch enc transports s0 = (Inr d, s')" and key: "crypto_key C (e_deviceKey (sp_engine d))"
    and sch: "\<And>sc. sch = Some sc \<Longrightarrow> wf_schema sc"
  shows "\<exists>k. space_inv (reached S C (sp_cipher d) s0 k) (deviceIdFromPublicKey C (publicKey k)) d"
proof -
  obtain K e s1 where e: "open_engine S C gen s0 = (Inr e, s1)"
    and d: "d = fold (add_link S) transports
       \<lparr>sp_space = space, sp_schema = sch, sp_cipher = K, sp_engine = e, sp_links = [], sp_transportsOpen = True, sp_storageOpen = True\<rparr>"
    using run by (auto simp: open_space_def bind_act_eq lift_res_def ret_def split: sum.splits prod.splits)
  have parts: "sp_engine (fold (add_link S) ts x) = sp_engine x" "sp_cipher (fold (add_link S) ts x) = sp_cipher x" for ts x
    by (induction ts arbitrary: x) (simp_all add: add_link_def Let_def)
  let ?k = "e_deviceKey e" and ?dev = "deviceIdFromPublicKey C (publicKey (e_deviceKey e))"
  let ?R = "reached S C K s0 ?k"
  have "crypto_key C ?k" using key by (simp add: d parts)
  then have "?R e" unfolding reached_def using reachable.start[OF e] by simp
  then have base: "space_inv ?R ?dev \<lparr>sp_space = space, sp_schema = sch, sp_cipher = K, sp_engine = e, sp_links = [], sp_transportsOpen = True, sp_storageOpen = True\<rparr>"
    using reached_device[OF s0] sch by (simp add: space_inv_def)
  have "space_inv ?R ?dev (fold (add_link S) ts x)" if "space_inv ?R ?dev x" "sp_transportsOpen x" for ts x
    using that
  proof (induction ts arbitrary: x)
    case (Cons b ts)
    from add_link_inv[OF Cons.prems reached_remote[OF s0] reached_local[OF s0]] Cons.IH show ?case by simp
  qed simp
  from this[OF base] show ?thesis unfolding d parts by auto
qed

lemma space_reachable_inv:
  assumes s0: "inv s0" "replica_ok C (view s0)" and "space_reachable S C A H s0 d"
  shows "\<exists>k. space_inv (reached S C (sp_cipher d) s0 k) (deviceIdFromPublicKey C (publicKey k)) d"
  using assms(3)
proof (induction rule: space_reachable.induct)
  case (opened gen space sch enc transports d s')
  then show ?case using open_space_inv[OF s0] by blast
next
  case (step d d')
  then show ?case using space_step_inv[OF s0 step.hyps(2)] by metis
qed

end

section \<open>Every write goes out\<close>

lemma attend_sends:
  assumes l: "linked R dev d (ro, r)" and ev: "e_events e = e_events (sp_engine d) @ [ev]"
  shows "attend e (ro, r) = (ro, r\<lparr>rp_engine := e, rp_sent := rp_sent r @
    (if sp_transportsOpen d then map (msg ro e) (tail_bodies ev) else [])\<rparr>)"
proof -
  have "OnChange \<in> set (rp_unsubs r) \<longleftrightarrow> sp_transportsOpen d"
    using l by (auto simp: linked_def replicator_inv_def sound_def)
  then show ?thesis using l ev
    by (simp add: attend_def on_engine_def linked_def Let_def bind_act_eq send_all_runs lift_res_def)
qed

lemma tail_of_write:
  "ev_origin ev = Local \<Longrightarrow> concat (map ops_raw (tail_bodies ev)) = map op_to_js (ev_ops ev)"
  "b \<in> set (tail_bodies ev) \<Longrightarrow> \<exists>raw. b = Ops None raw \<and> raw \<noteq> [] \<and> length raw \<le> OPS_PER_MESSAGE"
proof -
  have n: "0 < OPS_PER_MESSAGE" by (simp add: OPS_PER_MESSAGE_def)
  have "concat (map (map op_to_js) (chunks (ev_ops ev) OPS_PER_MESSAGE)) = map op_to_js (ev_ops ev)"
    by (simp only: map_concat[symmetric] chunks_concat[OF n])
  then show "ev_origin ev = Local \<Longrightarrow> concat (map ops_raw (tail_bodies ev)) = map op_to_js (ev_ops ev)"
    by (simp add: tail_bodies_def comp_def)
  show "b \<in> set (tail_bodies ev) \<Longrightarrow> \<exists>raw. b = Ops None raw \<and> raw \<noteq> [] \<and> length raw \<le> OPS_PER_MESSAGE"
    using chunks_length[OF n] by (fastforce simp: tail_bodies_def split: if_splits)
qed

text \<open>What a link has sent on account of a write of \<open>ps\<close>.\<close>

definition announced :: "op list \<Rightarrow> 's space \<Rightarrow> replicator_opts \<times> 's replicator \<Rightarrow> replicator_opts \<times> 's replicator \<Rightarrow> bool" where
  "announced ps d = (\<lambda>(ro, r) (ro', r'). ro' = ro \<and> (\<exists>new. rp_sent r' = rp_sent r @ new \<and>
     (if sp_transportsOpen d
      then concat (map (ops_raw \<circ> w_body) new) = map op_to_js ps \<and>
        (\<forall>m \<in> set new. w_space m = sp_space d \<and> w_from m = e_deviceId (sp_engine d) \<and>
           (\<exists>raw. w_body m = Ops None raw \<and> raw \<noteq> [] \<and> length raw \<le> OPS_PER_MESSAGE))
      else new = [])))"

lemma attend_announced:
  assumes l: "linked R dev d l" and ev: "e_events e = e_events (sp_engine d) @ [ev]" "ev_origin ev = Local" "e_deviceId e = e_deviceId (sp_engine d)"
  shows "announced (ev_ops ev) d l (attend e l)"
proof -
  obtain ro r where r: "l = (ro, r)" by fastforce
  let ?new = "map (msg ro e) (tail_bodies ev)"
  have raws: "concat (map (ops_raw \<circ> w_body) ?new) = map op_to_js (ev_ops ev)"
    using tail_of_write(1)[OF ev(2)] by (simp add: comp_def msg_def)
  have "\<forall>m \<in> set ?new. w_space m = sp_space d \<and> w_from m = e_deviceId (sp_engine d) \<and>
      (\<exists>raw. w_body m = Ops None raw \<and> raw \<noteq> [] \<and> length raw \<le> OPS_PER_MESSAGE)"
    using l tail_of_write(2) by (auto simp: msg_def r linked_def ev(3))
  with raws show ?thesis
    unfolding r attend_sends[OF l[unfolded r] ev(1)] announced_def by auto
qed

lemma on_space_ok: "on_space m d = (Inr x, d') \<longleftrightarrow> (\<exists>e. m (sp_engine d) = (Inr x, e) \<and>
    d' = d\<lparr>sp_engine := e, sp_links := map (attend e) (sp_links d)\<rparr>)"
  by (cases "m (sp_engine d)") (auto simp: on_space_def map_sum_def split: sum.splits)

context storage_adapter
begin

text \<open>A local write that returned is one update of the engine, whatever method made it.\<close>

lemma space_write:
  assumes vs: "json_values vs" and sch: "\<And>sc. sp_schema d = Some sc \<Longrightarrow> wf_schema sc"
    and run: "(Inr x, d') \<in> {space_update S C H ds t r vs d, space_delete S C dr t r d,
      map_prod (map_sum id (\<lambda>_. ())) id (space_insert S C H date rand ds t vs d)}"
  obtains ds' r' vs' e' where "update_row S C (sp_cipher d) ds' t r' vs' (sp_engine d) = (Inr (), e')" "json_values vs'"
    "d' = d\<lparr>sp_engine := e', sp_links := map (attend e') (sp_links d)\<rparr>"
proof -
  consider "space_update S C H ds t r vs d = (Inr (), d')" | "space_delete S C dr t r d = (Inr (), d')"
    | row where "space_insert S C H date rand ds t vs d = (Inr row, d')"
    using run by (auto simp: prod_eq_iff map_sum_def split: sum.splits)
  moreover have ok: "json_values out" if "sp_schema d = Some sc" "validateUpdate H sc t vs = Inr out \<or> validateInsert H sc t vs = Inr out" for sc out
    using that validated_values[OF vs sch] by blast
  ultimately show ?thesis
  proof cases
    case 1
    then obtain out where "json_values out" "on_space (update_row S C (sp_cipher d) ds t r out) d = (Inr (), d')"
      using vs ok by (auto simp: space_update_def split: option.splits sum.splits)
    then show ?thesis using that by (auto simp: on_space_ok)
  next
    case 2
    then show ?thesis using that wf_val_tombstone by (auto simp: space_delete_def delete_row_update json_values_def on_space_ok)
  next
    case 3
    then obtain out where "json_values out" "on_space (insert_row S C (sp_cipher d) date rand ds t out) d = (Inr row, d')"
      using vs ok by (auto simp: space_insert_def split: option.splits sum.splits)
    then show ?thesis using that by (auto simp: on_space_ok insert_row_update split: sum.splits prod.splits)
  qed
qed

end

lemma mem_space_inv:
  assumes "space_reachable memory_adapter C A H new_memory d"
  obtains k where "space_inv (reached memory_adapter C (sp_cipher d) new_memory k) (deviceIdFromPublicKey C (publicKey k)) d"
  using mem.space_reachable_inv[OF new_memory_inv new_memory_ok assms] by blast

text \<open>C27. A write on one device goes out on every transport. In any space that was opened and then used,
connected and written to in any way, all replicators share its engine, whose state is a reachable
one. Each insert, update or delete that returns adds operations of one row of its table to the log,
all of them new, with increasing timestamps, so that they are all different; its subscribers are told of
exactly these, in that order; and every transport sends exactly these, once each and in that order,
in messages to nobody in particular with at most 500 each, or nothing once the space is closed.\<close>

theorem write_announced:
  assumes "space_reachable memory_adapter C A H new_memory d" "json_values vs"
    and "(Inr x, d') \<in> {space_update memory_adapter C H ds t r vs d, space_delete memory_adapter C dr t r d,
      map_prod (map_sum id (\<lambda>_. ())) id (space_insert memory_adapter C H date rand ds t vs d)}"
  shows "mem_reachable C (sp_cipher d) (sp_engine d') \<and> (\<forall>l \<in> set (sp_links d'). rp_engine (snd l) = sp_engine d') \<and>
    (\<exists>ps r'. mem.logged (sp_engine d') = mem.logged (sp_engine d) \<union> set ps \<and>
       (\<forall>p \<in> set ps. o_table p = t \<and> o_row p = r' \<and> p \<notin> mem.logged (sp_engine d)) \<and> sorted_wrt (<) (map o_hlc ps) \<and>
       map ev_ops (e_events (sp_engine d')) = map ev_ops (e_events (sp_engine d)) @ [ps] \<and>
       list_all2 (announced ps d) (sp_links d) (sp_links d'))"
proof -
  obtain k where d: "space_inv (reached memory_adapter C (sp_cipher d) new_memory k) (deviceIdFromPublicKey C (publicKey k)) d"
    by (rule mem_space_inv[OF assms(1)])
  let ?R = "reached memory_adapter C (sp_cipher d) new_memory k" and ?dev = "deviceIdFromPublicKey C (publicKey k)"
  have sch: "\<And>sc. sp_schema d = Some sc \<Longrightarrow> wf_schema sc" and e: "?R (sp_engine d)"
    and links: "\<forall>l \<in> set (sp_links d). linked ?R ?dev d l" and dev: "\<forall>e. ?R e \<longrightarrow> e_deviceId e = ?dev"
    using d by (simp_all add: space_inv_def)
  obtain ds' r' vs' e' where w: "update_row memory_adapter C (sp_cipher d) ds' t r' vs' (sp_engine d) = (Inr (), e')" "json_values vs'"
    "d' = d\<lparr>sp_engine := e', sp_links := map (attend e') (sp_links d)\<rparr>" by (rule mem.space_write[OF assms(2) sch assms(3)])
  have reach: "mem_reachable C (sp_cipher d) (sp_engine d)" using e by (simp add: reached_def)
  have e': "?R e'" by (rule mem.reached_step[OF new_memory_inv new_memory_ok e engine_step.update[OF w(2,1)]])
  have good: "mem.good C (sp_engine d)" "crypto_key C (e_deviceKey (sp_engine d))" using mem_reachable_good[OF reach] by simp_all
  from mem.update_row_logged[OF good w(2)[unfolded json_values_def] w(1)] obtain ps where ps:
    "mem.logged e' = mem.logged (sp_engine d) \<union> set ps" "\<forall>p \<in> set ps. o_table p = t \<and> o_row p = r' \<and> p \<notin> mem.logged (sp_engine d)"
    "e_events e' = e_events (sp_engine d) @ [\<lparr>ev_changes = changed_rows ps, ev_ops = ps, ev_origin = Local\<rparr>]" by blast
  have order: "sorted_wrt (<) (map o_hlc ps)"
    using mem.update_row_spec(2)[OF good w(2)[unfolded json_values_def] w(1) refl] ps(3) by auto
  have same: "e_deviceId e' = e_deviceId (sp_engine d)" using dev e e' by metis
  have "announced ps d l (attend e' l)" if "l \<in> set (sp_links d)" for l
    using attend_announced[OF links[rule_format, OF that] ps(3) _ same] by simp
  then have sent: "list_all2 (announced ps d) (sp_links d) (map (attend e') (sp_links d))"
    by (simp add: list_all2_map2 list_all2_same)
  have "\<forall>l \<in> set (sp_links d'). rp_engine (snd l) = e'" by (auto simp: w(3) attend_def on_engine_runs(2))
  moreover have "map ev_ops (e_events e') = map ev_ops (e_events (sp_engine d)) @ [ps]" by (simp add: ps(3))
  moreover have "mem_reachable C (sp_cipher d) e'" using e' by (simp add: reached_def)
  ultimately show ?thesis using ps(1,2) order sent by (intro conjI exI[of _ ps] exI[of _ r']) (simp_all add: w(3))
qed

section \<open>Reading an inserted row\<close>

text \<open>What a write without cipher leaves to be read of a row that was not there.\<close>

definition shown :: "jsstring \<Rightarrow> (jsstring \<times> jsval) list \<Rightarrow> jsstring \<rightharpoonup> jsval" where
  "shown row out c = (if c = js ''id'' then Some (JStr row) else if map_of out c = Some JNull then None else map_of out c)"

lemma fresh_row_read:
  assumes reach: "mem_reachable C None e" and out: "json_values out" "dkeys out" "out \<noteq> []"
    and names: "TOMBSTONE_COLUMN \<notin> fst ` set out" "PROTO \<notin> fst ` set out" "js ''id'' \<notin> fst ` set out"
    and fresh: "row_cells (mem_view (e_store e)) t row = Map.empty"
    and run: "update_row memory_adapter C None ds t row out e = (Inr (), e')"
  shows "\<exists>cols. get memory_adapter None t row e' = Inr (Some cols) \<and> dkeys cols \<and> map_of cols = shown row out"
proof -
  have good: "mem.good C e" "crypto_key C (e_deviceKey e)" using mem_reachable_good[OF reach] by simp_all
  have inv: "mem_inv (e_store e')"
    using mem.update_row_spec(1)[OF good out(1)[unfolded json_values_def] run] by (simp add: mem.good_def)
  have plain: "cell_value None p = Inr (o_value p)" for p by (simp add: cell_value_def)
  note U = mem.update_cells[OF good out(1,2) run]
  let ?m = "row_cells (mem_view (e_store e')) t row"
  obtain cols where cols: "get memory_adapter None t row e' = Inr (Some cols)"
    using mem.update_shown[OF good out(1,2) run _ names(1) out(3)] fresh by (auto simp: readable_def tombstoned_def plain)
  have content: "dkeys cols \<and> map_of cols = row_content None row ?m"
    using mem.visible_row_spec(2)[OF inv] cols by (simp add: get_def)
  have "row_content None row ?m c = shown row out c" for c
  proof (cases "map_of out c")
    case None
    then have "c \<notin> fst ` set out" by (simp add: map_of_eq_None_iff)
    then have "?m c = None" using U(2) fresh by simp
    then show ?thesis using None by (auto simp: row_content_def column_value_def shown_def map_add_def)
  next
    case (Some v)
    then have cv: "(c, v) \<in> set out" by (rule map_of_SomeD)
    obtain p where "?m c = Some p" "o_value p = v" using U(1) cv by (force simp: stored_as_def)
    moreover have "c \<noteq> TOMBSTONE_COLUMN" "c \<noteq> PROTO" "c \<noteq> js ''id''" using cv names by force+
    ultimately show ?thesis using Some by (simp add: row_content_def column_value_def shown_def map_add_def plain)
  qed
  with cols content show ?thesis by auto
qed

lemma shown_parses:
  assumes sh: "built_shape sh" "map_of sh (js ''id'') = None"
    and out: "plain_entries out" "columns_typed sh out" "\<forall>(k, f) \<in> set sh. k \<in> fst ` set out \<or> out_opt f"
    and cols: "dkeys cols" "map_of cols = shown row out"
  shows "parseRow sh (JObj cols) = Inr cols \<longleftrightarrow> (\<forall>c f. map_of sh c = Some f \<and> map_of out c = Some JNull \<longrightarrow> isOptional f)"
proof -
  have typed_out: "\<exists>f. map_of sh c = Some f \<and> typed False f v" if "map_of out c = Some v" for c v
    using out(2) that by (auto simp: columns_typed_def dest: map_of_SomeD)
  have entry: "(k, v) \<in> set cols \<longleftrightarrow> shown row out k = Some v" for k v using cols by (metis map_of_eq_Some_iff)
  have plain: "plain_entries cols"
    using cols(1) out(1) plain_title(3) by (fastforce simp: plain_entries_def entry shown_def dest: map_of_SomeD split: if_splits)
  have known: "\<forall>(k, v) \<in> set cols. map_of sh k = None \<longrightarrow> k = js ''id''"
    using typed_out by (fastforce simp: entry shown_def split: if_splits)
  have dk: "dkeys sh" using sh(1) by (simp add: built_shape_def)
  have "(case map_of cols k of Some v \<Rightarrow> typed False f v | None \<Rightarrow> isOptional f) \<longleftrightarrow>
      (map_of out k = Some JNull \<longrightarrow> isOptional f)" if "(k, f) \<in> set sh" for k f
  proof -
    have f: "map_of sh k = Some f" using dk that by simp
    then have id: "k \<noteq> js ''id''" using sh(2) by auto
    show ?thesis
    proof (cases "map_of out k")
      case None
      then have "isOptional f" using out(3) that by (force simp: map_of_eq_None_iff out_opt_def)
      then show ?thesis using None id by (simp add: cols(2) shown_def)
    next
      case (Some v)
      then have "typed False f v" using typed_out f by force
      then show ?thesis using Some id by (simp add: cols(2) shown_def)
    qed
  qed
  then have "(\<forall>(k, f) \<in> set sh. case map_of cols k of Some v \<Rightarrow> typed False f v | None \<Rightarrow> isOptional f) \<longleftrightarrow>
      (\<forall>c f. map_of sh c = Some f \<and> map_of out c = Some JNull \<longrightarrow> isOptional f)"
    using dk by (fastforce simp: map_of_eq_Some_iff)
  with known show ?thesis
    unfolding parseRow_exact[OF sh(1) plain] row_columns_alt[OF sh(1) cols(1)] by simp
qed

text \<open>C28. What a typed insert makes of a row. When a space with a schema and without a cipher inserts, the
new row reads back as its id and every column given or defaulted with its value, except the
columns that hold null, which are absent; so it is a row of the inferred type, the one that
\<open>parseRow\<close> accepts, exactly when no column is null that is only nullable and not optional. An
insert that writes no column returns an id that reads as no row.\<close>

theorem inserted_row_typed:
  assumes "space_reachable memory_adapter C A H new_memory d" "sp_cipher d = None" "sp_schema d = Some sch"
    and sh: "map_of sch t = Some sh" "built_shape sh" "defaults_typed sh" "map_of sh (js ''id'') = None" "map_of sh TOMBSTONE_COLUMN = None"
    and vs: "plain_entries vs" "json_values vs"
    and run: "space_insert memory_adapter C H date rand ds t vs d = (Inr row, d')"
    and fresh: "row_cells (mem_view (e_store (sp_engine d))) t row = Map.empty"
  shows "let out = vs @ defaults_for sh (fst ` set vs) in
    if out = [] then space_get memory_adapter t row d' = Inr None
    else \<exists>cols. space_get memory_adapter t row d' = Inr (Some cols) \<and> map_of cols = shown row out \<and>
      (parseRow sh (JObj cols) = Inr cols \<longleftrightarrow> (\<forall>c f. map_of sh c = Some f \<and> map_of out c = Some JNull \<longrightarrow> isOptional f))"
proof -
  obtain k where d: "space_inv (reached memory_adapter C (sp_cipher d) new_memory k) (deviceIdFromPublicKey C (publicKey k)) d"
    by (rule mem_space_inv[OF assms(1)])
  then have reach: "mem_reachable C None (sp_engine d)" and wf: "wf_schema sch" using assms(2,3) by (simp_all add: space_inv_def reached_def)
  obtain out where v: "validateInsert H sch t vs = Inr out"
    and ins: "on_space (insert_row memory_adapter C None date rand ds t out) d = (Inr row, d')"
    using run assms(2,3) by (auto simp: space_insert_def split: sum.splits)
  have o: "insert_input sh vs" "out = vs @ defaults_for sh (fst ` set vs)"
    using v insert_declared[OF sh(1,2) vs(1)] by blast+
  have out: "plain_entries out" "columns_typed sh out" "\<forall>(k, f) \<in> set sh. k \<in> fst ` set out \<or> out_opt f"
    using insert_typed[OF sh(2,3) vs(1) o(1)] unfolding o(2) Let_def by blast+
  have json: "json_values out" by (rule validated_values(1)[OF vs(2) wf v])
  have dk: "dkeys out" using out(1) by (simp add: plain_entries_def)
  have names: "TOMBSTONE_COLUMN \<notin> fst ` set out" "js ''id'' \<notin> fst ` set out" "PROTO \<notin> fst ` set out"
    using out(1,2) sh(4,5) PROTO_inherited by (force simp: columns_typed_def plain_entries_def plain_name_def)+
  obtain e' where e': "update_row memory_adapter C None ds t row out (sp_engine d) = (Inr (), e')" "sp_engine d' = e'" "sp_cipher d' = None"
    using ins assms(2) by (auto simp: on_space_ok mem.insert_row_update split: sum.splits prod.splits)
  have read: "space_get memory_adapter t row d' = get memory_adapter None t row e'" by (simp add: space_get_def e'(2,3))
  show ?thesis
  proof (cases "out = []")
    case True
    have good: "mem.good C (sp_engine d)" "crypto_key C (e_deviceKey (sp_engine d))" using mem_reachable_good[OF reach] by simp_all
    have "mem_inv (e_store e')"
      using mem.update_row_spec(1)[OF good json[unfolded json_values_def] e'(1)] by (simp add: mem.good_def)
    moreover have "row_cells (mem_view (e_store e')) t row = Map.empty"
      using mem.update_cells(2)[OF good json dk e'(1)] fresh by (auto simp: True)
    ultimately have "get memory_adapter None t row e' = Inr None"
      using mem.visible_row_spec(1) by (simp add: get_def visible_def)
    then show ?thesis using True unfolding o(2)[symmetric] Let_def read by simp
  next
    case False
    obtain cols where "get memory_adapter None t row e' = Inr (Some cols)" "dkeys cols" "map_of cols = shown row out"
      using fresh_row_read[OF reach json dk False names(1,3,2) fresh e'(1)] by blast
    then show ?thesis
      using shown_parses[OF sh(2,4) out] False unfolding o(2)[symmetric] Let_def read by auto
  qed
qed

text \<open>A space over a fresh store with one transport: a table with a note that may be null.\<close>

definition note_shape :: shape where
  "note_shape = [(js ''title'', s_string), (js ''note'', nullable s_string)]"

definition note_space :: "memory space" where
  "note_space = add_link memory_adapter False \<lparr>sp_space = js ''s'', sp_schema = Some [(js ''todo'', note_shape)], sp_cipher = None,
     sp_engine = sample_engine 7, sp_links = [], sp_transportsOpen = True, sp_storageOpen = True\<rparr>"

lemma note_shape_built: "built_shape note_shape" "defaults_typed note_shape" "map_of note_shape (js ''id'') = None"
  "map_of note_shape TOMBSTONE_COLUMN = None" "wf_schema [(js ''todo'', note_shape)]"
proof -
  have "plain_name (js ''note'')" by (simp add: plain_name_def inherited_names_def)
  then show "built_shape note_shape" using plain_title by (auto simp: built_shape_def note_shape_def intro: built.intros)
qed (auto simp: defaults_typed_def note_shape_def field_builders TOMBSTONE_COLUMN_def wf_schema_def)

lemma note_space_reachable: "space_reachable memory_adapter sample_crypto A H new_memory note_space"
proof (rule space_reachable.opened)
  show "open_space memory_adapter sample_crypto A (sample_key 7) (js ''s'') (Some [(js ''todo'', note_shape)]) None [False] new_memory =
      (Inr note_space, new_memory\<lparr>m_key := Some (sample_key 7)\<rparr>)"
    by (simp add: open_space_def resolveCipher_def bind_act_eq lift_res_def ret_def sample_engine_open note_space_def)
  show "crypto_key sample_crypto (e_deviceKey (sp_engine note_space))"
    using mem_reachable_good[OF sample_engine_reachable] by (simp add: note_space_def add_link_def Let_def)
qed (use note_shape_built(5) in simp)

lemma note_space_simps: "sp_engine note_space = sample_engine 7" "sp_cipher note_space = None" "length (sp_links note_space) = 1"
  "sp_schema note_space = Some [(js ''todo'', note_shape)]"
  by (simp_all add: note_space_def add_link_def Let_def)

theorem write_announced_witness:
  "\<forall>H. \<exists>d'. space_update memory_adapter sample_crypto H (\<lambda>_. sample_draw) (js ''todo'') sample_row
      [(js ''title'', JStr [97])] note_space = (Inr (), d') \<and> (\<exists>ps. mem.logged (sp_engine d') = set ps)"
proof
  fix H
  let ?vs = "[(js ''title'', JStr [97])]"
  have vals: "plain_entries ?vs" using plain_title by (simp add: plain_entries_def)
  have "columns_typed note_shape ?vs" by (auto simp: columns_typed_def note_shape_def field_builders intro: typed.intros)
  then have v: "validateUpdate H [(js ''todo'', note_shape)] (js ''todo'') ?vs = Inr ?vs"
    using update_declared[OF _ note_shape_built(1) vals] by (simp add: update_input_def)
  have col: "column_ok (js ''title'')" by (simp add: column_ok_def) code_simp
  have name: "name_re (js ''todo'')" by code_simp
  obtain e' where "update_row memory_adapter sample_crypto None (\<lambda>_. sample_draw) (js ''todo'') sample_row ?vs (sample_engine 7) = (Inr (), e')"
    using name sample_update_total[of "js ''todo''" sample_row ?vs None 7] sample_names(2) col by (auto simp: fits_str)
  then obtain d' where d': "space_update memory_adapter sample_crypto H (\<lambda>_. sample_draw) (js ''todo'') sample_row ?vs note_space = (Inr (), d')"
    by (simp add: space_update_def note_space_simps v on_space_def)
  have "(Inr (), d') \<in> {space_update memory_adapter sample_crypto H (\<lambda>_. sample_draw) (js ''todo'') sample_row ?vs note_space,
      space_delete memory_adapter sample_crypto sample_draw (js ''todo'') sample_row note_space,
      map_prod (map_sum id (\<lambda>_. ())) id (space_insert memory_adapter sample_crypto H 0 [] (\<lambda>_. sample_draw) (js ''todo'') ?vs note_space)}"
    using d' by simp
  from write_announced[OF note_space_reachable[of undefined H] _ this]
  have "\<exists>ps. mem.logged (sp_engine d') = mem.logged (sp_engine note_space) \<union> set ps" by (simp add: json_values_def) blast
  moreover have "mem.logged (sample_engine 7) = {}" by (simp add: sample_log_empty)
  ultimately show "\<exists>d'. space_update memory_adapter sample_crypto H (\<lambda>_. sample_draw) (js ''todo'') sample_row
      ?vs note_space = (Inr (), d') \<and> (\<exists>ps. mem.logged (sp_engine d') = set ps)"
    using d' by (auto simp: note_space_simps)
qed

lemma note_columns: "plain_entries [(js ''title'', JStr [97]), (js ''note'', JNull)]"
  "insert_input note_shape [(js ''title'', JStr [97]), (js ''note'', JNull)]"
  "defaults_for note_shape X = []" "fits JNull"
proof -
  have "plain_name (js ''note'')" by (simp add: plain_name_def inherited_names_def)
  then show "plain_entries [(js ''title'', JStr [97]), (js ''note'', JNull)]" using plain_title by (simp add: plain_entries_def)
  have "columns_typed note_shape [(js ''title'', JStr [97]), (js ''note'', JNull)]"
    by (auto simp: columns_typed_def note_shape_def field_builders intro: typed.intros)
  then show "insert_input note_shape [(js ''title'', JStr [97]), (js ''note'', JNull)]"
    by (simp add: insert_input_def) (simp add: note_shape_def)
qed (simp_all add: defaults_for_def note_shape_def field_builders fits_def)

lemma sample_ulid: "case ulid 1 (replicate 10 0) of Inl e \<Rightarrow> False | Inr row \<Rightarrow> ulid_re row"
  using ulid_chars[of 10 1] ulid_chars[of 16 "bytes_val (replicate 10 0)"] by (simp add: ulid_digits ulid_re_def)

theorem inserted_row_typed_witness:
  "\<forall>H. \<exists>row d' cols. space_insert memory_adapter sample_crypto H 1 (replicate 10 0) (\<lambda>_. sample_draw) (js ''todo'')
      [(js ''title'', JStr [97]), (js ''note'', JNull)] note_space = (Inr row, d') \<and>
     space_get memory_adapter (js ''todo'') row d' = Inr (Some cols) \<and> map_of cols (js ''note'') = None \<and>
     parseRow note_shape (JObj cols) \<noteq> Inr cols"
proof
  fix H
  let ?vs = "[(js ''title'', JStr [97]), (js ''note'', JNull)]"
  have v: "validateInsert H [(js ''todo'', note_shape)] (js ''todo'') ?vs = Inr ?vs"
    using insert_declared[OF _ note_shape_built(1) note_columns(1)] note_columns(2) by (simp add: note_columns(3))
  obtain row where row: "ulid 1 (replicate 10 0) = Inr row" "ulid_re row" using sample_ulid by (auto split: sum.splits)
  have name: "name_re (js ''todo'')" by code_simp
  have cols: "column_ok (js ''title'')" "column_ok (js ''note'')" by (simp_all add: column_ok_def) (code_simp+)
  have fit: "\<forall>(c, v) \<in> set ?vs. column_ok c \<and> fits_stored None (d_nonce sample_draw) c v"
    using cols by (simp add: fits_stored_def fits_str note_columns(4))
  obtain e' where e': "update_row memory_adapter sample_crypto None (\<lambda>_. sample_draw) (js ''todo'') row ?vs (sample_engine 7) = (Inr (), e')"
    using sample_update_total[OF name row(2) fit, of 7] by auto
  have "clockMillisForUlid 1 (sample_engine 7) = 1" by (simp add: clockMillisForUlid_def sample_clock_zero)
  then obtain d' where d': "space_insert memory_adapter sample_crypto H 1 (replicate 10 0) (\<lambda>_. sample_draw) (js ''todo'') ?vs note_space = (Inr row, d')"
    using row(1) e' by (simp add: space_insert_def note_space_simps v on_space_def mem.insert_row_update)
  have sch: "map_of [(js ''todo'', note_shape)] (js ''todo'') = Some note_shape" by simp
  have json: "json_values ?vs" by (simp add: json_values_def)
  have fresh: "row_cells (mem_view (e_store (sp_engine note_space))) (js ''todo'') row = Map.empty" by (simp add: note_space_simps sample_cells)
  from inserted_row_typed[OF note_space_reachable[of undefined H] note_space_simps(2,4) sch note_shape_built(1-4) note_columns(1) json d' fresh]
  obtain cols where c: "space_get memory_adapter (js ''todo'') row d' = Inr (Some cols)" "map_of cols = shown row ?vs"
    "parseRow note_shape (JObj cols) = Inr cols \<longleftrightarrow>
      (\<forall>c f. map_of note_shape c = Some f \<and> map_of ?vs c = Some JNull \<longrightarrow> isOptional f)"
    by (auto simp: note_columns(3))
  have "map_of note_shape (js ''note'') = Some (nullable s_string)" "map_of ?vs (js ''note'') = Some JNull" "\<not> isOptional (nullable s_string)"
    by (simp_all add: note_shape_def field_builders)
  then show "\<exists>row d' cols. space_insert memory_adapter sample_crypto H 1 (replicate 10 0) (\<lambda>_. sample_draw) (js ''todo'') ?vs note_space = (Inr row, d') \<and>
     space_get memory_adapter (js ''todo'') row d' = Inr (Some cols) \<and> map_of cols (js ''note'') = None \<and>
     parseRow note_shape (JObj cols) \<noteq> Inr cols"
    using d' c by (fastforce simp: shown_def)
qed

end
