(* ===== verification/Hooks.thy ===== *)
theory Hooks
  imports Facade
begin

text \<open>
  The React bindings of react/src/index.ts. The runtime of React calls the body of an effect when a
  component is mounted or a dependency has changed, and the function it returned, its cleanup, before
  the next one and when the component goes; a setter sets the state of the hook. The bodies, the
  cleanups and the continuations of the promises are the operations below.
\<close>

section \<open>Opening a space\<close>

text \<open>
  Effects are numbered, and their spaces with them. \<open>us_opening\<close>: the effects whose space is being opened;
  \<open>us_resolved\<close>: every space that \<open>openSpace\<close> has resolved with, whatever became of it; \<open>us_opened\<close>:
  the effects whose variable \<^verbatim>\<open>opened\<close> has been set; \<open>us_closed\<close>: the spaces that \<open>close\<close> was
  called on, in order.
\<close>

record use_space =
  us_db :: "nat option"
  us_effect :: "nat option"
  us_next :: nat
  us_opening :: "nat list"
  us_resolved :: "nat list"
  us_opened :: "nat list"
  us_cancelled :: "nat list"
  us_closed :: "nat list"

definition new_use_space :: use_space where
  "new_use_space = \<lparr>us_db = None, us_effect = None, us_next = 0, us_opening = [], us_resolved = [], us_opened = [], us_cancelled = [], us_closed = []\<rparr>"

definition space_effect :: "use_space \<Rightarrow> use_space" where
  "space_effect u = u\<lparr>us_effect := Some (us_next u), us_next := us_next u + 1, us_opening := us_opening u @ [us_next u]\<rparr>"

definition space_opened :: "nat \<Rightarrow> use_space \<Rightarrow> use_space" where
  "space_opened n u =
     (let u1 = u\<lparr>us_opening := remove1 n (us_opening u), us_resolved := us_resolved u @ [n]\<rparr>
      in if n \<in> set (us_cancelled u) then u1\<lparr>us_closed := us_closed u @ [n]\<rparr>
         else u1\<lparr>us_opened := us_opened u @ [n], us_db := Some n\<rparr>)"

definition space_failed :: "nat \<Rightarrow> use_space \<Rightarrow> use_space" where
  "space_failed n u = u\<lparr>us_opening := remove1 n (us_opening u)\<rparr>"

definition space_cleanup :: "nat \<Rightarrow> use_space \<Rightarrow> use_space" where
  "space_cleanup n u = u\<lparr>us_effect := None, us_cancelled := us_cancelled u @ [n], us_db := None,
     us_closed := us_closed u @ (if n \<in> set (us_opened u) then [n] else [])\<rparr>"

inductive use_space_run :: "use_space \<Rightarrow> bool" where
  begins: "use_space_run new_use_space"
| mounts: "use_space_run u \<Longrightarrow> us_effect u = None \<Longrightarrow> use_space_run (space_effect u)"
| cleans: "use_space_run u \<Longrightarrow> us_effect u = Some n \<Longrightarrow> use_space_run (space_cleanup n u)"
| opens: "use_space_run u \<Longrightarrow> n \<in> set (us_opening u) \<Longrightarrow> use_space_run (space_opened n u)"
| fails: "use_space_run u \<Longrightarrow> n \<in> set (us_opening u) \<Longrightarrow> use_space_run (space_failed n u)"

section \<open>Live views\<close>

text \<open>
  \<open>useRows\<close> and \<open>useRow\<close>: what is shown, whether it is loading, the effect that is live with its key, and the
  refreshes under way, each with its effect, its key and what it has read.
\<close>

record ('k, 'r) live_view =
  lv_shown :: 'r
  lv_loading :: bool
  lv_effect :: "(nat \<times> 'k) option"
  lv_next :: nat
  lv_pending :: "(nat \<times> 'k \<times> 'r option) list"

definition new_view :: "'r \<Rightarrow> ('k, 'r) live_view" where
  "new_view blank = \<lparr>lv_shown = blank, lv_loading = True, lv_effect = None, lv_next = 0, lv_pending = []\<rparr>"

text \<open>The body of the effect, without a key when there is nothing to read; \<open>waiting\<close> is then the loading flag.\<close>

definition view_effect :: "'r \<Rightarrow> bool \<Rightarrow> 'k option \<Rightarrow> ('k, 'r) live_view \<Rightarrow> ('k, 'r) live_view" where
  "view_effect blank waiting key v =
     (case key of
        None \<Rightarrow> v\<lparr>lv_shown := blank, lv_loading := waiting, lv_effect := None\<rparr>
      | Some k \<Rightarrow> v\<lparr>lv_effect := Some (lv_next v, k), lv_next := lv_next v + 1, lv_pending := lv_pending v @ [(lv_next v, k, None)]\<rparr>)"

definition view_cleanup :: "('k, 'r) live_view \<Rightarrow> ('k, 'r) live_view" where
  "view_cleanup v = v\<lparr>lv_effect := None\<rparr>"

definition view_changed :: "('k \<Rightarrow> change_event \<Rightarrow> bool) \<Rightarrow> change_event \<Rightarrow> ('k, 'r) live_view \<Rightarrow> ('k, 'r) live_view" where
  "view_changed touches ev v =
     (case lv_effect v of
        Some (n, k) \<Rightarrow> if touches k ev then v\<lparr>lv_pending := lv_pending v @ [(n, k, None)]\<rparr> else v
      | None \<Rightarrow> v)"

definition view_read :: "nat \<Rightarrow> 'r \<Rightarrow> ('k, 'r) live_view \<Rightarrow> ('k, 'r) live_view" where
  "view_read i r v = v\<lparr>lv_pending := (lv_pending v)[i := (fst (lv_pending v ! i), fst (snd (lv_pending v ! i)), Some r)]\<rparr>"

definition view_settled :: "nat \<Rightarrow> 'r \<Rightarrow> ('k, 'r) live_view \<Rightarrow> ('k, 'r) live_view" where
  "view_settled n next v =
     (if map_option fst (lv_effect v) = Some n then v\<lparr>lv_shown := next, lv_loading := False\<rparr> else v)"

definition drop_refresh :: "nat \<Rightarrow> ('k, 'r) live_view \<Rightarrow> ('k, 'r) live_view" where
  "drop_refresh i v = v\<lparr>lv_pending := take i (lv_pending v) @ drop (Suc i) (lv_pending v)\<rparr>"

text \<open>The two hooks.\<close>

definition rows_touched :: "jsstring \<Rightarrow> change_event \<Rightarrow> bool" where
  "rows_touched table ev \<longleftrightarrow> (\<exists>c \<in> set (ev_changes ev). fst c = table)"

definition row_touched :: "jsstring \<times> jsstring \<Rightarrow> change_event \<Rightarrow> bool" where
  "row_touched key ev \<longleftrightarrow> key \<in> set (ev_changes ev)"

definition useRows_effect :: "bool \<Rightarrow> jsstring \<Rightarrow> (jsstring, 'r list) live_view \<Rightarrow> (jsstring, 'r list) live_view" where
  "useRows_effect db table = view_effect [] True (if db then Some table else None)"

definition useRow_effect :: "bool \<Rightarrow> jsstring \<Rightarrow> jsstring option \<Rightarrow> (jsstring \<times> jsstring, 'r option) live_view \<Rightarrow>
    (jsstring \<times> jsstring, 'r option) live_view" where
  "useRow_effect db table rowId =
     (let given = rowId \<noteq> None \<and> rowId \<noteq> Some []
      in view_effect None given (if db \<and> given then Some (table, the rowId) else None))"

text \<open>
  A run: the engine goes on by \<open>step\<close> and tells its events; the component is rendered with other
  dependencies; a refresh reads, or its read fails; the refreshes settle in the order in which they
  were begun.
\<close>

inductive view_run :: "('e \<Rightarrow> change_event list \<Rightarrow> 'e \<Rightarrow> bool) \<Rightarrow> ('k \<Rightarrow> 'e \<Rightarrow> 'r result) \<Rightarrow> ('k \<Rightarrow> change_event \<Rightarrow> bool) \<Rightarrow> 'r \<Rightarrow> 'e \<Rightarrow>
    ('k, 'r) live_view \<Rightarrow> bool" for step :: "'e \<Rightarrow> change_event list \<Rightarrow> 'e \<Rightarrow> bool" and read :: "'k \<Rightarrow> 'e \<Rightarrow> 'r result"
  and touches :: "'k \<Rightarrow> change_event \<Rightarrow> bool" and blank :: 'r where
  begins: "view_run step read touches blank e (new_view blank)"
| goes_on: "view_run step read touches blank e v \<Longrightarrow> step e evs e' \<Longrightarrow> view_run step read touches blank e' (fold (view_changed touches) evs v)"
| renders: "view_run step read touches blank e v \<Longrightarrow> view_run step read touches blank e (view_effect blank waiting key (view_cleanup v))"
| unmounts: "view_run step read touches blank e v \<Longrightarrow> view_run step read touches blank e (view_cleanup v)"
| reads: "view_run step read touches blank e v \<Longrightarrow> i < length (lv_pending v) \<Longrightarrow> lv_pending v ! i = (n, k, None) \<Longrightarrow> read k e = Inr r \<Longrightarrow>
    view_run step read touches blank e (view_read i r v)"
| fails: "view_run step read touches blank e v \<Longrightarrow> i < length (lv_pending v) \<Longrightarrow> lv_pending v ! i = (n, k, None) \<Longrightarrow> read k e = Inl x \<Longrightarrow>
    view_run step read touches blank e (drop_refresh i v)"
| settles: "view_run step read touches blank e v \<Longrightarrow> lv_pending v = (n, k, Some r) # rest \<Longrightarrow>
    view_run step read touches blank e (view_settled n r (drop_refresh 0 v))"

section \<open>Peers and mutations\<close>

definition use_peers :: "(nat \<Rightarrow> jsstring list) \<Rightarrow> 's space option \<Rightarrow> jsstring list" where
  "use_peers connected db = (case db of None \<Rightarrow> [] | Some d \<Rightarrow> space_peers connected d)"

text \<open>The helpers of \<open>useTable\<close>; without a space they throw.\<close>

definition not_ready :: space_error where
  "not_ready = Thrown (Error (js ''space not ready''))"

definition table_insert :: "'s storage_ops \<Rightarrow> crypto \<Rightarrow> host \<Rightarrow> nat \<Rightarrow> bytes \<Rightarrow> (nat \<Rightarrow> draw) \<Rightarrow> jsstring \<Rightarrow>
    (jsstring \<times> jsval) list \<Rightarrow> 's space option \<Rightarrow> (space_error + jsstring) \<times> 's space option" where
  "table_insert S C H date rand ds table values db =
     (case db of None \<Rightarrow> (Inl not_ready, None) | Some d \<Rightarrow> map_prod id Some (space_insert S C H date rand ds table values d))"

definition table_update :: "'s storage_ops \<Rightarrow> crypto \<Rightarrow> host \<Rightarrow> (nat \<Rightarrow> draw) \<Rightarrow> jsstring \<Rightarrow> jsstring \<Rightarrow>
    (jsstring \<times> jsval) list \<Rightarrow> 's space option \<Rightarrow> (space_error + unit) \<times> 's space option" where
  "table_update S C H ds table row values db =
     (case db of None \<Rightarrow> (Inl not_ready, None) | Some d \<Rightarrow> map_prod id Some (space_update S C H ds table row values d))"

definition table_remove :: "'s storage_ops \<Rightarrow> crypto \<Rightarrow> draw \<Rightarrow> jsstring \<Rightarrow> jsstring \<Rightarrow> 's space option \<Rightarrow>
    (space_error + unit) \<times> 's space option" where
  "table_remove S C dr table row db =
     (case db of None \<Rightarrow> (Inl not_ready, None) | Some d \<Rightarrow> map_prod id Some (space_delete S C dr table row d))"

end
