(* ===== verification/Engine_Changes.thy ===== *)
theory Engine_Changes
  imports Engine_Steps
begin

text \<open>
  What the events of an engine leave out has not changed: whatever an engine does, a row that none of the
  events it raises names is read as before. Compaction raises no event; it removes only rows that
  are not visible.
\<close>

section \<open>The rows of an event\<close>

lemma changed_rows_mem:
  assumes "p \<in> set ps" "no_sep (o_table p)" "no_sep (o_row p)"
  shows "(o_table p, o_row p) \<in> set (changed_rows ps)"
proof -
  have "js_split SEP (o_table p @ [SEP] @ o_row p) = [o_table p, o_row p]"
    using assms(2,3) by (simp add: no_sep_def js_split_append_sep js_split_no_sep)
  then show ?thesis using assms(1) unfolding changed_rows_def by (force simp: image_iff)
qed

lemma merge_untouched: "\<forall>p \<in> set ps. op_cell p \<noteq> x \<Longrightarrow> r_cells (merge ps ck v) x = r_cells v x"
proof -
  have "fold cell_join ps cells x = cells x" if "\<forall>p \<in> set ps. op_cell p \<noteq> x" for cells
    using that by (induction ps arbitrary: cells) (auto simp: cell_join_def)
  then show "\<forall>p \<in> set ps. op_cell p \<noteq> x \<Longrightarrow> r_cells (merge ps ck v) x = r_cells v x" by (simp add: merge_def)
qed

definition same_rows :: "replica \<Rightarrow> replica \<Rightarrow> jsstring \<Rightarrow> jsstring \<Rightarrow> bool" where
  "same_rows v v' t r \<longleftrightarrow> visible v t r = visible v' t r \<and> (visible v t r \<longrightarrow> row_cells v t r = row_cells v' t r)"

lemma same_rows_refl [simp]: "same_rows v v t r"
  by (simp add: same_rows_def)

lemma same_rows_cells: "row_cells v t r = row_cells v' t r \<Longrightarrow> same_rows v v' t r"
  by (simp add: same_rows_def visible_def)

lemma merge_same_rows:
  assumes "\<forall>p \<in> set ps. storable p" "(t, r) \<notin> set (changed_rows ps)"
  shows "same_rows v (merge ps ck v) t r"
proof (rule same_rows_cells)
  have "op_cell p \<noteq> (t, r, c)" if "p \<in> set ps" for p c
    using changed_rows_mem[OF that] assms that by (auto simp: storable_def op_cell_def)
  then show "row_cells v t r = row_cells (merge ps ck v) t r"
    using merge_untouched[of ps _ ck v] by (simp add: row_cells_def fun_eq_iff)
qed

lemma reclaimed_hidden:
  assumes v: "consistent v" and t: "no_sep t" and r: "reclaimable h v (t @ [SEP] @ r)"
  shows "\<not> visible v t r"
proof -
  obtain p where p: "p \<in> ran (r_cells v)" "candidate h p" "rowKeyOf p = t @ [SEP] @ r" using r by (auto simp: reclaimable_def)
  obtain x where x: "r_cells v x = Some p" using p(1) by (auto simp: ran_def)
  have s: "no_sep (o_table p)" using ran_storable[OF v p(1)] by (simp add: storable_def)
  have "js_split SEP (o_table p @ SEP # o_row p) = js_split SEP (t @ SEP # r)" using p(3) by (simp add: rowKeyOf_def)
  then have "o_table p = t" using s t by (simp add: no_sep_def js_split_append_sep)
  moreover from this have "o_row p = r" using p(3) by (simp add: rowKeyOf_def)
  moreover have "x = op_cell p" using consistent_cells[OF v x] by blast
  ultimately have "row_cells v t r TOMBSTONE_COLUMN = Some p" using x p(2) by (simp add: row_cells_def op_cell_def candidate_def)
  then show ?thesis using p(2) by (auto simp: visible_def tombstoned_def candidate_def)
qed

lemma compaction_same_rows:
  assumes "consistent v" "no_sep t" "r_cells v' = (\<lambda>x. if gc \<and> reclaimable h v (row_of_cell x) then None else r_cells v x)"
  shows "same_rows v v' t r"
proof (cases "gc \<and> reclaimable h v (t @ [SEP] @ r)")
  case True
  then have "row_cells v' t r = Map.empty" by (simp add: assms(3) row_cells_def row_of_cell_def fun_eq_iff)
  moreover have "\<not> visible v t r" using reclaimed_hidden[OF assms(1,2)] True by blast
  ultimately show ?thesis by (simp add: same_rows_def) (simp add: visible_def)
next
  case False
  then show ?thesis by (intro same_rows_cells) (auto simp: assms(3) row_cells_def row_of_cell_def fun_eq_iff)
qed

section \<open>One step\<close>

lemma silent_actions:
  "e_events (snd (learnKey C d pk e)) = e_events e"
  "observeRemoteClock S pt s e = (res, e') \<Longrightarrow> e_events e' = e_events e"
  "recordPeerFrontier S peer f e = (res2, e') \<Longrightarrow> e_events e' = e_events e"
  "compact S gc dry e = (res3, e') \<Longrightarrow> e_events e' = e_events e"
  by (auto simp: learnKey_def observeRemoteClock_def receive_stamp_def persist_clock_def recordPeerFrontier_def compact_def
      bind_act_eq on_store_def on_clock_def ret_def lift_res_def Let_def split: prod.splits sum.splits if_splits)

lemma commit_event:
  "commit S ps og e = (Inr u, e') \<Longrightarrow>
    e_events e' = e_events e @ [\<lparr>ev_changes = changed_rows ps, ev_ops = ps, ev_origin = og\<rparr>]"
  by (auto simp: commit_def bind_act_eq on_store_def modify_def split: prod.splits sum.splits)

lemma fresh_ops_mem: "set (fresh_ops S s ops) \<subseteq> set ops"
proof -
  have "set (fold (\<lambda>p fresh. if \<not> hasOp S s (o_id p) \<and> \<not> list_ex (\<lambda>f. o_id f = o_id p) fresh then fresh @ [p] else fresh) ops fr)
      \<subseteq> set fr \<union> set ops" for fr
    by (induction ops arbitrary: fr) (auto split: if_splits, fastforce+)
  then show ?thesis by (force simp: fresh_ops_def)
qed

context storage_adapter
begin

lemma remote_event:
  assumes adm: "admitted C (e_keys e) raw ops" and run: "applyRemoteOps S C pt raw e = (Inr n, e')"
  shows "fresh_ops S (e_store e) ops = [] \<or>
    e_events e' = e_events e @ [\<lparr>ev_changes = changed_rows (fresh_ops S (e_store e) ops), ev_ops = fresh_ops S (e_store e) ops, ev_origin = Remote\<rparr>]"
proof -
  obtain r1 e1 where rcv: "(case max_op ops of None \<Rightarrow> ret () | Some m \<Rightarrow> receive_stamp pt (o_hlc m)) e = (r1, e1)" by fastforce
  have same: "e_store e1 = e_store e" "e_events e1 = e_events e"
    using rcv by (auto simp: receive_stamp_def bind_act_eq on_clock_def ret_def lift_res_def split: option.splits prod.splits sum.splits)
  show ?thesis
    using run[unfolded applyRemoteOps_admitted[OF adm] rcv] same commit_event[of S _ Remote e1]
    by (auto simp: bind_act_eq ret_def split: sum.splits prod.splits if_splits)
qed

text \<open>Whatever the step, a row of no event looks the same.\<close>

lemma update_same_rows:
  assumes good: "good C e" "crypto_key C (e_deviceKey e)" and vs: "json_values vs"
    and run: "update_row S C K ds t r vs e = (res, e')" and ev: "e_events e' = e_events e @ evs"
    and un: "\<forall>ev \<in> set evs. (t', r') \<notin> set (ev_changes ev)"
  shows "same_rows (view (e_store e)) (view (e_store e')) t' r'"
proof (cases res)
  case (Inl x)
  then show ?thesis using update_row_spec(3)[OF good vs[unfolded json_values_def] run] by simp
next
  case (Inr u)
  from update_row_spec(2)[OF good vs[unfolded json_values_def] run Inr] obtain ps where ps:
    "view (e_store e') = merge ps (clock_pair_of (e_clock e')) (view (e_store e))"
    "\<forall>p \<in> set ps. own_op C e t r (clock_tick (e_clock e)) (clock_tick (e_clock e')) p"
    "e_events e' = e_events e @ [\<lparr>ev_changes = changed_rows ps, ev_ops = ps, ev_origin = Local\<rparr>]" by blast
  have "\<forall>p \<in> set ps. storable p" using ps(2) by (simp add: own_op_def)
  moreover have "(t', r') \<notin> set (changed_rows ps)" using un ev ps(3) by auto
  ultimately show ?thesis unfolding ps(1) by (rule merge_same_rows)
qed

lemma step_same_rows:
  assumes good: "good C e" "crypto_key C (e_deviceKey e)" and step: "engine_step S C K e e'"
    and ev: "e_events e' = e_events e @ evs" and un: "\<forall>ev \<in> set evs. (t, r) \<notin> set (ev_changes ev)" and t: "no_sep t"
  shows "same_rows (view (e_store e)) (view (e_store e')) t r"
proof -
  let ?v = "view (e_store e)"
  have ok: "engine_ok C ?v e" and cons: "consistent ?v" using good(1) engine_okD(2) by (auto simp: good_def)
  from step show ?thesis
  proof cases
    case (learn d pk)
    then show ?thesis by (simp add: learnKey_def)
  next
    case (insert vs date rand ds t' res)
    then show ?thesis using update_same_rows[OF good insert(1) _ ev un]
      by (auto simp: insert_row_update split: sum.splits prod.splits)
  next
    case (update vs ds t' r' res)
    then show ?thesis using update_same_rows[OF good update(1) _ ev un] by blast
  next
    case (delete d t' r' res)
    have "json_values [(TOMBSTONE_COLUMN, JBool True)]" using wf_val_tombstone by (simp only: json_values_def)
    from update_same_rows[OF good this delete[unfolded delete_row_update] ev un] show ?thesis .
  next
    case (remote raw pt res)
    show ?thesis
    proof (cases "\<exists>ops. admitted C (e_keys e) raw ops")
      case False
      from applyRemoteOps_rejected[OF this, of S pt] remote(2) show ?thesis by auto
    next
      case True
      then obtain ops where adm: "admitted C (e_keys e) raw ops" by blast
      note A = applyRemoteOps_spec[OF good(1) remote(1) adm remote(2)]
      show ?thesis
      proof (cases res)
        case (Inl x)
        then show ?thesis using A(6) by simp
      next
        case (Inr n)
        let ?f = "fresh_ops S (e_store e) ops"
        have "storable p" if "p \<in> set ?f" for p
        proof -
          have "p \<in> set ops" using that fresh_ops_mem by (rule rev_subsetD)
          then show ?thesis by (rule admitted_op(2)[OF adm remote(1) engine_okD(7)[OF ok]])
        qed
        then have "\<forall>p \<in> set ?f. storable p" by blast
        moreover have "(t, r) \<notin> set (changed_rows ?f)"
        proof (cases "?f = []")
          case False
          then have "evs = [\<lparr>ev_changes = changed_rows ?f, ev_ops = ?f, ev_origin = Remote\<rparr>]"
            using remote_event[OF adm remote(2)[unfolded Inr]] ev by simp
          then show ?thesis using un by simp
        qed (simp add: changed_rows_def set_of_def)
        ultimately show ?thesis using A(5)[OF Inr] merge_same_rows[of ?f t r ?v] by simp
      qed
    qed
  next
    case (observe pt s res)
    then show ?thesis using observeRemoteClock_good(4)[OF good(1)] by (intro same_rows_cells) (simp add: row_cells_def)
  next
    case (ack f peer res)
    then have "r_cells (view (e_store e')) = r_cells ?v"
      using recordPeerFrontier_good(5,6)[OF good(1) ack(2,1)] by (cases res) auto
    then show ?thesis by (intro same_rows_cells) (simp add: row_cells_def)
  next
    case (compaction gc dry res)
    note P = compact_good(5-7)[OF good(1) compaction]
    show ?thesis
    proof (cases res)
      case (Inl x)
      then show ?thesis using P(3) by simp
    next
      case (Inr st)
      then show ?thesis using P(1)[OF Inr] P(2)[OF Inr] compaction_same_rows[OF cons t] by (cases dry) auto
    qed
  next
    case (restart gen s')
    have sha: "\<And>x. length (sha256 C x) = 32" using good(2) by (simp add: crypto_key_def)
    note O = open_good[OF _ engine_okD(1)[OF ok] restart sha]
    have "r_cells (view (e_store e')) = r_cells ?v" using O(2,5) good(1) by (simp add: good_def)
    then show ?thesis by (intro same_rows_cells) (simp add: row_cells_def)
  qed
qed

end

section \<open>Reads of unchanged rows\<close>

text \<open>Rows that are not visible do not count in a list.\<close>

lemma present_filter:
  assumes "\<And>x. x \<in> set xs \<Longrightarrow> \<not> P x \<Longrightarrow> f x = Inr None"
  shows "bind_res (map_res f xs) (\<lambda>rows. Inr (present rows)) = bind_res (map_res f (filter P xs)) (\<lambda>rows. Inr (present rows))"
  using assms
proof (induction xs)
  case (Cons x xs)
  have IH: "bind_res (map_res f xs) (\<lambda>rows. Inr (present rows)) = bind_res (map_res f (filter P xs)) (\<lambda>rows. Inr (present rows))"
    using Cons by simp
  show ?case
  proof (cases "P x")
    case True
    then show ?thesis using IH by (cases "f x"; cases "map_res f xs"; cases "map_res f (filter P xs)"; cases "projr (f x)") auto
  next
    case False
    then have "f x = Inr None" using Cons.prems by simp
    then show ?thesis using IH False by (cases "map_res f xs") auto
  qed
qed simp

context storage_adapter
begin

lemma list_visible:
  assumes "inv s" "no_sep t"
  shows "bind_res (map_res (visible_row S K s t) (sort (listRows S s t))) (\<lambda>rows. Inr (present rows)) =
    bind_res (map_res (visible_row S K s t) (sorted_list_of_set {r. visible (view s) t r})) (\<lambda>rows. Inr (present rows))"
proof -
  let ?xs = "sort (listRows S s t)"
  have hidden: "visible_row S K s t r = Inr None" if "\<not> visible (view s) t r" for r
    using visible_row_spec(1)[OF assms(1)] that by blast
  note L = listRows[OF assms]
  have "visible (view s) t r \<Longrightarrow> r \<in> set ?xs" for r using L by (force simp: visible_def row_cells_def fun_eq_iff)
  then have "set (filter (visible (view s) t) ?xs) = {r. visible (view s) t r}" by auto
  moreover have "sorted (filter (visible (view s) t) ?xs)" "distinct (filter (visible (view s) t) ?xs)" using L sorted_filter[of "\<lambda>x. x" ?xs] by simp_all
  ultimately have "filter (visible (view s) t) ?xs = sorted_list_of_set {r. visible (view s) t r}"
    by (metis sorted_list_of_set.idem_if_sorted_distinct)
  then show ?thesis using present_filter[of ?xs "visible (view s) t" "visible_row S K s t"] hidden by metis
qed

end

lemma mem_row_same:
  assumes "mem_inv s" "mem_inv s'" "same_rows (mem_view s) (mem_view s') t r"
  shows "same_result (rel_option same_obj) (visible_row memory_adapter K s t r) (visible_row memory_adapter K s' t r)"
proof (cases "visible (mem_view s) t r")
  case True
  then show ?thesis using assms(3) by (intro mem2.same_row_cells[OF assms(1,2)]) (simp add: same_rows_def)
next
  case False
  then have "\<not> visible (mem_view s') t r" using assms(3) by (simp add: same_rows_def)
  then have "visible_row memory_adapter K s t r = Inr None" "visible_row memory_adapter K s' t r = Inr None"
    using False mem.visible_row_spec(1)[OF assms(1)] mem.visible_row_spec(1)[OF assms(2)] by blast+
  then show ?thesis by simp
qed

lemma mem_list_same:
  assumes "mem_inv (e_store e)" "mem_inv (e_store e')" "no_sep t"
    and same: "\<And>r. same_rows (mem_view (e_store e)) (mem_view (e_store e')) t r"
  shows "same_result (list_all2 same_obj) (list_all_rows memory_adapter K t e) (list_all_rows memory_adapter K t e')"
proof -
  have v: "{r. visible (mem_view (e_store e')) t r} = {r. visible (mem_view (e_store e)) t r}" using same by (simp add: same_rows_def)
  show ?thesis
    unfolding list_all_rows_def mem.list_visible[OF assms(1,3)] mem.list_visible[OF assms(2,3)] v
    by (rule same_result_bind[OF same_result_map[OF mem_row_same[OF assms(1,2) same]]]) (simp add: present_rel)
qed

end
