(* ===== verification/Hooks_Properties.thy ===== *)
theory Hooks_Properties
  imports Hooks Engine_Changes Write_Properties
begin

text \<open>
  What components may rely on: a space that was opened for a component is closed once when it is no longer
  wanted, and a view shows the current rows once its refreshes have settled.
\<close>

section \<open>Spaces are closed\<close>

definition use_space_inv :: "use_space \<Rightarrow> bool" where
  "use_space_inv u \<longleftrightarrow>
     (\<forall>n. n \<in> set (us_cancelled u) \<longleftrightarrow> n < us_next u \<and> us_effect u \<noteq> Some n) \<and> (\<forall>n. us_effect u = Some n \<longrightarrow> n < us_next u) \<and>
     distinct (us_opening u) \<and> (\<forall>n \<in> set (us_opening u). n < us_next u \<and> n \<notin> set (us_opened u) \<and> n \<notin> set (us_closed u)) \<and>
     distinct (us_closed u) \<and> set (us_closed u) \<subseteq> set (us_cancelled u) \<and>
     (\<forall>n \<in> set (us_resolved u). n < us_next u \<and> n \<notin> set (us_opening u) \<and>
        (n \<in> set (us_closed u) \<longleftrightarrow> n \<in> set (us_cancelled u)) \<and> (n \<in> set (us_opened u) \<or> n \<in> set (us_closed u))) \<and>
     distinct (us_resolved u) \<and> set (us_opened u) \<subseteq> set (us_resolved u) \<and> set (us_closed u) \<subseteq> set (us_resolved u) \<and>
     (\<forall>n. us_db u = Some n \<longleftrightarrow> us_effect u = Some n \<and> n \<in> set (us_opened u))"

lemma use_space_run_inv: "use_space_run u \<Longrightarrow> use_space_inv u"
proof (induction rule: use_space_run.induct)
  case begins
  show ?case by (simp add: use_space_inv_def new_use_space_def)
next
  case (mounts u)
  then show ?case by (auto simp: use_space_inv_def space_effect_def less_Suc_eq)
next
  case (cleans u n)
  then show ?case by (auto simp: use_space_inv_def space_cleanup_def)
next
  case (opens u n)
  then show ?case by (auto simp: use_space_inv_def space_opened_def Let_def)
next
  case (fails u n)
  then show ?case by (auto simp: use_space_inv_def space_failed_def)
qed

text \<open>C30. Spaces are closed. However a component is mounted, rendered for other spaces and unmounted while spaces are
being opened, and whenever \<open>openSpace\<close> resolves: only spaces that were opened are closed, none twice; a
space that has been opened, be it before or after the cleanup of its effect, is either the one of the
live effect, which is on display and open, or it has been closed; and nothing is on display
once the component is gone.\<close>

theorem spaces_closed:
  assumes "use_space_run u"
  shows "distinct (us_closed u) \<and> set (us_closed u) \<subseteq> set (us_resolved u) \<and>
    (\<forall>n. us_db u = Some n \<longrightarrow> us_effect u = Some n \<and> n \<in> set (us_resolved u) \<and> n \<notin> set (us_closed u)) \<and>
    (\<forall>n \<in> set (us_resolved u). us_effect u = Some n \<and> us_db u = Some n \<or> n \<in> set (us_closed u)) \<and>
    (us_effect u = None \<longrightarrow> us_db u = None \<and> set (us_resolved u) = set (us_closed u))"
  using use_space_run_inv[OF assms] unfolding use_space_inv_def by auto

text \<open>A component that is gone before its space is open.\<close>

theorem spaces_closed_witness:
  "us_closed (space_opened 0 (space_cleanup 0 (space_effect new_use_space))) = [0] \<and>
   distinct (us_closed (space_opened 0 (space_cleanup 0 (space_effect new_use_space))))"
proof -
  let ?u = "space_opened 0 (space_cleanup 0 (space_effect new_use_space))"
  have "use_space_run (space_effect new_use_space)" by (rule mounts[OF use_space_run.begins]) (simp add: new_use_space_def)
  then have "use_space_run ?u" by (intro opens cleans) (simp_all add: space_effect_def space_cleanup_def new_use_space_def)
  from spaces_closed[OF this] show ?thesis
    by (simp add: space_opened_def space_effect_def space_cleanup_def new_use_space_def)
qed

section \<open>Views are current\<close>

text \<open>What a view needs of its source: while no event touches a key, what is read there stays the same.\<close>

locale live_source =
  fixes step :: "'e \<Rightarrow> change_event list \<Rightarrow> 'e \<Rightarrow> bool" and read :: "'k \<Rightarrow> 'e \<Rightarrow> 'r result"
    and touches :: "'k \<Rightarrow> change_event \<Rightarrow> bool" and same :: "'r \<Rightarrow> 'r \<Rightarrow> bool" and proper :: "'k \<Rightarrow> bool"
  assumes same_refl: "same r r" and same_trans: "same a b \<Longrightarrow> same b c \<Longrightarrow> same a c"
    and stable: "step e evs e' \<Longrightarrow> proper k \<Longrightarrow> \<forall>ev \<in> set evs. \<not> touches k ev \<Longrightarrow> same_result same (read k e) (read k e')"
begin

lemma unchanged_current:
  assumes "step e evs e'" "proper k" "\<forall>ev \<in> set evs. \<not> touches k ev" "\<And>x. read k e = Inr x \<Longrightarrow> same r x" "read k e' = Inr y"
  shows "same r y"
proof -
  obtain x where "read k e = Inr x" "same x y" using stable[OF assms(1-3)] assms(5) by (cases "read k e") auto
  with assms(4) same_trans show ?thesis by blast
qed

end

text \<open>The refreshes of an effect.\<close>

definition refreshes :: "nat \<Rightarrow> ('k, 'r) live_view \<Rightarrow> (nat \<times> 'k \<times> 'r option) list" where
  "refreshes n v = filter (\<lambda>p. fst p = n) (lv_pending v)"

definition view_inv :: "('k \<Rightarrow> 'e \<Rightarrow> 'r result) \<Rightarrow> ('r \<Rightarrow> 'r \<Rightarrow> bool) \<Rightarrow> ('k \<Rightarrow> bool) \<Rightarrow> 'e \<Rightarrow> ('k, 'r) live_view \<Rightarrow> bool" where
  "view_inv read same proper e v \<longleftrightarrow> (\<forall>p \<in> set (lv_pending v). fst p < lv_next v) \<and>
     (\<forall>n k. lv_effect v = Some (n, k) \<longrightarrow> n < lv_next v \<and> (\<forall>p \<in> set (refreshes n v). fst (snd p) = k) \<and>
       (proper k \<longrightarrow> (if refreshes n v = [] then \<forall>x. read k e = Inr x \<longrightarrow> \<not> lv_loading v \<and> same (lv_shown v) x
          else \<forall>r x. snd (snd (last (refreshes n v))) = Some r \<longrightarrow> read k e = Inr x \<longrightarrow> same r x)))"

lemma changes_refresh: "fold (view_changed touches) evs v = v\<lparr>lv_pending := lv_pending v @
    (case lv_effect v of None \<Rightarrow> [] | Some (n, k) \<Rightarrow> replicate (length (filter (touches k) evs)) (n, k, None))\<rparr>"
proof (induction evs arbitrary: v)
  case Nil
  then show ?case by (simp split: option.split)
next
  case (Cons ev evs)
  then show ?case by (simp add: view_changed_def replicate_append_same split: option.split prod.split)
qed

lemma refreshes_simps:
  "refreshes n (v\<lparr>lv_pending := ps\<rparr>) = filter (\<lambda>p. fst p = n) ps"
  "refreshes n (view_cleanup v) = refreshes n v"
  by (simp_all add: refreshes_def view_cleanup_def)

text \<open>A refresh that reads, or settles, keeps its place among those of its effect.\<close>

lemma filter_update:
  assumes "i < length ps" "fst x = fst (ps ! i)"
  shows "filter (\<lambda>p. fst p = n) (ps[i := x]) = (if fst x = n
    then (filter (\<lambda>p. fst p = n) ps)[length (filter (\<lambda>p. fst p = n) (take i ps)) := x] else filter (\<lambda>p. fst p = n) ps)"
proof -
  have ps: "ps = take i ps @ ps ! i # drop (Suc i) ps" using assms(1) by (simp add: id_take_nth_drop)
  have "ps[i := x] = take i ps @ x # drop (Suc i) ps" using assms(1) by (simp add: upd_conv_take_nth_drop)
  then show ?thesis using arg_cong[OF ps, of "filter (\<lambda>p. fst p = n)"] assms(2) by (auto simp: list_update_append)
qed

lemma last_update: "xs \<noteq> [] \<Longrightarrow> j < length xs \<Longrightarrow> last (xs[j := x]) = (if Suc j = length xs then x else last xs)"
  by (simp add: last_conv_nth nth_list_update) arith

context live_source
begin

lemma reads_inv:
  assumes v: "view_inv read same proper e v" and i: "i < length (lv_pending v)" "lv_pending v ! i = (n, k, None)" and r: "read k e = Inr r"
  shows "view_inv read same proper e (view_read i r v)"
proof -
  let ?ps = "(lv_pending v)[i := (n, k, Some r)]"
  have read: "view_read i r v = v\<lparr>lv_pending := ?ps\<rparr>" by (simp add: view_read_def i(2))
  have mem: "(n, k, None) \<in> set (lv_pending v)" using nth_mem[OF i(1)] i(2) by simp
  have bound: "\<forall>p \<in> set ?ps. fst p < lv_next v"
    using v mem set_update_subset_insert[of "lv_pending v" i "(n, k, Some r)"] by (force simp: view_inv_def)
  have "m < lv_next v \<and> (\<forall>p \<in> set (refreshes m (v\<lparr>lv_pending := ?ps\<rparr>)). fst (snd p) = k') \<and>
      (proper k' \<longrightarrow> (if refreshes m (v\<lparr>lv_pending := ?ps\<rparr>) = [] then \<forall>x. read k' e = Inr x \<longrightarrow> \<not> lv_loading v \<and> same (lv_shown v) x
          else \<forall>r x. snd (snd (last (refreshes m (v\<lparr>lv_pending := ?ps\<rparr>)))) = Some r \<longrightarrow> read k' e = Inr x \<longrightarrow> same r x))"
    if eff: "lv_effect v = Some (m, k')" for m k'
  proof -
    have old: "m < lv_next v" "\<forall>p \<in> set (refreshes m v). fst (snd p) = k'"
      "proper k' \<Longrightarrow> if refreshes m v = [] then \<forall>x. read k' e = Inr x \<longrightarrow> \<not> lv_loading v \<and> same (lv_shown v) x
          else \<forall>r x. snd (snd (last (refreshes m v))) = Some r \<longrightarrow> read k' e = Inr x \<longrightarrow> same r x"
      using v eff by (auto simp: view_inv_def split: if_splits)
    have new: "refreshes m (v\<lparr>lv_pending := ?ps\<rparr>) = (if n = m
      then (refreshes m v)[length (filter (\<lambda>p. fst p = m) (take i (lv_pending v))) := (n, k, Some r)] else refreshes m v)"
      using filter_update[OF i(1), of "(n, k, Some r)" m] i(2) by (simp add: refreshes_def)
    show ?thesis
    proof (cases "n = m")
      case True
      then have m: "(n, k, None) \<in> set (refreshes m v)" using mem by (simp add: refreshes_def)
      then have ne: "refreshes m v \<noteq> []" and k: "k = k'" using old(2) by auto
      let ?j = "length (filter (\<lambda>p. fst p = m) (take i (lv_pending v)))"
      have "refreshes m v = filter (\<lambda>p. fst p = m) (take i (lv_pending v)) @ (n, k, None) # filter (\<lambda>p. fst p = m) (drop (Suc i) (lv_pending v))"
        unfolding refreshes_def using True i by (subst id_take_nth_drop[OF i(1)]) simp
      then have j: "?j < length (refreshes m v)" by simp
      have keys: "\<forall>p \<in> set ((refreshes m v)[?j := (n, k, Some r)]). fst (snd p) = k'"
        using old(2) k set_update_subset_insert[of "refreshes m v" ?j "(n, k, Some r)"] by force
      show ?thesis
        using old(1,3) ne keys same_refl r k unfolding new using True by (auto simp: last_update[OF ne j] split: if_splits)
    next
      case False
      then show ?thesis using old unfolding new by simp
    qed
  qed
  with bound show ?thesis unfolding read view_inv_def by simp
qed

lemma goes_on_inv:
  assumes v: "view_inv read same proper e v" and step: "step e evs e'"
  shows "view_inv read same proper e' (fold (view_changed touches) evs v)"
proof (cases "lv_effect v")
  case None
  then show ?thesis using v by (simp add: changes_refresh view_inv_def)
next
  case (Some nk)
  then obtain n k where eff: "lv_effect v = Some (n, k)" by (cases nk) simp
  let ?new = "replicate (length (filter (touches k) evs)) (n, k, None)"
  let ?v = "v\<lparr>lv_pending := lv_pending v @ ?new\<rparr>"
  have fold: "fold (view_changed touches) evs v = ?v" by (simp add: changes_refresh eff)
  have ref: "refreshes n ?v = refreshes n v @ ?new" by (simp add: refreshes_def)
  have old: "\<forall>p \<in> set (lv_pending v). fst p < lv_next v" "n < lv_next v" "\<forall>p \<in> set (refreshes n v). fst (snd p) = k"
    using v eff by (auto simp: view_inv_def)
  show ?thesis
  proof (cases "\<exists>ev \<in> set evs. touches k ev")
    case True
    then have "?new \<noteq> []" by (auto simp: filter_empty_conv)
    then show ?thesis using old unfolding fold view_inv_def by (auto simp: eff ref last_append split: if_splits)
  next
    case False
    then have quiet: "\<forall>ev \<in> set evs. \<not> touches k ev" and "?new = []" by (auto simp: filter_empty_conv)
    then have same_v: "?v = v" by simp
    have now: "same r y" if "proper k" "\<And>x. read k e = Inr x \<Longrightarrow> same r x" "read k e' = Inr y" for r y
      using unchanged_current[OF step that(1) quiet that(2,3)] .
    have loading: "\<not> lv_loading v" if p: "proper k" "refreshes n v = []" "read k e' = Inr y" for y
    proof -
      obtain x where "read k e = Inr x" using stable[OF step p(1) quiet] p(3) by (cases "read k e") auto
      then show ?thesis using v eff p(1,2) by (auto simp: view_inv_def)
    qed
    show ?thesis
      using v eff old loading now unfolding fold same_v view_inv_def by (auto split: if_splits)
  qed
qed

lemma renders_inv:
  assumes v: "view_inv read same proper e v"
  shows "view_inv read same proper e (view_effect blank waiting key (view_cleanup v))"
proof (cases key)
  case None
  then show ?thesis using v by (simp add: view_inv_def view_effect_def view_cleanup_def)
next
  case (Some k)
  have "filter (\<lambda>p. fst p = lv_next v) (lv_pending v) = []" using v by (auto simp: view_inv_def filter_empty_conv)
  then show ?thesis using v Some
    by (auto simp: view_inv_def view_effect_def view_cleanup_def refreshes_def less_Suc_eq)
qed

lemma fails_inv:
  assumes v: "view_inv read same proper e v" and i: "i < length (lv_pending v)" "lv_pending v ! i = (n, k, None)" and x: "read k e = Inl x"
  shows "view_inv read same proper e (drop_refresh i v)"
proof -
  let ?ps = "take i (lv_pending v) @ drop (Suc i) (lv_pending v)"
  have ps: "lv_pending v = take i (lv_pending v) @ (n, k, None) # drop (Suc i) (lv_pending v)"
    unfolding i(2)[symmetric] by (rule id_take_nth_drop[OF i(1)])
  have all: "set (lv_pending v) = insert (n, k, None) (set ?ps)" by (subst ps) auto
  then have sub: "set ?ps \<subseteq> set (lv_pending v)" and mem: "(n, k, None) \<in> set (lv_pending v)" by blast+
  have other: "filter (\<lambda>p. fst p = m) ?ps = filter (\<lambda>p. fst p = m) (lv_pending v)" if "m \<noteq> n" for m
    using arg_cong[OF ps, of "filter (\<lambda>p. fst p = m)"] that by simp
  have key: "k' = k" if "lv_effect v = Some (n, k')" for k' using v mem that by (force simp: view_inv_def refreshes_def)
  show ?thesis
    unfolding view_inv_def drop_refresh_def refreshes_simps
  proof (intro conjI allI impI)
    show "\<forall>p \<in> set (lv_pending (v\<lparr>lv_pending := ?ps\<rparr>)). fst p < lv_next (v\<lparr>lv_pending := ?ps\<rparr>)"
      using v sub by (auto simp: view_inv_def)
    fix m k' assume "lv_effect (v\<lparr>lv_pending := ?ps\<rparr>) = Some (m, k')"
    then have eff: "lv_effect v = Some (m, k')" by simp
    show "m < lv_next (v\<lparr>lv_pending := ?ps\<rparr>)" using v eff by (simp add: view_inv_def)
    show "\<forall>p \<in> set (filter (\<lambda>p. fst p = m) ?ps). fst (snd p) = k'" using v eff sub by (force simp: view_inv_def refreshes_def)
    assume "proper k'"
    then show "if filter (\<lambda>p. fst p = m) ?ps = [] then \<forall>x. read k' e = Inr x \<longrightarrow> \<not> lv_loading (v\<lparr>lv_pending := ?ps\<rparr>) \<and> same (lv_shown (v\<lparr>lv_pending := ?ps\<rparr>)) x
        else \<forall>r x. snd (snd (last (filter (\<lambda>p. fst p = m) ?ps))) = Some r \<longrightarrow> read k' e = Inr x \<longrightarrow> same r x"
      using v eff other x key by (cases "m = n") (auto simp: view_inv_def refreshes_def)
  qed
qed

lemma settles_inv:
  assumes v: "view_inv read same proper e v" and p: "lv_pending v = (n, k, Some r) # rest"
  shows "view_inv read same proper e (view_settled n r (drop_refresh 0 v))"
proof -
  have drop: "drop_refresh 0 v = v\<lparr>lv_pending := rest\<rparr>" by (simp add: drop_refresh_def p)
  show ?thesis
  proof (cases "map_option fst (lv_effect v) = Some n")
    case True
    then obtain k' where eff: "lv_effect v = Some (n, k')" by auto
    have "refreshes n v = (n, k, Some r) # filter (\<lambda>p. fst p = n) rest" by (simp add: refreshes_def p)
    then show ?thesis using v eff by (auto simp: view_inv_def drop view_settled_def p refreshes_def)
  next
    case False
    have "filter (\<lambda>p. fst p = m) rest = refreshes m v" if "lv_effect v = Some (m, k')" for m k'
      using that False by (simp add: refreshes_def p)
    then show ?thesis using v False by (auto simp: view_inv_def drop view_settled_def p refreshes_simps)
  qed
qed

lemma view_run_inv: "view_run step read touches blank e v \<Longrightarrow> view_inv read same proper e v"
proof (induction rule: view_run.induct)
  case (begins e)
  show ?case by (simp add: view_inv_def new_view_def)
next
  case (unmounts e v)
  then show ?case by (simp add: view_inv_def view_cleanup_def)
qed (auto intro: goes_on_inv renders_inv reads_inv fails_inv settles_inv)

lemma view_current:
  assumes "view_run step read touches blank e v" "lv_effect v = Some (n, k)" "proper k" "refreshes n v = []" "read k e = Inr x"
  shows "\<not> lv_loading v \<and> same (lv_shown v) x"
  using view_run_inv[OF assms(1)] assms(2-5) by (simp add: view_inv_def)

end

section \<open>The engine as a source\<close>

definition mem_step :: "crypto \<Rightarrow> cipher option \<Rightarrow> memory engine \<Rightarrow> change_event list \<Rightarrow> memory engine \<Rightarrow> bool" where
  "mem_step C K e evs e' \<longleftrightarrow> mem_reachable C K e \<and> engine_step memory_adapter C K e e' \<and> e_events e' = e_events e @ evs"

lemma mem_step_rows:
  assumes "mem_step C K e evs e'" "no_sep t" "\<forall>ev \<in> set evs. (t, r) \<notin> set (ev_changes ev)"
  shows "same_rows (mem_view (e_store e)) (mem_view (e_store e')) t r" "mem_inv (e_store e)" "mem_inv (e_store e')"
proof -
  have s: "mem_reachable C K e" "engine_step memory_adapter C K e e'" "e_events e' = e_events e @ evs" using assms(1) by (simp_all add: mem_step_def)
  note good = mem_reachable_good[OF s(1), THEN conjunct1] mem_reachable_good[OF s(1), THEN conjunct2]
  have good': "mem.good C e'" using mem_reachable_good[OF reachable.step[OF s(1,2)]] by blast
  show "same_rows (mem_view (e_store e)) (mem_view (e_store e')) t r"
    by (rule mem.step_same_rows[OF good s(2,3) assms(3,2)])
  show "mem_inv (e_store e)" "mem_inv (e_store e')" using good(1) good' by (simp_all add: mem.good_def)
qed

lemma same_obj_all: "list_all2 same_obj x x" "list_all2 same_obj x y \<Longrightarrow> list_all2 same_obj y z \<Longrightarrow> list_all2 same_obj x z"
  by (simp add: list_all2_same same_obj_def) (rule list_all2_trans[of same_obj same_obj same_obj], auto simp: same_obj_def)

lemma same_obj_option: "rel_option same_obj x x" "rel_option same_obj x y \<Longrightarrow> rel_option same_obj y z \<Longrightarrow> rel_option same_obj x z"
  by (cases x; simp add: same_obj_def) (cases x; cases y; cases z; simp add: same_obj_def)

interpretation rows_source: live_source "mem_step C K" "list_all_rows memory_adapter K" rows_touched "list_all2 same_obj" no_sep for C K
proof unfold_locales
  fix e evs e' t assume e: "mem_step C K e evs e'" and t: "no_sep t" and "\<forall>ev \<in> set evs. \<not> rows_touched t ev"
  then have "\<forall>ev \<in> set evs. (t, r) \<notin> set (ev_changes ev)" for r by (fastforce simp: rows_touched_def)
  note R = mem_step_rows[OF e t this]
  show "same_result (list_all2 same_obj) (list_all_rows memory_adapter K t e) (list_all_rows memory_adapter K t e')"
    by (rule mem_list_same[OF R(2,3) t R(1)])
qed (blast intro: same_obj_all)+

interpretation row_source: live_source "mem_step C K" "\<lambda>(t, r). get memory_adapter K t r" row_touched "rel_option same_obj" "\<lambda>(t, r). no_sep t" for C K
proof unfold_locales
  fix e evs e' and k :: "jsstring \<times> jsstring"
  assume "mem_step C K e evs e'" "case k of (t, r) \<Rightarrow> no_sep t" "\<forall>ev \<in> set evs. \<not> row_touched k ev"
  then show "same_result (rel_option same_obj) ((case k of (t, r) \<Rightarrow> get memory_adapter K t r) e) ((case k of (t, r) \<Rightarrow> get memory_adapter K t r) e')"
    using mem_step_rows[of C K e evs e' "fst k" "snd k"] by (cases k) (simp add: get_def row_touched_def mem_row_same)
qed (blast intro: same_obj_option)+

lemma hook_renders:
  "view_run step read touches [] e v \<Longrightarrow> view_run step read touches [] e (useRows_effect db table (view_cleanup v))"
  "view_run step read' touches' None e w \<Longrightarrow> view_run step read' touches' None e (useRow_effect db table rowId (view_cleanup w))"
  by (simp_all add: useRows_effect_def useRow_effect_def Let_def view_run.renders del: not_None_eq)

text \<open>C29. A live view is live. Whatever the application and other devices do to the space, compaction included, and
however the component is rendered: once the refreshes of its current table have settled, in their order,
\<open>useRows\<close> is not loading and shows the visible rows of the table as they are now, in the order of
their ids; the same holds of one row and \<open>useRow\<close>.\<close>

theorem live_view:
  assumes "view_run (mem_step C K) (list_all_rows memory_adapter K) rows_touched [] e v"
    and "lv_effect v = Some (n, t)" "no_sep t" "refreshes n v = []" "list_all_rows memory_adapter K t e = Inr rows"
    and "view_run (mem_step C K) (\<lambda>(t, r). get memory_adapter K t r) row_touched None e w"
    and "lv_effect w = Some (m, t, r)" "refreshes m w = []" "get memory_adapter K t r e = Inr row"
  shows "\<not> lv_loading v \<and> list_all2 same_obj (lv_shown v) rows \<and> \<not> lv_loading w \<and> rel_option same_obj (lv_shown w) row"
  using rows_source.view_current[OF assms(1-5)] row_source.view_current[OF assms(6,7) _ assms(8)] assms(3,9) by simp

lemma plain_reads:
  assumes "mem_inv (e_store e)"
  shows "\<exists>row. get memory_adapter None t r e = Inr row" "\<exists>rows. list_all_rows memory_adapter None t e = Inr rows"
proof -
  have one: "\<exists>row. visible_row memory_adapter None (e_store e) t r = Inr row" for r
    using mem.visible_row_spec(3)[OF assms, of None t r] by (cases "visible_row memory_adapter None (e_store e) t r") (auto simp: readable_def cell_value_def)
  then show "\<exists>row. get memory_adapter None t r e = Inr row" by (simp add: get_def)
  have "\<exists>ys. map_res (visible_row memory_adapter None (e_store e) t) xs = Inr ys" for xs
  proof (induction xs)
    case (Cons x xs)
    then show ?case using one[of x] by auto
  qed simp
  then show "\<exists>rows. list_all_rows memory_adapter None t e = Inr rows" by (auto simp: list_all_rows_def bind_res_eq_Inr)
qed

text \<open>A component that is mounted after a write, reads, and settles.\<close>

definition settled_view :: "'r \<Rightarrow> 'k \<Rightarrow> 'r \<Rightarrow> ('k, 'r) live_view" where
  "settled_view blank k r = view_settled 0 r (drop_refresh 0 (view_read 0 r (view_effect blank True (Some k) (view_cleanup (new_view blank)))))"

lemma settled_view_run:
  assumes "read k e = Inr r"
  shows "view_run step read touches blank e (settled_view blank k r)" "lv_effect (settled_view blank k r) = Some (0, k)"
    "refreshes 0 (settled_view blank k r) = []" "lv_shown (settled_view blank k r) = r"
proof -
  let ?v = "view_effect blank True (Some k) (view_cleanup (new_view blank))"
  have v: "lv_pending ?v = [(0, k, None)]" "lv_effect ?v = Some (0, k)" by (simp_all add: view_effect_def view_cleanup_def new_view_def)
  have "view_run step read touches blank e ?v" by (intro view_run.renders view_run.begins)
  then have "view_run step read touches blank e (view_read 0 r ?v)"
    by (rule view_run.reads[where n = 0 and k = k]) (simp_all add: v assms)
  then show "view_run step read touches blank e (settled_view blank k r)"
    unfolding settled_view_def by (rule view_run.settles[where k = k and rest = "[]"]) (simp add: view_read_def v)
  show "lv_effect (settled_view blank k r) = Some (0, k)" "refreshes 0 (settled_view blank k r) = []" "lv_shown (settled_view blank k r) = r"
    by (simp_all add: settled_view_def view_settled_def drop_refresh_def view_read_def v refreshes_def)
qed

theorem live_view_witness:
  "\<exists>e rows. update_row memory_adapter sample_crypto None (\<lambda>_. sample_draw) (js ''t'') sample_row [(js ''a'', JStr (js ''x''))] (sample_engine 7) = (Inr (), e) \<and>
     list_all_rows memory_adapter None (js ''t'') e = Inr rows \<and> \<not> lv_loading (settled_view [] (js ''t'') rows) \<and>
     list_all2 same_obj (lv_shown (settled_view [] (js ''t'') rows)) rows"
proof -
  obtain e where e: "update_row memory_adapter sample_crypto None (\<lambda>_. sample_draw) (js ''t'') sample_row
    [(js ''a'', JStr (js ''x''))] (sample_engine 7) = (Inr (), e)" by (rule sample_write)
  have "mem_reachable sample_crypto None e"
    by (rule reachable.step[OF sample_engine_reachable engine_step.update[OF _ e]]) (simp add: json_values_def)
  then have "mem_inv (e_store e)" using mem_reachable_good by (auto simp: mem.good_def)
  from plain_reads[OF this] obtain row rows where r: "list_all_rows memory_adapter None (js ''t'') e = Inr rows"
    "get memory_adapter None (js ''t'') sample_row e = Inr row" by blast
  have g: "(\<lambda>(t, r). get memory_adapter None t r) (js ''t'', sample_row) e = Inr row" using r(2) by simp
  have t: "no_sep (js ''t'')" by (simp add: no_sep_def js_def)
  note V = settled_view_run[where read = "list_all_rows memory_adapter None", OF r(1)] and W = settled_view_run[where read = "\<lambda>(t, r). get memory_adapter None t r", OF g]
  from live_view[where C = sample_crypto, OF V(1,2) t V(3) r(1) W(1,2,3) r(2)] e r(1) show ?thesis by blast
qed

text \<open>
  Between a change of the key and the first refresh for it, the view shows what it showed before, under the
  new key and without the loading flag.
\<close>

lemma stale_key: "lv_shown (view_effect blank waiting (Some k) (view_cleanup v)) = lv_shown v"
  "lv_loading (view_effect blank waiting (Some k) (view_cleanup v)) = lv_loading v"
  by (simp_all add: view_effect_def view_cleanup_def)

end
