(* ===== verification/Spec2Isabelle.thy ===== *)
theory Spec2Isabelle
  imports Hlc Ulid Signing Op_Properties Merge_Properties Replicator_Tasks Schema_Properties
    Idb_Properties Sqlite_Properties Write_Properties Cipher_Properties Safe_Integers
    Quiescence Signaling_Properties Pairing_Properties Webrtc_Properties Facade_Properties Hooks_Properties
begin

text \<open>
  A verification of tangentfeed, a local-first replicated database in TypeScript.
  Every device keeps a log of signed operations, one per written cell; a cell shows the operation with
  the greatest hybrid timestamp, devices exchange the operations the other one lacks, and the cells
  are a function of the log. The paths below are relative to \<^verbatim>\<open>src/packages\<close>.

  \<^bold>\<open>Values and texts.\<close> \<open>Prelude\<close> (strings as lists of 16-bit code units, objects as association lists with
  distinct keys, \<^verbatim>\<open>throw\<close> as the left side of a sum), \<open>Digits\<close> (numerals), \<open>Bytes\<close> (UTF-8, base64, hex),
  \<open>Doubles\<close> and \<open>Safe_Integers\<close> (numbers: shortest decimal digits of a double, and the integers up to
  \<open>2^53\<close>), \<open>Json\<close> (values, property order, \<^verbatim>\<open>JSON.stringify\<close>, the canonical text of \<^verbatim>\<open>core/src/signing.ts\<close>),
  \<open>Json_Parse\<close> (\<^verbatim>\<open>JSON.parse\<close>), \<open>Json_Roundtrip\<close> (parse after print), \<open>Utf8\<close> (\<^verbatim>\<open>TextDecoder\<close>), \<open>Json_Text\<close>
  (texts that survive both, and \<^verbatim>\<open>atob\<close>).

  \<^bold>\<open>Core.\<close> \<open>Hlc\<close> models \<^verbatim>\<open>core/src/hlc.ts\<close>, \<open>Ulid\<close> \<^verbatim>\<open>ulid.ts\<close>, \<open>Signing\<close> \<^verbatim>\<open>signing.ts\<close>, \<open>Op\<close> \<^verbatim>\<open>op.ts\<close> and \<open>cipher.ts\<close>,
  \<open>Storage\<close> \<^verbatim>\<open>storage.ts\<close>: the record \<open>storage_ops\<close> is the interface \<^verbatim>\<open>StorageAdapter\<close>, the locale
  \<open>storage_adapter\<close> its contract over an abstract replica (log, cells, frontier, clock, keys, peers), and
  the memory adapter an interpretation. \<open>Compaction\<close> models \<^verbatim>\<open>compaction.ts\<close> and \<open>Engine\<close> \<^verbatim>\<open>engine.ts\<close>,
  every public method, over any adapter and any cipher; an operation leaves the trace of its events, and \<open>subscribed\<close>
  runs the callbacks on it, which may throw. \<open>Replicator\<close> models \<^verbatim>\<open>replicator.ts\<close>, its asynchronous functions
  cut at every \<^verbatim>\<open>await\<close> (\<open>handle\<close> up to the first, \<open>ask\<close> what is awaited, \<open>proceed\<close> the code after it, \<open>settle\<close> the
  \<^verbatim>\<open>catch\<close>). \<open>Replicator_Tasks\<close> interleaves them: in a session any number of handlers wait while messages,
  local calls, \<open>start\<close> and \<open>stop\<close> come in any order. \<open>deliver\<close>, \<open>start\<close> and \<open>peer_connected\<close> are the runs that
  nothing interrupts, one of these interleavings (\<open>undisturbed_run\<close>); the exchange of two
  replicas, the bus of many and the spaces of \<open>Facade\<close> are stated over them.

  \<^bold>\<open>Storage.\<close> \<open>Ordered_Store\<close> and \<open>Idb\<close> model \<^verbatim>\<open>adapter-idb/src/index.ts\<close>: object stores as sorted association
  lists, cursors, and transactions that may abort. \<open>Sqlite\<close> models \<^verbatim>\<open>adapter-sqlite/src/index.ts\<close>: three
  tables, one definition per prepared statement, transactions whose statements may fail. Both are
  interpretations of the contract (\<open>Idb\<close>, \<open>Sqlite_Contract\<close>).

  \<^bold>\<open>Transports.\<close> \<open>Signaling\<close> models \<^verbatim>\<open>signaling-server/src/index.ts\<close> (rooms, joins, evictions, relays), \<open>Pairing\<close>
  \<^verbatim>\<open>transport-webrtc/src/manual.ts\<close> (the blobs, and the two sides of a pairing), \<open>Webrtc\<close>
  \<^verbatim>\<open>transport-webrtc/src/index.ts\<close> (signaling connection, retries, peer table; every \<^verbatim>\<open>await\<close> leaves a task that
  is resumed in any order), \<open>Broadcast\<close> \<^verbatim>\<open>transport-broadcast/src/index.ts\<close>.

  \<^bold>\<open>Applications.\<close> \<open>Schema\<close> models \<^verbatim>\<open>schema/src/builders.ts\<close> and \<^verbatim>\<open>validate.ts\<close>, \<open>Schema_Types\<close> the inferred
  types of \<^verbatim>\<open>types.ts\<close>; \<open>Space_Cipher\<close> \<^verbatim>\<open>crypto/src/index.ts\<close>; \<open>Facade\<close> \<^verbatim>\<open>tangentfeed/src/index.ts\<close>, where one engine
  is shared by the replicators of all transports and local writes pass the schema; \<open>Hooks\<close> \<^verbatim>\<open>react/src/index.ts\<close>, the
  effects of the hooks and what follows them.

  \<^bold>\<open>Lemmas.\<close> \<open>Merge\<close> states the abstract specification: cells as the last-writer-wins function of the log.
  \<open>Engine_Refine\<close> proves, inside the contract, that each engine operation keeps the replica invariant and
  refines its abstract effect; \<open>Engine_Steps\<close> has the step relation and reachability; \<open>Engine_Merge\<close>,
  \<open>Engine_Reads\<close>, \<open>Engine_Writes\<close>, \<open>Engine_Live\<close> and \<open>Sync\<close> are about convergence, reads, local writes, success
  of calls and \<^verbatim>\<open>syncOnce\<close>, \<open>Engine_Later\<close> about what stays true in all later steps (a passed frontier, a buried row). \<open>Replicator_Steps\<close> has the invariant of the replicator, \<open>Quiescence\<close> the bus of many
  replicators and the measure by which their conversation ends. \<open>Signaling_Properties\<close> and
  \<open>Webrtc_Properties\<close> have invariants over all runs of the server and of the transport, \<open>Facade_Properties\<close>
  over all runs of a space; \<open>Engine_Changes\<close> shows that rows no event names are unchanged, from which
  \<open>Hooks_Properties\<close> derives, in the locale \<open>live_source\<close>, that live views are current. The other theories whose name ends in \<open>_Properties\<close> hold properties, with \<open>Samples\<close>
  for concrete inputs; the rest are next to their definitions.

  \<^bold>\<open>Parameters.\<close> SHA-256 and Ed25519 are the record \<open>crypto\<close>, HKDF, scrypt and the authenticated cipher the
  record \<open>aead\<close>. Physical time, random bytes, nonces, the verdicts of the database driver on each
  transaction or statement, and the outcomes of promises of the browser are arguments.
  Promises are modelled where they are observable: an operation of the engine holds the mutex and is one
  action, the two transactions of one IndexedDB call are separate steps. Sockets, peer connections
  and channels are numbers, and what is called on them is a trace.

  \<^bold>\<open>Bounds.\<close> No definition uses fuel: every loop is structural or has a measure. Timestamps are bounded by
  \<open>MAX_MILLIS\<close> and \<open>MAX_COUNTER\<close> as in the code; numbers of the data are doubles with their digits; the
  pause between signaling retries is bounded by \<open>MAX_BACKOFF_MS\<close>.

  \<^bold>\<open>Simplified.\<close> The fields of a wire message have the types the code declares (operations are arbitrary
  values, and a message may be \<^verbatim>\<open>null\<close>); a device name in a signaling message that is no string is the empty one. A
  number has one zero: \<^verbatim>\<open>JSON.parse\<close> of \<^verbatim>\<open>-0\<close> is \<^verbatim>\<open>0\<close>, which prints alike. Closing the storage of a space is a flag.

  \<^bold>\<open>Not modelled.\<close> The wrappers of the two SQLite drivers, what closing a database connection does, binding of the server's
  port, the diagnostics getter of the WebRTC transport and the gathering of candidates inside the browser
  have no state of their own. The React runtime is not under src: when effects run is the step relation
  of \<open>Hooks\<close>. The demos,
  the conformance generators and the site are examples and tooling.
\<close>

end
